(* ===== verification/Prelude.thy ===== *)
theory Prelude
  imports
    Main
    "HOL-Library.Word"
    "HOL-Library.Multiset"
    "HOL-Library.Char_ord"
    "HOL-Library.List_Lexorder"
begin

unbundle bit_operations_syntax

text \<open>
  Vocabulary shared by every component: the results of Go code that may panic or call
  \<open>log.Fatalf\<close>, the parts of the Go standard library the sources use (\<open>strconv.Itoa\<close>,
  \<open>hash/fnv\<close>, \<open>for range\<close> loops that stop early), Go maps as association lists, and the
  generic theory of step relations with invariants that the state machines of the
  development instantiate.
\<close>

section \<open>Results of Go code\<close>

text \<open>
  A run-time panic (an index out of range, a nil dereference) and a call of
  \<open>log.Fatalf\<close> both end the process; they are values of a sum type.
\<close>

datatype fault = Panic string | Fatal string

type_synonym 'a result = "fault + 'a"

fun res_bind :: "'a result \<Rightarrow> ('a \<Rightarrow> 'b result) \<Rightarrow> 'b result" where
  "res_bind (Inl e) f = Inl e"
| "res_bind (Inr x) f = f x"

text \<open>The definitions a component unfolds to compute the effect of its operations.\<close>

named_theorems go_defs \<open>definitions of operations, for proofs by computation\<close>

section \<open>Slices\<close>

text \<open>
  \<open>xs[i]\<close> and \<open>xs[i] = v\<close> panic when the index is out of range; negative indices are out
  of range.
\<close>

definition go_index :: "'a list \<Rightarrow> int \<Rightarrow> 'a result" where
  "go_index xs i =
     (if 0 \<le> i \<and> i < int (length xs) then Inr (xs ! nat i)
      else Inl (Panic ''index out of range''))"

definition go_update :: "'a list \<Rightarrow> int \<Rightarrow> 'a \<Rightarrow> 'a list result" where
  "go_update xs i v =
     (if 0 \<le> i \<and> i < int (length xs) then Inr (xs[nat i := v])
      else Inl (Panic ''index out of range''))"

text \<open>
  The first index whose element satisfies a test: the loop \<open>for i, x := range xs\<close> whose
  body returns when the test holds.
\<close>

fun find_index :: "('a \<Rightarrow> bool) \<Rightarrow> 'a list \<Rightarrow> nat option" where
  "find_index P [] = None"
| "find_index P (x # xs) = (if P x then Some 0 else map_option Suc (find_index P xs))"

section \<open>Go maps\<close>

text \<open>
  A Go map is an association list with distinct keys. Iteration over a Go map has no fixed
  order, so a map argument that is iterated over is a list in the iteration's order, and
  the theorems hold for every such order.
\<close>

type_synonym ('k, 'v) gomap = "('k \<times> 'v) list"

fun gm_put :: "'k \<Rightarrow> 'v \<Rightarrow> ('k, 'v) gomap \<Rightarrow> ('k, 'v) gomap" where
  "gm_put k v [] = [(k, v)]"
| "gm_put k v ((k', v') # m) = (if k = k' then (k, v) # m else (k', v') # gm_put k v m)"

definition gm_delete :: "'k \<Rightarrow> ('k, 'v) gomap \<Rightarrow> ('k, 'v) gomap" where
  "gm_delete k m = filter (\<lambda>p. fst p \<noteq> k) m"

definition gm_keys :: "('k, 'v) gomap \<Rightarrow> 'k list" where
  "gm_keys m = map fst m"

section \<open>strconv.Itoa\<close>

fun nat_digits :: "nat \<Rightarrow> string" where
  "nat_digits n =
     (if n < 10 then [char_of (48 + n)]
      else nat_digits (n div 10) @ [char_of (48 + n mod 10)])"

declare nat_digits.simps [simp del]

definition itoa :: "int \<Rightarrow> string" where
  "itoa i = (if i < 0 then CHR ''-'' # nat_digits (nat (- i)) else nat_digits (nat i))"

text \<open>Reading a numeral back.\<close>

definition is_digit :: "char \<Rightarrow> bool" where
  "is_digit c \<longleftrightarrow> 48 \<le> (of_char c :: nat) \<and> (of_char c :: nat) \<le> 57"

definition digits_value :: "string \<Rightarrow> nat" where
  "digits_value ds = foldl (\<lambda>n c. n * 10 + (of_char c - 48)) 0 ds"

section \<open>encoding/base64\<close>

definition url_alphabet :: string where
  "url_alphabet = ''ABCDEFGHIJKLMNOPQRSTUVWXYZabcdefghijklmnopqrstuvwxyz0123456789-_''"

definition b64_char :: "nat \<Rightarrow> char" where
  "b64_char n = url_alphabet ! (n mod 64)"

text \<open>\<open>base64.URLEncoding.EncodeToString\<close>, with padding.\<close>

fun b64_encode :: "nat list \<Rightarrow> string" where
  "b64_encode [] = []"
| "b64_encode [a] = [b64_char (a div 4), b64_char (a * 16), CHR ''='', CHR ''='']"
| "b64_encode [a, b] = [b64_char (a div 4), b64_char (a * 16 + b div 16), b64_char (b * 4), CHR ''='']"
| "b64_encode (a # b # c # bs) =
     b64_char (a div 4) # b64_char (a * 16 + b div 16) # b64_char (b * 4 + c div 64) # b64_char c # b64_encode bs"

section \<open>hash/fnv: New32a\<close>

definition fnv32a :: "string \<Rightarrow> 32 word" where
  "fnv32a s = fold (\<lambda>c h. (h XOR of_char c) * 16777619) s 2166136261"

section \<open>Step relations\<close>

text \<open>The states a machine reaches from its initial states, with the number of steps taken.\<close>

inductive reach :: "('s \<Rightarrow> bool) \<Rightarrow> ('s \<Rightarrow> 's \<Rightarrow> bool) \<Rightarrow> nat \<Rightarrow> 's \<Rightarrow> bool"
  for init :: "'s \<Rightarrow> bool" and step :: "'s \<Rightarrow> 's \<Rightarrow> bool" where
  reach_init: "init s \<Longrightarrow> reach init step 0 s"
| reach_step: "reach init step n s \<Longrightarrow> step s t \<Longrightarrow> reach init step (Suc n) t"

definition reachable :: "('s \<Rightarrow> bool) \<Rightarrow> ('s \<Rightarrow> 's \<Rightarrow> bool) \<Rightarrow> 's \<Rightarrow> bool" where
  "reachable init step s \<longleftrightarrow> (\<exists>n. reach init step n s)"

section \<open>Lemmas\<close>

lemma res_bind_Inr_iff [simp]:
  "(res_bind r f = Inr y) = (\<exists>x. r = Inr x \<and> f x = Inr y)"
  by (cases r) auto

lemma go_index_nat [simp]: "i < length xs \<Longrightarrow> go_index xs (int i) = Inr (xs ! i)"
  by (simp add: go_index_def)

lemma go_index_Inr: "(go_index xs i = Inr x) = (\<exists>n. i = int n \<and> n < length xs \<and> xs ! n = x)"
  by (auto simp: go_index_def) (metis nat_0_le nat_less_iff)

lemma find_index_None [simp]: "(find_index P xs = None) = (\<forall>x \<in> set xs. \<not> P x)"
  by (induction xs) auto

lemma find_index_Some:
  "(find_index P xs = Some i) = (i < length xs \<and> P (xs ! i) \<and> (\<forall>j < i. \<not> P (xs ! j)))"
proof (induction xs arbitrary: i)
  case (Cons x xs)
  then show ?case by (cases i) (auto simp: less_Suc_eq_0_disj)
qed simp

lemma map_of_gm_put [simp]: "map_of (gm_put k v m) = (map_of m)(k \<mapsto> v)"
  by (induction k v m rule: gm_put.induct) (auto simp: fun_eq_iff)

lemma set_keys_gm_put [simp]: "fst ` set (gm_put k v m) = insert k (fst ` set m)"
  by (induction k v m rule: gm_put.induct) auto

lemma distinct_gm_put [simp]:
  "distinct (map fst m) \<Longrightarrow> distinct (map fst (gm_put k v m))"
proof (induction k v m rule: gm_put.induct)
  case (2 k v k' v' m)
  then show ?case using set_keys_gm_put [of k v m] by (auto simp del: set_keys_gm_put)
qed simp

lemma map_of_gm_delete [simp]: "map_of (gm_delete k m) = (map_of m)(k := None)"
  by (induction m) (auto simp: gm_delete_def fun_eq_iff)

lemma distinct_gm_delete [simp]:
  "distinct (map fst m) \<Longrightarrow> distinct (map fst (gm_delete k m))"
  by (simp add: gm_delete_def distinct_map_filter)

lemma set_gm_keys [simp]: "set (gm_keys m) = dom (map_of m)"
  by (simp add: gm_keys_def dom_map_of_conv_image_fst)

subsection \<open>Decimal numerals are injective\<close>

lemma digit_char_inject:
  assumes "char_of (48 + a) = (char_of (48 + b) :: char)" "a < 10" "b < (10 :: nat)"
  shows "a = b"
proof -
  have "of_char (char_of (48 + a) :: char) = (of_char (char_of (48 + b) :: char) :: nat)"
    using assms(1) by simp
  with assms(2,3) show ?thesis by simp
qed

lemma nat_digits_nonempty [simp]: "nat_digits n \<noteq> []"
  by (subst nat_digits.simps) simp

lemma nat_digits_inject: "nat_digits m = nat_digits n \<Longrightarrow> m = n"
proof (induction m arbitrary: n rule: less_induct)
  case (less m)
  have eq: "(if m < 10 then [char_of (48 + m)] else nat_digits (m div 10) @ [char_of (48 + m mod 10)]) =
        (if n < 10 then [char_of (48 + n)] else nat_digits (n div 10) @ [char_of (48 + n mod 10)])"
    using less.prems by (metis nat_digits.simps)
  show ?case
  proof (cases "m < 10 \<or> n < 10")
    case True
    with eq show ?thesis by (auto intro: digit_char_inject simp: Cons_eq_append_conv append_eq_Cons_conv split: if_splits)
  next
    case False
    with eq have "nat_digits (m div 10) = nat_digits (n div 10)"
      and last: "char_of (48 + m mod 10) = (char_of (48 + n mod 10) :: char)"
      by auto
    with False less.IH have "m div 10 = n div 10" by simp
    moreover from last have "m mod 10 = n mod 10" by (rule digit_char_inject) auto
    ultimately show ?thesis by (metis div_mult_mod_eq)
  qed
qed

lemma nat_digits_digits: "\<forall>c \<in> set (nat_digits n). is_digit c"
proof (induction n rule: less_induct)
  case (less n)
  have "\<not> n < 10 \<Longrightarrow> \<forall>c \<in> set (nat_digits (n div 10)). is_digit c" using less [of "n div 10"] by simp
  then show ?case by (subst nat_digits.simps) (auto simp: is_digit_def)
qed

lemma digits_value_nat_digits: "digits_value (nat_digits n) = n"
proof (induction n rule: less_induct)
  case (less n)
  then show ?case by (subst nat_digits.simps) (auto simp: digits_value_def)
qed

subsection \<open>Random names\<close>

lemma b64_char_alphabet: "b64_char n \<in> set url_alphabet"
proof -
  have "n mod 64 < length url_alphabet" by (simp add: url_alphabet_def)
  then show ?thesis unfolding b64_char_def by (rule nth_mem)
qed

lemma b64_encode_take: "m \<le> length b \<Longrightarrow> set (take m (b64_encode b)) \<subseteq> set url_alphabet"
proof (induction b arbitrary: m rule: b64_encode.induct)
  case (2 a)
  then show ?case by (cases m) (auto simp: b64_char_alphabet)
next
  case (3 a b)
  then consider "m = 0" | "m = 1" | "m = 2" by fastforce
  then show ?case by cases (auto simp: b64_char_alphabet numeral_2_eq_2)
next
  case (4 a b c bs)
  show ?case
  proof (cases "4 \<le> m")
    case True
    then obtain k where m: "m = Suc (Suc (Suc (Suc k)))" by (auto simp: numeral_eq_Suc dest!: le_Suc_ex)
    with 4 have "set (take k (b64_encode bs)) \<subseteq> set url_alphabet" by simp
    with m show ?thesis by (auto simp: b64_char_alphabet)
  next
    case False
    then consider "m = 0" | "m = Suc 0" | "m = Suc (Suc 0)" | "m = Suc (Suc (Suc 0))" by fastforce
    then show ?thesis by cases (auto simp: b64_char_alphabet)
  qed
qed simp

lemma b64_encode_length: "length (b64_encode b) = 4 * ((length b + 2) div 3)"
proof (induction b rule: b64_encode.induct)
  case (4 a b c bs)
  have "(length (a # b # c # bs) + 2) div 3 = (length bs + 2) div 3 + 1" by simp
  with 4 show ?case by simp
qed simp_all

text \<open>The first \<open>n\<close> characters of \<open>2*n\<close> encoded bytes are there, and none of them is padding.\<close>

lemma b64_prefix:
  assumes "length b = 2 * n"
  shows "n \<le> length (b64_encode b) \<and> set (take n (b64_encode b)) \<subseteq> set url_alphabet"
  using b64_encode_take [of n b] assms by (simp add: b64_encode_length)

subsection \<open>Invariants of step relations\<close>

text \<open>
  The interface of every state machine of the development: a predicate that holds
  initially and is kept by every step holds in every reachable state. Where the claim is
  bounded (versions that must not wrap around), the predicate may mention the number of
  steps taken; an invariant that does not is the special case.
\<close>

locale counted_machine =
  fixes init :: "'s \<Rightarrow> bool" and step :: "'s \<Rightarrow> 's \<Rightarrow> bool" and cinv :: "nat \<Rightarrow> 's \<Rightarrow> bool"
  assumes counted_init: "init s \<Longrightarrow> cinv 0 s"
    and counted_step: "cinv n s \<Longrightarrow> step s t \<Longrightarrow> cinv (Suc n) t"
begin

lemma reach_counted: "reach init step n s \<Longrightarrow> cinv n s"
  by (induction rule: reach.induct) (auto intro: counted_init counted_step)

end

locale invariant_machine =
  fixes init :: "'s \<Rightarrow> bool" and step :: "'s \<Rightarrow> 's \<Rightarrow> bool" and inv :: "'s \<Rightarrow> bool"
  assumes init_inv: "init s \<Longrightarrow> inv s"
    and step_inv: "inv s \<Longrightarrow> step s t \<Longrightarrow> inv t"

sublocale invariant_machine \<subseteq> counted_machine init step "\<lambda>_. inv"
  by unfold_locales (auto intro: init_inv step_inv)

context invariant_machine begin

lemma reachable_inv: "reachable init step s \<Longrightarrow> inv s"
  by (auto simp: reachable_def intro: reach_counted)

end

lemma reachable_start: "init s \<Longrightarrow> reachable init step s"
  by (auto simp: reachable_def intro: reach_init)

lemma reachable_next: "reachable init step s \<Longrightarrow> step s t \<Longrightarrow> reachable init step t"
  by (auto simp: reachable_def intro: reach_step)

lemma three_steps: "r a b \<Longrightarrow> r b c \<Longrightarrow> r c d \<Longrightarrow> r\<^sup>*\<^sup>* a d"
  by (rule rtranclp.rtrancl_into_rtrancl [of r a c d], rule rtranclp.rtrancl_into_rtrancl [of r a b c]) auto

lemma reachable_rtranclp: "reachable init step s \<Longrightarrow> step\<^sup>*\<^sup>* s t \<Longrightarrow> reachable init step t"
  by (rotate_tac, induction rule: rtranclp_induct) (auto intro: reachable_next)

end
