(* ===== verification/Coordinator.thy ===== *)
theory Coordinator
  imports Prelude
begin

text \<open>
  The MapReduce coordinator of lab 1 (\<open>mr/coordinator.go\<close>, the RPC types of \<open>mr/rpc.go\<close>): the
  handlers \<open>Assign\<close> and \<open>ReportTaskCompletion\<close>, the timeout goroutine and \<open>Done\<close>, each run under
  \<open>c.mu\<close> and so one atomic step; and the system they form with workers that each hold an
  assignment, report it once, or crash.

  The invariant of that system says that a task's attempt number identifies its one live
  assignment. From it follow: the reduce phase starts after every map task is completed, no report
  of a worker panics, completed tasks never change, the phase never goes back, and the job can
  always be finished.
\<close>

section \<open>rpc.go\<close>

record rpc_reply =
  TaskType :: string
  MapFile :: string
  NReduce :: int
  TaskId :: int
  Attempt :: int

record done_args =
  da_TaskType :: string
  da_TaskId :: int
  da_Attempt :: int

definition zero_rpc_reply :: rpc_reply where
  "zero_rpc_reply = \<lparr>TaskType = '''', MapFile = '''', NReduce = 0, TaskId = 0, Attempt = 0\<rparr>"

section \<open>coordinator.go\<close>

datatype task_state = Idle | InProgress | Completed

datatype phase = MapPhase | ReducePhase | AllDone

text \<open>Times are nanoseconds on the monotonic clock.\<close>

record task =
  File :: string
  State :: task_state
  StartTime :: int
  t_Attempt :: int

record coordinator =
  phase :: phase
  nMap :: int
  nReduce :: int
  mapTasks :: "task list"
  reduceTasks :: "task list"

definition zero_task :: task where
  "zero_task = \<lparr>File = '''', State = Idle, StartTime = 0, t_Attempt = 0\<rparr>"

text \<open>\<open>Assign\<close> at time \<open>now\<close>; the \<open>range\<close> loops return at the first idle task.\<close>

definition start_task :: "int \<Rightarrow> task \<Rightarrow> task" where
  "start_task now t = t\<lparr>State := InProgress, StartTime := now\<rparr>"

definition Assign :: "int \<Rightarrow> coordinator \<Rightarrow> rpc_reply \<Rightarrow> coordinator \<times> rpc_reply" where
  "Assign now c reply =
     (if phase c = MapPhase then
        (case find_index (\<lambda>t. State t = Idle) (mapTasks c) of
           Some i \<Rightarrow>
             (c\<lparr>mapTasks := (mapTasks c)[i := start_task now (mapTasks c ! i)]\<rparr>,
              reply\<lparr>TaskType := ''map'', TaskId := int i, MapFile := File (mapTasks c ! i),
                    NReduce := nReduce c, Attempt := t_Attempt (mapTasks c ! i)\<rparr>)
         | None \<Rightarrow> (c, reply\<lparr>TaskType := ''wait''\<rparr>))
      else if phase c = ReducePhase then
        (case find_index (\<lambda>t. State t = Idle) (reduceTasks c) of
           Some i \<Rightarrow>
             (c\<lparr>reduceTasks := (reduceTasks c)[i := start_task now (reduceTasks c ! i)]\<rparr>,
              reply\<lparr>TaskType := ''reduce'', TaskId := int i,
                    NReduce := nReduce c, Attempt := t_Attempt (reduceTasks c ! i)\<rparr>)
         | None \<Rightarrow> (c, reply\<lparr>TaskType := ''wait''\<rparr>))
      else (c, reply\<lparr>TaskType := ''exit''\<rparr>))"

text \<open>
  \<open>ReportTaskCompletion\<close>: an index out of range panics; a report of an old attempt is
  rejected; a report that completes the last task of a kind moves the phase.
\<close>

definition ReportTaskCompletion :: "coordinator \<Rightarrow> done_args \<Rightarrow> coordinator result" where
  "ReportTaskCompletion c args =
     (if da_TaskType args = ''map'' then
        res_bind (go_index (mapTasks c) (da_TaskId args)) (\<lambda>task.
          if t_Attempt task \<noteq> da_Attempt args then Inr c
          else let tasks = (mapTasks c)[nat (da_TaskId args) := task\<lparr>State := Completed\<rparr>];
                   c' = c\<lparr>mapTasks := tasks\<rparr>
               in if list_all (\<lambda>t. State t = Completed) tasks then Inr (c'\<lparr>phase := ReducePhase\<rparr>)
                  else Inr c')
      else if da_TaskType args = ''reduce'' then
        res_bind (go_index (reduceTasks c) (da_TaskId args)) (\<lambda>task.
          if t_Attempt task \<noteq> da_Attempt args then Inr c
          else let tasks = (reduceTasks c)[nat (da_TaskId args) := task\<lparr>State := Completed\<rparr>];
                   c' = c\<lparr>reduceTasks := tasks\<rparr>
               in if list_all (\<lambda>t. State t = Completed) tasks then Inr (c'\<lparr>phase := AllDone\<rparr>)
                  else Inr c')
      else Inr c)"

definition Done :: "coordinator \<Rightarrow> bool" where
  "Done c = (phase c = AllDone)"

text \<open>A task in progress for more than ten seconds is idle again, under a new attempt number.\<close>

definition expire_task :: "int \<Rightarrow> task \<Rightarrow> task" where
  "expire_task now t =
     (if State t = InProgress \<and> now - StartTime t > 10 * 1000000000
      then t\<lparr>State := Idle, t_Attempt := t_Attempt t + 1\<rparr> else t)"

definition expireTasksLocked :: "int \<Rightarrow> task list \<Rightarrow> task list" where
  "expireTasksLocked now tasks = map (expire_task now) tasks"

text \<open>One tick of \<open>CheckTimeout\<close>; the second component says whether the goroutine goes on.\<close>

definition CheckTimeout :: "int \<Rightarrow> coordinator \<Rightarrow> coordinator \<times> bool" where
  "CheckTimeout now c =
     (case phase c of
        MapPhase \<Rightarrow> (c\<lparr>mapTasks := expireTasksLocked now (mapTasks c)\<rparr>, True)
      | ReducePhase \<Rightarrow> (c\<lparr>reduceTasks := expireTasksLocked now (reduceTasks c)\<rparr>, True)
      | AllDone \<Rightarrow> (c, False))"

text \<open>\<open>make\<close> panics on a negative length.\<close>

definition MakeCoordinator :: "string list \<Rightarrow> int \<Rightarrow> coordinator result" where
  "MakeCoordinator files n =
     (if n < 0 then Inl (Panic ''makeslice: len out of range'')
      else Inr \<lparr>phase = MapPhase, nMap = int (length files), nReduce = n,
                mapTasks = map (\<lambda>f. zero_task\<lparr>File := f, State := Idle\<rparr>) files,
                reduceTasks = replicate (nat n) (zero_task\<lparr>State := Idle\<rparr>)\<rparr>)"

section \<open>The coordinator and its workers\<close>

text \<open>
  The assignments handed out and neither reported nor lost with a crashed worker, as the
  \<open>DoneArgs\<close> the worker will send.
\<close>

record mr_sys =
  coord :: coordinator
  held :: "done_args list"

definition reply_done :: "rpc_reply \<Rightarrow> done_args" where
  "reply_done r = \<lparr>da_TaskType = TaskType r, da_TaskId = TaskId r, da_Attempt = Attempt r\<rparr>"

definition mr_init :: "string list \<Rightarrow> int \<Rightarrow> mr_sys \<Rightarrow> bool" where
  "mr_init files n s \<longleftrightarrow> MakeCoordinator files n = Inr (coord s) \<and> held s = []"

inductive mr_step :: "mr_sys \<Rightarrow> mr_sys \<Rightarrow> bool" where
  assign: "Assign now (coord s) zero_rpc_reply = (c', r) \<Longrightarrow>
    mr_step s \<lparr>coord = c', held = (if TaskType r = ''map'' \<or> TaskType r = ''reduce''
                                    then reply_done r # held s else held s)\<rparr>"
| report: "a \<in> set (held s) \<Longrightarrow> ReportTaskCompletion (coord s) a = Inr c' \<Longrightarrow>
    mr_step s \<lparr>coord = c', held = remove1 a (held s)\<rparr>"
| crash: "a \<in> set (held s) \<Longrightarrow> mr_step s (s\<lparr>held := remove1 a (held s)\<rparr>)"
| tick: "CheckTimeout now (coord s) = (c', go) \<Longrightarrow> mr_step s (s\<lparr>coord := c'\<rparr>)"

section \<open>The invariant\<close>

text \<open>A kind of task: its tasks are completed, and an assignment of it is live.\<close>

definition all_completed :: "task list \<Rightarrow> bool" where
  "all_completed ts \<longleftrightarrow> list_all (\<lambda>t. State t = Completed) ts"

definition held_ok :: "string \<Rightarrow> task list \<Rightarrow> done_args \<Rightarrow> bool" where
  "held_ok ty ts a \<longleftrightarrow>
     (da_TaskType a = ty \<longrightarrow>
        0 \<le> da_TaskId a \<and> da_TaskId a < int (length ts) \<and>
        da_Attempt a \<le> t_Attempt (ts ! nat (da_TaskId a)) \<and>
        (da_Attempt a = t_Attempt (ts ! nat (da_TaskId a)) \<longrightarrow> State (ts ! nat (da_TaskId a)) = InProgress))"

definition tasks_ok :: "string \<Rightarrow> task list \<Rightarrow> done_args list \<Rightarrow> bool" where
  "tasks_ok ty ts hs \<longleftrightarrow> (\<forall>a \<in> set hs. held_ok ty ts a)"

definition phase_ok :: "coordinator \<Rightarrow> bool" where
  "phase_ok c \<longleftrightarrow>
     (if phase c = MapPhase
      then list_all (\<lambda>t. State t = Idle) (reduceTasks c) \<and> (mapTasks c \<noteq> [] \<longrightarrow> \<not> all_completed (mapTasks c))
      else all_completed (mapTasks c) \<and>
           (if phase c = ReducePhase then reduceTasks c \<noteq> [] \<longrightarrow> \<not> all_completed (reduceTasks c)
            else all_completed (reduceTasks c)))"

definition mr_inv :: "string list \<Rightarrow> int \<Rightarrow> mr_sys \<Rightarrow> bool" where
  "mr_inv files n s \<longleftrightarrow>
     distinct (held s) \<and> (\<forall>a \<in> set (held s). da_TaskType a \<in> {''map'', ''reduce''}) \<and>
     tasks_ok ''map'' (mapTasks (coord s)) (held s) \<and>
     tasks_ok ''reduce'' (reduceTasks (coord s)) (held s) \<and>
     map File (mapTasks (coord s)) = files \<and> int (length (reduceTasks (coord s))) = n \<and>
     nMap (coord s) = int (length files) \<and> nReduce (coord s) = n \<and>
     phase_ok (coord s)"

definition kind_tasks :: "string \<Rightarrow> coordinator \<Rightarrow> task list" where
  "kind_tasks ty c = (if ty = ''map'' then mapTasks c else reduceTasks c)"

text \<open>The order of the phases, and tables in which every completed task is unchanged.\<close>

fun phase_rank :: "phase \<Rightarrow> nat" where
  "phase_rank MapPhase = 0"
| "phase_rank ReducePhase = 1"
| "phase_rank AllDone = 2"

definition keeps_completed :: "task list \<Rightarrow> task list \<Rightarrow> bool" where
  "keeps_completed ts us \<longleftrightarrow> length us = length ts \<and>
     (\<forall>i < length ts. State (ts ! i) = Completed \<longrightarrow> us ! i = ts ! i)"

subsection \<open>One kind of task\<close>

text \<open>What starting, completing and expiring a task does to the assignments of its kind.\<close>

lemma tasks_ok_remove1: "tasks_ok ty ts hs \<Longrightarrow> tasks_ok ty ts (remove1 a hs)"
  by (auto simp: tasks_ok_def dest: notin_set_remove1)

lemma tasks_ok_other: "tasks_ok ty ts hs \<Longrightarrow> da_TaskType a \<noteq> ty \<Longrightarrow> tasks_ok ty ts (a # hs)"
  by (simp add: tasks_ok_def held_ok_def)

lemma tasks_ok_fresh:
  assumes "tasks_ok ty ts hs" "i < length ts" "State (ts ! i) \<noteq> InProgress"
  shows "\<lparr>da_TaskType = ty, da_TaskId = int i, da_Attempt = t_Attempt (ts ! i)\<rparr> \<notin> set hs"
  using assms by (force simp: tasks_ok_def held_ok_def)

lemma tasks_ok_start:
  assumes "tasks_ok ty ts hs" "i < length ts"
  shows "tasks_ok ty (ts[i := start_task now (ts ! i)])
           (\<lparr>da_TaskType = ty, da_TaskId = int i, da_Attempt = t_Attempt (ts ! i)\<rparr> # hs)"
  using assms by (auto simp: tasks_ok_def held_ok_def start_task_def nth_list_update)

lemma tasks_ok_expire:
  "tasks_ok ty ts hs \<Longrightarrow> tasks_ok ty (expireTasksLocked now ts) hs"
  unfolding tasks_ok_def held_ok_def expireTasksLocked_def expire_task_def by (fastforce split: if_splits)

lemma tasks_ok_complete:
  assumes ok: "tasks_ok ty ts hs" and d: "distinct hs" and a: "a \<in> set hs" "da_TaskType a = ty"
    and cur: "t_Attempt (ts ! nat (da_TaskId a)) = da_Attempt a"
  shows "tasks_ok ty (ts[nat (da_TaskId a) := (ts ! nat (da_TaskId a))\<lparr>State := Completed\<rparr>]) (remove1 a hs)"
  unfolding tasks_ok_def
proof
  fix b assume b: "b \<in> set (remove1 a hs)"
  then have "b \<noteq> a" and "b \<in> set hs" using d by auto
  with ok have okb: "held_ok ty ts b" by (simp add: tasks_ok_def)
  show "held_ok ty (ts[nat (da_TaskId a) := (ts ! nat (da_TaskId a))\<lparr>State := Completed\<rparr>]) b"
  proof (cases "nat (da_TaskId b) = nat (da_TaskId a) \<and> da_TaskType b = ty")
    case True
    moreover from ok a(1) have "held_ok ty ts a" by (simp add: tasks_ok_def)
    ultimately have "da_TaskId b = da_TaskId a" using okb a(2) by (simp add: held_ok_def eq_nat_nat_iff)
    with \<open>b \<noteq> a\<close> True a(2) have "da_Attempt b \<noteq> da_Attempt a" by auto
    moreover from True okb have "nat (da_TaskId a) < length ts" by (auto simp: held_ok_def)
    ultimately show ?thesis using True okb cur by (simp add: held_ok_def)
  next
    case False
    with okb show ?thesis by (cases "da_TaskType b = ty") (auto simp: held_ok_def)
  qed
qed

text \<open>A report of an assignment is in range, and its attempt is current only while the task runs.\<close>

lemma tasks_ok_held:
  assumes "tasks_ok ty ts hs" "a \<in> set hs" "da_TaskType a = ty"
  obtains i where "da_TaskId a = int i" "i < length ts"
    "t_Attempt (ts ! i) = da_Attempt a \<longrightarrow> State (ts ! i) = InProgress"
proof -
  from assms have "held_ok ty ts a" by (simp add: tasks_ok_def)
  with assms(3) show thesis by (intro that [of "nat (da_TaskId a)"]) (auto simp: held_ok_def)
qed

lemma map_File_update [simp]:
  "File t = File (ts ! i) \<Longrightarrow> map File (ts[i := t]) = map File ts"
  by (cases "i < length ts") (auto simp: map_update list_update_same_conv list_update_beyond)

lemma File_start_task [simp]: "File (start_task now t) = File t"
  by (simp add: start_task_def)

lemma State_start_task [simp]: "State (start_task now t) = InProgress"
  by (simp add: start_task_def)

lemma File_expire_task [simp]: "File (expire_task now t) = File t"
  by (simp add: expire_task_def)

lemma map_File_expire [simp]: "map File (expireTasksLocked now ts) = map File ts"
  by (simp add: expireTasksLocked_def)

lemma length_expire_tasks [simp]: "length (expireTasksLocked now ts) = length ts"
  by (simp add: expireTasksLocked_def)

lemma expire_eq_Nil [simp]: "expireTasksLocked now ts = [] \<longleftrightarrow> ts = []"
  by (simp add: expireTasksLocked_def)

lemma State_expire_task [simp]: "State (expire_task now t) = Completed \<longleftrightarrow> State t = Completed"
  by (simp add: expire_task_def)

lemma all_completed_expire [simp]: "all_completed (expireTasksLocked now ts) = all_completed ts"
  by (simp add: all_completed_def expireTasksLocked_def list.pred_map comp_def)

lemma all_completed_nth: "all_completed ts \<Longrightarrow> i < length ts \<Longrightarrow> State (ts ! i) = Completed"
  by (simp add: all_completed_def list_all_length)

lemma idle_not_completed:
  "list_all (\<lambda>t. State t = Idle) ts \<Longrightarrow> ts \<noteq> [] \<Longrightarrow> \<not> all_completed ts"
  by (cases ts) (auto simp: all_completed_def)

lemma not_all_completed_start:
  "i < length ts \<Longrightarrow> \<not> all_completed (ts[i := start_task now t])"
  using all_completed_nth [of "ts[i := start_task now t]" i] by auto

subsection \<open>Every step keeps the invariant\<close>

lemma mr_inv_init: "mr_init files n s \<Longrightarrow> mr_inv files n s"
  by (cases s) (auto simp: mr_init_def mr_inv_def phase_ok_def MakeCoordinator_def zero_task_def
      tasks_ok_def all_completed_def comp_def list.pred_map list_all_iff neq_Nil_conv split: if_splits)

text \<open>The three outcomes of \<open>Assign\<close>: a map task, a reduce task, or no task and no change.\<close>

lemma Assign_cases:
  assumes "Assign now c zero_rpc_reply = (c', r)"
  obtains (map_task) i where "phase c = MapPhase" "i < length (mapTasks c)" "State (mapTasks c ! i) = Idle"
      "c' = c\<lparr>mapTasks := (mapTasks c)[i := start_task now (mapTasks c ! i)]\<rparr>"
      "r = \<lparr>TaskType = ''map'', MapFile = File (mapTasks c ! i), NReduce = nReduce c,
            TaskId = int i, Attempt = t_Attempt (mapTasks c ! i)\<rparr>"
    | (reduce_task) i where "phase c = ReducePhase" "i < length (reduceTasks c)" "State (reduceTasks c ! i) = Idle"
      "c' = c\<lparr>reduceTasks := (reduceTasks c)[i := start_task now (reduceTasks c ! i)]\<rparr>"
      "r = \<lparr>TaskType = ''reduce'', MapFile = '''', NReduce = nReduce c,
            TaskId = int i, Attempt = t_Attempt (reduceTasks c ! i)\<rparr>"
    | (wait) "phase c \<noteq> AllDone" "c' = c" "TaskType r = ''wait''"
      "phase c = MapPhase \<Longrightarrow> \<forall>t \<in> set (mapTasks c). State t \<noteq> Idle"
      "phase c = ReducePhase \<Longrightarrow> \<forall>t \<in> set (reduceTasks c). State t \<noteq> Idle"
    | (exit) "phase c = AllDone" "c' = c" "TaskType r = ''exit''"
proof (cases "phase c")
  case MapPhase
  show thesis
  proof (cases "find_index (\<lambda>t. State t = Idle) (mapTasks c)")
    case None
    with MapPhase assms show thesis by (intro wait) (auto simp: Assign_def)
  next
    case (Some i)
    with MapPhase assms show thesis
      by (intro map_task [of i]) (simp_all add: Assign_def find_index_Some zero_rpc_reply_def)
  qed
next
  case ReducePhase
  show thesis
  proof (cases "find_index (\<lambda>t. State t = Idle) (reduceTasks c)")
    case None
    with ReducePhase assms show thesis by (intro wait) (auto simp: Assign_def)
  next
    case (Some i)
    with ReducePhase assms show thesis
      by (intro reduce_task [of i]) (simp_all add: Assign_def find_index_Some zero_rpc_reply_def)
  qed
next
  case AllDone
  with assms show thesis by (intro exit) (auto simp: Assign_def)
qed

lemma mr_inv_assign:
  assumes inv: "mr_inv files n s" and asg: "Assign now (coord s) zero_rpc_reply = (c', r)"
  shows "mr_inv files n \<lparr>coord = c', held = (if TaskType r = ''map'' \<or> TaskType r = ''reduce''
                                    then reply_done r # held s else held s)\<rparr>"
  using asg
proof (cases rule: Assign_cases)
  case (map_task i)
  with inv tasks_ok_fresh [of "''map''" "mapTasks (coord s)" "held s" i] show ?thesis
    by (simp add: mr_inv_def phase_ok_def reply_done_def not_all_completed_start tasks_ok_start tasks_ok_other)
next
  case (reduce_task i)
  with inv tasks_ok_fresh [of "''reduce''" "reduceTasks (coord s)" "held s" i] show ?thesis
    by (simp add: mr_inv_def phase_ok_def reply_done_def not_all_completed_start tasks_ok_start tasks_ok_other)
qed (use inv in \<open>simp_all add: mr_inv_def\<close>)

lemma mr_inv_tick:
  assumes inv: "mr_inv files n s" and tick: "CheckTimeout now (coord s) = (c', go)"
  shows "mr_inv files n (s\<lparr>coord := c'\<rparr>)"
  using assms by (cases "phase (coord s)") (auto simp: CheckTimeout_def mr_inv_def phase_ok_def intro: tasks_ok_expire)

lemma mr_inv_crash: "mr_inv files n s \<Longrightarrow> mr_inv files n (s\<lparr>held := remove1 a (held s)\<rparr>)"
  by (auto simp: mr_inv_def intro: tasks_ok_remove1 dest: notin_set_remove1)

text \<open>A report from a live assignment: no panic, and one of three outcomes.\<close>

lemma Report_held:
  assumes inv: "mr_inv files n s" and a: "a \<in> set (held s)"
  obtains (stale) i where "da_TaskId a = int i" "i < length (kind_tasks (da_TaskType a) (coord s))"
      "t_Attempt (kind_tasks (da_TaskType a) (coord s) ! i) \<noteq> da_Attempt a"
      "ReportTaskCompletion (coord s) a = Inr (coord s)"
    | (map_task) i tasks where "da_TaskType a = ''map''" "da_TaskId a = int i" "i < length (mapTasks (coord s))"
      "t_Attempt (mapTasks (coord s) ! i) = da_Attempt a"
      "State (mapTasks (coord s) ! i) = InProgress" "phase (coord s) = MapPhase"
      "tasks = (mapTasks (coord s))[i := (mapTasks (coord s) ! i)\<lparr>State := Completed\<rparr>]"
      "ReportTaskCompletion (coord s) a =
         Inr ((coord s)\<lparr>mapTasks := tasks, phase := if all_completed tasks then ReducePhase else MapPhase\<rparr>)"
    | (reduce_task) i tasks where "da_TaskType a = ''reduce''" "da_TaskId a = int i" "i < length (reduceTasks (coord s))"
      "t_Attempt (reduceTasks (coord s) ! i) = da_Attempt a"
      "State (reduceTasks (coord s) ! i) = InProgress" "phase (coord s) = ReducePhase"
      "tasks = (reduceTasks (coord s))[i := (reduceTasks (coord s) ! i)\<lparr>State := Completed\<rparr>]"
      "ReportTaskCompletion (coord s) a =
         Inr ((coord s)\<lparr>reduceTasks := tasks, phase := if all_completed tasks then AllDone else ReducePhase\<rparr>)"
proof (cases "da_TaskType a = ''map''")
  case ty: True
  from inv have "tasks_ok ''map'' (mapTasks (coord s)) (held s)" by (simp add: mr_inv_def)
  then obtain i where i: "da_TaskId a = int i" "i < length (mapTasks (coord s))"
    and run: "t_Attempt (mapTasks (coord s) ! i) = da_Attempt a \<longrightarrow> State (mapTasks (coord s) ! i) = InProgress"
    using a ty by (rule tasks_ok_held)
  show thesis
  proof (cases "t_Attempt (mapTasks (coord s) ! i) = da_Attempt a")
    case cur: True
    with run have ip: "State (mapTasks (coord s) ! i) = InProgress" by simp
    with i inv have ph: "phase (coord s) = MapPhase"
      by (auto simp: mr_inv_def phase_ok_def dest!: all_completed_nth split: if_splits)
    show thesis
      by (rule map_task [OF ty i cur ip ph refl])
        (use ty i cur ph in \<open>simp add: ReportTaskCompletion_def Let_def all_completed_def\<close>)
  next
    case False
    with ty i show thesis by (intro stale [of i]) (simp_all add: ReportTaskCompletion_def kind_tasks_def)
  qed
next
  case False
  with inv a have ty: "da_TaskType a = ''reduce''" by (auto simp: mr_inv_def)
  from inv have "tasks_ok ''reduce'' (reduceTasks (coord s)) (held s)" by (simp add: mr_inv_def)
  then obtain i where i: "da_TaskId a = int i" "i < length (reduceTasks (coord s))"
    and run: "t_Attempt (reduceTasks (coord s) ! i) = da_Attempt a \<longrightarrow> State (reduceTasks (coord s) ! i) = InProgress"
    using a ty by (rule tasks_ok_held)
  show thesis
  proof (cases "t_Attempt (reduceTasks (coord s) ! i) = da_Attempt a")
    case cur: True
    with run have ip: "State (reduceTasks (coord s) ! i) = InProgress" by simp
    with i inv have "phase (coord s) \<noteq> MapPhase" "phase (coord s) \<noteq> AllDone"
      by (auto simp: mr_inv_def phase_ok_def list_all_length dest!: all_completed_nth split: if_splits)
    then have ph: "phase (coord s) = ReducePhase" by (cases "phase (coord s)") auto
    show thesis
      by (rule reduce_task [OF ty i cur ip ph refl])
        (use ty i cur ph in \<open>simp add: ReportTaskCompletion_def Let_def all_completed_def\<close>)
  next
    case False
    with ty i show thesis by (intro stale [of i]) (simp_all add: ReportTaskCompletion_def kind_tasks_def)
  qed
qed

lemma mr_inv_report:
  assumes inv: "mr_inv files n s" and a: "a \<in> set (held s)"
    and rep: "ReportTaskCompletion (coord s) a = Inr c'"
  shows "mr_inv files n \<lparr>coord = c', held = remove1 a (held s)\<rparr>"
  using inv a
proof (cases rule: Report_held)
  case stale
  with rep mr_inv_crash [OF inv, of a] show ?thesis by (cases s) simp
next
  case (map_task i tasks)
  have "tasks_ok ''map'' tasks (remove1 a (held s))"
    using tasks_ok_complete [of "''map''" "mapTasks (coord s)" "held s" a] inv a map_task by (simp add: mr_inv_def)
  with map_task rep mr_inv_crash [OF inv, of a] show ?thesis
    by (auto simp: mr_inv_def phase_ok_def dest: idle_not_completed)
next
  case (reduce_task i tasks)
  have "tasks_ok ''reduce'' tasks (remove1 a (held s))"
    using tasks_ok_complete [of "''reduce''" "reduceTasks (coord s)" "held s" a] inv a reduce_task by (simp add: mr_inv_def)
  with reduce_task rep mr_inv_crash [OF inv, of a] show ?thesis by (auto simp: mr_inv_def phase_ok_def)
qed

interpretation mr: invariant_machine "mr_init files n" mr_step "mr_inv files n" for files n
proof
  show "mr_inv files n s" if "mr_init files n s" for s
    using that by (rule mr_inv_init)
  show "mr_inv files n t" if "mr_inv files n s" "mr_step s t" for s t
    using that(2,1) by cases (auto split del: if_split intro: mr_inv_assign mr_inv_report mr_inv_crash mr_inv_tick)
qed

section \<open>Progress\<close>

text \<open>The tasks of a kind that are not completed, the measure of the job's progress.\<close>

definition todo :: "task list \<Rightarrow> nat" where
  "todo ts = length (filter (\<lambda>t. State t \<noteq> Completed) ts)"

lemma todo_expire [simp]: "todo (expireTasksLocked now ts) = todo ts"
  by (induction ts) (simp_all add: todo_def expireTasksLocked_def)

lemma length_filter_update_less:
  "i < length xs \<Longrightarrow> P (xs ! i) \<Longrightarrow> \<not> P y \<Longrightarrow> length (filter P (xs[i := y])) < length (filter P xs)"
proof (induction xs arbitrary: i)
  case (Cons x xs)
  then show ?case by (cases i) (auto simp: le_less)
qed simp

lemma todo_complete:
  "i < length ts \<Longrightarrow> State (ts ! i) \<noteq> Completed \<Longrightarrow> todo (ts[i := t\<lparr>State := Completed\<rparr>]) < todo ts"
  unfolding todo_def by (rule length_filter_update_less) auto

lemma expire_all: "\<exists>now. \<forall>t \<in> set (expireTasksLocked now ts). State t \<noteq> InProgress"
proof -
  define now where "now = Max (StartTime ` set ts) + 10 * 1000000000 + 1"
  have "StartTime t < now - 10 * 1000000000" if "t \<in> set ts" for t
  proof -
    from that have "StartTime t \<le> Max (StartTime ` set ts)" by (intro Max_ge) auto
    then show ?thesis by (simp add: now_def)
  qed
  then show ?thesis by (intro exI [of _ now]) (force simp: expireTasksLocked_def expire_task_def)
qed

lemma expire_idle:
  assumes "\<not> all_completed ts"
  obtains now i where "find_index (\<lambda>t. State t = Idle) (expireTasksLocked now ts) = Some i"
proof -
  obtain now where now: "\<forall>t \<in> set (expireTasksLocked now ts). State t \<noteq> InProgress"
    using expire_all by blast
  from assms have "\<not> all_completed (expireTasksLocked now ts)" by simp
  then obtain t where "t \<in> set (expireTasksLocked now ts)" "State t \<noteq> Completed"
    by (auto simp: all_completed_def list_all_iff)
  with now have "\<not> (\<forall>t \<in> set (expireTasksLocked now ts). State t \<noteq> Idle)"
    by (metis task_state.exhaust)
  then have "find_index (\<lambda>t. State t = Idle) (expireTasksLocked now ts) \<noteq> None" by simp
  then show thesis using that by blast
qed

text \<open>
  One round: the timeout goroutine frees the tasks in progress, a worker asks for a task and
  reports it. The round ends with one task fewer to do.
\<close>

lemma map_round:
  assumes inv: "mr_inv files n s" and ph: "phase (coord s) = MapPhase" and ne: "files \<noteq> []"
  obtains t where "mr_step\<^sup>*\<^sup>* s t" "todo (mapTasks (coord t)) < todo (mapTasks (coord s))"
    "phase (coord t) \<noteq> AllDone"
proof -
  from inv ph ne have "\<not> all_completed (mapTasks (coord s))" by (auto simp: mr_inv_def phase_ok_def)
  then obtain now i where i: "find_index (\<lambda>t. State t = Idle) (expireTasksLocked now (mapTasks (coord s))) = Some i"
    by (rule expire_idle)
  define ts where "ts = expireTasksLocked now (mapTasks (coord s))"
  define s1 where "s1 = s\<lparr>coord := (coord s)\<lparr>mapTasks := ts\<rparr>\<rparr>"
  define a where "a = \<lparr>da_TaskType = ''map'', da_TaskId = int i, da_Attempt = t_Attempt (ts ! i)\<rparr>"
  define s2 where "s2 = \<lparr>coord = (coord s)\<lparr>mapTasks := ts[i := start_task now (ts ! i)]\<rparr>, held = a # held s\<rparr>"
  have l: "i < length ts" "State (ts ! i) = Idle" using i by (auto simp: ts_def find_index_Some)
  have st1: "mr_step s s1" unfolding s1_def ts_def by (rule mr_step.tick [where go = True]) (simp add: CheckTimeout_def ph)
  have st2: "mr_step s1 s2"
    using mr_step.assign [where now = now and s = s1, OF prod.collapse [symmetric]] i ph
    by (simp add: s1_def s2_def a_def Assign_def ts_def reply_done_def)
  have "\<exists>c'. ReportTaskCompletion (coord s2) a = Inr c' \<and> phase c' \<noteq> AllDone \<and>
      mapTasks c' = ts[i := (start_task now (ts ! i))\<lparr>State := Completed\<rparr>]"
    using l ph by (simp add: ReportTaskCompletion_def s2_def a_def Let_def start_task_def)
  then obtain c' where rep: "ReportTaskCompletion (coord s2) a = Inr c'" and c': "phase c' \<noteq> AllDone"
    "mapTasks c' = ts[i := (start_task now (ts ! i))\<lparr>State := Completed\<rparr>]" by blast
  from rep have st3: "mr_step s2 \<lparr>coord = c', held = remove1 a (held s2)\<rparr>"
    by (intro mr_step.report) (simp_all add: s2_def)
  have "mr_step\<^sup>*\<^sup>* s \<lparr>coord = c', held = remove1 a (held s2)\<rparr>"
    using st1 st2 st3 by (rule three_steps)
  moreover have "todo (mapTasks c') < todo (mapTasks (coord s))"
    using todo_complete [of i ts "start_task now (ts ! i)"] l c' by (simp add: ts_def)
  ultimately show thesis using c'(1) that [of "\<lparr>coord = c', held = remove1 a (held s2)\<rparr>"] by simp
qed

lemma reduce_round:
  assumes inv: "mr_inv files n s" and ph: "phase (coord s) = ReducePhase" and n: "n > 0"
  obtains t where "mr_step\<^sup>*\<^sup>* s t" "todo (reduceTasks (coord t)) < todo (reduceTasks (coord s))"
    "phase (coord t) \<noteq> MapPhase"
proof -
  from inv ph n have "\<not> all_completed (reduceTasks (coord s))" by (auto simp: mr_inv_def phase_ok_def)
  then obtain now i where i: "find_index (\<lambda>t. State t = Idle) (expireTasksLocked now (reduceTasks (coord s))) = Some i"
    by (rule expire_idle)
  define ts where "ts = expireTasksLocked now (reduceTasks (coord s))"
  define s1 where "s1 = s\<lparr>coord := (coord s)\<lparr>reduceTasks := ts\<rparr>\<rparr>"
  define a where "a = \<lparr>da_TaskType = ''reduce'', da_TaskId = int i, da_Attempt = t_Attempt (ts ! i)\<rparr>"
  define s2 where "s2 = \<lparr>coord = (coord s)\<lparr>reduceTasks := ts[i := start_task now (ts ! i)]\<rparr>, held = a # held s\<rparr>"
  have l: "i < length ts" "State (ts ! i) = Idle" using i by (auto simp: ts_def find_index_Some)
  have st1: "mr_step s s1" unfolding s1_def ts_def by (rule mr_step.tick [where go = True]) (simp add: CheckTimeout_def ph)
  have st2: "mr_step s1 s2"
    using mr_step.assign [where now = now and s = s1, OF prod.collapse [symmetric]] i ph
    by (simp add: s1_def s2_def a_def Assign_def ts_def reply_done_def)
  have "\<exists>c'. ReportTaskCompletion (coord s2) a = Inr c' \<and> phase c' \<noteq> MapPhase \<and>
      reduceTasks c' = ts[i := (start_task now (ts ! i))\<lparr>State := Completed\<rparr>]"
    using l ph by (simp add: ReportTaskCompletion_def s2_def a_def Let_def start_task_def)
  then obtain c' where rep: "ReportTaskCompletion (coord s2) a = Inr c'" and c': "phase c' \<noteq> MapPhase"
    "reduceTasks c' = ts[i := (start_task now (ts ! i))\<lparr>State := Completed\<rparr>]" by blast
  from rep have st3: "mr_step s2 \<lparr>coord = c', held = remove1 a (held s2)\<rparr>"
    by (intro mr_step.report) (simp_all add: s2_def)
  have "mr_step\<^sup>*\<^sup>* s \<lparr>coord = c', held = remove1 a (held s2)\<rparr>"
    using st1 st2 st3 by (rule three_steps)
  moreover have "todo (reduceTasks c') < todo (reduceTasks (coord s))"
    using todo_complete [of i ts "start_task now (ts ! i)"] l c' by (simp add: ts_def)
  ultimately show thesis using c'(1) that [of "\<lparr>coord = c', held = remove1 a (held s2)\<rparr>"] by simp
qed

lemma mr_inv_steps: "mr_step\<^sup>*\<^sup>* s t \<Longrightarrow> mr_inv files n s \<Longrightarrow> mr_inv files n t"
  by (induction rule: rtranclp_induct) (auto intro: mr.step_inv)

lemma reduce_finishes:
  assumes "mr_inv files n s" "phase (coord s) \<noteq> MapPhase" "n > 0"
  shows "\<exists>t. mr_step\<^sup>*\<^sup>* s t \<and> Done (coord t)"
  using assms(1,2)
proof (induction "todo (reduceTasks (coord s))" arbitrary: s rule: less_induct)
  case (less s)
  show ?case
  proof (cases "phase (coord s) = AllDone")
    case False
    with less.prems have "phase (coord s) = ReducePhase" by (cases "phase (coord s)") auto
    with less.prems assms(3) obtain t where t: "mr_step\<^sup>*\<^sup>* s t"
      "todo (reduceTasks (coord t)) < todo (reduceTasks (coord s))" "phase (coord t) \<noteq> MapPhase"
      by (rule_tac reduce_round)
    with less.hyps [OF t(2)] less.prems mr_inv_steps show ?thesis by (meson rtranclp_trans)
  qed (auto simp: Done_def)
qed

lemma map_finishes:
  assumes "mr_inv files n s" "files \<noteq> []" "n > 0"
  shows "\<exists>t. mr_step\<^sup>*\<^sup>* s t \<and> Done (coord t)"
  using assms(1)
proof (induction "todo (mapTasks (coord s))" arbitrary: s rule: less_induct)
  case (less s)
  show ?case
  proof (cases "phase (coord s) = MapPhase")
    case True
    with less.prems assms(2) obtain t where t: "mr_step\<^sup>*\<^sup>* s t"
      "todo (mapTasks (coord t)) < todo (mapTasks (coord s))"
      by (rule_tac map_round)
    with less.hyps [OF t(2)] less.prems mr_inv_steps show ?thesis by (meson rtranclp_trans)
  qed (use less.prems assms reduce_finishes in blast)
qed

lemma mr_step_mono:
  assumes inv: "mr_inv files n s" and step: "mr_step s t"
  shows "phase_rank (phase (coord s)) \<le> phase_rank (phase (coord t)) \<and>
     keeps_completed (mapTasks (coord s)) (mapTasks (coord t)) \<and>
     keeps_completed (reduceTasks (coord s)) (reduceTasks (coord t))"
  using step
proof cases
  case (assign now c' r)
  from assign(2) show ?thesis
    by (cases rule: Assign_cases) (auto simp: assign(1) keeps_completed_def nth_list_update)
next
  case (report a c')
  from inv report(2) show ?thesis
    by (cases rule: Report_held) (use report in \<open>auto simp: keeps_completed_def nth_list_update\<close>)
next
  case (tick now c' go)
  then show ?thesis
    by (cases "phase (coord s)")
      (auto simp: CheckTimeout_def keeps_completed_def expireTasksLocked_def expire_task_def)
qed (simp add: keeps_completed_def)

text \<open>Jobs with an empty kind of task: the phase never passes that kind.\<close>

definition degenerate_inv :: "string list \<Rightarrow> int \<Rightarrow> mr_sys \<Rightarrow> bool" where
  "degenerate_inv files n s \<longleftrightarrow> mr_inv files n s \<and>
     (files = [] \<longrightarrow> phase (coord s) = MapPhase) \<and> (n = 0 \<longrightarrow> phase (coord s) \<noteq> AllDone)"

lemma degenerate_init: "mr_init files n s \<Longrightarrow> degenerate_inv files n s"
  using mr_inv_init [of files n s]
  by (cases s) (auto simp: degenerate_inv_def mr_init_def MakeCoordinator_def split: if_splits)

lemma degenerate_step:
  assumes inv: "degenerate_inv files n s" and step: "mr_step s t"
  shows "degenerate_inv files n t"
proof -
  from inv have i: "mr_inv files n s" by (simp add: degenerate_inv_def)
  from step show ?thesis
  proof cases
    case (assign now c' r)
    from assign(2) have "phase c' = phase (coord s)" by (cases rule: Assign_cases) auto
    with assign inv mr.step_inv [OF i step] show ?thesis by (simp add: degenerate_inv_def)
  next
    case (report a c')
    from i report(2) show ?thesis
      by (cases rule: Report_held)
        (use report inv mr.step_inv [OF i step] in \<open>auto simp: degenerate_inv_def mr_inv_def\<close>)
  next
    case (tick now c' go)
    with inv mr.step_inv [OF i step] show ?thesis
      by (cases "phase (coord s)") (auto simp: degenerate_inv_def CheckTimeout_def)
  next
    case (crash a)
    with inv mr.step_inv [OF i step] show ?thesis by (simp add: degenerate_inv_def)
  qed
qed

interpretation mr0: invariant_machine "mr_init files n" mr_step "degenerate_inv files n" for files n
  by unfold_locales (fact degenerate_init, fact degenerate_step)

section \<open>Properties of the coordinator\<close>

text \<open>
  C10: every answer of \<open>Assign\<close> to a worker is right. A map task carries its own input file, a
  reduce task is handed out only after every map task has completed, a worker is told to exit
  only after every task has completed, and no two live assignments are the same attempt of the
  same task.
\<close>
theorem mr_assign_sound:
  assumes "reachable (mr_init files n) mr_step s"
    and "Assign now (coord s) zero_rpc_reply = (c', r)"
  shows "(TaskType r = ''map'' \<longrightarrow> (\<exists>i. TaskId r = int i \<and> i < length files \<and> MapFile r = files ! i) \<and> NReduce r = n) \<and>
     (TaskType r = ''reduce'' \<longrightarrow> all_completed (mapTasks (coord s)) \<and> 0 \<le> TaskId r \<and> TaskId r < n \<and> NReduce r = n) \<and>
     (TaskType r = ''exit'' \<longrightarrow> all_completed (mapTasks (coord s)) \<and> all_completed (reduceTasks (coord s))) \<and>
     (TaskType r \<noteq> ''wait'' \<and> TaskType r \<noteq> ''exit'' \<longrightarrow> reply_done r \<notin> set (held s))"
proof -
  have inv: "mr_inv files n s" using assms(1) by (rule mr.reachable_inv)
  from assms(2) show ?thesis
  proof (cases rule: Assign_cases)
    case (map_task i)
    with inv tasks_ok_fresh [of "''map''" "mapTasks (coord s)" "held s" i] show ?thesis
      by (auto simp: mr_inv_def reply_done_def)
  next
    case (reduce_task i)
    with inv tasks_ok_fresh [of "''reduce''" "reduceTasks (coord s)" "held s" i] show ?thesis
      by (auto simp: mr_inv_def phase_ok_def reply_done_def)
  qed (use inv in \<open>auto simp: mr_inv_def phase_ok_def\<close>)
qed

text \<open>
  C23: a report of a worker that holds an assignment never panics; it completes the task when the
  attempt is still the current one, and changes nothing when it is not.
\<close>
theorem mr_report_outcome:
  assumes "reachable (mr_init files n) mr_step s" and "a \<in> set (held s)"
  shows "\<exists>c' i. ReportTaskCompletion (coord s) a = Inr c' \<and> da_TaskId a = int i \<and>
     i < length (kind_tasks (da_TaskType a) (coord s)) \<and>
     (if t_Attempt (kind_tasks (da_TaskType a) (coord s) ! i) = da_Attempt a
      then kind_tasks (da_TaskType a) c' =
             (kind_tasks (da_TaskType a) (coord s))[i := (kind_tasks (da_TaskType a) (coord s) ! i)\<lparr>State := Completed\<rparr>]
      else c' = coord s)"
  using mr.reachable_inv [OF assms(1)] assms(2)
  by (cases rule: Report_held) (simp_all add: kind_tasks_def)

text \<open>
  C37: completed work stays completed: no step, whether an assignment, a report of an old attempt,
  a crash or a timeout, changes a completed task or takes the phase back.
\<close>
theorem mr_completed_stays:
  assumes "reachable (mr_init files n) mr_step s" and "mr_step s t"
  shows "phase_rank (phase (coord s)) \<le> phase_rank (phase (coord t)) \<and>
     keeps_completed (mapTasks (coord s)) (mapTasks (coord t)) \<and>
     keeps_completed (reduceTasks (coord s)) (reduceTasks (coord t))"
  using mr.reachable_inv [OF assms(1)] assms(2) by (rule mr_step_mono)

text \<open>
  A job with at least one input file and one reduce task can be finished from every state it
  reaches, however many workers have crashed or are slow.
\<close>
theorem mr_can_finish:
  assumes "reachable (mr_init files n) mr_step s" and "files \<noteq> []" and "n > 0"
  shows "\<exists>t. mr_step\<^sup>*\<^sup>* s t \<and> Done (coord t)"
  using mr.reachable_inv [OF assms(1)] assms(2,3) by (rule map_finishes)

text \<open>
  A job with no input file, or with no reduce task, never finishes: the phase moves only when a
  task completes, so \<open>Done\<close> stays false although nothing is left to do.
\<close>
theorem mr_degenerate_never_done:
  assumes "reachable (mr_init files n) mr_step s" and "files = [] \<or> n = 0"
  shows "\<not> Done (coord s)"
  using mr0.reachable_inv [OF assms(1)] assms(2) by (auto simp: degenerate_inv_def Done_def)

section \<open>Witnesses\<close>

text \<open>A job with one input file and one reduce task, at its start and after the first assignment.\<close>

definition mr_ex0 :: mr_sys where
  "mr_ex0 = \<lparr>coord = projr (MakeCoordinator [''a.txt''] 1), held = []\<rparr>"

definition mr_ex1 :: mr_sys where
  "mr_ex1 = \<lparr>coord = fst (Assign 5 (coord mr_ex0) zero_rpc_reply),
             held = [reply_done (snd (Assign 5 (coord mr_ex0) zero_rpc_reply))]\<rparr>"

lemma mr_ex0_reachable: "reachable (mr_init [''a.txt''] 1) mr_step mr_ex0"
  by (rule reachable_start) (simp add: mr_init_def mr_ex0_def MakeCoordinator_def)

lemma mr_ex0_step: "mr_step mr_ex0 mr_ex1"
  using mr_step.assign [where now = 5 and s = mr_ex0, OF prod.collapse [symmetric]]
  by (simp add: mr_ex1_def mr_ex0_def MakeCoordinator_def Assign_def zero_task_def)

lemma mr_ex1_reachable: "reachable (mr_init [''a.txt''] 1) mr_step mr_ex1"
  using mr_ex0_reachable mr_ex0_step by (rule reachable_next)

lemma mr_assign_sound_witness:
  "(\<exists>i. TaskId (snd (Assign 5 (coord mr_ex0) zero_rpc_reply)) = int i \<and> i < length [''a.txt''] \<and>
     MapFile (snd (Assign 5 (coord mr_ex0) zero_rpc_reply)) = [''a.txt''] ! i)"
proof -
  have "TaskType (snd (Assign 5 (coord mr_ex0) zero_rpc_reply)) = ''map''"
    by (simp add: mr_ex0_def MakeCoordinator_def Assign_def zero_task_def)
  with mr_assign_sound [OF mr_ex0_reachable prod.collapse [symmetric]] show ?thesis by blast
qed

lemma mr_report_outcome_witness:
  "\<exists>c'. ReportTaskCompletion (coord mr_ex1) (hd (held mr_ex1)) = Inr c' \<and>
     State (kind_tasks ''map'' c' ! 0) = Completed"
proof -
  have 1: "da_TaskType (hd (held mr_ex1)) = ''map''" "da_TaskId (hd (held mr_ex1)) = int 0"
    "t_Attempt (kind_tasks ''map'' (coord mr_ex1) ! 0) = da_Attempt (hd (held mr_ex1))"
    by (simp_all add: mr_ex1_def mr_ex0_def MakeCoordinator_def Assign_def zero_task_def reply_done_def
        kind_tasks_def start_task_def)
  have 2: "hd (held mr_ex1) \<in> set (held mr_ex1)" by (simp add: mr_ex1_def)
  from mr_report_outcome [OF mr_ex1_reachable 2] show ?thesis unfolding 1(1,2) using 1(3) by auto
qed

lemma mr_completed_stays_witness:
  "phase_rank (phase (coord mr_ex0)) \<le> phase_rank (phase (coord mr_ex1)) \<and>
     keeps_completed (mapTasks (coord mr_ex0)) (mapTasks (coord mr_ex1)) \<and>
     keeps_completed (reduceTasks (coord mr_ex0)) (reduceTasks (coord mr_ex1))"
  using mr_completed_stays [OF mr_ex0_reachable mr_ex0_step] .

lemma mr_can_finish_witness: "\<exists>t. mr_step\<^sup>*\<^sup>* mr_ex1 t \<and> Done (coord t)"
  using mr_can_finish [OF mr_ex1_reachable] by simp

lemma mr_degenerate_never_done_witness:
  "\<not> Done (coord \<lparr>coord = projr (MakeCoordinator [] 1), held = []\<rparr>)"
proof -
  have "reachable (mr_init [] 1) mr_step \<lparr>coord = projr (MakeCoordinator [] 1), held = []\<rparr>"
    by (rule reachable_start) (simp add: mr_init_def MakeCoordinator_def)
  from mr_degenerate_never_done [OF this] show ?thesis by simp
qed

end
