(* ===== verification/Json.thy ===== *)
theory Json
  imports Prelude
begin

text \<open>
  What the MapReduce worker (\<open>mr/worker.go\<close>) uses of \<open>encoding/json\<close>: an \<open>Encoder\<close> that writes
  \<open>KeyValue\<close> records one after the other, and a \<open>Decoder\<close> that reads them back until the first
  error. Strings are bytes; the encoder escapes quotes, backslashes, control characters and the
  three HTML characters as Go does, and other bytes stand for themselves (which is Go's behaviour
  on valid UTF-8 without U+2028 and U+2029).

  The interface of the codec, a locale, is that decoding what was encoded gives it back; it is
  interpreted on the two functions defined here.
\<close>

section \<open>KeyValue\<close>

record key_value =
  Key :: string
  Value :: string

section \<open>Strings\<close>

definition hex_digit :: "nat \<Rightarrow> char" where
  "hex_digit n = ''0123456789abcdef'' ! n"

definition hex_value :: "char \<Rightarrow> nat option" where
  "hex_value c = find_index (\<lambda>d. d = c) ''0123456789abcdef''"

definition quote :: char where "quote = CHR 0x22"
definition backslash :: char where "backslash = CHR 0x5C"

text \<open>The escapes of one letter.\<close>

definition short_escapes :: "(char \<times> char) list" where
  "short_escapes = [(quote, quote), (backslash, backslash), (CHR 0x08, CHR ''b''), (CHR 0x0C, CHR ''f''),
     (CHR 0x0A, CHR ''n''), (CHR 0x0D, CHR ''r''), (CHR 0x09, CHR ''t'')]"

definition json_escape :: "char \<Rightarrow> string" where
  "json_escape c =
     (case map_of short_escapes c of
        Some e \<Rightarrow> [backslash, e]
      | None \<Rightarrow>
          if of_char c < (32 :: nat) \<or> c \<in> set ''<>&''
          then [backslash, CHR ''u'', CHR ''0'', CHR ''0'', hex_digit (of_char c div 16), hex_digit (of_char c mod 16)]
          else [c])"

text \<open>
  Reads the characters of a string up to its closing quote. Escapes \<open>\u\<close> above \<open>00ff\<close> do not
  occur in what the encoder writes and are an error here.
\<close>

fun json_unescape :: "string \<Rightarrow> (string \<times> string) option" where
  "json_unescape [] = None"
| "json_unescape (c # cs) =
     (if c = quote then Some ([], cs)
      else if c = backslash then
        (case cs of
           [] \<Rightarrow> None
         | e # cs' \<Rightarrow>
             if e = CHR ''u'' then
               (case cs' of
                  z # z' # h # l # rest \<Rightarrow>
                    (case (hex_value h, hex_value l) of
                       (Some a, Some b) \<Rightarrow>
                         if z = CHR ''0'' \<and> z' = CHR ''0''
                         then map_option (\<lambda>(s, r). (char_of (a * 16 + b) # s, r)) (json_unescape rest) else None
                     | _ \<Rightarrow> None)
                | _ \<Rightarrow> None)
             else (case map_of (map prod.swap short_escapes) e of
                     Some d \<Rightarrow> map_option (\<lambda>(s, r). (d # s, r)) (json_unescape cs')
                   | None \<Rightarrow> None))
      else if of_char c < (32 :: nat) then None
      else map_option (\<lambda>(s, r). (c # s, r)) (json_unescape cs))"

section \<open>Records\<close>

definition json_string :: "string \<Rightarrow> string" where
  "json_string s = quote # concat (map json_escape s) @ [quote]"

text \<open>\<open>Encode\<close> writes one object and a newline.\<close>

definition json_Encode :: "key_value \<Rightarrow> string" where
  "json_Encode kv =
     CHR ''{'' # json_string ''Key'' @ CHR '':'' # json_string (Key kv) @
     CHR '','' # json_string ''Value'' @ CHR '':'' # json_string (Value kv) @ [CHR ''}'', CHR 0x0A]"

fun expect :: "string \<Rightarrow> string \<Rightarrow> string option" where
  "expect [] s = Some s"
| "expect (p # ps) (c # s) = (if p = c then expect ps s else None)"
| "expect (p # ps) [] = None"

definition skip_space :: "string \<Rightarrow> string" where
  "skip_space s = dropWhile (\<lambda>c. c \<in> {CHR '' '', CHR 0x09, CHR 0x0A, CHR 0x0D}) s"

definition json_Decode :: "string \<Rightarrow> (key_value \<times> string) option" where
  "json_Decode s =
     Option.bind (expect (CHR ''{'' # json_string ''Key'' @ [CHR '':'', quote]) (skip_space s)) (\<lambda>s1.
     Option.bind (json_unescape s1) (\<lambda>(k, s2).
     Option.bind (expect (CHR '','' # json_string ''Value'' @ [CHR '':'', quote]) s2) (\<lambda>s3.
     Option.bind (json_unescape s3) (\<lambda>(v, s4).
     Option.bind (expect [CHR ''}''] s4) (\<lambda>s5. Some (\<lparr>Key = k, Value = v\<rparr>, s5))))))"

lemma expect_Some: "expect p s = Some r \<Longrightarrow> s = p @ r"
  by (induction p s rule: expect.induct) (auto split: if_splits)

lemma expect_append [simp]: "expect p (p @ r) = Some r"
  by (induction p) auto

lemma json_unescape_length: "json_unescape s = Some (t, r) \<Longrightarrow> length r < length s"
proof (induction s arbitrary: t r rule: json_unescape.induct)
  case (2 c cs)
  then show ?case
    by (fastforce split: if_splits option.splits list.splits)
qed simp

lemma json_Decode_length:
  assumes "json_Decode s = Some (kv, r)"
  shows "length r < length s"
proof -
  have "length (skip_space s) \<le> length s" by (simp add: skip_space_def length_dropWhile_le)
  then show ?thesis using assms
    by (auto simp: json_Decode_def bind_eq_Some_conv dest!: json_unescape_length expect_Some)
qed

text \<open>The loop \<open>for { if err := dec.Decode(&kv); err != nil { break }; ... }\<close>.\<close>

function json_DecodeAll :: "string \<Rightarrow> key_value list" where
  "json_DecodeAll s = (case json_Decode s of None \<Rightarrow> [] | Some (kv, r) \<Rightarrow> kv # json_DecodeAll r)"
  by auto

termination by (relation "measure length") (auto dest: json_Decode_length)

declare json_DecodeAll.simps [simp del]

section \<open>The interface\<close>

locale record_codec =
  fixes enc :: "'r \<Rightarrow> string" and dec :: "string \<Rightarrow> 'r list"
  assumes dec_Nil: "dec [] = []"
    and dec_enc: "dec (enc x @ s) = x # dec s"
begin

lemma dec_stream: "dec (concat (map enc xs)) = xs"
  by (induction xs) (auto simp: dec_Nil dec_enc)

end

section \<open>The codec meets the interface\<close>

lemma hex_value_digit: "n < 16 \<Longrightarrow> hex_value (hex_digit n) = Some n"
  unfolding hex_value_def hex_digit_def find_index_Some
  by (auto simp: less_Suc_eq numeral_eq_Suc)

lemma map_of_unescape:
  "map_of short_escapes c = Some e \<Longrightarrow> map_of (map prod.swap short_escapes) e = Some c \<and> e \<noteq> CHR ''u''"
  by (auto simp: short_escapes_def quote_def backslash_def split: if_splits)

lemma json_unescape_escape:
  "json_unescape (json_escape c @ s) = map_option (\<lambda>(t, r). (c # t, r)) (json_unescape s)"
proof (cases "map_of short_escapes c")
  case (Some e)
  with map_of_unescape [OF Some] show ?thesis by (simp add: json_escape_def quote_def backslash_def)
next
  case None
  then have "c \<noteq> quote" "c \<noteq> backslash" by (auto simp: short_escapes_def split: if_splits)
  moreover have "of_char c div 16 < (16 :: nat)"
    using nat_of_char_less_256 [of c] by (simp add: less_mult_imp_div_less)
  moreover have "char_of (of_char c div 16 * 16 + of_char c mod 16 :: nat) = c" by simp
  ultimately show ?thesis using None
    by (auto simp: json_escape_def hex_value_digit quote_def backslash_def simp del: div_mult_mod_eq)
qed

lemma json_unescape_string:
  "json_unescape (concat (map json_escape s) @ quote # r) = Some (s, r)"
  by (induction s) (simp_all add: json_unescape_escape)

lemma skip_space_brace [simp]: "skip_space (CHR ''{'' # s) = CHR ''{'' # s"
  by (simp add: skip_space_def)

lemma json_Decode_Encode: "json_Decode (json_Encode kv @ s) = Some (kv, CHR 0x0A # s)"
proof -
  let ?p = "CHR ''{'' # json_string ''Key'' @ [CHR '':'', quote]"
  let ?q = "CHR '','' # json_string ''Value'' @ [CHR '':'', quote]"
  let ?k = "concat (map json_escape (Key kv))" and ?v = "concat (map json_escape (Value kv))"
  have "json_Encode kv @ s = ?p @ ?k @ quote # ?q @ ?v @ quote # CHR ''}'' # CHR 0x0A # s"
    by (simp add: json_Encode_def json_string_def)
  moreover have "skip_space (?p @ t) = ?p @ t" for t by simp
  ultimately show ?thesis
    unfolding json_Decode_def by (simp only: expect_append json_unescape_string bind.bind_lunit split_conv) simp
qed

lemma json_Decode_newline: "json_Decode (CHR 0x0A # s) = json_Decode s"
  by (simp add: json_Decode_def skip_space_def)

lemma json_DecodeAll_newline: "json_DecodeAll (CHR 0x0A # s) = json_DecodeAll s"
  by (subst (1 2) json_DecodeAll.simps) (simp only: json_Decode_newline)

interpretation json: record_codec json_Encode json_DecodeAll
proof
  show "json_DecodeAll [] = []"
    by (subst json_DecodeAll.simps) (simp add: json_Decode_def skip_space_def)
  show "json_DecodeAll (json_Encode kv @ s) = kv # json_DecodeAll s" for kv s
    by (subst json_DecodeAll.simps) (simp add: json_Decode_Encode json_DecodeAll_newline)
qed

section \<open>Numbers\<close>

text \<open>A number that is not negative, with what follows it.\<close>

definition dec_nat :: "string \<Rightarrow> (nat \<times> string) option" where
  "dec_nat s =
     (let ds = takeWhile is_digit s
      in if ds = [] then None else Some (digits_value ds, dropWhile is_digit s))"

lemma dec_nat_length: "dec_nat s = Some (n, r) \<Longrightarrow> length r \<le> length s"
  by (auto simp: dec_nat_def Let_def length_dropWhile_le split: if_splits)

lemma dec_nat_digits: "r = [] \<or> \<not> is_digit (hd r) \<Longrightarrow> dec_nat (nat_digits n @ r) = Some (n, r)"
proof -
  assume r: "r = [] \<or> \<not> is_digit (hd r)"
  have all: "\<And>c. c \<in> set (nat_digits n) \<Longrightarrow> is_digit c" using nat_digits_digits by blast
  have "takeWhile is_digit (nat_digits n @ r) = nat_digits n" "dropWhile is_digit (nat_digits n @ r) = r"
    using r all by (auto simp: takeWhile_append2 dropWhile_append2 takeWhile_eq_Nil_iff dropWhile_eq_self_iff)
  then show ?thesis by (simp add: dec_nat_def Let_def digits_value_nat_digits)
qed

end
