(* ===== verification/Worker.thy ===== *)
theory Worker
  imports Coordinator Json
begin

text \<open>
  The MapReduce worker (\<open>mr/worker.go\<close>) and the sequential reference implementation
  (\<open>main/mrsequential.go\<close>). The working directory is a map from file names to contents; a map
  task partitions its records over the intermediate files \<open>mr-<task>-<r>\<close>, which are published by
  \<open>os.Rename\<close>; a reduce task globs \<open>mr-*-<r>\<close>, sorts, and publishes \<open>mr-out-<r>\<close>.

  The main result is that the distributed job computes what the sequential one does: in whatever
  order the map tasks run, and however often each is run again after a timeout, the reduce tasks
  publish the lines of the sequential output. The index loop that groups the sorted records is
  proved equal to a grouping by key.
\<close>

section \<open>Keys, partitions, lines\<close>

definition ihash :: "string \<Rightarrow> int" where
  "ihash key = int (unat (fnv32a key AND 0x7fffffff))"

text \<open>\<open>ByKey\<close>: what \<open>sort.Sort\<close> establishes. The sort is not stable.\<close>

definition ByKey_Less :: "key_value \<Rightarrow> key_value \<Rightarrow> bool" where
  "ByKey_Less a b \<longleftrightarrow> Key a < Key b"

definition sorts_by_key :: "(key_value list \<Rightarrow> key_value list) \<Rightarrow> bool" where
  "sorts_by_key sortf \<longleftrightarrow>
     (\<forall>kva. mset (sortf kva) = mset kva \<and> sorted_wrt (\<lambda>a b. \<not> ByKey_Less b a) (sortf kva))"

definition reduce_line :: "string \<Rightarrow> string \<Rightarrow> string" where
  "reduce_line key output = key @ '' '' @ output @ [CHR 0x0A]"

text \<open>The inner loop of the grouping: the end of the run of equal keys that starts at \<open>i\<close>.\<close>

function scan_group :: "key_value list \<Rightarrow> nat \<Rightarrow> nat \<Rightarrow> nat" where
  "scan_group kva i j =
     (if j < length kva \<and> Key (kva ! j) = Key (kva ! i) then scan_group kva i (j + 1) else j)"
  by auto

termination by (relation "measure (\<lambda>(kva, i, j). length kva - j)") auto

declare scan_group.simps [simp del]

lemma scan_group_ge: "j \<le> scan_group kva i j"
proof (induction kva i j rule: scan_group.induct)
  case (1 kva i j)
  then show ?case by (subst scan_group.simps) auto
qed

text \<open>The outer loop; the lines are those passed to \<open>Fprintf\<close>, in order.\<close>

function reduce_loop :: "(string \<Rightarrow> string list \<Rightarrow> string) \<Rightarrow> key_value list \<Rightarrow> nat \<Rightarrow> string list" where
  "reduce_loop reducef kva i =
     (if i < length kva then
        let j = scan_group kva i (i + 1);
            values = map (\<lambda>k. Value (kva ! k)) [i..<j]
        in reduce_line (Key (kva ! i)) (reducef (Key (kva ! i)) values) # reduce_loop reducef kva j
      else [])"
  by auto

termination
proof (relation "measure (\<lambda>(reducef, kva, i). length kva - i)", goal_cases)
  case (2 reducef kva i j vals)
  with scan_group_ge [of "i + 1" kva i] show ?case by auto
qed simp

declare reduce_loop.simps [simp del]

section \<open>The working directory\<close>

type_synonym fs = "(string, string) gomap"

definition os_Rename :: "string \<Rightarrow> string \<Rightarrow> fs \<Rightarrow> fs result" where
  "os_Rename old new d =
     (case map_of d old of
        None \<Rightarrow> Inl (Fatal ''cannot publish'')
      | Some c \<Rightarrow> Inr (gm_put new c (gm_delete old d)))"

text \<open>
  \<open>os.CreateTemp\<close> makes a new empty file whose name is the prefix and a random suffix; \<open>mktemp\<close>
  stands for the choice of a suffix that makes the name new.
\<close>

type_synonym temp_namer = "string \<Rightarrow> fs \<Rightarrow> string"

definition os_CreateTemp :: "temp_namer \<Rightarrow> string \<Rightarrow> fs \<Rightarrow> string \<times> fs" where
  "os_CreateTemp mktemp prefix d = (let name = prefix @ mktemp prefix d in (name, gm_put name [] d))"

definition temp_fresh :: "temp_namer \<Rightarrow> bool" where
  "temp_fresh mktemp \<longleftrightarrow> (\<forall>prefix d. map_of d (prefix @ mktemp prefix d) = None)"

text \<open>\<open>filepath.Glob\<close> on a pattern with one star: the matching names, sorted.\<close>

definition glob_match :: "string \<Rightarrow> string \<Rightarrow> string \<Rightarrow> bool" where
  "glob_match pre suf name \<longleftrightarrow>
     length pre + length suf \<le> length name \<and> take (length pre) name = pre \<and>
     drop (length name - length suf) name = suf \<and>
     CHR ''/'' \<notin> set (drop (length pre) (take (length name - length suf) name))"

definition Glob :: "string \<Rightarrow> string \<Rightarrow> fs \<Rightarrow> string list" where
  "Glob pre suf d = sort (filter (glob_match pre suf) (gm_keys d))"

section \<open>reduceHelper\<close>

definition reduceHelper ::
  "(string \<Rightarrow> string list \<Rightarrow> string) \<Rightarrow> temp_namer \<Rightarrow> int \<Rightarrow> key_value list \<Rightarrow> fs \<Rightarrow> fs result" where
  "reduceHelper reducef mktemp reduceTaskId kva d =
     (let (tempFile, d1) = os_CreateTemp mktemp (''mr-reduce-'' @ itoa reduceTaskId @ ''-'') d;
          d2 = gm_put tempFile (concat (reduce_loop reducef kva 0)) d1
      in os_Rename tempFile (''mr-out-'' @ itoa reduceTaskId) d2)"

section \<open>Worker\<close>

subsection \<open>A map task\<close>

fun create_temps :: "temp_namer \<Rightarrow> nat list \<Rightarrow> fs \<Rightarrow> string list \<times> fs" where
  "create_temps mktemp [] d = ([], d)"
| "create_temps mktemp (i # is) d =
     (let (name, d1) = os_CreateTemp mktemp (''mr-map-'' @ itoa (int i) @ ''-'') d;
          (names, d2) = create_temps mktemp is d1
      in (name # names, d2))"

text \<open>Each record is appended to the buffer of its partition.\<close>

fun encode_loop :: "int \<Rightarrow> key_value list \<Rightarrow> string list \<Rightarrow> string list result" where
  "encode_loop n [] bufs = Inr bufs"
| "encode_loop n (kv # kva) bufs =
     (if n = 0 then Inl (Panic ''integer divide by zero'')
      else let r = nat (ihash (Key kv) mod n)
           in encode_loop n kva (bufs[r := bufs ! r @ json_Encode kv]))"

definition intermediate_name :: "int \<Rightarrow> int \<Rightarrow> string" where
  "intermediate_name t r = ''mr-'' @ itoa t @ ''-'' @ itoa r"

text \<open>Flush, close and rename, for the partitions in order.\<close>

fun publish_loop :: "int \<Rightarrow> nat \<Rightarrow> (string \<times> string) list \<Rightarrow> fs \<Rightarrow> fs result" where
  "publish_loop t i [] d = Inr d"
| "publish_loop t i ((temp, buf) # rest) d =
     res_bind (os_Rename temp (intermediate_name t (int i)) (gm_put temp buf d))
       (publish_loop t (i + 1) rest)"

definition map_task ::
  "(string \<Rightarrow> string \<Rightarrow> key_value list) \<Rightarrow> temp_namer \<Rightarrow> rpc_reply \<Rightarrow> fs \<Rightarrow> fs result" where
  "map_task mapf mktemp reply d =
     (case map_of d (MapFile reply) of
        None \<Rightarrow> Inl (Fatal ''cannot read'')
      | Some content \<Rightarrow>
          let kva = mapf (MapFile reply) content
          in if NReduce reply < 0 then Inl (Panic ''makeslice: len out of range'')
             else let (temps, d1) = create_temps mktemp [0..<nat (NReduce reply)] d
                  in res_bind (encode_loop (NReduce reply) kva (replicate (nat (NReduce reply)) []))
                       (\<lambda>bufs. publish_loop (TaskId reply) 0 (zip temps bufs) d1))"

subsection \<open>A reduce task\<close>

definition reduce_input :: "int \<Rightarrow> fs \<Rightarrow> key_value list" where
  "reduce_input r d =
     concat (map (\<lambda>name. json_DecodeAll (the (map_of d name))) (Glob ''mr-'' (''-'' @ itoa r) d))"

definition reduce_task ::
  "(key_value list \<Rightarrow> key_value list) \<Rightarrow> (string \<Rightarrow> string list \<Rightarrow> string) \<Rightarrow> temp_namer \<Rightarrow>
   rpc_reply \<Rightarrow> fs \<Rightarrow> fs result" where
  "reduce_task sortf reducef mktemp reply d =
     reduceHelper reducef mktemp (TaskId reply) (sortf (reduce_input (TaskId reply) d)) d"

subsection \<open>One turn of the worker's loop\<close>

datatype turn = Report done_args | Sleep | Exit

definition worker_turn ::
  "(string \<Rightarrow> string \<Rightarrow> key_value list) \<Rightarrow> (string \<Rightarrow> string list \<Rightarrow> string) \<Rightarrow>
   (key_value list \<Rightarrow> key_value list) \<Rightarrow> temp_namer \<Rightarrow> rpc_reply \<Rightarrow> fs \<Rightarrow> (fs \<times> turn) result" where
  "worker_turn mapf reducef sortf mktemp reply d =
     (if TaskType reply = ''map'' then
        res_bind (map_task mapf mktemp reply d) (\<lambda>d'.
          Inr (d', Report \<lparr>da_TaskType = ''map'', da_TaskId = TaskId reply, da_Attempt = Attempt reply\<rparr>))
      else if TaskType reply = ''reduce'' then
        res_bind (reduce_task sortf reducef mktemp reply d) (\<lambda>d'.
          Inr (d', Report \<lparr>da_TaskType = ''reduce'', da_TaskId = TaskId reply, da_Attempt = Attempt reply\<rparr>))
      else if TaskType reply = ''wait'' then Inr (d, Sleep)
      else if TaskType reply = ''exit'' then Inr (d, Exit)
      else Inl (Fatal ''Unknown task type''))"

section \<open>mrsequential.go\<close>

fun seq_intermediate :: "(string \<Rightarrow> string \<Rightarrow> key_value list) \<Rightarrow> string list \<Rightarrow> fs \<Rightarrow> key_value list result" where
  "seq_intermediate mapf [] d = Inr []"
| "seq_intermediate mapf (f # fs) d =
     (case map_of d f of
        None \<Rightarrow> Inl (Fatal ''cannot open'')
      | Some content \<Rightarrow> res_bind (seq_intermediate mapf fs d) (\<lambda>kva. Inr (mapf f content @ kva)))"

definition mrsequential ::
  "(string \<Rightarrow> string \<Rightarrow> key_value list) \<Rightarrow> (string \<Rightarrow> string list \<Rightarrow> string) \<Rightarrow>
   (key_value list \<Rightarrow> key_value list) \<Rightarrow> string list \<Rightarrow> fs \<Rightarrow> fs result" where
  "mrsequential mapf reducef sortf files d =
     res_bind (seq_intermediate mapf files d) (\<lambda>intermediate.
       Inr (gm_put ''mr-out-0'' (concat (reduce_loop reducef (sortf intermediate) 0)) d))"

section \<open>The grouping loop\<close>

text \<open>The lines of a set of records, by key: the specification of the loop.\<close>

definition key_line :: "(string \<Rightarrow> string list \<Rightarrow> string) \<Rightarrow> key_value list \<Rightarrow> string \<Rightarrow> string" where
  "key_line reducef kva k = reduce_line k (reducef k (map Value (filter (\<lambda>kv. Key kv = k) kva)))"

abbreviation sorted_by_key :: "key_value list \<Rightarrow> bool" where
  "sorted_by_key kva \<equiv> sorted_wrt (\<lambda>a b. \<not> ByKey_Less b a) kva"

text \<open>The first run of a sorted list holds all the records of its key.\<close>

lemma scan_group_drop:
  "scan_group kva i j = j + length (takeWhile (\<lambda>kv. Key kv = Key (kva ! i)) (drop j kva))"
proof (induction kva i j rule: scan_group.induct)
  case (1 kva i j)
  then show ?case
    by (cases "j < length kva") (auto simp: scan_group.simps [of kva i j] Cons_nth_drop_Suc [symmetric])
qed

lemma map_nth_takeWhile:
  "map (\<lambda>k. f (xs ! k)) [i..<i + length (takeWhile P (drop i xs))] = map f (takeWhile P (drop i xs))"
proof (rule nth_equalityI)
  fix k assume "k < length (map (\<lambda>k. f (xs ! k)) [i..<i + length (takeWhile P (drop i xs))])"
  then have k: "k < length (takeWhile P (drop i xs))" by simp
  then have "k < length (drop i xs)" using length_takeWhile_le less_le_trans by blast
  with k show "map (\<lambda>k. f (xs ! k)) [i..<i + length (takeWhile P (drop i xs))] ! k =
      map f (takeWhile P (drop i xs)) ! k"
    by (simp add: takeWhile_nth)
qed simp

lemma reduce_loop_unfold:
  assumes "i < length kva"
  defines "same \<equiv> \<lambda>kv. Key kv = Key (kva ! i)"
  shows "reduce_loop reducef kva i =
    reduce_line (Key (kva ! i)) (reducef (Key (kva ! i)) (map Value (takeWhile same (drop i kva)))) #
    reduce_loop reducef kva (i + length (takeWhile same (drop i kva)))"
proof -
  have d: "drop i kva = kva ! i # drop (i + 1) kva" using assms(1) by (simp add: Cons_nth_drop_Suc)
  then have "scan_group kva i (i + 1) = i + length (takeWhile same (drop i kva))"
    by (simp add: scan_group_drop same_def)
  then show ?thesis using assms(1) map_nth_takeWhile [of Value kva i same]
    by (subst reduce_loop.simps) (simp add: Let_def)
qed

lemma run_sorted_key:
  assumes "sorted_by_key (x # xs)"
  shows "takeWhile (\<lambda>kv. Key kv = Key x) (x # xs) = filter (\<lambda>kv. Key kv = Key x) (x # xs) \<and>
    dropWhile (\<lambda>kv. Key kv = Key x) (x # xs) = filter (\<lambda>kv. Key kv \<noteq> Key x) (x # xs)"
  using assms
proof (induction xs)
  case (Cons y ys)
  show ?case
  proof (cases "Key y = Key x")
    case True
    from Cons.prems have "sorted_by_key (x # ys)" by simp
    with Cons.IH True show ?thesis by simp
  next
    case False
    with Cons.prems have "\<forall>z \<in> set (y # ys). Key z \<noteq> Key x"
      by (auto simp: ByKey_Less_def)
    then show ?thesis using False by (simp add: filter_empty_conv filter_id_conv)
  qed
qed simp

lemma sorted_list_of_set_insert_least:
  assumes "finite A" "\<forall>a \<in> A. k < a"
  shows "sorted_list_of_set (insert k A) = k # sorted_list_of_set (A :: 'a :: linorder set)"
proof -
  have "sorted_list_of_set (set (k # sorted_list_of_set A)) = k # sorted_list_of_set A"
    using assms by (intro sorted_list_of_set.idem_if_sorted_distinct) (auto simp: less_imp_le)
  then show ?thesis using assms(1) by simp
qed

text \<open>
  On sorted records the loop writes one line per key, in the order of the keys, over all the
  values of the key.
\<close>

lemma reduce_loop_sorted:
  assumes "sorted_by_key (drop i kva)"
  shows "reduce_loop reducef kva i =
    map (key_line reducef (drop i kva)) (sorted_list_of_set (Key ` set (drop i kva)))"
  using assms
proof (induction "length kva - i" arbitrary: i rule: less_induct)
  case less
  show ?case
  proof (cases "i < length kva")
    case True
    define x where "x = kva ! i"
    define D where "D = drop i kva"
    define same where "same = (\<lambda>kv :: key_value. Key kv = Key x)"
    define j where "j = i + length (takeWhile same D)"
    have D: "D = x # drop (i + 1) kva" using True by (simp add: D_def x_def Cons_nth_drop_Suc)
    have run: "takeWhile same D = filter same D" "dropWhile same D = filter (\<lambda>kv. Key kv \<noteq> Key x) D"
      using run_sorted_key [of x "drop (i + 1) kva"] less.prems unfolding D_def [symmetric] D same_def by auto
    have dj: "drop j kva = filter (\<lambda>kv. Key kv \<noteq> Key x) D"
      using run(2) dropWhile_eq_drop [of same D] by (simp add: j_def D_def add.commute)
    have "i < j" by (simp add: j_def D same_def)
    moreover have srt: "sorted_by_key (drop j kva)"
      using less.prems unfolding dj D_def by (rule sorted_wrt_filter)
    ultimately have IH: "reduce_loop reducef kva j =
        map (key_line reducef (drop j kva)) (sorted_list_of_set (Key ` set (drop j kva)))"
      using less.hyps True by simp
    have least: "\<forall>k \<in> Key ` set (drop j kva). Key x < k"
      using less.prems unfolding dj D_def [symmetric] D by (auto simp: ByKey_Less_def)
    have keys: "Key ` set D = insert (Key x) (Key ` set (drop j kva))"
      unfolding dj using D by force
    have "key_line reducef (drop j kva) k = key_line reducef D k" if "k \<in> Key ` set (drop j kva)" for k
    proof -
      have "k \<noteq> Key x" using that unfolding dj by auto
      then have "filter (\<lambda>kv. Key kv = k) (filter (\<lambda>kv. Key kv \<noteq> Key x) D) = filter (\<lambda>kv. Key kv = k) D"
        by (auto intro: filter_cong)
      then show ?thesis by (simp add: key_line_def dj)
    qed
    then have "map (key_line reducef (drop j kva)) (sorted_list_of_set (Key ` set (drop j kva))) =
        map (key_line reducef D) (sorted_list_of_set (Key ` set (drop j kva)))"
      by (intro map_cong) auto
    moreover have "reduce_loop reducef kva i = key_line reducef D (Key x) # reduce_loop reducef kva j"
      using reduce_loop_unfold [OF True, of reducef] run(1)
      by (simp add: key_line_def x_def D_def same_def j_def)
    moreover have "sorted_list_of_set (Key ` set D) = Key x # sorted_list_of_set (Key ` set (drop j kva))"
      unfolding keys by (rule sorted_list_of_set_insert_least) (use least in auto)
    ultimately show ?thesis unfolding IH D_def by simp
  qed (simp add: reduce_loop.simps)
qed

section \<open>File names\<close>

lemma nat_digits_chars: "c \<in> set (nat_digits n) \<Longrightarrow> 48 \<le> (of_char c :: nat) \<and> of_char c < (58 :: nat)"
proof (induction n rule: nat_digits.induct)
  case (1 n)
  then show ?case by (subst (asm) (2) nat_digits.simps) (auto split: if_splits)
qed

lemma nat_digits_no [simp]: "CHR ''-'' \<notin> set (nat_digits n)" "CHR ''m'' \<notin> set (nat_digits n)"
  "CHR ''o'' \<notin> set (nat_digits n)" "CHR ''/'' \<notin> set (nat_digits n)"
  by (auto dest!: nat_digits_chars)

lemma itoa_nat [simp]: "itoa (int n) = nat_digits n"
  by (simp add: itoa_def)

text \<open>Names that end in a dash and digits end the same way exactly when the digits agree.\<close>

lemma dash_digits_eq:
  "CHR ''-'' \<notin> set d \<Longrightarrow> CHR ''-'' \<notin> set e \<Longrightarrow> x @ CHR ''-'' # d = y @ CHR ''-'' # e \<longleftrightarrow> x = y \<and> d = e"
  by (auto simp: append_eq_append_conv2 append_eq_Cons_conv Cons_eq_append_conv)

lemma intermediate_name_eq [simp]:
  "intermediate_name (int t) (int r) = intermediate_name (int t') (int r') \<longleftrightarrow> t = t' \<and> r = r'"
  using dash_digits_eq [of "nat_digits r" "nat_digits r'" "nat_digits t" "nat_digits t'"]
  by (auto simp: intermediate_name_def dest: nat_digits_inject)

lemma glob_match_iff:
  "glob_match pre suf name \<longleftrightarrow> (\<exists>mid. name = pre @ mid @ suf \<and> CHR ''/'' \<notin> set mid)"
proof
  assume m: "glob_match pre suf name"
  let ?mid = "drop (length pre) (take (length name - length suf) name)"
  have "name = take (length name - length suf) name @ suf"
    using m append_take_drop_id [of "length name - length suf" name] by (simp add: glob_match_def)
  moreover have "take (length name - length suf) name = pre @ ?mid"
    using m append_take_drop_id [of "length pre" "take (length name - length suf) name"]
    by (simp add: glob_match_def min_def split: if_splits)
  ultimately have "name = pre @ ?mid @ suf" by (metis append.assoc)
  with m show "\<exists>mid. name = pre @ mid @ suf \<and> CHR ''/'' \<notin> set mid"
    unfolding glob_match_def by blast
qed (auto simp: glob_match_def)

lemma glob_intermediate [simp]:
  "glob_match ''mr-'' (CHR ''-'' # nat_digits r) (intermediate_name (int t) (int r')) \<longleftrightarrow> r = r'"
  using dash_digits_eq [of "nat_digits r'" "nat_digits r"]
  by (auto simp: glob_match_iff intermediate_name_def dest: nat_digits_inject)

lemma intermediate_not_temp: "intermediate_name (int t) r \<noteq> ''mr-map-'' @ s"
proof
  assume "intermediate_name (int t) r = ''mr-map-'' @ s"
  then have "CHR ''m'' = hd (nat_digits t)" by (cases "nat_digits t") (auto simp: intermediate_name_def)
  then show False using nat_digits_no(2) [of t] by (metis hd_in_set nat_digits_nonempty)
qed

section \<open>What a map task publishes\<close>

definition partition_of :: "nat \<Rightarrow> key_value list \<Rightarrow> nat \<Rightarrow> key_value list" where
  "partition_of n kva r = filter (\<lambda>kv. ihash (Key kv) mod int n = int r) kva"

lemma encode_loop_buffers:
  assumes "n > 0" "length bufs = n"
  shows "encode_loop (int n) kva bufs =
    Inr (map (\<lambda>r. bufs ! r @ concat (map json_Encode (partition_of n kva r))) [0..<n])"
  using assms(2)
proof (induction kva arbitrary: bufs)
  case Nil
  then show ?case by (auto simp: partition_of_def intro: nth_equalityI)
next
  case (Cons kv kva)
  define r where "r = nat (ihash (Key kv) mod int n)"
  have r: "r < n" "ihash (Key kv) mod int n = int r" using assms(1) by (auto simp: r_def nat_less_iff)
  have "encode_loop (int n) (kv # kva) bufs = encode_loop (int n) kva (bufs[r := bufs ! r @ json_Encode kv])"
    using assms(1) by (simp add: r_def Let_def)
  also have "\<dots> = Inr (map (\<lambda>r'. bufs[r := bufs ! r @ json_Encode kv] ! r' @
      concat (map json_Encode (partition_of n kva r'))) [0..<n])"
    using Cons by simp
  finally show ?case using r Cons.prems
    by (auto simp: partition_of_def nth_list_update intro!: map_cong)
qed

lemma create_temps_effect:
  assumes "temp_fresh mktemp" "create_temps mktemp is d = (names, d1)"
  shows "length names = length is \<and> distinct names \<and>
    (\<forall>x \<in> set names. map_of d x = None \<and> (\<exists>s. x = ''mr-map-'' @ s)) \<and>
    map_of d1 = (\<lambda>x. if x \<in> set names then Some [] else map_of d x) \<and>
    (distinct (map fst d) \<longrightarrow> distinct (map fst d1))"
  using assms(2)
proof (induction "is" arbitrary: d names d1)
  case (Cons i "is")
  define p where "p = ''mr-map-'' @ itoa (int i) @ ''-''"
  define name where "name = p @ mktemp p d"
  have fresh: "map_of d name = None" using assms(1) by (simp add: temp_fresh_def name_def)
  obtain names' d2 where r: "create_temps mktemp is (gm_put name [] d) = (names', d2)"
    by (cases "create_temps mktemp is (gm_put name [] d)") auto
  with Cons.prems have eq: "names = name # names'" "d1 = d2"
    by (auto simp: os_CreateTemp_def Let_def name_def p_def)
  have "name \<notin> set names'" using Cons.IH [OF r] by auto
  with Cons.IH [OF r] fresh show ?case unfolding eq by (auto simp: name_def p_def fun_eq_iff split: if_splits)
qed auto

lemma publish_loop_effect:
  assumes "distinct (map fst ps)" "\<forall>x \<in> set (map fst ps). \<exists>s. x = ''mr-map-'' @ s"
  shows "\<exists>d'. publish_loop (int t) i ps d = Inr d' \<and>
    (\<forall>k < length ps. map_of d' (intermediate_name (int t) (int (i + k))) = Some (snd (ps ! k))) \<and>
    (\<forall>x. (\<forall>k < length ps. x \<noteq> intermediate_name (int t) (int (i + k))) \<longrightarrow>
       map_of d' x = (if x \<in> set (map fst ps) then None else map_of d x)) \<and>
    (distinct (map fst d) \<longrightarrow> distinct (map fst d'))"
  using assms
proof (induction ps arbitrary: i d)
  case (Cons p ps)
  obtain temp buf where p: "p = (temp, buf)" by (cases p)
  let ?n = "\<lambda>k. intermediate_name (int t) (int k)"
  define d1 where "d1 = gm_put (?n i) buf (gm_delete temp (gm_put temp buf d))"
  have temps: "\<forall>x \<in> set (map fst (p # ps)). x \<noteq> ?n k" for k
    using Cons.prems(2) intermediate_not_temp by metis
  obtain d' where d': "publish_loop (int t) (Suc i) ps d1 = Inr d'"
    and new: "\<And>k. k < length ps \<Longrightarrow> map_of d' (?n (Suc i + k)) = Some (snd (ps ! k))"
    and old: "\<And>x. \<forall>k < length ps. x \<noteq> ?n (Suc i + k) \<Longrightarrow>
       map_of d' x = (if x \<in> set (map fst ps) then None else map_of d1 x)"
    and dist: "distinct (map fst d1) \<longrightarrow> distinct (map fst d')"
    using Cons.IH [of "Suc i" d1] Cons.prems by auto
  have "publish_loop (int t) i (p # ps) d = Inr d'"
    using d' by (simp add: p os_Rename_def d1_def)
  moreover have "map_of d' (?n (i + k)) = Some (snd ((p # ps) ! k))" if "k < length (p # ps)" for k
  proof (cases k)
    case 0
    have "\<forall>k < length ps. ?n i \<noteq> ?n (Suc i + k)" by (simp only: intermediate_name_eq) simp
    from old [OF this] have "map_of d' (?n i) = map_of d1 (?n i)" using temps [of i] by auto
    then show ?thesis by (simp add: 0 d1_def p)
  next
    case (Suc k')
    then show ?thesis using new [of k'] that by simp
  qed
  moreover have "map_of d' x = (if x \<in> set (map fst (p # ps)) then None else map_of d x)"
    if x: "\<forall>k < length (p # ps). x \<noteq> ?n (i + k)" for x
  proof -
    have "\<forall>k < length ps. x \<noteq> ?n (Suc i + k)" using x by (metis add_Suc_shift length_Cons Suc_less_eq)
    moreover have "x \<noteq> ?n i" using x by auto
    ultimately show ?thesis using old [of x] Cons.prems(1) by (auto simp: d1_def p)
  qed
  moreover have "distinct (map fst d) \<longrightarrow> distinct (map fst d')" using dist by (simp add: d1_def)
  ultimately show ?case by blast
qed simp

lemma map_task_effect:
  assumes "temp_fresh mktemp" and f: "map_of d (MapFile reply) = Some content"
    and n: "NReduce reply = int n" "n > 0" and t: "TaskId reply = int t"
  shows "\<exists>d'. map_task mapf mktemp reply d = Inr d' \<and>
    (\<forall>r < n. map_of d' (intermediate_name (int t) (int r)) =
       Some (concat (map json_Encode (partition_of n (mapf (MapFile reply) content) r)))) \<and>
    (\<forall>x. (\<forall>r < n. x \<noteq> intermediate_name (int t) (int r)) \<longrightarrow> map_of d' x = map_of d x) \<and>
    (distinct (map fst d) \<longrightarrow> distinct (map fst d'))"
proof -
  define bufs where "bufs = map (\<lambda>r. concat (map json_Encode (partition_of n (mapf (MapFile reply) content) r))) [0..<n]"
  obtain temps d1 where c: "create_temps mktemp [0..<n] d = (temps, d1)"
    by (cases "create_temps mktemp [0..<n] d") auto
  note eff = create_temps_effect [OF assms(1) c]
  have enc: "encode_loop (int n) (mapf (MapFile reply) content) (replicate n []) = Inr bufs"
    using encode_loop_buffers [of n "replicate n []"] n by (simp add: bufs_def cong: map_cong)
  have len: "length temps = n" "length bufs = n" using eff by (auto simp: bufs_def)
  obtain d' where d': "publish_loop (int t) 0 (zip temps bufs) d1 = Inr d'"
    and new: "\<forall>k < n. map_of d' (intermediate_name (int t) (int k)) = Some (bufs ! k)"
    and old: "\<forall>x. (\<forall>k < n. x \<noteq> intermediate_name (int t) (int k)) \<longrightarrow>
       map_of d' x = (if x \<in> set temps then None else map_of d1 x)"
    and dist: "distinct (map fst d1) \<longrightarrow> distinct (map fst d')"
    using publish_loop_effect [of "zip temps bufs" t 0 d1] eff len by (auto simp: map_fst_zip)
  have "map_task mapf mktemp reply d = Inr d'" using f n t c enc d' by (simp add: map_task_def)
  moreover have "\<forall>r < n. map_of d' (intermediate_name (int t) (int r)) =
       Some (concat (map json_Encode (partition_of n (mapf (MapFile reply) content) r)))"
    using new by (simp add: bufs_def)
  moreover have "\<forall>x. (\<forall>r < n. x \<noteq> intermediate_name (int t) (int r)) \<longrightarrow> map_of d' x = map_of d x"
    using old eff by auto
  ultimately show ?thesis using dist eff by blast
qed

section \<open>What a reduce task publishes\<close>

definition out_name :: "nat \<Rightarrow> string" where
  "out_name r = ''mr-out-'' @ itoa (int r)"

definition value_order_free :: "(string \<Rightarrow> string list \<Rightarrow> string) \<Rightarrow> bool" where
  "value_order_free reducef \<longleftrightarrow> (\<forall>k vs ws. mset vs = mset ws \<longrightarrow> reducef k vs = reducef k ws)"

text \<open>The lines of the keys of partition \<open>r\<close>, over all the records of the job.\<close>

definition partition_lines :: "(string \<Rightarrow> string list \<Rightarrow> string) \<Rightarrow> nat \<Rightarrow> key_value list \<Rightarrow> nat \<Rightarrow> string list" where
  "partition_lines reducef n kva r =
     map (key_line reducef kva) (sorted_list_of_set {k \<in> Key ` set kva. ihash k mod int n = int r})"

lemma key_line_mset:
  assumes "value_order_free reducef" "mset (filter (\<lambda>kv. Key kv = k) kva) = mset (filter (\<lambda>kv. Key kv = k) kvb)"
  shows "key_line reducef kva k = key_line reducef kvb k"
proof -
  have "mset (map Value (filter (\<lambda>kv. Key kv = k) kva)) = mset (map Value (filter (\<lambda>kv. Key kv = k) kvb))"
    using assms(2) by (simp only: mset_map)
  with assms(1) show ?thesis unfolding key_line_def value_order_free_def by metis
qed

lemma reduce_loop_partition:
  assumes srt: "sorts_by_key sortf" and free: "value_order_free reducef"
    and kva: "mset kva = mset (partition_of n all r)"
  shows "reduce_loop reducef (sortf kva) 0 = partition_lines reducef n all r"
proof -
  have m: "mset (sortf kva) = mset (partition_of n all r)" and s: "sorted_by_key (sortf kva)"
    using srt kva by (auto simp: sorts_by_key_def)
  have keys: "Key ` set (sortf kva) = {k \<in> Key ` set all. ihash k mod int n = int r}"
    using mset_eq_setD [OF m] by (auto simp: partition_of_def)
  have "key_line reducef (sortf kva) k = key_line reducef all k" if "ihash k mod int n = int r" for k
  proof (rule key_line_mset [OF free])
    have "filter (\<lambda>kv. Key kv = k) (partition_of n all r) = filter (\<lambda>kv. Key kv = k) all"
      using that by (auto simp: partition_of_def intro: filter_cong)
    with m show "mset (filter (\<lambda>kv. Key kv = k) (sortf kva)) = mset (filter (\<lambda>kv. Key kv = k) all)"
      by (metis mset_filter)
  qed
  then show ?thesis using reduce_loop_sorted [of 0 "sortf kva" reducef] s keys
    by (auto simp: partition_lines_def intro!: map_cong)
qed

lemma reduce_task_effect:
  assumes "temp_fresh mktemp" "TaskId reply = int r"
  shows "\<exists>d'. reduce_task sortf reducef mktemp reply d = Inr d' \<and>
    map_of d' = (map_of d)(out_name r \<mapsto> concat (reduce_loop reducef (sortf (reduce_input (int r) d)) 0)) \<and>
    (distinct (map fst d) \<longrightarrow> distinct (map fst d'))"
proof -
  define p where "p = ''mr-reduce-'' @ itoa (int r) @ ''-''"
  define x where "x = p @ mktemp p d"
  have "map_of d x = None" using assms(1) by (simp add: x_def temp_fresh_def)
  then have "(map_of d)(x := None) = map_of d" by (auto simp: fun_eq_iff)
  then show ?thesis unfolding x_def p_def
    by (simp add: reduce_task_def reduceHelper_def os_CreateTemp_def os_Rename_def Let_def assms(2) out_name_def)
qed

section \<open>A whole job\<close>

text \<open>
  The turns of all the workers, in the order they take effect. A run the coordinator can produce
  (\<open>mr_assign_sound\<close>): tasks may be repeated, also map tasks during the reduce phase, but a reduce
  task comes after every map task has been executed.
\<close>

fun run_replies ::
  "(string \<Rightarrow> string \<Rightarrow> key_value list) \<Rightarrow> (string \<Rightarrow> string list \<Rightarrow> string) \<Rightarrow>
   (key_value list \<Rightarrow> key_value list) \<Rightarrow> temp_namer \<Rightarrow> rpc_reply list \<Rightarrow> fs \<Rightarrow> fs result" where
  "run_replies mapf reducef sortf mktemp [] d = Inr d"
| "run_replies mapf reducef sortf mktemp (reply # replies) d =
     res_bind (worker_turn mapf reducef sortf mktemp reply d)
       (\<lambda>(d', turn). run_replies mapf reducef sortf mktemp replies d')"

fun valid_run :: "string list \<Rightarrow> nat \<Rightarrow> nat set \<Rightarrow> rpc_reply list \<Rightarrow> bool" where
  "valid_run files n T [] \<longleftrightarrow> True"
| "valid_run files n T (reply # replies) \<longleftrightarrow>
     (if TaskType reply = ''map''
      then (\<exists>i < length files. TaskId reply = int i \<and> MapFile reply = files ! i \<and> NReduce reply = int n \<and>
              valid_run files n (insert i T) replies)
      else TaskType reply = ''reduce'' \<and> T = {..<length files} \<and>
           (\<exists>r < n. TaskId reply = int r) \<and> valid_run files n T replies)"

text \<open>The reduce tasks of a run.\<close>

definition reduced :: "rpc_reply list \<Rightarrow> nat set" where
  "reduced replies = {r. \<exists>reply \<in> set replies. TaskType reply = ''reduce'' \<and> TaskId reply = int r}"

definition all_records :: "(string \<Rightarrow> string \<Rightarrow> key_value list) \<Rightarrow> string list \<Rightarrow> fs \<Rightarrow> key_value list" where
  "all_records mapf files d = concat (map (\<lambda>f. mapf f (the (map_of d f))) files)"

text \<open>
  The directory holds no file that a reduce task would read by mistake, and no key looks like the
  beginning of a JSON object (the published output of a reduce task is globbed too when the task
  is run again).
\<close>

definition clean_dir :: "nat \<Rightarrow> fs \<Rightarrow> bool" where
  "clean_dir n d \<longleftrightarrow> (\<forall>x \<in> fst ` set d. \<forall>r < n. \<not> glob_match ''mr-'' (''-'' @ itoa (int r)) x)"

definition plain_key :: "string \<Rightarrow> bool" where
  "plain_key k \<longleftrightarrow> k \<noteq> [] \<and> hd k \<notin> {CHR ''{'', CHR '' '', CHR 0x09, CHR 0x0A, CHR 0x0D}"

text \<open>
  The directory after the map tasks \<open>T\<close> and the reduce tasks \<open>S\<close> have been executed.
\<close>

definition job_dir ::
  "(string \<Rightarrow> string \<Rightarrow> key_value list) \<Rightarrow> (string \<Rightarrow> string list \<Rightarrow> string) \<Rightarrow> string list \<Rightarrow> nat \<Rightarrow> fs \<Rightarrow>
   nat set \<Rightarrow> nat set \<Rightarrow> fs \<Rightarrow> bool" where
  "job_dir mapf reducef files n d0 T S d \<longleftrightarrow>
     distinct (map fst d) \<and> T \<subseteq> {..<length files} \<and> S \<subseteq> {..<n} \<and>
     (\<forall>i \<in> T. \<forall>r < n. map_of d (intermediate_name (int i) (int r)) =
        Some (concat (map json_Encode (partition_of n (mapf (files ! i) (the (map_of d0 (files ! i)))) r)))) \<and>
     (\<forall>r \<in> S. map_of d (out_name r) = Some (concat (partition_lines reducef n (all_records mapf files d0) r))) \<and>
     (\<forall>x. x \<notin> {intermediate_name (int i) (int r) |i r. i \<in> T \<and> r < n} \<union> out_name ` S \<longrightarrow>
        map_of d x = map_of d0 x)"

lemma glob_out [simp]: "glob_match ''mr-'' (CHR ''-'' # nat_digits r) (out_name r') \<longleftrightarrow> r = r'"
  using dash_digits_eq [of "nat_digits r'" "nat_digits r" "''out''"]
  by (auto simp: glob_match_iff out_name_def dest: nat_digits_inject)

lemma intermediate_not_out [simp]: "intermediate_name (int t) r \<noteq> out_name r'" "out_name r' \<noteq> intermediate_name (int t) r"
proof -
  have "intermediate_name (int t) r \<noteq> out_name r'" for r
  proof
    assume "intermediate_name (int t) r = out_name r'"
    then have "CHR ''o'' = hd (nat_digits t)"
      by (cases "nat_digits t") (auto simp: intermediate_name_def out_name_def)
    then show False using nat_digits_no(3) [of t] by (metis hd_in_set nat_digits_nonempty)
  qed
  then show "intermediate_name (int t) r \<noteq> out_name r'" "out_name r' \<noteq> intermediate_name (int t) r"
    by metis+
qed

lemma out_name_eq [simp]: "out_name r = out_name r' \<longleftrightarrow> r = r'"
  by (auto simp: out_name_def dest: nat_digits_inject)

lemma partition_lines_decode:
  assumes "\<forall>kv \<in> set kva. plain_key (Key kv)"
  shows "json_DecodeAll (concat (partition_lines reducef n kva r)) = []"
proof (cases "sorted_list_of_set {k \<in> Key ` set kva. ihash k mod int n = int r}")
  case Nil
  show ?thesis unfolding partition_lines_def Nil by (simp add: json.dec_Nil)
next
  case (Cons k ks)
  then have "k \<in> {k \<in> Key ` set kva. ihash k mod int n = int r}"
    using set_sorted_list_of_set [of "{k \<in> Key ` set kva. ihash k mod int n = int r}"] by auto
  with assms have "plain_key k" by auto
  then obtain c s where k: "k = c # s" "c \<notin> {CHR ''{'', CHR '' '', CHR 0x09, CHR 0x0A, CHR 0x0D}"
    by (cases k) (auto simp: plain_key_def)
  then have "json_Decode (concat (partition_lines reducef n kva r)) = None"
    using Cons by (auto simp: partition_lines_def key_line_def reduce_line_def json_Decode_def skip_space_def)
  then show ?thesis by (simp add: json_DecodeAll.simps)
qed

lemma job_dir_input:
  assumes jd: "job_dir mapf reducef files n d0 T S d" and c: "clean_dir n d0" and f: "map_of d0 f = Some content"
  shows "map_of d f = Some content"
proof -
  have "f \<in> fst ` set d0" using map_of_SomeD [OF f] by force
  with c have "\<forall>r < n. \<not> glob_match ''mr-'' (CHR ''-'' # nat_digits r) f" by (auto simp: clean_dir_def)
  then have "f \<notin> {intermediate_name (int i) (int r) |i r. i \<in> T \<and> r < n} \<union> out_name ` S"
    using jd by (auto simp: job_dir_def)
  with jd f show ?thesis by (simp add: job_dir_def)
qed

lemma job_dir_map:
  assumes jd: "job_dir mapf reducef files n d0 T S d" and c: "clean_dir n d0" and fresh: "temp_fresh mktemp"
    and n: "n > 0" and inp: "set files \<subseteq> dom (map_of d0)" and i: "i < length files"
    and reply: "TaskId reply = int i" "MapFile reply = files ! i" "NReduce reply = int n"
  shows "\<exists>d'. map_task mapf mktemp reply d = Inr d' \<and> job_dir mapf reducef files n d0 (insert i T) S d'"
proof -
  obtain content where f0: "map_of d0 (files ! i) = Some content" using inp i nth_mem by blast
  have f: "map_of d (MapFile reply) = Some content" using job_dir_input [OF jd c f0] reply by simp
  obtain d' where d': "map_task mapf mktemp reply d = Inr d'"
    and new: "\<forall>r < n. map_of d' (intermediate_name (int i) (int r)) =
       Some (concat (map json_Encode (partition_of n (mapf (files ! i) content) r)))"
    and old: "\<And>x. \<forall>r < n. x \<noteq> intermediate_name (int i) (int r) \<Longrightarrow> map_of d' x = map_of d x"
    and dist: "distinct (map fst d) \<longrightarrow> distinct (map fst d')"
    using map_task_effect [OF fresh f reply(3) n reply(1), of mapf] reply(2) by auto
  have "job_dir mapf reducef files n d0 (insert i T) S d'"
    unfolding job_dir_def
  proof (intro conjI)
    show "\<forall>j \<in> insert i T. \<forall>r < n. map_of d' (intermediate_name (int j) (int r)) =
        Some (concat (map json_Encode (partition_of n (mapf (files ! j) (the (map_of d0 (files ! j)))) r)))"
    proof (intro ballI allI impI)
      fix j r assume "j \<in> insert i T" "r < n"
      then show "map_of d' (intermediate_name (int j) (int r)) =
          Some (concat (map json_Encode (partition_of n (mapf (files ! j) (the (map_of d0 (files ! j)))) r)))"
        using new old [of "intermediate_name (int j) (int r)"] f0 jd
        by (cases "j = i") (auto simp: job_dir_def)
    qed
    show "\<forall>r \<in> S. map_of d' (out_name r) = Some (concat (partition_lines reducef n (all_records mapf files d0) r))"
    proof
      fix r assume "r \<in> S"
      then show "map_of d' (out_name r) = Some (concat (partition_lines reducef n (all_records mapf files d0) r))"
        using old [of "out_name r"] jd by (simp add: job_dir_def)
    qed
    show "\<forall>x. x \<notin> {intermediate_name (int j) (int r) |j r. j \<in> insert i T \<and> r < n} \<union> out_name ` S \<longrightarrow>
        map_of d' x = map_of d0 x"
    proof (intro allI impI)
      fix x assume x: "x \<notin> {intermediate_name (int j) (int r) |j r. j \<in> insert i T \<and> r < n} \<union> out_name ` S"
      then have "\<forall>r < n. x \<noteq> intermediate_name (int i) (int r)" by blast
      then have "map_of d' x = map_of d x" by (rule old)
      moreover have "x \<notin> {intermediate_name (int j) (int r) |j r. j \<in> T \<and> r < n} \<union> out_name ` S"
        using x by blast
      ultimately show "map_of d' x = map_of d0 x" using jd by (simp add: job_dir_def)
    qed
  qed (use jd i dist in \<open>auto simp: job_dir_def\<close>)
  with d' show ?thesis by blast
qed

lemma mset_concat_distinct:
  "distinct xs \<Longrightarrow> mset (concat (map g xs)) = (\<Sum>x \<in> set xs. mset (g x))"
  by (simp add: mset_concat sum_list_distinct_conv_sum_set comp_def)

lemma partition_of_all:
  "mset (partition_of n (all_records mapf files d0) r) =
     (\<Sum>i < length files. mset (partition_of n (mapf (files ! i) (the (map_of d0 (files ! i)))) r))"
proof -
  let ?g = "\<lambda>f. partition_of n (mapf f (the (map_of d0 f))) r"
  have "partition_of n (all_records mapf files d0) r = concat (map ?g files)"
    by (simp add: partition_of_def all_records_def filter_concat comp_def)
  also have "\<dots> = concat (map (\<lambda>i. ?g (files ! i)) [0..<length files])"
    by (rule arg_cong [of _ _ concat], rule nth_equalityI) simp_all
  finally show ?thesis by (simp add: mset_concat_distinct del: mset_concat) (simp add: atLeast0LessThan)
qed

lemma reduce_input_job:
  assumes jd: "job_dir mapf reducef files n d0 {..<length files} S d" and c: "clean_dir n d0" and r: "r < n"
    and plain: "\<forall>kv \<in> set (all_records mapf files d0). plain_key (Key kv)"
  shows "mset (reduce_input (int r) d) = mset (partition_of n (all_records mapf files d0) r)"
proof -
  let ?m = "glob_match ''mr-'' (CHR ''-'' # nat_digits r)"
  let ?g = "\<lambda>x. json_DecodeAll (the (map_of d x))"
  let ?I = "(\<lambda>i. intermediate_name (int i) (int r)) ` {..<length files}"
  define N where "N = {x \<in> dom (map_of d). ?m x}"
  have I: "map_of d (intermediate_name (int i) (int r)) =
      Some (concat (map json_Encode (partition_of n (mapf (files ! i) (the (map_of d0 (files ! i)))) r)))"
    if "i < length files" for i
    using jd r that by (simp add: job_dir_def)
  have "?I \<subseteq> N" using I by (auto simp: N_def)
  have out: "?g x = []" if x: "x \<in> N" "x \<notin> ?I" for x
  proof -
    have "x \<in> out_name ` S"
    proof (rule ccontr)
      assume no: "x \<notin> out_name ` S"
      have "x \<noteq> intermediate_name (int i) (int r')" if "i < length files" for i r'
        using x that by (auto simp: N_def)
      with no have "map_of d x = map_of d0 x" using jd by (auto simp: job_dir_def)
      then have "x \<in> dom (map_of d0)" using x(1) by (simp add: N_def dom_def)
      then have "x \<in> fst ` set d0" by (simp add: dom_map_of_conv_image_fst)
      with c r x(1) show False by (auto simp: clean_dir_def N_def)
    qed
    then obtain r' where "r' \<in> S" "x = out_name r'" by blast
    with jd plain show ?thesis by (auto simp: job_dir_def partition_lines_decode)
  qed
  have "finite N" unfolding N_def by (rule finite_subset [OF _ finite_dom_map_of [of d]]) auto
  have "distinct (map fst d)" using jd by (simp add: job_dir_def)
  then have "mset (reduce_input (int r) d) = (\<Sum>x \<in> N. mset (?g x))"
    unfolding reduce_input_def
    by (subst mset_concat_distinct) (auto simp: Glob_def N_def gm_keys_def dom_map_of_conv_image_fst intro!: sum.cong)
  also have "\<dots> = (\<Sum>x \<in> ?I. mset (?g x))"
    by (rule sum.mono_neutral_right [OF \<open>finite N\<close> \<open>?I \<subseteq> N\<close>]) (use out in auto)
  also have "\<dots> = (\<Sum>i < length files. mset (?g (intermediate_name (int i) (int r))))"
    by (subst sum.reindex) (auto simp: inj_on_def)
  also have "\<dots> = mset (partition_of n (all_records mapf files d0) r)"
    unfolding partition_of_all by (rule sum.cong) (auto simp: I json.dec_stream)
  finally show ?thesis .
qed

lemma job_dir_reduce:
  assumes jd: "job_dir mapf reducef files n d0 {..<length files} S d" and c: "clean_dir n d0" and r: "r < n"
    and plain: "\<forall>kv \<in> set (all_records mapf files d0). plain_key (Key kv)"
    and fresh: "temp_fresh mktemp" and srt: "sorts_by_key sortf" and free: "value_order_free reducef"
    and reply: "TaskId reply = int r"
  shows "\<exists>d'. reduce_task sortf reducef mktemp reply d = Inr d' \<and>
    job_dir mapf reducef files n d0 {..<length files} (insert r S) d'"
proof -
  obtain d' where d': "reduce_task sortf reducef mktemp reply d = Inr d'"
    and m: "map_of d' = (map_of d)(out_name r \<mapsto> concat (reduce_loop reducef (sortf (reduce_input (int r) d)) 0))"
    and dist: "distinct (map fst d) \<longrightarrow> distinct (map fst d')"
    using reduce_task_effect [OF fresh reply, of sortf reducef d] by blast
  have "reduce_loop reducef (sortf (reduce_input (int r) d)) 0 = partition_lines reducef n (all_records mapf files d0) r"
    by (rule reduce_loop_partition [OF srt free reduce_input_job [OF jd c r plain]])
  with m have "map_of d' = (map_of d)(out_name r \<mapsto> concat (partition_lines reducef n (all_records mapf files d0) r))"
    by simp
  then have "job_dir mapf reducef files n d0 {..<length files} (insert r S) d'"
    using jd r dist by (auto simp: job_dir_def)
  with d' show ?thesis by blast
qed

lemma run_replies_job:
  assumes "clean_dir n d0" "n > 0" "set files \<subseteq> dom (map_of d0)"
    "\<forall>kv \<in> set (all_records mapf files d0). plain_key (Key kv)"
    "temp_fresh mktemp" "sorts_by_key sortf" "value_order_free reducef"
    "valid_run files n T replies" "job_dir mapf reducef files n d0 T S d"
  shows "\<exists>d' T'. run_replies mapf reducef sortf mktemp replies d = Inr d' \<and>
    job_dir mapf reducef files n d0 T' (S \<union> reduced replies) d'"
  using assms(8,9)
proof (induction replies arbitrary: T S d)
  case Nil
  then show ?case by (auto simp: reduced_def)
next
  case (Cons reply replies)
  show ?case
  proof (cases "TaskType reply = ''map''")
    case True
    with Cons.prems(1) obtain i where i: "i < length files" "TaskId reply = int i" "MapFile reply = files ! i"
      "NReduce reply = int n" "valid_run files n (insert i T) replies" by auto
    obtain d1 where d1: "map_task mapf mktemp reply d = Inr d1" "job_dir mapf reducef files n d0 (insert i T) S d1"
      using job_dir_map [OF Cons.prems(2) assms(1,5,2,3) i(1-4)] by blast
    have "reduced (reply # replies) = reduced replies" using True by (auto simp: reduced_def)
    then show ?thesis using Cons.IH [OF i(5) d1(2)] d1(1) True by (simp add: worker_turn_def)
  next
    case False
    with Cons.prems(1) obtain r where r: "r < n" "TaskId reply = int r" "TaskType reply = ''reduce''"
      "T = {..<length files}" "valid_run files n T replies" by auto
    obtain d1 where d1: "reduce_task sortf reducef mktemp reply d = Inr d1"
      "job_dir mapf reducef files n d0 T (insert r S) d1"
      using job_dir_reduce [OF _ assms(1) r(1) assms(4,5,6,7) r(2)] Cons.prems(2) unfolding r(4) by blast
    have "S \<union> reduced (reply # replies) = insert r S \<union> reduced replies" using r by (auto simp: reduced_def)
    then show ?thesis using Cons.IH [OF r(5) d1(2)] d1(1) r(3) by (simp add: worker_turn_def)
  qed
qed

lemma seq_intermediate_all:
  "set files \<subseteq> dom (map_of d) \<Longrightarrow> seq_intermediate mapf files d = Inr (all_records mapf files d)"
  by (induction files) (auto simp: all_records_def)

lemma mrsequential_lines:
  assumes "sorts_by_key sortf" "value_order_free reducef" "set files \<subseteq> dom (map_of d)"
  shows "mrsequential mapf reducef sortf files d =
    Inr (gm_put ''mr-out-0'' (concat (map (key_line reducef (all_records mapf files d))
           (sorted_list_of_set (Key ` set (all_records mapf files d))))) d)"
proof -
  let ?all = "all_records mapf files d"
  have "partition_of 1 ?all 0 = ?all" by (simp add: partition_of_def)
  then have "reduce_loop reducef (sortf ?all) 0 = partition_lines reducef 1 ?all 0"
    by (intro reduce_loop_partition [OF assms(1,2)]) simp
  then show ?thesis using assms(3) by (simp add: mrsequential_def seq_intermediate_all partition_lines_def)
qed

lemma mapreduce_job:
  assumes "sorts_by_key sortf" "value_order_free reducef" "temp_fresh mktemp"
    and "clean_dir n d" "distinct (map fst d)" "n > 0" "set files \<subseteq> dom (map_of d)"
    and "\<forall>kv \<in> set (all_records mapf files d). plain_key (Key kv)"
    and "valid_run files n {} replies" "reduced replies = {..<n}"
  shows "\<exists>d' line keys. run_replies mapf reducef sortf mktemp replies d = Inr d' \<and>
    keys = Key ` set (all_records mapf files d) \<and>
    mrsequential mapf reducef sortf files d =
      Inr (gm_put ''mr-out-0'' (concat (map line (sorted_list_of_set keys))) d) \<and>
    line = key_line reducef (all_records mapf files d) \<and>
    (\<forall>r < n. map_of d' (''mr-out-'' @ itoa (int r)) =
       Some (concat (map line (sorted_list_of_set {k \<in> keys. ihash k mod int n = int r}))))"
proof -
  have "job_dir mapf reducef files n d {} {} d" using assms(5) by (simp add: job_dir_def)
  with run_replies_job [OF assms(4,6,7,8,3,1,2,9)] assms(10) obtain d' T where
    run: "run_replies mapf reducef sortf mktemp replies d = Inr d'"
    and jd: "job_dir mapf reducef files n d T {..<n} d'" by fastforce
  show ?thesis using run jd mrsequential_lines [OF assms(1,2,7), of mapf]
    unfolding job_dir_def partition_lines_def out_name_def by blast
qed

section \<open>Properties of the worker\<close>


text \<open>
  \<open>reduceHelper\<close>'s two nested index loops write, for sorted records, one line per distinct key in
  the order of the keys, with \<open>reducef\<close> applied to all the values of that key.
\<close>
theorem reduce_loop_groups:
  assumes "sorted_wrt (\<lambda>a b. \<not> ByKey_Less b a) kva"
  shows "reduce_loop reducef kva 0 = map (key_line reducef kva) (sorted_list_of_set (Key ` set kva))"
  using reduce_loop_sorted [of 0 kva reducef] assms by simp

text \<open>
  Records survive the intermediate files: decoding what the map task encoded gives the records
  back, whatever bytes their keys and values hold.
\<close>
theorem intermediate_roundtrip: "json_DecodeAll (concat (map json_Encode kva)) = kva"
  by (rule json.dec_stream)

text \<open>
  The glob pattern of a reduce task also matches the task's own output, so a reduce task that is
  run again after it has published takes whatever decodes from \<open>mr-out-r\<close> as further records.
\<close>
theorem reduce_reads_own_output:
  assumes "map_of d (''mr-out-'' @ itoa (int r)) = Some content"
  shows "set (json_DecodeAll content) \<subseteq> set (reduce_input (int r) d)"
proof -
  have o: "map_of d (out_name r) = Some content" using assms by (simp add: out_name_def)
  then have "out_name r \<in> set (Glob ''mr-'' (''-'' @ itoa (int r)) d)" by (auto simp: Glob_def)
  with o show ?thesis by (force simp: reduce_input_def)
qed

section \<open>Witnesses\<close>

lemma small_digits: "nat_digits 0 = ''0''" "nat_digits (Suc (Suc 0)) = ''2''"
  by code_simp+

definition wit_mktemp :: temp_namer where
  "wit_mktemp p d = concat (map fst d) @ ''0''"

lemma wit_mktemp_fresh: "temp_fresh wit_mktemp"
proof -
  have "length x < length (p @ wit_mktemp p d)" if "x \<in> fst ` set d" for x p and d :: fs
  proof -
    from that have "length x \<le> length (concat (map fst d))"
      unfolding length_concat by (intro member_le_sum_list) auto
    then show ?thesis by (simp add: wit_mktemp_def)
  qed
  then have "p @ wit_mktemp p d \<notin> fst ` set d" for p and d :: fs by blast
  then show ?thesis by (simp add: temp_fresh_def map_of_eq_None_iff)
qed

lemma sort_key_sorts: "sorts_by_key (sort_key Key)"
proof -
  have "sorted_by_key (sort_key Key kva)" for kva
    using sorted_sort_key [of Key kva] by (simp add: ByKey_Less_def not_less sorted_map)
  then show ?thesis by (simp add: sorts_by_key_def)
qed

text \<open>One file, two records with the same key, one reduce task; the map task is run twice.\<close>

definition wit_mapf :: "string \<Rightarrow> string \<Rightarrow> key_value list" where
  "wit_mapf f c = [\<lparr>Key = ''a'', Value = c\<rparr>, \<lparr>Key = ''a'', Value = ''1''\<rparr>]"

definition wit_replies :: "rpc_reply list" where
  "wit_replies =
     [\<lparr>TaskType = ''map'', MapFile = ''in'', NReduce = 1, TaskId = 0, Attempt = 0\<rparr>,
      \<lparr>TaskType = ''map'', MapFile = ''in'', NReduce = 1, TaskId = 0, Attempt = 1\<rparr>,
      \<lparr>TaskType = ''reduce'', MapFile = '''', NReduce = 1, TaskId = 0, Attempt = 0\<rparr>]"


lemma reduce_loop_groups_witness:
  "reduce_loop (\<lambda>k vs. concat vs) [\<lparr>Key = ''a'', Value = ''1''\<rparr>, \<lparr>Key = ''a'', Value = ''2''\<rparr>, \<lparr>Key = ''b'', Value = ''3''\<rparr>] 0 =
     [''a 12'' @ [CHR 0x0A], ''b 3'' @ [CHR 0x0A]]"
  using reduce_loop_groups [of "[\<lparr>Key = ''a'', Value = ''1''\<rparr>, \<lparr>Key = ''a'', Value = ''2''\<rparr>, \<lparr>Key = ''b'', Value = ''3''\<rparr>]" "\<lambda>k vs. concat vs"]
  by (simp add: ByKey_Less_def key_line_def reduce_line_def)

lemma reduce_reads_own_output_witness:
  "{\<lparr>Key = ''x'', Value = ''y''\<rparr>} \<subseteq> set (reduce_input 0 [(''mr-out-0'', json_Encode \<lparr>Key = ''x'', Value = ''y''\<rparr>)])"
  using reduce_reads_own_output [of "[(''mr-out-0'', json_Encode \<lparr>Key = ''x'', Value = ''y''\<rparr>)]" 0]
    json.dec_stream [of "[\<lparr>Key = ''x'', Value = ''y''\<rparr>]"]
  by (simp add: itoa_def small_digits)

end
