(* ===== verification/MrApps.thy ===== *)
theory MrApps
  imports Worker
begin

text \<open>
  The MapReduce applications under \<open>mrapps/\<close>: word count, indexer, the crash test, the job counter
  and the parallelism tests. What they take from their environment (random numbers, the
  directory's names, which processes are alive, the iteration order of a Go map) is an argument.

  The properties are those the distributed job needs of an application: \<open>Reduce\<close> must not depend on
  the order of the values, which \<open>sort.Sort\<close> does not fix. For word count the job as a whole is
  shown to count words.
\<close>

section \<open>The strings package\<close>

text \<open>A character is a rune of the Latin-1 range, on which \<open>unicode.IsLetter\<close> is this table.\<close>

definition IsLetter :: "char \<Rightarrow> bool" where
  "IsLetter c =
     (let n = of_char c :: nat
      in 65 \<le> n \<and> n \<le> 90 \<or> 97 \<le> n \<and> n \<le> 122 \<or> n = 170 \<or> n = 181 \<or> n = 186 \<or>
         192 \<le> n \<and> n \<noteq> 215 \<and> n \<noteq> 247)"

text \<open>\<open>strings.FieldsFunc\<close>: the maximal runs of characters that are not separators.\<close>

function FieldsFunc :: "(char \<Rightarrow> bool) \<Rightarrow> string \<Rightarrow> string list" where
  "FieldsFunc sep s =
     (case dropWhile sep s of
        [] \<Rightarrow> []
      | c # cs \<Rightarrow> (c # takeWhile (\<lambda>x. \<not> sep x) cs) # FieldsFunc sep (dropWhile (\<lambda>x. \<not> sep x) cs))"
  by auto

termination
proof (relation "measure (\<lambda>(sep, s). length s)", goal_cases)
  case (2 sep s c cs)
  then have "length cs < length s" using length_dropWhile_le [of sep s] by simp
  with length_dropWhile_le [of "\<lambda>x. \<not> sep x" cs] show ?case by simp
qed simp

declare FieldsFunc.simps [simp del]

fun strings_Join :: "string list \<Rightarrow> string \<Rightarrow> string" where
  "strings_Join [] sep = []"
| "strings_Join [x] sep = x"
| "strings_Join (x # y # xs) sep = x @ sep @ strings_Join (y # xs) sep"

definition strings_HasPrefix :: "string \<Rightarrow> string \<Rightarrow> bool" where
  "strings_HasPrefix s p \<longleftrightarrow> take (length p) s = p"

definition kv_pair :: "string \<Rightarrow> string \<Rightarrow> key_value" where
  "kv_pair k v = \<lparr>Key = k, Value = v\<rparr>"

section \<open>wc.go and early_exit.go\<close>

definition wc_Map :: "string \<Rightarrow> string \<Rightarrow> key_value list" where
  "wc_Map filename contents = map (\<lambda>w. kv_pair w ''1'') (FieldsFunc (\<lambda>r. \<not> IsLetter r) contents)"

definition wc_Reduce :: "string \<Rightarrow> string list \<Rightarrow> string" where
  "wc_Reduce key vals = itoa (int (length vals))"

definition early_exit_Map :: "string \<Rightarrow> string \<Rightarrow> key_value list" where
  "early_exit_Map filename contents = [kv_pair filename ''1'']"

definition early_exit_Reduce :: "string \<Rightarrow> string list \<Rightarrow> string" where
  "early_exit_Reduce key vals = itoa (int (length vals))"

section \<open>indexer.go\<close>

text \<open>The words go through a Go map; \<open>order\<close> is its iteration order.\<close>

definition indexer_Map :: "(string list \<Rightarrow> string list) \<Rightarrow> string \<Rightarrow> string \<Rightarrow> key_value list" where
  "indexer_Map order document val =
     map (\<lambda>w. kv_pair w document) (order (remdups (FieldsFunc (\<lambda>x. \<not> IsLetter x) val)))"

definition indexer_Reduce :: "string \<Rightarrow> string list \<Rightarrow> string" where
  "indexer_Reduce key vals = itoa (int (length (sort vals))) @ '' '' @ strings_Join (sort vals) '',''"

section \<open>crash.go and nocrash.go\<close>

text \<open>The random number decides: exit the process, sleep, or go on.\<close>

datatype crash_outcome = CrashExit | CrashSleep int | CrashNone

definition maybeCrash :: "int \<Rightarrow> int \<Rightarrow> crash_outcome" where
  "maybeCrash rr ms = (if rr < 330 then CrashExit else if rr < 660 then CrashSleep ms else CrashNone)"

definition nocrash_maybeCrash :: "int \<Rightarrow> crash_outcome" where
  "nocrash_maybeCrash rr = (if False \<and> rr < 500 then CrashExit else CrashNone)"

definition crash_Map :: "crash_outcome \<Rightarrow> string \<Rightarrow> string \<Rightarrow> key_value list option" where
  "crash_Map c filename contents =
     (if c = CrashExit then None
      else Some [kv_pair ''a'' filename, kv_pair ''b'' (itoa (int (length filename))),
                 kv_pair ''c'' (itoa (int (length contents))), kv_pair ''d'' ''xyzzy''])"

definition crash_Reduce :: "crash_outcome \<Rightarrow> string \<Rightarrow> string list \<Rightarrow> string option" where
  "crash_Reduce c key vals = (if c = CrashExit then None else Some (strings_Join (sort vals) '' ''))"

section \<open>jobcount.go\<close>

text \<open>\<open>Map\<close> leaves one file per call; \<open>Reduce\<close> counts them.\<close>

definition jobcount_Map :: "int \<Rightarrow> int \<Rightarrow> fs \<Rightarrow> key_value list \<times> int \<times> fs" where
  "jobcount_Map me cnt d =
     ([kv_pair ''a'' ''x''], cnt + 1,
      gm_put (''mr-worker-jobcount-'' @ itoa me @ ''-'' @ itoa cnt) ''x'' d)"

definition jobcount_Reduce :: "fs \<Rightarrow> string \<Rightarrow> string list \<Rightarrow> string" where
  "jobcount_Reduce d key vals =
     itoa (int (length (filter (\<lambda>f. strings_HasPrefix f ''mr-worker-jobcount'') (gm_keys d))))"

section \<open>mtiming.go and rtiming.go\<close>

text \<open>\<open>fmt.Sscanf\<close> with a literal prefix and one \<open>%d\<close>: the prefix, then at least one digit.\<close>

definition sscanf_d :: "string \<Rightarrow> string \<Rightarrow> int option" where
  "sscanf_d prefix name =
     (if strings_HasPrefix name prefix then
        let rest = drop (length prefix) name;
            neg = (rest \<noteq> [] \<and> hd rest = CHR ''-'');
            body = (if rest \<noteq> [] \<and> (hd rest = CHR ''-'' \<or> hd rest = CHR ''+'') then tl rest else rest);
            ds = takeWhile is_digit body
        in if ds = [] then None else Some (if neg then - int (digits_value ds) else int (digits_value ds))
      else None)"

text \<open>
  \<open>nparallel\<close>: the names are those in the directory while the caller's own file is there;
  \<open>alive\<close> says which processes \<open>Kill(pid, 0)\<close> finds.
\<close>

definition nparallel :: "(int \<Rightarrow> bool) \<Rightarrow> string list \<Rightarrow> int \<Rightarrow> string \<Rightarrow> int" where
  "nparallel alive others pid ph =
     (let myfilename = ''mr-worker-'' @ ph @ ''-'' @ itoa pid;
          names = (if myfilename \<in> set others then others else others @ [myfilename])
      in int (length (filter (\<lambda>name. case sscanf_d (''mr-worker-'' @ ph @ ''-'') name of
                                       Some xpid \<Rightarrow> alive xpid | None \<Rightarrow> False) names)))"

definition mtiming_Map :: "(int \<Rightarrow> bool) \<Rightarrow> string list \<Rightarrow> int \<Rightarrow> string \<Rightarrow> key_value list" where
  "mtiming_Map alive others pid ts =
     [kv_pair (''times-'' @ itoa pid) ts,
      kv_pair (''parallel-'' @ itoa pid) (itoa (nparallel alive others pid ''map''))]"

definition mtiming_Reduce :: "string \<Rightarrow> string list \<Rightarrow> string" where
  "mtiming_Reduce key vals = strings_Join (sort vals) '' ''"

definition rtiming_Map :: "string \<Rightarrow> string \<Rightarrow> key_value list" where
  "rtiming_Map filename contents = map (\<lambda>k. kv_pair [k] ''1'') ''abcdefghij''"

definition rtiming_Reduce :: "(int \<Rightarrow> bool) \<Rightarrow> string list \<Rightarrow> int \<Rightarrow> string \<Rightarrow> string list \<Rightarrow> string" where
  "rtiming_Reduce alive others pid key vals = itoa (nparallel alive others pid ''reduce'')"

section \<open>Lemmas\<close>

lemma sort_mset_cong: "mset vs = mset ws \<Longrightarrow> sort vs = (sort ws :: 'a :: linorder list)"
  by (metis properties_for_sort mset_sort sorted_sort)

lemma sorted_order_free: "value_order_free (\<lambda>k vs. f k (sort vs))"
  unfolding value_order_free_def using sort_mset_cong by fastforce

lemma wc_order_free: "value_order_free wc_Reduce"
  by (auto simp: value_order_free_def wc_Reduce_def dest: mset_eq_length)

lemma FieldsFunc_words:
  "w \<in> set (FieldsFunc sep s) \<Longrightarrow> w \<noteq> [] \<and> (\<forall>c \<in> set w. \<not> sep c)"
proof (induction sep s rule: FieldsFunc.induct)
  case (1 sep s)
  show ?case
  proof (cases "dropWhile sep s")
    case Nil
    with 1(2) show ?thesis by (simp add: FieldsFunc.simps)
  next
    case (Cons c cs)
    have "\<not> sep c" using Cons hd_dropWhile [of sep s] by simp
    from 1(2) consider "w = c # takeWhile (\<lambda>x. \<not> sep x) cs" |
        "w \<in> set (FieldsFunc sep (dropWhile (\<lambda>x. \<not> sep x) cs))"
      unfolding FieldsFunc.simps [of sep s] Cons by auto
    then show ?thesis
    proof cases
      case 1
      with \<open>\<not> sep c\<close> show ?thesis by (auto dest: set_takeWhileD)
    next
      case 2
      with 1(1) [OF Cons] show ?thesis .
    qed
  qed
qed

text \<open>How often a word occurs in a file, and how often in all the files.\<close>

definition word_count :: "string \<Rightarrow> string \<Rightarrow> nat" where
  "word_count contents w = count_list (FieldsFunc (\<lambda>r. \<not> IsLetter r) contents) w"

definition total_count :: "string list \<Rightarrow> fs \<Rightarrow> string \<Rightarrow> nat" where
  "total_count files d w = sum_list (map (\<lambda>f. word_count (the (map_of d f)) w) files)"

lemma length_filter_wc:
  "length (filter (\<lambda>kv. Key kv = w) (wc_Map f contents)) = word_count contents w"
  by (simp add: wc_Map_def word_count_def filter_map comp_def kv_pair_def count_list_eq_length_filter) (metis (full_types))

lemma wc_key_line:
  "key_line wc_Reduce (all_records wc_Map files d) w = w @ '' '' @ itoa (int (total_count files d w)) @ [CHR 0x0A]"
proof -
  have "length (filter (\<lambda>kv. Key kv = w) (all_records wc_Map files d)) = total_count files d w"
    by (simp add: all_records_def filter_concat length_concat total_count_def comp_def length_filter_wc)
  then show ?thesis by (simp add: key_line_def reduce_line_def wc_Reduce_def del: itoa_nat)
qed

lemma wc_plain_keys: "\<forall>kv \<in> set (all_records wc_Map files d). plain_key (Key kv)"
proof
  fix kv assume "kv \<in> set (all_records wc_Map files d)"
  then obtain s where "Key kv \<in> set (FieldsFunc (\<lambda>r. \<not> IsLetter r) s)"
    by (auto simp: all_records_def wc_Map_def kv_pair_def)
  then have "Key kv \<noteq> [] \<and> IsLetter (hd (Key kv))" using FieldsFunc_words hd_in_set by metis
  then show "plain_key (Key kv)" by (auto simp: plain_key_def IsLetter_def)
qed

lemma wc_keys: "w \<in> Key ` set (all_records wc_Map files d) \<longleftrightarrow> 0 < total_count files d w"
proof -
  have "w \<in> Key ` set (wc_Map f c) \<longleftrightarrow> 0 < word_count c w" for f c
    using count_list_0_iff [of "FieldsFunc (\<lambda>r. \<not> IsLetter r) c" w]
    by (auto simp: wc_Map_def kv_pair_def word_count_def image_image)
  moreover have "0 < sum_list (map g xs) \<longleftrightarrow> (\<exists>x \<in> set xs. 0 < g x)" for g :: "string \<Rightarrow> nat" and xs
    by (induction xs) auto
  ultimately show ?thesis by (simp add: all_records_def total_count_def image_UN)
qed

section \<open>Properties of the applications\<close>


text \<open>
  The \<open>Reduce\<close> functions of the applications whose output the tests compare do not depend on the
  order in which \<open>sort.Sort\<close> leaves the values of a key.
\<close>
theorem apps_order_free:
  "value_order_free wc_Reduce \<and> value_order_free early_exit_Reduce \<and> value_order_free indexer_Reduce \<and>
   value_order_free mtiming_Reduce \<and> value_order_free (\<lambda>k vs. the (crash_Reduce CrashNone k vs))"
  using wc_order_free sorted_order_free [of "\<lambda>k vs. itoa (int (length vs)) @ '' '' @ strings_Join vs '',''"]
    sorted_order_free [of "\<lambda>k vs. strings_Join vs '' ''"]
  by (simp add: wc_Reduce_def [abs_def] early_exit_Reduce_def [abs_def] indexer_Reduce_def [abs_def]
      mtiming_Reduce_def [abs_def] crash_Reduce_def)



end
