(* ===== verification/MrUtil.thy ===== *)
theory MrUtil
  imports Worker
begin

text \<open>
  The harness of the MapReduce tests (\<open>mr/util.go\<close>): random names, \<open>findFiles\<close>, the reference output
  of the sequential program, the merged output of the reduce tasks and their comparison. The
  programs \<open>find\<close> and \<open>sort\<close> that the harness starts are parameters, with what their manuals promise
  as \<open>find_ok\<close> and \<open>sort_ok\<close>. The result is that the comparison of a test succeeds for every run the
  coordinator can produce.
\<close>

section \<open>RandString\<close>

text \<open>The \<open>2*n\<close> bytes read from \<open>crypto/rand\<close> are an argument; \<open>s[0:n]\<close> panics past the end.\<close>

definition RandString :: "nat \<Rightarrow> nat list \<Rightarrow> string result" where
  "RandString n b = (let s = b64_encode b in if n \<le> length s then Inr (take n s) else Inl (Panic ''slice bounds out of range''))"

definition coordinatorSock :: "nat list \<Rightarrow> string result" where
  "coordinatorSock b = res_bind (RandString 20 b) (\<lambda>r. Inr (''/tmp/5840-mr-'' @ r))"

definition mkOut :: "nat list \<Rightarrow> string result" where
  "mkOut b = res_bind (RandString 8 b) (\<lambda>r. Inr (''mr-tmp-'' @ r))"

section \<open>findFiles\<close>

text \<open>Lines, \<open>strings.Split\<close> at a newline and \<open>strings.TrimSpace\<close> (on ASCII).\<close>

fun split_lines :: "string \<Rightarrow> string list" where
  "split_lines [] = [[]]"
| "split_lines (c # cs) =
     (if c = CHR 0x0A then [] # split_lines cs
      else case split_lines cs of l # ls \<Rightarrow> (c # l) # ls | [] \<Rightarrow> [[c]])"

definition is_space :: "char \<Rightarrow> bool" where
  "is_space c \<longleftrightarrow> c \<in> {CHR 0x09, CHR 0x0A, CHR 0x0B, CHR 0x0C, CHR 0x0D, CHR '' ''}"

definition TrimSpace :: "string \<Rightarrow> string" where
  "TrimSpace s = rev (dropWhile is_space (rev (dropWhile is_space s)))"

text \<open>
  \<open>find dir -type f -name pat\<close> prints the paths of the files below \<open>dir\<close> whose name matches \<open>pat\<close>, one per
  line, in the order of the directory. Patterns are shell patterns; those of the tests use \<open>*\<close> and one
  class of digits.
\<close>

fun fnmatch :: "string \<Rightarrow> string \<Rightarrow> bool" where
  "fnmatch [] s \<longleftrightarrow> s = []"
| "fnmatch (p # ps) [] \<longleftrightarrow> p = CHR ''*'' \<and> fnmatch ps []"
| "fnmatch (p # ps) (c # cs) \<longleftrightarrow>
     (if p = CHR ''*'' then fnmatch ps (c # cs) \<or> fnmatch (p # ps) cs
      else if take 5 (p # ps) = ''[0-9]'' then is_digit c \<and> fnmatch (drop 4 ps) cs
      else p = c \<and> fnmatch ps cs)"

text \<open>
  The directory \<open>d\<close> holds the files by their paths relative to the working directory of the workers;
  names with a slash lie outside it.
\<close>

type_synonym find_prog = "string \<Rightarrow> string \<Rightarrow> fs \<Rightarrow> string"

definition found :: "string \<Rightarrow> fs \<Rightarrow> string list" where
  "found pat d = filter (\<lambda>x. CHR ''/'' \<notin> set x \<and> fnmatch pat x) (gm_keys d)"

definition find_line :: "string \<Rightarrow> string \<Rightarrow> string" where
  "find_line dir x = dir @ ''/'' @ x @ [CHR 0x0A]"

definition find_ok :: "find_prog \<Rightarrow> bool" where
  "find_ok findp \<longleftrightarrow>
     (\<forall>dir pat d. \<exists>names. findp dir pat d = concat (map (find_line dir) names) \<and> mset names = mset (found pat d))"

definition findFiles :: "find_prog \<Rightarrow> string \<Rightarrow> string \<Rightarrow> fs \<Rightarrow> string list" where
  "findFiles findp dir s d =
     (let s1 = TrimSpace (findp dir s d) in if s1 = [] then [] else split_lines s1)"

text \<open>\<open>filepath.Join("..", f)\<close> for a path \<open>f\<close> that is already clean and does not begin with \<open>/\<close>.\<close>

definition findFilesPre :: "find_prog \<Rightarrow> string \<Rightarrow> string \<Rightarrow> fs \<Rightarrow> string list" where
  "findFilesPre findp dir s d = map (\<lambda>f. ''../'' @ f) (findFiles findp dir s d)"

section \<open>sort and cmp\<close>

text \<open>The lines of a file; a missing newline at its end is supplied.\<close>

definition file_lines :: "string \<Rightarrow> string list" where
  "file_lines s = (let ls = split_lines s in if last ls = [] then butlast ls else ls)"

definition unlines :: "string list \<Rightarrow> string" where
  "unlines ls = concat (map (\<lambda>l. l @ [CHR 0x0A]) ls)"

text \<open>
  \<open>sort\<close> writes the lines of all its files, ordered by the collation \<open>le\<close> of the locale, which the
  comparison of bytes as a last resort makes a linear order.
\<close>

type_synonym sort_prog = "string list \<Rightarrow> string"

definition sort_ok :: "(string \<Rightarrow> string \<Rightarrow> bool) \<Rightarrow> sort_prog \<Rightarrow> bool" where
  "sort_ok le sortp \<longleftrightarrow>
     (\<forall>x y. le x y \<or> le y x) \<and> (\<forall>x y. le x y \<longrightarrow> le y x \<longrightarrow> x = y) \<and> (\<forall>x y z. le x y \<longrightarrow> le y z \<longrightarrow> le x z) \<and>
     (\<forall>cs. \<exists>ls. sortp cs = unlines ls \<and> mset ls = mset (concat (map file_lines cs)) \<and> sorted_wrt le ls)"

text \<open>A path below \<open>tmp\<close> names a file of the directory.\<close>

definition open_path :: "string \<Rightarrow> fs \<Rightarrow> string \<Rightarrow> string option" where
  "open_path tmp d p =
     (if take (length tmp + 1) p = tmp @ ''/'' then map_of d (drop (length tmp + 1) p) else None)"

fun open_all :: "string \<Rightarrow> fs \<Rightarrow> string list \<Rightarrow> string list option" where
  "open_all tmp d [] = Some []"
| "open_all tmp d (p # ps) =
     (case (open_path tmp d p, open_all tmp d ps) of (Some c, Some cs) \<Rightarrow> Some (c # cs) | _ \<Rightarrow> None)"

definition run_sort :: "sort_prog \<Rightarrow> string \<Rightarrow> fs \<Rightarrow> string list \<Rightarrow> string result" where
  "run_sort sortp tmp d ps =
     (case open_all tmp d ps of None \<Rightarrow> Inl (Fatal ''sort failed'') | Some cs \<Rightarrow> Inr (sortp cs))"

definition mergeOutput :: "find_prog \<Rightarrow> sort_prog \<Rightarrow> string \<Rightarrow> string \<Rightarrow> fs \<Rightarrow> fs result" where
  "mergeOutput findp sortp tmp out d =
     (let files = findFiles findp tmp ''mr-out-[0-9]'' d
      in if length files < 1 then Inl (Fatal ''reduce created no mr-out-X output files!'')
         else let d1 = gm_put out [] d
              in res_bind (run_sort sortp tmp d1 files) (\<lambda>o1. Inr (gm_put out o1 d1)))"

definition mkCorrectOutput ::
  "(fs \<Rightarrow> fs result) \<Rightarrow> sort_prog \<Rightarrow> string \<Rightarrow> string \<Rightarrow> fs \<Rightarrow> fs result" where
  "mkCorrectOutput sequential sortp tmp out d =
     res_bind (sequential d) (\<lambda>d1.
       let d2 = gm_put out [] d1
       in res_bind (run_sort sortp tmp d2 [tmp @ ''/mr-out-0'']) (\<lambda>o1.
            let d3 = gm_put out o1 d2
            in if map_of d3 ''mr-out-0'' = None then Inl (Fatal ''Remove failed'')
               else Inr (gm_delete ''mr-out-0'' d3)))"

definition runCmp :: "string \<Rightarrow> string \<Rightarrow> fs \<Rightarrow> unit result" where
  "runCmp f1 f2 d =
     (if map_of d f1 \<noteq> None \<and> map_of d f1 = map_of d f2 then Inr () else Inl (Fatal ''incorrect combined reduce output''))"

text \<open>\<open>os.Remove\<close> of a file that does not exist fails, and \<open>cleanup\<close> ignores it.\<close>

definition remove_path :: "string \<Rightarrow> string \<Rightarrow> fs \<Rightarrow> fs" where
  "remove_path tmp p d =
     (if take (length tmp + 1) p = tmp @ ''/'' then gm_delete (drop (length tmp + 1) p) d else d)"

definition cleanup :: "find_prog \<Rightarrow> string \<Rightarrow> fs \<Rightarrow> fs" where
  "cleanup findp tmp d = fold (remove_path tmp) (findFiles findp tmp ''mr-*'' d) d"

text \<open>
  A test: the reference output, a run of the distributed job, the merged output, the comparison.
\<close>

definition mr_test ::
  "(fs \<Rightarrow> fs result) \<Rightarrow> (fs \<Rightarrow> fs result) \<Rightarrow> find_prog \<Rightarrow> sort_prog \<Rightarrow> string \<Rightarrow> string \<Rightarrow> string \<Rightarrow> fs \<Rightarrow> fs result" where
  "mr_test sequential distributed findp sortp tmp out correct d =
     res_bind (mkCorrectOutput sequential sortp tmp correct d) (\<lambda>d1.
     res_bind (distributed d1) (\<lambda>d2.
     res_bind (mergeOutput findp sortp tmp out d2) (\<lambda>d3.
     res_bind (runCmp out correct d3) (\<lambda>_. Inr d3))))"

section \<open>Names and lines\<close>

lemma RandString_alphabet:
  assumes "length b = 2 * n"
  shows "\<exists>s. RandString n b = Inr s \<and> length s = n \<and> set s \<subseteq> set url_alphabet"
  using b64_prefix [OF assms] by (auto simp: RandString_def Let_def)

lemma split_lines_nonempty [simp]: "split_lines s \<noteq> []"
  by (induction s) (auto split: list.split)

lemma split_lines_newline: "split_lines (l @ CHR 0x0A # s) = split_lines l @ split_lines s"
  by (induction l) (auto split: list.split)

lemma split_lines_plain: "CHR 0x0A \<notin> set l \<Longrightarrow> split_lines l = [l]"
  by (induction l) auto

lemma file_lines_append: "file_lines ((l @ [CHR 0x0A]) @ s) = split_lines l @ file_lines s"
  by (simp add: file_lines_def split_lines_newline Let_def butlast_append)

lemma file_lines_concat:
  assumes "\<forall>l \<in> set ls. \<exists>k. l = k @ [CHR 0x0A]"
  shows "file_lines (concat ls) = concat (map file_lines ls)"
  using assms
proof (induction ls)
  case (Cons l ls)
  then obtain k where "l = k @ [CHR 0x0A]" by auto
  with Cons show ?case using file_lines_append [of k "concat ls"] file_lines_append [of k "[]"]
    by (simp add: file_lines_def)
qed (simp add: file_lines_def)

lemma split_unlines:
  assumes "\<forall>p \<in> set ps. CHR 0x0A \<notin> set p" "ps \<noteq> []"
  shows "split_lines (butlast (unlines ps)) = ps"
  using assms
proof (induction ps)
  case (Cons p ps)
  show ?case
  proof (cases ps)
    case Nil
    with Cons.prems show ?thesis by (simp add: unlines_def split_lines_plain)
  next
    case (Cons q qs)
    then have "butlast (unlines (p # ps)) = p @ CHR 0x0A # butlast (unlines ps)"
      by (simp add: unlines_def butlast_append)
    with Cons Cons.IH Cons.prems show ?thesis by (simp add: split_lines_newline split_lines_plain)
  qed
qed simp

lemma TrimSpace_line:
  assumes "s \<noteq> []" "\<not> is_space (hd s)" "\<not> is_space (last s)"
  shows "TrimSpace (s @ [CHR 0x0A]) = s"
proof -
  have "dropWhile is_space (s @ [CHR 0x0A]) = s @ [CHR 0x0A]" using assms(1,2) by (cases s) auto
  moreover have "dropWhile is_space (rev s) = rev s" using assms(1,3) by (cases s rule: rev_cases) auto
  moreover have "is_space (CHR 0x0A)" by (simp add: is_space_def)
  ultimately show ?thesis by (simp add: TrimSpace_def)
qed

text \<open>\<open>findFiles\<close> gives back the paths that \<open>find\<close> prints.\<close>

lemma findFiles_paths:
  assumes "find_ok findp" and dir: "dir \<noteq> []" "\<forall>c \<in> set dir. \<not> is_space c"
    and names: "\<forall>x \<in> set (found pat d). x \<noteq> [] \<and> (\<forall>c \<in> set x. \<not> is_space c)"
  shows "\<exists>ns. findFiles findp dir pat d = map (\<lambda>x. dir @ ''/'' @ x) ns \<and> mset ns = mset (found pat d)"
proof -
  obtain ns where ns: "findp dir pat d = concat (map (find_line dir) ns)" "mset ns = mset (found pat d)"
    using assms(1) unfolding find_ok_def by blast
  define ps where "ps = map (\<lambda>x. dir @ ''/'' @ x) ns"
  have "find_line dir = (\<lambda>x. (dir @ ''/'' @ x) @ [CHR 0x0A])" by (simp add: find_line_def fun_eq_iff)
  then have out: "findp dir pat d = unlines ps" by (simp add: ns(1) ps_def unlines_def comp_def)
  have n: "\<forall>x \<in> set ns. x \<noteq> [] \<and> (\<forall>c \<in> set x. \<not> is_space c)" using names mset_eq_setD [OF ns(2)] by simp
  then have sp: "\<forall>p \<in> set ps. \<forall>c \<in> set p. \<not> is_space c" using dir by (auto simp: ps_def is_space_def)
  have pne: "\<forall>p \<in> set ps. p \<noteq> []" by (auto simp: ps_def)
  have nl: "\<forall>p \<in> set ps. CHR 0x0A \<notin> set p" using sp by (auto simp: is_space_def)
  show ?thesis
  proof (cases "ps = []")
    case True
    then have "findFiles findp dir pat d = []" by (simp add: findFiles_def out unlines_def TrimSpace_def)
    with True ns(2) show ?thesis by (auto simp: ps_def)
  next
    case False
    then obtain qs q where q: "ps = qs @ [q]" by (cases ps rule: rev_cases) auto
    define s where "s = unlines qs @ q"
    have qne: "q \<noteq> []" using q pne by simp
    then have ql: "\<not> is_space (last q)" using q sp by simp
    have u: "unlines ps = s @ [CHR 0x0A]" by (simp add: q s_def unlines_def)
    have "\<not> is_space (hd s)"
    proof (cases qs)
      case Nil
      with q sp qne show ?thesis by (auto simp: s_def unlines_def)
    next
      case (Cons p qs')
      then have "p \<in> set ps" "p \<noteq> []" using q pne by auto
      with sp Cons show ?thesis by (auto simp: s_def unlines_def)
    qed
    then have "TrimSpace (unlines ps) = s" unfolding u
      by (intro TrimSpace_line) (use qne ql in \<open>auto simp: s_def\<close>)
    moreover have "butlast (unlines ps) = s" by (simp add: u)
    moreover have "s \<noteq> []" using qne by (simp add: s_def)
    ultimately have "findFiles findp dir pat d = ps"
      using split_unlines [OF nl False] by (simp add: findFiles_def out Let_def)
    with ns(2) show ?thesis by (auto simp: ps_def)
  qed
qed

section \<open>What sort and find determine\<close>

lemma sorted_wrt_unique:
  assumes anti: "\<And>x y. le x y \<Longrightarrow> le y x \<Longrightarrow> x = y"
    and "sorted_wrt le xs" "sorted_wrt le ys" "mset xs = mset ys"
  shows "xs = ys"
  using assms(2-)
proof (induction xs arbitrary: ys)
  case (Cons x xs)
  from Cons.prems(3) obtain y ys' where ys: "ys = y # ys'" by (cases ys) auto
  have "x \<in> set ys" "y \<in> set (x # xs)" using mset_eq_setD [OF Cons.prems(3)] ys by auto
  then have "x = y" using Cons.prems(1,2) anti ys by auto
  with Cons ys show ?case by simp
qed simp

lemma sort_determined:
  assumes "sort_ok le sortp" "mset (concat (map file_lines cs)) = mset (concat (map file_lines cs'))"
  shows "sortp cs = sortp cs'"
proof -
  obtain ls where ls: "sortp cs = unlines ls" "mset ls = mset (concat (map file_lines cs))" "sorted_wrt le ls"
    using assms(1) unfolding sort_ok_def by blast
  obtain ls' where ls': "sortp cs' = unlines ls'" "mset ls' = mset (concat (map file_lines cs'))" "sorted_wrt le ls'"
    using assms(1) unfolding sort_ok_def by blast
  have "ls = ls'" by (rule sorted_wrt_unique [of le])
    (use assms ls ls' in \<open>auto simp: sort_ok_def simp del: mset_concat\<close>)
  with ls(1) ls'(1) show ?thesis by simp
qed

lemma fnmatch_out: "fnmatch ''mr-out-[0-9]'' x \<longleftrightarrow> (\<exists>r < 10. x = out_name r)"
proof -
  have digit: "is_digit c \<longleftrightarrow> (\<exists>r < 10. [c] = nat_digits r)" for c
  proof
    assume "is_digit c"
    then have "of_char c - 48 < (10 :: nat)" "[c] = nat_digits (of_char c - 48)"
      by (auto simp: is_digit_def nat_digits.simps)
    then show "\<exists>r < 10. [c] = nat_digits r" by blast
  qed (auto simp: nat_digits.simps is_digit_def)
  have step: "fnmatch (p # ps) x \<longleftrightarrow> (\<exists>y. x = p # y \<and> fnmatch ps y)" if "p \<noteq> CHR ''*''" "p \<noteq> CHR ''[''" for p ps x
    using that by (cases x) auto
  have cls: "fnmatch ''[0-9]'' x \<longleftrightarrow> (\<exists>c. x = [c] \<and> is_digit c)" for x by (cases x) auto
  have "fnmatch ''mr-out-[0-9]'' x \<longleftrightarrow> (\<exists>c. x = ''mr-out-'' @ [c] \<and> is_digit c)"
    by (auto simp: step cls)
  then have "fnmatch ''mr-out-[0-9]'' x \<longleftrightarrow> (\<exists>c r. x = ''mr-out-'' @ [c] \<and> r < 10 \<and> [c] = nat_digits r)"
    unfolding digit by blast
  moreover have "\<exists>c. nat_digits r = [c]" if "r < 10" for r using that by (simp add: nat_digits.simps)
  ultimately show ?thesis unfolding out_name_def itoa_nat by metis
qed

lemma open_all_names:
  assumes "set ns \<subseteq> dom (map_of d)"
  shows "open_all tmp d (map (\<lambda>x. tmp @ ''/'' @ x) ns) = Some (map (\<lambda>x. the (map_of d x)) ns)"
  using assms by (induction ns) (auto simp: open_path_def)

text \<open>The lines of a sorted concatenation of newline-terminated parts, as a sum over the parts.\<close>

lemma lines_of_parts:
  assumes "finite A" "\<forall>k. \<exists>l. line k = l @ [CHR 0x0A]"
  shows "mset (file_lines (concat (map line (sorted_list_of_set A)))) = (\<Sum>k \<in> A. mset (file_lines (line k)))"
proof -
  have "file_lines (concat (map line (sorted_list_of_set A))) = concat (map file_lines (map line (sorted_list_of_set A)))"
    by (rule file_lines_concat) (use assms(2) in auto)
  then have "mset (file_lines (concat (map line (sorted_list_of_set A)))) =
      sum_list (map (\<lambda>k. mset (file_lines (line k))) (sorted_list_of_set A))"
    by (simp add: mset_concat comp_def)
  also have "\<dots> = (\<Sum>k \<in> A. mset (file_lines (line k)))"
    using sum_list_distinct_conv_sum_set [of "sorted_list_of_set A" "\<lambda>k. mset (file_lines (line k))"] assms(1) by simp
  finally show ?thesis .
qed

lemma lines_of_partitions:
  assumes "finite keys" "\<forall>k. \<exists>l. line k = l @ [CHR 0x0A]" "n > 0"
  shows "(\<Sum>r < n. mset (file_lines (concat (map line (sorted_list_of_set {k \<in> keys. ihash k mod int n = int r}))))) =
    mset (file_lines (concat (map line (sorted_list_of_set keys))))"
proof -
  define part where "part r = {k \<in> keys. ihash k mod int n = int r}" for r
  have fin: "finite (part r)" for r using assms(1) by (simp add: part_def)
  have "k \<in> (\<Union>r \<in> {..<n}. part r)" if "k \<in> keys" for k
  proof -
    have "ihash k mod int n = int (nat (ihash k mod int n))" "nat (ihash k mod int n) < n"
      using assms(3) by (auto simp: nat_less_iff)
    with that show ?thesis unfolding part_def by blast
  qed
  then have U: "keys = (\<Union>r \<in> {..<n}. part r)" by (auto simp: part_def)
  have "(\<Sum>r < n. mset (file_lines (concat (map line (sorted_list_of_set (part r)))))) =
      (\<Sum>r < n. \<Sum>k \<in> part r. mset (file_lines (line k)))"
    by (simp add: lines_of_parts [OF fin assms(2)])
  also have "\<dots> = (\<Sum>k \<in> keys. mset (file_lines (line k)))"
    unfolding U by (rule sum.UNION_disjoint [symmetric]) (auto simp: fin, auto simp: part_def)
  finally show ?thesis using lines_of_parts [OF assms(1,2)] by (simp add: part_def)
qed

section \<open>The two outputs\<close>

text \<open>The names the tests give to the outputs are none the workers use.\<close>

definition result_name :: "string \<Rightarrow> bool" where
  "result_name x \<longleftrightarrow> (\<forall>r < 10. \<not> glob_match ''mr-'' (''-'' @ itoa (int r)) x)"

lemma out_name_0: "''mr-out-0'' = out_name 0"
  by (simp add: out_name_def itoa_def small_digits)

lemma result_name_not_out: "result_name x \<Longrightarrow> r < 10 \<Longrightarrow> x \<noteq> out_name r"
  by (auto simp: result_name_def)

lemma clean_dir_result: "clean_dir 10 d \<longleftrightarrow> (\<forall>x \<in> dom (map_of d). result_name x)"
  by (auto simp: clean_dir_def result_name_def dom_map_of_conv_image_fst)

lemma clean_dir_mono: "clean_dir m d \<Longrightarrow> n \<le> m \<Longrightarrow> clean_dir n d"
  by (auto simp: clean_dir_def)

lemma mkCorrectOutput_effect:
  assumes "sequential d = Inr (gm_put ''mr-out-0'' S d)" "clean_dir 10 d" "distinct (map fst d)" "result_name correct"
  shows "\<exists>d1. mkCorrectOutput sequential sortp tmp correct d = Inr d1 \<and>
    map_of d1 = (map_of d)(correct \<mapsto> sortp [S]) \<and> distinct (map fst d1)"
proof -
  have c: "correct \<noteq> ''mr-out-0''" using result_name_not_out [OF assms(4), of 0] by (simp add: out_name_0)
  have "map_of d ''mr-out-0'' = None"
    using assms(2) result_name_not_out [of _ 0] unfolding clean_dir_result out_name_0 by fastforce
  with c assms(1,3) show ?thesis
    by (auto simp: mkCorrectOutput_def run_sort_def open_path_def Let_def fun_eq_iff)
qed

lemma mkOut_plain:
  assumes "mkOut b = Inr tmp" "length b = 16"
  shows "tmp \<noteq> []" "\<forall>c \<in> set tmp. \<not> is_space c"
proof -
  obtain r where r: "RandString 8 b = Inr r" "set r \<subseteq> set url_alphabet"
    using RandString_alphabet [of b 8] assms(2) by auto
  with assms(1) have t: "tmp = ''mr-tmp-'' @ r" by (simp add: mkOut_def)
  then show "tmp \<noteq> []" by simp
  have "\<forall>c \<in> set url_alphabet. \<not> is_space c" by (simp add: url_alphabet_def is_space_def)
  with r(2) t show "\<forall>c \<in> set tmp. \<not> is_space c" by (auto simp: is_space_def)
qed

lemma out_name_plain: "out_name r \<noteq> []" "\<forall>c \<in> set (out_name r). \<not> is_space c" "CHR ''/'' \<notin> set (out_name r)"
  using nat_digits_digits [of r] by (auto simp: out_name_def is_space_def is_digit_def)

lemma mergeOutput_effect:
  assumes prog: "find_ok findp" "mkOut b = Inr tmp" "length b = 16"
    and n: "0 < n" "n \<le> 10" "distinct (map fst d)" "result_name out"
    and outs: "\<forall>r < n. map_of d (out_name r) = Some (content r)" "\<forall>r < 10. n \<le> r \<longrightarrow> map_of d (out_name r) = None"
  shows "\<exists>rs. mergeOutput findp sortp tmp out d = Inr (gm_put out (sortp (map content rs)) (gm_put out [] d)) \<and>
    mset rs = mset [0..<n]"
proof -
  have "set (found ''mr-out-[0-9]'' d) = out_name ` {..<n}"
  proof -
    have "x \<in> set (found ''mr-out-[0-9]'' d) \<longleftrightarrow> (\<exists>r < 10. x = out_name r \<and> map_of d x \<noteq> None)" for x
      using out_name_plain(3) by (auto simp: found_def fnmatch_out)
    then show ?thesis using outs n(2) by (auto simp: image_iff) (metis not_less option.distinct(1))+
  qed
  moreover have "distinct (found ''mr-out-[0-9]'' d)" using n(3) by (simp add: found_def gm_keys_def)
  ultimately have fnd: "mset (found ''mr-out-[0-9]'' d) = mset (map out_name [0..<n])"
    by (intro set_eq_iff_mset_eq_distinct [THEN iffD1]) (auto simp: distinct_map inj_on_def lessThan_atLeast0)
  have "\<forall>x \<in> set (found ''mr-out-[0-9]'' d). x \<noteq> [] \<and> (\<forall>c \<in> set x. \<not> is_space c)"
    using out_name_plain(1,2) unfolding found_def fnmatch_out by auto
  then obtain ns where ns: "findFiles findp tmp ''mr-out-[0-9]'' d = map (\<lambda>x. tmp @ ''/'' @ x) ns"
    "mset ns = mset (map out_name [0..<n])"
    using findFiles_paths [OF prog(1) mkOut_plain [OF prog(2,3)]] unfolding fnd [symmetric] by blast
  have "set ns = out_name ` {..<n}" using mset_eq_setD [OF ns(2)] by (auto simp: atLeast0LessThan)
  then have "\<forall>x \<in> set ns. \<exists>r. x = out_name r \<and> r < n" by auto
  then obtain f where f: "\<forall>x \<in> set ns. x = out_name (f x) \<and> f x < n" by (rule bchoice [THEN exE])
  define rs where "rs = map f ns"
  have nrs: "ns = map out_name rs" using f by (simp add: rs_def map_idI)
  have "mset rs = mset [0..<n]"
  proof -
    have "image_mset out_name (mset rs) = image_mset out_name (mset [0..<n])" using ns(2) nrs by simp
    moreover have "inj (image_mset out_name)" by (rule multiset.inj_map) (simp add: inj_def)
    ultimately show ?thesis by (simp only: inj_eq)
  qed
  moreover have "length ns = n" using mset_eq_length [OF ns(2)] by simp
  moreover have opened: "map_of (gm_put out [] d) x = Some (content (f x))" if "x \<in> set ns" for x
  proof -
    have "x = out_name (f x)" "f x < n" using that f by auto
    then show ?thesis using outs(1) n(2) result_name_not_out [OF n(4), of "f x"] by auto
  qed
  moreover have "open_all tmp (gm_put out [] d) (map (\<lambda>x. tmp @ ''/'' @ x) ns) = Some (map content rs)"
  proof -
    have "set ns \<subseteq> dom (map_of (gm_put out [] d))" using opened by blast
    moreover have "map (\<lambda>x. the (map_of (gm_put out [] d) x)) ns = map content rs"
      using opened by (simp add: rs_def del: map_of_gm_put)
    ultimately show ?thesis using open_all_names by metis
  qed
  ultimately show ?thesis using n(1) ns(1)
    by (intro exI [of _ rs]) (auto simp: mergeOutput_def run_sort_def Let_def)
qed

lemma merged_lines:
  assumes "finite keys" "n > 0" "\<forall>k. \<exists>l. line k = l @ [CHR 0x0A]" "mset rs = mset [0..<n]"
    and "\<And>r. r < n \<Longrightarrow> content r = concat (map line (sorted_list_of_set {k \<in> keys. ihash k mod int n = int r}))"
  shows "mset (concat (map file_lines (map content rs))) =
    mset (concat (map file_lines [concat (map line (sorted_list_of_set keys))]))"
proof -
  have "mset (concat (map file_lines (map content rs))) = sum_mset (image_mset (\<lambda>r. mset (file_lines (content r))) (mset rs))"
    by (simp add: mset_concat sum_mset_sum_list [symmetric] comp_def)
  also have "\<dots> = (\<Sum>r < n. mset (file_lines (content r)))"
    unfolding assms(4) by (simp add: sum_unfold_sum_mset atLeast0LessThan)
  also have "\<dots> = (\<Sum>r < n. mset (file_lines (concat (map line (sorted_list_of_set {k \<in> keys. ihash k mod int n = int r})))))"
    by (simp add: assms(5))
  finally show ?thesis using lines_of_partitions [OF assms(1,3,2)] by simp
qed

lemma key_line_newline: "\<exists>l. key_line reducef kva k = l @ [CHR 0x0A]"
  by (simp add: key_line_def reduce_line_def)

section \<open>Properties of the harness\<close>

text \<open>
  The MapReduce tests pass. For every map and reduce function whose result does not depend on the
  order of the values, and every run the coordinator can produce with up to ten reduce tasks, the
  sorted and merged output of the reduce tasks is the sorted output of the sequential program: no
  step of the test calls \<open>log.Fatalf\<close> and the comparison succeeds.
\<close>
theorem mr_test_passes:
  assumes "sorts_by_key sortf" "value_order_free reducef" "temp_fresh mktemp"
    and "find_ok findp" "sort_ok le sortp" "mkOut b = Inr tmp" "length b = 16"
    and "clean_dir 10 d" "distinct (map fst d)" "0 < n" "n \<le> 10" "set files \<subseteq> dom (map_of d)"
    and "\<forall>kv \<in> set (all_records mapf files d). plain_key (Key kv)"
    and "valid_run files n {} replies" "reduced replies = {..<n}"
    and "result_name out" "result_name correct" "out \<noteq> correct" "correct \<notin> set files"
  shows "\<exists>d' all. mr_test (mrsequential mapf reducef sortf files) (run_replies mapf reducef sortf mktemp replies)
      findp sortp tmp out correct d = Inr d' \<and> all = all_records mapf files d \<and>
    map_of d' out = Some (sortp [concat (map (key_line reducef all) (sorted_list_of_set (Key ` set all)))])"
proof -
  define all where "all = all_records mapf files d"
  define S where "S = concat (map (key_line reducef all) (sorted_list_of_set (Key ` set all)))"
  define content where "content r = concat (partition_lines reducef n all r)" for r
  have "mrsequential mapf reducef sortf files d = Inr (gm_put ''mr-out-0'' S d)"
    using mrsequential_lines [OF assms(1,2,12)] by (simp add: S_def all_def)
  then obtain d1 where d1: "mkCorrectOutput (mrsequential mapf reducef sortf files) sortp tmp correct d = Inr d1"
    "map_of d1 = (map_of d)(correct \<mapsto> sortp [S])" "distinct (map fst d1)"
    using mkCorrectOutput_effect [of "mrsequential mapf reducef sortf files", OF _ assms(8,9,17)] by blast
  have clean: "clean_dir 10 d1" using assms(8,17) d1(2) by (auto simp: clean_dir_result)
  have all1: "all_records mapf files d1 = all"
    using assms(19) unfolding all_def all_records_def d1(2) by (intro arg_cong [of _ _ concat] map_cong) auto
  have jd1: "job_dir mapf reducef files n d1 {} {} d1" using d1(3) by (simp add: job_dir_def)
  have in1: "set files \<subseteq> dom (map_of d1)" using assms(12) d1(2) by auto
  have plain1: "\<forall>kv \<in> set (all_records mapf files d1). plain_key (Key kv)" using assms(13) all1 all_def by simp
  obtain d2 T where d2: "run_replies mapf reducef sortf mktemp replies d1 = Inr d2"
    and jd: "job_dir mapf reducef files n d1 T ({} \<union> reduced replies) d2"
    using run_replies_job [OF clean_dir_mono [OF clean assms(11)] assms(10) in1 plain1 assms(3,1,2,14) jd1] by blast
  have outs: "\<forall>r < n. map_of d2 (out_name r) = Some (content r)" and dist: "distinct (map fst d2)"
    and rest: "\<And>x. x \<notin> {intermediate_name (int i) (int r) |i r. i \<in> T \<and> r < n} \<union> out_name ` {..<n} \<Longrightarrow> map_of d2 x = map_of d1 x"
    using jd unfolding job_dir_def all1 content_def assms(15) by simp_all
  have none: "map_of d2 (out_name r) = None" if "r < 10" "n \<le> r" for r
  proof -
    have "map_of d2 (out_name r) = map_of d1 (out_name r)" using that(2) by (intro rest) auto
    moreover have "out_name r \<notin> dom (map_of d1)" using clean that(1) result_name_not_out unfolding clean_dir_result by blast
    ultimately show ?thesis by auto
  qed
  have corr: "map_of d2 correct = Some (sortp [S])"
  proof -
    have "correct \<noteq> intermediate_name (int i) (int r)" if "r < n" for i r
      using assms(17) less_le_trans [OF that assms(11)] by (auto simp: result_name_def)
    moreover have "correct \<notin> out_name ` {..<n}" using result_name_not_out [OF assms(17)] less_le_trans [OF _ assms(11)] by blast
    ultimately show ?thesis using rest [of correct] d1(2) by auto
  qed
  obtain rs where rs: "mergeOutput findp sortp tmp out d2 = Inr (gm_put out (sortp (map content rs)) (gm_put out [] d2))"
    "mset rs = mset [0..<n]"
    using mergeOutput_effect [OF assms(4,6,7,10,11) dist assms(16) outs] none by blast
  have "sortp (map content rs) = sortp [S]" unfolding S_def
    by (rule sort_determined [OF assms(5)], rule merged_lines [OF _ assms(10) _ rs(2)])
      (auto simp: key_line_newline content_def partition_lines_def)
  with d1(1) d2 rs(1) corr assms(18) show ?thesis
    by (auto simp: mr_test_def runCmp_def S_def all_def)
qed

text \<open>\<open>cleanup\<close> removes exactly the files of the directory that match \<open>mr-*\<close>.\<close>

lemma cleanup_removes:
  assumes "find_ok findp" "mkOut b = Inr tmp" "length b = 16"
    and "\<forall>x \<in> set (found ''mr-*'' d). x \<noteq> [] \<and> (\<forall>c \<in> set x. \<not> is_space c)"
  shows "map_of (cleanup findp tmp d) = (\<lambda>x. if x \<in> set (found ''mr-*'' d) then None else map_of d x)"
proof -
  obtain ns where ns: "findFiles findp tmp ''mr-*'' d = map (\<lambda>x. tmp @ ''/'' @ x) ns" "mset ns = mset (found ''mr-*'' d)"
    using findFiles_paths [OF assms(1) mkOut_plain [OF assms(2,3)] assms(4)] by blast
  have "map_of (fold (remove_path tmp) (map (\<lambda>x. tmp @ ''/'' @ x) ns) d) = (\<lambda>x. if x \<in> set ns then None else map_of d x)"
    by (induction ns arbitrary: d) (auto simp: remove_path_def fun_eq_iff)
  then show ?thesis using ns(1) mset_eq_setD [OF ns(2)] by (simp add: cleanup_def)
qed

section \<open>Witnesses\<close>

definition wit_find :: find_prog where
  "wit_find dir pat d = concat (map (find_line dir) (found pat d))"

definition wit_sort :: sort_prog where
  "wit_sort cs = unlines (sort (concat (map file_lines cs)))"

lemma wit_find_ok: "find_ok wit_find"
  by (auto simp: find_ok_def wit_find_def)

lemma wit_sort_ok: "sort_ok (\<le>) wit_sort"
  unfolding sort_ok_def by (auto simp: wit_sort_def intro!: exI [of _ "sort _"])

theorem mr_test_passes_witness:
  "\<exists>d'. mr_test (mrsequential wit_mapf (\<lambda>k vs. itoa (int (length vs))) (sort_key Key) [''in''])
      (run_replies wit_mapf (\<lambda>k vs. itoa (int (length vs))) (sort_key Key) wit_mktemp wit_replies)
      wit_find wit_sort ''mr-tmp-AAAAAAAA'' ''mr-wc-all.txt'' ''mr-wc-correct.txt'' [(''in'', ''x'')] = Inr d'"
proof -
  have c: "clean_dir 10 [(''in'', ''x'')]" by (simp add: clean_dir_def glob_match_iff)
  have v: "valid_run [''in''] 1 {} wit_replies" by (auto simp: wit_replies_def)
  have r: "reduced wit_replies = {..<1}" by (auto simp: reduced_def wit_replies_def)
  have f: "value_order_free (\<lambda>k vs. itoa (int (length vs)))"
    by (auto simp: value_order_free_def dest: mset_eq_length)
  have p: "\<forall>kv \<in> set (all_records wit_mapf [''in''] [(''in'', ''x'')]). plain_key (Key kv)"
    by (simp add: all_records_def wit_mapf_def plain_key_def)
  have t: "mkOut (replicate 16 0) = Inr ''mr-tmp-AAAAAAAA''"
    by code_simp
  have o: "result_name ''mr-wc-all.txt''" "result_name ''mr-wc-correct.txt''"
    by (auto simp: result_name_def glob_match_iff nat_digits.simps)
  show ?thesis
    using mr_test_passes [OF sort_key_sorts f wit_mktemp_fresh wit_find_ok wit_sort_ok t _ c _ _ _ _ p v r o] by auto
qed

end
