(* ===== verification/MrRun.thy ===== *)
theory MrRun
  imports MrUtil
begin

text \<open>
  A whole run of the MapReduce programs as processes (\<open>mr/util.go\<close>: \<open>runMRchan\<close>, \<open>startWorker\<close>; \<open>main/mrcoordinator.go\<close>,
  \<open>main/mrworker.go\<close>; the loop of \<open>mr/worker.go\<close>): the coordinator's process, which polls \<open>Done\<close> and exits, and worker
  processes, each asking for a task, executing it on the shared directory and reporting it. A worker may
  crash in its plug-in, may be started again, and dies when the coordinator is gone. The execution of one
  task is one step: its files become visible by renaming, and a task executed twice publishes the same files.

  Shown: no process exits before the output is final; what the reduce tasks leave is what the sequential
  program computes, whatever crashes; and from every state the job can still be finished.
\<close>

section \<open>The processes\<close>

text \<open>The plug-in's functions, the sorting routine and the names of temporary files.\<close>

record job =
  j_map :: "string \<Rightarrow> string \<Rightarrow> key_value list"
  j_reduce :: "string \<Rightarrow> string list \<Rightarrow> string"
  j_sort :: "key_value list \<Rightarrow> key_value list"
  j_temp :: temp_namer

abbreviation job_turn :: "job \<Rightarrow> rpc_reply \<Rightarrow> fs \<Rightarrow> (fs \<times> turn) result" where
  "job_turn j \<equiv> worker_turn (j_map j) (j_reduce j) (j_sort j) (j_temp j)"

text \<open>
  \<open>main\<close> of \<open>mrcoordinator\<close>, up to its loop, and of \<open>mrworker\<close>: \<open>os.Args\<close> with the program's name; a plug-in is looked up by
  its file name.
\<close>

definition mrcoordinator_main :: "string list \<Rightarrow> coordinator result" where
  "mrcoordinator_main argv =
     (if length argv < 3 then Inl (Fatal ''Usage: mrcoordinator sockname inputfiles...'')
      else MakeCoordinator (drop 2 argv) 10)"

definition loadPlugin :: "(string \<Rightarrow> ((string \<Rightarrow> string \<Rightarrow> key_value list) option \<times> (string \<Rightarrow> string list \<Rightarrow> string) option) option) \<Rightarrow> string \<Rightarrow>
    ((string \<Rightarrow> string \<Rightarrow> key_value list) \<times> (string \<Rightarrow> string list \<Rightarrow> string)) result" where
  "loadPlugin plugin filename =
     (case plugin filename of
        None \<Rightarrow> Inl (Fatal ''cannot load plugin'')
      | Some (xmapf, xreducef) \<Rightarrow>
          (case xmapf of
             None \<Rightarrow> Inl (Fatal ''cannot find Map'')
           | Some mapf \<Rightarrow>
               (case xreducef of None \<Rightarrow> Inl (Fatal ''cannot find Reduce'') | Some reducef \<Rightarrow> Inr (mapf, reducef))))"

definition mrworker_main :: "(string \<Rightarrow> ((string \<Rightarrow> string \<Rightarrow> key_value list) option \<times> (string \<Rightarrow> string list \<Rightarrow> string) option) option) \<Rightarrow>
    string list \<Rightarrow> (string \<times> (string \<Rightarrow> string \<Rightarrow> key_value list) \<times> (string \<Rightarrow> string list \<Rightarrow> string)) result" where
  "mrworker_main plugin argv =
     (if length argv \<noteq> 3 then Inl (Fatal ''Usage: mrworker xxx.so sockname'')
      else res_bind (loadPlugin plugin (argv ! 1)) (\<lambda>fs. Inr (argv ! 2, fs)))"

text \<open>
  A worker: about to call \<open>Assign\<close>, executing an assignment, about to report it, or exited. The coordinator: polling
  \<open>Done\<close>, in its last second, or exited.
\<close>

datatype wpc = Ask | Run rpc_reply | Tell done_args | Gone

datatype cpc = Polling | Lingering | CGone

text \<open>\<open>mr_exits\<close> are the processes that have exited, in order: what arrives on the channel \<open>c\<close>, with the number of workers for the coordinator.\<close>

record mr_run =
  mr_coord :: coordinator
  mr_cpc :: cpc
  mr_wks :: "wpc list"
  mr_dir :: fs
  mr_exits :: "nat list"

definition startWorker :: "nat \<Rightarrow> mr_run \<Rightarrow> mr_run" where
  "startWorker i s = s\<lparr>mr_wks := (mr_wks s)[i := Ask]\<rparr>"

text \<open>\<open>runMRchan\<close> up to \<open>coord.Wait\<close>: the coordinator first, then the workers.\<close>

definition runMRchan :: "string list \<Rightarrow> nat \<Rightarrow> string \<Rightarrow> fs \<Rightarrow> mr_run result" where
  "runMRchan files n sock d =
     res_bind (mrcoordinator_main (''mrcoordinator'' # sock # files)) (\<lambda>c.
       Inr (foldl (\<lambda>s i. startWorker i s)
         \<lparr>mr_coord = c, mr_cpc = Polling, mr_wks = replicate n Gone, mr_dir = d, mr_exits = []\<rparr> [0..<n]))"

definition runMR :: "string list \<Rightarrow> nat \<Rightarrow> nat list \<Rightarrow> fs \<Rightarrow> mr_run result" where
  "runMR files n b d = res_bind (coordinatorSock b) (\<lambda>sock. runMRchan files n sock d)"

definition wk_exit :: "nat \<Rightarrow> mr_run \<Rightarrow> mr_run" where
  "wk_exit i s = s\<lparr>mr_wks := (mr_wks s)[i := Gone], mr_exits := mr_exits s @ [i]\<rparr>"

text \<open>
  What a crash in the plug-in leaves: \<open>Map\<close> is called before any file is created, \<open>Reduce\<close> after the temporary file
  of the task was; the number in its name is random, and here none of the reduce tasks' numbers.
\<close>

definition leftover :: "rpc_reply \<Rightarrow> fs \<Rightarrow> fs \<Rightarrow> bool" where
  "leftover r d d' \<longleftrightarrow> d' = d \<or>
     TaskType r = ''reduce'' \<and> (\<exists>suffix content.
       let x = ''mr-reduce-'' @ itoa (TaskId r) @ ''-'' @ suffix
       in map_of d x = None \<and> (\<forall>k < 10. \<not> glob_match ''mr-'' (''-'' @ itoa (int k)) x) \<and> d' = gm_put x content d)"

text \<open>
  The steps. A call to the coordinator needs its process; \<open>call\<close> ends the worker when the coordinator is gone. With
  \<open>crashy\<close> plug-ins a worker may crash, and the test starts it again.
\<close>

inductive run_step :: "job \<Rightarrow> bool \<Rightarrow> mr_run \<Rightarrow> mr_run \<Rightarrow> bool" for j crashy where
  ask: "i < length (mr_wks s) \<Longrightarrow> mr_wks s ! i = Ask \<Longrightarrow> mr_cpc s \<noteq> CGone \<Longrightarrow>
    Assign now (mr_coord s) zero_rpc_reply = (c', r) \<Longrightarrow>
    run_step j crashy s (s\<lparr>mr_coord := c', mr_wks := (mr_wks s)[i := Run r]\<rparr>)"
| work: "i < length (mr_wks s) \<Longrightarrow> mr_wks s ! i = Run r \<Longrightarrow> job_turn j r (mr_dir s) = Inr (d', Report a) \<Longrightarrow>
    run_step j crashy s (s\<lparr>mr_dir := d', mr_wks := (mr_wks s)[i := Tell a]\<rparr>)"
| rest: "i < length (mr_wks s) \<Longrightarrow> mr_wks s ! i = Run r \<Longrightarrow> job_turn j r (mr_dir s) = Inr (d', Sleep) \<Longrightarrow>
    run_step j crashy s (s\<lparr>mr_dir := d', mr_wks := (mr_wks s)[i := Ask]\<rparr>)"
| leave: "i < length (mr_wks s) \<Longrightarrow> mr_wks s ! i = Run r \<Longrightarrow> job_turn j r (mr_dir s) = Inr (d', Exit) \<Longrightarrow>
    run_step j crashy s (wk_exit i (s\<lparr>mr_dir := d'\<rparr>))"
| fatal: "i < length (mr_wks s) \<Longrightarrow> mr_wks s ! i = Run r \<Longrightarrow> job_turn j r (mr_dir s) = Inl e \<Longrightarrow>
    run_step j crashy s (wk_exit i s)"
| tell: "i < length (mr_wks s) \<Longrightarrow> mr_wks s ! i = Tell a \<Longrightarrow> mr_cpc s \<noteq> CGone \<Longrightarrow>
    ReportTaskCompletion (mr_coord s) a = Inr c' \<Longrightarrow>
    run_step j crashy s (s\<lparr>mr_coord := c', mr_wks := (mr_wks s)[i := Ask]\<rparr>)"
| cut: "i < length (mr_wks s) \<Longrightarrow> mr_wks s ! i = Ask \<or> mr_wks s ! i = Tell a \<Longrightarrow> mr_cpc s = CGone \<Longrightarrow>
    run_step j crashy s (wk_exit i s)"
| crash: "crashy \<Longrightarrow> i < length (mr_wks s) \<Longrightarrow> mr_wks s ! i = Run r \<Longrightarrow> leftover r (mr_dir s) d' \<Longrightarrow>
    run_step j crashy s (wk_exit i (s\<lparr>mr_dir := d'\<rparr>))"
| restart: "crashy \<Longrightarrow> i < length (mr_wks s) \<Longrightarrow> mr_wks s ! i = Gone \<Longrightarrow> run_step j crashy s (startWorker i s)"
| tick: "CheckTimeout now (mr_coord s) = (c', go) \<Longrightarrow> run_step j crashy s (s\<lparr>mr_coord := c'\<rparr>)"
| poll: "mr_cpc s = Polling \<Longrightarrow> Done (mr_coord s) \<Longrightarrow> run_step j crashy s (s\<lparr>mr_cpc := Lingering\<rparr>)"
| linger: "mr_cpc s = Lingering \<Longrightarrow>
    run_step j crashy s (s\<lparr>mr_cpc := CGone, mr_exits := mr_exits s @ [length (mr_wks s)]\<rparr>)"

section \<open>The assignments the workers hold\<close>

fun holds :: "wpc \<Rightarrow> done_args list" where
  "holds (Run r) = (if TaskType r = ''map'' \<or> TaskType r = ''reduce'' then [reply_done r] else [])"
| "holds (Tell a) = [a]"
| "holds w = []"

definition held_of :: "wpc list \<Rightarrow> done_args list" where
  "held_of ws = concat (map holds ws)"

definition run_sys :: "mr_run \<Rightarrow> mr_sys" where
  "run_sys s = \<lparr>coord = mr_coord s, held = held_of (mr_wks s)\<rparr>"

lemma held_of_update:
  assumes "i < length ws"
  shows "mset (held_of (ws[i := w])) + mset (holds (ws ! i)) = mset (held_of ws) + mset (holds w)"
proof -
  have "mset (held_of ws) = mset (held_of (take i ws @ ws ! i # drop (Suc i) ws))" using assms by (simp add: id_take_nth_drop [symmetric])
  then show ?thesis using assms by (simp add: held_of_def upd_conv_take_nth_drop)
qed

lemma holds_in_held: "i < length ws \<Longrightarrow> a \<in> set (holds (ws ! i)) \<Longrightarrow> a \<in> set (held_of ws)"
  by (auto simp: held_of_def intro: bexI [of _ "ws ! i"])

lemma mr_inv_perm:
  assumes "mr_inv files n \<lparr>coord = c, held = hs\<rparr>" "mset hs = mset hs'"
  shows "mr_inv files n \<lparr>coord = c, held = hs'\<rparr>"
  using assms(1) mset_eq_setD [OF assms(2)] mset_eq_imp_distinct_iff [OF assms(2)] by (simp add: mr_inv_def tasks_ok_def)

section \<open>The invariant of a run\<close>

definition completed :: "task list \<Rightarrow> nat set" where
  "completed ts = {i. i < length ts \<and> State (ts ! i) = Completed}"

text \<open>
  A worker between map tasks \<open>T\<close> and reduce tasks \<open>S\<close> that have been executed; \<open>fin\<close> says that the job is done.
\<close>

fun wk_ok :: "string list \<Rightarrow> nat \<Rightarrow> nat set \<Rightarrow> nat set \<Rightarrow> bool \<Rightarrow> wpc \<Rightarrow> bool" where
  "wk_ok files n T S fin (Run r) \<longleftrightarrow>
     TaskType r = ''map'' \<and> (\<exists>i < length files. TaskId r = int i \<and> MapFile r = files ! i \<and> NReduce r = int n) \<or>
     TaskType r = ''reduce'' \<and> T = {..<length files} \<and> (\<exists>k < n. TaskId r = int k) \<or>
     TaskType r = ''wait'' \<or> TaskType r = ''exit'' \<and> fin"
| "wk_ok files n T S fin (Tell a) \<longleftrightarrow>
     da_TaskType a = ''map'' \<and> (\<exists>i \<in> T. da_TaskId a = int i) \<or> da_TaskType a = ''reduce'' \<and> (\<exists>k \<in> S. da_TaskId a = int k)"
| "wk_ok files n T S fin w \<longleftrightarrow> True"

text \<open>
  The directory is one the executed tasks have left, from a directory \<open>base\<close> that has the initial files and others no
  reduce task reads.
\<close>

definition files_inv :: "job \<Rightarrow> string list \<Rightarrow> nat \<Rightarrow> fs \<Rightarrow> mr_run \<Rightarrow> nat set \<Rightarrow> nat set \<Rightarrow> fs \<Rightarrow> bool" where
  "files_inv j files n d0 s T S base \<longleftrightarrow>
     map_of d0 \<subseteq>\<^sub>m map_of base \<and> clean_dir 10 base \<and> job_dir (j_map j) (j_reduce j) files n base T S (mr_dir s) \<and>
     completed (mapTasks (mr_coord s)) \<subseteq> T \<and> completed (reduceTasks (mr_coord s)) \<subseteq> S \<and>
     (\<forall>w \<in> set (mr_wks s). wk_ok files n T S (Done (mr_coord s)) w)"

definition run_inv :: "job \<Rightarrow> bool \<Rightarrow> string list \<Rightarrow> nat \<Rightarrow> fs \<Rightarrow> mr_run \<Rightarrow> bool" where
  "run_inv j crashy files n d0 s \<longleftrightarrow> mr_inv files (int n) (run_sys s) \<and>
     (mr_cpc s \<noteq> Polling \<longrightarrow> Done (mr_coord s)) \<and> (\<not> crashy \<and> mr_exits s \<noteq> [] \<longrightarrow> Done (mr_coord s)) \<and>
     (\<exists>T S base. files_inv j files n d0 s T S base)"

text \<open>What the programs and the input must satisfy.\<close>

definition job_ok :: "job \<Rightarrow> string list \<Rightarrow> nat \<Rightarrow> fs \<Rightarrow> bool" where
  "job_ok j files n d0 \<longleftrightarrow> sorts_by_key (j_sort j) \<and> value_order_free (j_reduce j) \<and> temp_fresh (j_temp j) \<and>
     0 < n \<and> n \<le> 10 \<and> set files \<subseteq> dom (map_of d0) \<and> clean_dir 10 d0 \<and> distinct (map fst d0) \<and>
     (\<forall>kv \<in> set (all_records (j_map j) files d0). plain_key (Key kv))"

lemma all_records_extended:
  assumes "map_of d0 \<subseteq>\<^sub>m map_of base" "set files \<subseteq> dom (map_of d0)"
  shows "all_records mapf files base = all_records mapf files d0"
proof -
  have "map_of base f = map_of d0 f" if "f \<in> set files" for f using assms that by (metis map_le_def subsetD)
  then show ?thesis unfolding all_records_def by (intro arg_cong [of _ _ concat] map_cong) auto
qed

lemma wk_ok_mono:
  assumes "wk_ok files n T S fin w" "T \<subseteq> T'" "T' \<subseteq> {..<length files}" "S \<subseteq> S'" "fin \<longrightarrow> fin'"
  shows "wk_ok files n T' S' fin' w"
proof (cases w)
  case (Run r)
  have "T = {..<length files} \<Longrightarrow> T' = {..<length files}" using assms(2,3) by auto
  then show ?thesis using assms Run by auto
qed (use assms in auto)

lemma files_inv_workers:
  assumes "files_inv j files n d0 s T S base" "wk_ok files n T S (Done (mr_coord s)) w"
  shows "files_inv j files n d0 (s\<lparr>mr_wks := (mr_wks s)[i := w]\<rparr>) T S base"
  using assms set_update_subset_insert [of "mr_wks s" i w] by (auto simp: files_inv_def)

lemma files_inv_nth:
  "files_inv j files n d0 s T S base \<Longrightarrow> i < length (mr_wks s) \<Longrightarrow> wk_ok files n T S (Done (mr_coord s)) (mr_wks s ! i)"
  by (simp add: files_inv_def)

lemma files_inv_coord:
  assumes "files_inv j files n d0 s T S base" "completed (mapTasks c) \<subseteq> T" "completed (reduceTasks c) \<subseteq> S"
    and "Done (mr_coord s) \<longrightarrow> Done c"
  shows "files_inv j files n d0 (s\<lparr>mr_coord := c\<rparr>) T S base"
  using assms wk_ok_mono [of files n T S "Done (mr_coord s)" _ T S "Done c"] by (auto simp: files_inv_def job_dir_def)

lemma completed_start: "State (ts ! i) \<noteq> Completed \<Longrightarrow> completed (ts[i := start_task now t]) = completed ts"
  by (cases "i < length ts") (auto simp: completed_def nth_list_update list_update_beyond)

lemma completed_done: "i < length ts \<Longrightarrow> completed (ts[i := t\<lparr>State := Completed\<rparr>]) = insert i (completed ts)"
  by (auto simp: completed_def nth_list_update)

lemma completed_expire: "completed (expireTasksLocked now ts) = completed ts"
  by (auto simp: completed_def expireTasksLocked_def)

lemma completed_all: "all_completed ts \<Longrightarrow> completed ts = {..<length ts}"
  by (auto simp: completed_def all_completed_nth)

lemma Assign_next:
  assumes "Assign now c zero_rpc_reply = (c', r)"
  shows "completed (mapTasks c') = completed (mapTasks c)" "completed (reduceTasks c') = completed (reduceTasks c)" "Done c' = Done c"
  using assms by (cases rule: Assign_cases; simp add: completed_start Done_def)+

lemma CheckTimeout_next:
  assumes "CheckTimeout now c = (c', go)"
  shows "completed (mapTasks c') = completed (mapTasks c)" "completed (reduceTasks c') = completed (reduceTasks c)" "Done c' = Done c"
  using assms by (cases "phase c"; auto simp: CheckTimeout_def completed_expire Done_def)+

section \<open>Every step keeps the invariant\<close>

lemma held_of_swap:
  assumes "mr_inv files n \<lparr>coord = c, held = held_of ws\<rparr>" "i < length ws" "mset (holds w) = mset (holds (ws ! i))"
  shows "mr_inv files n \<lparr>coord = c, held = held_of (ws[i := w])\<rparr>"
  using assms(1) by (rule mr_inv_perm) (use held_of_update [OF assms(2), of w] assms(3) in simp)

lemma held_of_drop:
  assumes "mr_inv files n \<lparr>coord = c, held = held_of ws\<rparr>" "i < length ws" "holds w = []"
  shows "mr_inv files n \<lparr>coord = c, held = held_of (ws[i := w])\<rparr>"
proof -
  have "mr_inv files n \<lparr>coord = c, held = fold remove1 as (held_of ws)\<rparr>" for as
    using assms(1)
  proof (induction as rule: rev_induct)
    case (snoc a as)
    then show ?case using mr_inv_crash [of files n "\<lparr>coord = c, held = fold remove1 as (held_of ws)\<rparr>" a] by simp
  qed simp
  moreover have "mset (fold remove1 as xs) = mset xs - mset as" for as xs :: "done_args list"
    by (induction as arbitrary: xs) (simp_all add: diff_add_mset_swap)
  moreover have "mset (held_of ws) = mset (held_of (ws[i := w])) + mset (holds (ws ! i))"
    using held_of_update [OF assms(2), of w] assms(3) by simp
  ultimately have "mset (fold remove1 (holds (ws ! i)) (held_of ws)) = mset (held_of (ws[i := w]))"
    "mr_inv files n \<lparr>coord = c, held = fold remove1 (holds (ws ! i)) (held_of ws)\<rparr>" by simp_all
  then show ?thesis using mr_inv_perm by blast
qed

text \<open>A worker that goes on with its assignment, or gives it up.\<close>

lemma run_sys_swap:
  "mr_inv files n (run_sys s) \<Longrightarrow> i < length (mr_wks s) \<Longrightarrow> holds w = holds (mr_wks s ! i) \<or> holds w = [] \<Longrightarrow>
     mr_inv files n (run_sys (s\<lparr>mr_wks := (mr_wks s)[i := w]\<rparr>))"
  by (auto simp: run_sys_def intro: held_of_swap held_of_drop)

lemma run_sys_ask:
  assumes "mr_inv files n (run_sys s)" "i < length (mr_wks s)" "mr_wks s ! i = Ask"
    and "Assign now (mr_coord s) zero_rpc_reply = (c', r)"
  shows "mr_inv files n (run_sys (s\<lparr>mr_coord := c', mr_wks := (mr_wks s)[i := Run r]\<rparr>))"
  using mr_inv_assign [OF assms(1), of now c' r] assms(4) held_of_update [OF assms(2), of "Run r"] assms(3)
  by (auto simp: run_sys_def split: if_splits elim!: mr_inv_perm)

lemma run_sys_tell:
  assumes "mr_inv files n (run_sys s)" "i < length (mr_wks s)" "mr_wks s ! i = Tell a"
    and "ReportTaskCompletion (mr_coord s) a = Inr c'"
  shows "mr_inv files n (run_sys (s\<lparr>mr_coord := c', mr_wks := (mr_wks s)[i := Ask]\<rparr>))"
proof -
  have a: "a \<in> set (held (run_sys s))" using holds_in_held [OF assms(2), of a] assms(3) by (simp add: run_sys_def)
  have "mr_inv files n \<lparr>coord = c', held = remove1 a (held_of (mr_wks s))\<rparr>"
    using mr_inv_report [OF assms(1) a] assms(4) by (simp add: run_sys_def)
  moreover have "mset (remove1 a (held_of (mr_wks s))) = mset (held_of ((mr_wks s)[i := Ask]))"
    using held_of_update [OF assms(2), of Ask] assms(3) by (simp add: run_sys_def) (metis add_mset_remove_trivial)
  ultimately show ?thesis by (simp add: run_sys_def mr_inv_perm)
qed

text \<open>What a worker has been told is right.\<close>

lemma Assign_wk_ok:
  assumes "mr_inv files (int n) (run_sys s)" "files_inv j files n d0 s T S base" "Assign now (mr_coord s) zero_rpc_reply = (c', r)"
  shows "wk_ok files n T S (Done c') (Run r)"
proof -
  let ?c = "mr_coord s"
  have inv: "map File (mapTasks ?c) = files" "int (length (reduceTasks ?c)) = int n" "nReduce ?c = int n" "phase_ok ?c"
    using assms(1) by (simp_all add: mr_inv_def run_sys_def)
  have len: "length (mapTasks ?c) = length files" using arg_cong [OF inv(1), of length] by simp
  have T: "completed (mapTasks ?c) \<subseteq> T" "T \<subseteq> {..<length files}" using assms(2) by (auto simp: files_inv_def job_dir_def)
  from assms(3) show ?thesis
  proof (cases rule: Assign_cases)
    case (map_task i)
    then have "File (mapTasks ?c ! i) = files ! i" unfolding inv(1) [symmetric] by simp
    then show ?thesis using map_task inv(3) len by simp
  next
    case (reduce_task i)
    then have "all_completed (mapTasks ?c)" using inv(4) by (simp add: phase_ok_def)
    then have "T = {..<length files}" using completed_all T len by auto
    then show ?thesis using reduce_task inv(2) by simp
  qed (simp_all add: Done_def)
qed

text \<open>An assignment is executed without an error, and its files are there.\<close>

lemma turn_effect:
  assumes "job_ok j files n d0" "files_inv j files n d0 s T S base" "wk_ok files n T S fin (Run r)"
  obtains (task) d' T' S' where "job_turn j r (mr_dir s) = Inr (d', Report (reply_done r))" "T \<subseteq> T'" "T' \<subseteq> {..<length files}" "S \<subseteq> S'"
      "job_dir (j_map j) (j_reduce j) files n base T' S' d'" "wk_ok files n T' S' fin (Tell (reply_done r))"
      "TaskType r = ''map'' \<or> TaskType r = ''reduce''"
    | (rest) "job_turn j r (mr_dir s) = Inr (mr_dir s, Sleep)" "TaskType r = ''wait''"
    | (leave) "job_turn j r (mr_dir s) = Inr (mr_dir s, Exit)" "TaskType r = ''exit''" fin
proof -
  have j: "sorts_by_key (j_sort j)" "value_order_free (j_reduce j)" "temp_fresh (j_temp j)" "0 < n" "n \<le> 10" "set files \<subseteq> dom (map_of d0)"
    "\<forall>kv \<in> set (all_records (j_map j) files d0). plain_key (Key kv)" using assms(1) by (simp_all add: job_ok_def)
  have f: "map_of d0 \<subseteq>\<^sub>m map_of base" "clean_dir n base" "job_dir (j_map j) (j_reduce j) files n base T S (mr_dir s)"
    "set files \<subseteq> dom (map_of base)"
    using assms(2) j(5,6) clean_dir_mono map_le_implies_dom_le [of "map_of d0" "map_of base"] by (auto simp: files_inv_def)
  have plain: "\<forall>kv \<in> set (all_records (j_map j) files base). plain_key (Key kv)" using j(7) all_records_extended [OF f(1) j(6)] by simp
  have sub: "T \<subseteq> {..<length files}" using f(3) by (simp add: job_dir_def)
  consider (m) i where "TaskType r = ''map''" "i < length files" "TaskId r = int i" "MapFile r = files ! i" "NReduce r = int n"
    | (r) k where "TaskType r = ''reduce''" "T = {..<length files}" "k < n" "TaskId r = int k"
    | (w) "TaskType r = ''wait''" | (x) "TaskType r = ''exit''" fin
    using assms(3) by auto
  then show thesis
  proof cases
    case m
    from job_dir_map [OF f(3,2) j(3,4) f(4) m(2-5)] obtain d' where d': "map_task (j_map j) (j_temp j) r (mr_dir s) = Inr d'"
      "job_dir (j_map j) (j_reduce j) files n base (insert i T) S d'" by blast
    show thesis
      by (rule task [of d' "insert i T" S]) (use d' m sub in \<open>auto simp: worker_turn_def reply_done_def\<close>)
  next
    case r
    from job_dir_reduce [OF f(3) [unfolded r(2)] f(2) r(3) plain j(3,1,2) r(4)] obtain d' where
      d': "reduce_task (j_sort j) (j_reduce j) (j_temp j) r (mr_dir s) = Inr d'"
      "job_dir (j_map j) (j_reduce j) files n base {..<length files} (insert k S) d'" by blast
    show thesis
      by (rule task [of d' T "insert k S"]) (use d' r in \<open>auto simp: worker_turn_def reply_done_def\<close>)
  next
    case w
    then show thesis by (intro rest) (simp_all add: worker_turn_def)
  next
    case x
    then show thesis by (intro leave) (simp_all add: worker_turn_def)
  qed
qed

text \<open>A further file that no reduce task reads.\<close>

lemma job_dir_extra:
  assumes jd: "job_dir mapf reducef files n base T S d" and new: "map_of d x = None" and inp: "set files \<subseteq> dom (map_of base)"
  shows "job_dir mapf reducef files n (gm_put x content base) T S (gm_put x content d) \<and> map_of base x = None"
proof -
  let ?N = "{intermediate_name (int i) (int r) |i r. i \<in> T \<and> r < n} \<union> out_name ` S"
  have x: "x \<notin> ?N" using jd new by (auto simp: job_dir_def)
  then have base: "map_of base x = None" using jd new by (simp add: job_dir_def)
  then have "x \<notin> set files" using inp by auto
  then have same: "all_records mapf files (gm_put x content base) = all_records mapf files base"
    "\<And>i. i < length files \<Longrightarrow> map_of (gm_put x content base) (files ! i) = map_of base (files ! i)"
    unfolding all_records_def by (auto intro!: arg_cong [of _ _ concat] map_cong)
  have T: "T \<subseteq> {..<length files}" using jd by (simp add: job_dir_def)
  have "map_of (gm_put x content d) (intermediate_name (int i) (int r)) =
      Some (concat (map json_Encode (partition_of n (mapf (files ! i) (the (map_of (gm_put x content base) (files ! i)))) r)))"
    if ir: "i \<in> T" "r < n" for i r
  proof -
    have "intermediate_name (int i) (int r) \<noteq> x" "i < length files" using ir x T by auto
    then show ?thesis using jd ir same(2) [of i] by (simp add: job_dir_def)
  qed
  moreover have "\<forall>r \<in> S. map_of (gm_put x content d) (out_name r) =
      Some (concat (partition_lines reducef n (all_records mapf files (gm_put x content base)) r))"
    using x jd same(1) by (auto simp add: job_dir_def simp del: map_of_eq_Some_iff)
  moreover have "\<forall>y. y \<notin> ?N \<longrightarrow> map_of (gm_put x content d) y = map_of (gm_put x content base) y"
    using jd by (simp add: job_dir_def)
  moreover have "distinct (map fst (gm_put x content d))" using jd by (simp add: job_dir_def)
  ultimately show ?thesis using jd base T unfolding job_dir_def by blast
qed

lemma files_inv_extra:
  assumes "files_inv j files n d0 s T S base" "job_ok j files n d0" "map_of (mr_dir s) x = None" "result_name x"
  shows "files_inv j files n d0 (s\<lparr>mr_dir := gm_put x content (mr_dir s)\<rparr>) T S (gm_put x content base)"
proof -
  have f: "map_of d0 \<subseteq>\<^sub>m map_of base" "clean_dir 10 base" "job_dir (j_map j) (j_reduce j) files n base T S (mr_dir s)"
    using assms(1) by (simp_all add: files_inv_def)
  have "set files \<subseteq> dom (map_of d0)" using assms(2) by (simp add: job_ok_def)
  then have "set files \<subseteq> dom (map_of base)" using map_le_implies_dom_le [OF f(1)] by (rule subset_trans)
  from job_dir_extra [OF f(3) assms(3) this, of content] have jd: "map_of base x = None"
    "job_dir (j_map j) (j_reduce j) files n (gm_put x content base) T S (gm_put x content (mr_dir s))" by simp_all
  have "map_of d0 \<subseteq>\<^sub>m map_of (gm_put x content base)"
    using f(1) jd(1) unfolding map_le_def by (metis domIff fun_upd_other map_of_gm_put)
  moreover have "clean_dir 10 (gm_put x content base)" using f(2) assms(4) by (simp add: clean_dir_result)
  ultimately show ?thesis using assms(1) jd(2) by (simp add: files_inv_def)
qed

lemma files_inv_leftover:
  assumes "files_inv j files n d0 s T S base" "job_ok j files n d0" "leftover r (mr_dir s) d'"
  shows "\<exists>base'. files_inv j files n d0 (s\<lparr>mr_dir := d'\<rparr>) T S base'"
  using assms files_inv_extra [OF assms(1,2)] unfolding leftover_def Let_def result_name_def by auto

text \<open>A report of an executed task.\<close>

lemma files_inv_tell:
  assumes "files_inv j files n d0 s T S base" "mr_inv files (int n) (run_sys s)" "i < length (mr_wks s)" "mr_wks s ! i = Tell a"
    and "ReportTaskCompletion (mr_coord s) a = Inr c'"
  shows "files_inv j files n d0 (s\<lparr>mr_coord := c'\<rparr>) T S base \<and> (Done (mr_coord s) \<longrightarrow> Done c')"
proof -
  have a: "a \<in> set (held (run_sys s))" using holds_in_held [OF assms(3), of a] assms(4) by (simp add: run_sys_def)
  have c: "completed (mapTasks (mr_coord s)) \<subseteq> T" "completed (reduceTasks (mr_coord s)) \<subseteq> S" using assms(1) by (simp_all add: files_inv_def)
  have "wk_ok files n T S (Done (mr_coord s)) (Tell a)" using files_inv_nth [OF assms(1,3)] unfolding assms(4) .
  then have ex: "da_TaskType a = ''map'' \<longrightarrow> nat (da_TaskId a) \<in> T" "da_TaskType a = ''reduce'' \<longrightarrow> nat (da_TaskId a) \<in> S" by auto
  have co: "coord (run_sys s) = mr_coord s" by (simp add: run_sys_def)
  have "completed (mapTasks c') \<subseteq> T \<and> completed (reduceTasks c') \<subseteq> S \<and> (Done (mr_coord s) \<longrightarrow> Done c')"
    using assms(2) a
  proof (cases rule: Report_held)
    case (stale k)
    then show ?thesis using assms(5) c by (simp add: co)
  next
    case (map_task k tasks)
    then show ?thesis using assms(5) c ex(1) by (auto simp: co completed_done Done_def)
  next
    case (reduce_task k tasks)
    then show ?thesis using assms(5) c ex(2) by (auto simp: co completed_done Done_def)
  qed
  then show ?thesis using files_inv_coord [OF assms(1)] by simp
qed

lemma files_inv_turn:
  assumes "files_inv j files n d0 s T S base" "T \<subseteq> T'" "S \<subseteq> S'" "job_dir (j_map j) (j_reduce j) files n base T' S' d'"
  shows "files_inv j files n d0 (s\<lparr>mr_dir := d'\<rparr>) T' S' base"
proof -
  have "T' \<subseteq> {..<length files}" using assms(4) by (simp add: job_dir_def)
  then have "\<forall>w \<in> set (mr_wks s). wk_ok files n T' S' (Done (mr_coord s)) w"
    using assms(1-3) wk_ok_mono [of files n T S "Done (mr_coord s)" _ T' S' "Done (mr_coord s)"] by (simp add: files_inv_def)
  then show ?thesis using assms unfolding files_inv_def by simp (meson subset_trans)
qed

lemma run_inv_exit:
  assumes "run_inv j crashy files n d0 s" "i < length (mr_wks s)" "crashy \<or> Done (mr_coord s)"
  shows "run_inv j crashy files n d0 (wk_exit i s)"
proof -
  obtain T S base where f: "files_inv j files n d0 s T S base" using assms(1) by (auto simp: run_inv_def)
  have "files_inv j files n d0 (wk_exit i s) T S base"
    using files_inv_workers [OF f, of Gone i] by (simp add: wk_exit_def files_inv_def)
  moreover have "mr_inv files (int n) (run_sys (wk_exit i s))"
    using run_sys_swap [of files "int n" s i Gone] assms(1,2) by (simp add: run_inv_def run_sys_def wk_exit_def)
  ultimately show ?thesis using assms(1,3) by (auto simp: run_inv_def wk_exit_def)
qed

lemma run_inv_turn:
  assumes ok: "job_ok j files n d0" and inv: "run_inv j crashy files n d0 s" and i: "i < length (mr_wks s)" "mr_wks s ! i = Run r"
  shows "(case job_turn j r (mr_dir s) of Inl e \<Rightarrow> False
     | Inr (d', Report a) \<Rightarrow> run_inv j crashy files n d0 (s\<lparr>mr_dir := d', mr_wks := (mr_wks s)[i := Tell a]\<rparr>)
     | Inr (d', Sleep) \<Rightarrow> run_inv j crashy files n d0 (s\<lparr>mr_dir := d', mr_wks := (mr_wks s)[i := Ask]\<rparr>)
     | Inr (d', Exit) \<Rightarrow> d' = mr_dir s \<and> Done (mr_coord s))"
proof -
  obtain T S base where f: "files_inv j files n d0 s T S base" using inv by (auto simp: run_inv_def)
  then have "wk_ok files n T S (Done (mr_coord s)) (Run r)" using files_inv_nth i unfolding i(2) [symmetric] by blast
  with ok f show ?thesis
  proof (cases rule: turn_effect)
    case (task d' T' S')
    have "files_inv j files n d0 (s\<lparr>mr_dir := d'\<rparr>) T' S' base" using files_inv_turn [OF f task(2,4,5)] .
    from files_inv_workers [OF this, of "Tell (reply_done r)" i] task(6)
    have "files_inv j files n d0 (s\<lparr>mr_dir := d', mr_wks := (mr_wks s)[i := Tell (reply_done r)]\<rparr>) T' S' base" by simp
    moreover have "mr_inv files (int n) (run_sys (s\<lparr>mr_wks := (mr_wks s)[i := Tell (reply_done r)]\<rparr>))"
      using inv i task(7) by (intro run_sys_swap) (auto simp: run_inv_def)
    ultimately show ?thesis using inv task(1) by (auto simp: run_inv_def run_sys_def)
  next
    case rest
    have "files_inv j files n d0 (s\<lparr>mr_wks := (mr_wks s)[i := Ask]\<rparr>) T S base" using files_inv_workers [OF f, of Ask i] by simp
    moreover have "mr_inv files (int n) (run_sys (s\<lparr>mr_wks := (mr_wks s)[i := Ask]\<rparr>))"
      using inv i by (intro run_sys_swap) (auto simp: run_inv_def)
    ultimately show ?thesis using inv rest(1) by (auto simp: run_inv_def run_sys_def)
  qed simp
qed

lemma run_inv_step:
  assumes ok: "job_ok j files n d0" and inv: "run_inv j crashy files n d0 s" and step: "run_step j crashy s t"
  shows "run_inv j crashy files n d0 t"
proof -
  obtain T S base where f: "files_inv j files n d0 s T S base" using inv by (auto simp: run_inv_def)
  have m: "mr_inv files (int n) (run_sys s)" using inv by (simp add: run_inv_def)
  from step show ?thesis
  proof cases
    case (ask i now c' r)
    note next' = Assign_next [OF ask(5)]
    have "files_inv j files n d0 (s\<lparr>mr_coord := c'\<rparr>) T S base"
      using f next' by (intro files_inv_coord [OF f]) (simp_all add: files_inv_def)
    from files_inv_workers [OF this, of "Run r" i] Assign_wk_ok [OF m f ask(5)]
    have "files_inv j files n d0 (s\<lparr>mr_coord := c', mr_wks := (mr_wks s)[i := Run r]\<rparr>) T S base" by simp
    with run_sys_ask [OF m ask(2,3,5)] inv next'(3) show ?thesis unfolding ask(1) by (auto simp: run_inv_def)
  next
    case (work i r d' a)
    with run_inv_turn [OF ok inv work(2,3)] show ?thesis by simp
  next
    case (rest i r d')
    with run_inv_turn [OF ok inv rest(2,3)] show ?thesis by simp
  next
    case (leave i r d')
    with run_inv_turn [OF ok inv leave(2,3)] run_inv_exit [OF inv leave(2)] show ?thesis by simp
  next
    case (fatal i r e)
    with run_inv_turn [OF ok inv fatal(2,3)] show ?thesis by simp
  next
    case (tell i a c')
    note next' = files_inv_tell [OF f m tell(2,3,5)]
    with files_inv_workers [of j files n d0 "s\<lparr>mr_coord := c'\<rparr>" T S base Ask i]
    have "files_inv j files n d0 (s\<lparr>mr_coord := c', mr_wks := (mr_wks s)[i := Ask]\<rparr>) T S base" by simp
    with run_sys_tell [OF m tell(2,3,5)] inv next' show ?thesis unfolding tell(1) by (auto simp: run_inv_def)
  next
    case (cut i a)
    with run_inv_exit [OF inv cut(2)] inv show ?thesis by (simp add: run_inv_def)
  next
    case (crash i r d')
    obtain base' where "files_inv j files n d0 (s\<lparr>mr_dir := d'\<rparr>) T S base'" using files_inv_leftover [OF f ok crash(5)] by blast
    then have "run_inv j crashy files n d0 (s\<lparr>mr_dir := d'\<rparr>)" using inv by (auto simp: run_inv_def run_sys_def)
    from run_inv_exit [OF this] crash show ?thesis by simp
  next
    case (restart i)
    have "files_inv j files n d0 (startWorker i s) T S base" using files_inv_workers [OF f, of Ask i] by (simp add: startWorker_def)
    moreover have "mr_inv files (int n) (run_sys (startWorker i s))"
      unfolding startWorker_def using m restart by (intro run_sys_swap) simp_all
    ultimately show ?thesis using inv restart(1) by (auto simp: run_inv_def startWorker_def)
  next
    case (tick now c' go)
    note next' = CheckTimeout_next [OF tick(2)]
    have "files_inv j files n d0 (s\<lparr>mr_coord := c'\<rparr>) T S base"
      using f next' by (intro files_inv_coord [OF f]) (simp_all add: files_inv_def)
    moreover have "mr_inv files (int n) (run_sys (s\<lparr>mr_coord := c'\<rparr>))"
      using mr_inv_tick [OF m, of now c' go] tick(2) by (simp add: run_sys_def)
    ultimately show ?thesis using inv next'(3) tick(1) by (auto simp: run_inv_def)
  next
    case poll
    then have "files_inv j files n d0 t T S base" using f by (simp add: files_inv_def)
    with inv poll show ?thesis by (auto simp: run_inv_def run_sys_def)
  next
    case linger
    then have "files_inv j files n d0 t T S base" using f by (simp add: files_inv_def)
    with inv linger show ?thesis by (auto simp: run_inv_def run_sys_def)
  qed
qed

section \<open>The start of a run\<close>

lemma start_workers:
  "k \<le> length (mr_wks s) \<Longrightarrow> foldl (\<lambda>s i. startWorker i s) s [0..<k] = s\<lparr>mr_wks := replicate k Ask @ drop k (mr_wks s)\<rparr>"
proof (induction k)
  case (Suc k)
  then have "drop k (mr_wks s) = mr_wks s ! k # drop (Suc k) (mr_wks s)" by (simp add: Cons_nth_drop_Suc)
  with Suc show ?case by (simp add: startWorker_def list_update_append replicate_append_same)
qed simp

lemma runMRchan_start:
  "files \<noteq> [] \<Longrightarrow> \<exists>c. MakeCoordinator files 10 = Inr c \<and>
     runMRchan files nw sock d = Inr \<lparr>mr_coord = c, mr_cpc = Polling, mr_wks = replicate nw Ask, mr_dir = d, mr_exits = []\<rparr>"
  by (cases files) (simp_all add: runMRchan_def mrcoordinator_main_def MakeCoordinator_def start_workers)

definition run_init :: "string list \<Rightarrow> nat \<Rightarrow> fs \<Rightarrow> mr_run \<Rightarrow> bool" where
  "run_init files nw d s \<longleftrightarrow> (\<exists>sock. runMRchan files nw sock d = Inr s)"

lemma run_init_files: "run_init files nw d s \<Longrightarrow> files \<noteq> []"
  by (auto simp: run_init_def runMRchan_def mrcoordinator_main_def)

lemma run_inv_init:
  assumes "job_ok j files 10 d" "run_init files nw d s"
  shows "run_inv j crashy files 10 d s"
proof -
  obtain sock where "runMRchan files nw sock d = Inr s" using assms(2) by (auto simp: run_init_def)
  then obtain c where c: "MakeCoordinator files 10 = Inr c" "s = \<lparr>mr_coord = c, mr_cpc = Polling, mr_wks = replicate nw Ask, mr_dir = d, mr_exits = []\<rparr>"
    using runMRchan_start [OF run_init_files [OF assms(2)], of nw sock d] by auto
  have held: "held_of (replicate nw Ask) = []" by (simp add: held_of_def)
  then have "mr_inv files 10 (run_sys s)" using c by (intro mr_inv_init) (simp add: mr_init_def run_sys_def)
  moreover have "completed (mapTasks c) = {}" "completed (reduceTasks c) = {}"
    using c(1) by (auto simp: MakeCoordinator_def completed_def zero_task_def)
  then have "files_inv j files 10 d s {} {} d"
    using assms(1) c(2) by (auto simp: files_inv_def job_ok_def job_dir_def)
  ultimately show ?thesis using c(2) by (auto simp: run_inv_def)
qed

interpretation rn: invariant_machine "run_init files nw d" "run_step j crashy" "\<lambda>s. job_ok j files 10 d \<longrightarrow> run_inv j crashy files 10 d s"
  for files nw d j crashy
  by unfold_locales (use run_inv_init run_inv_step in blast)+

text \<open>When the job is done every output is there, and what it must be.\<close>

lemma run_outputs:
  assumes "run_inv j crashy files n d0 s" "job_ok j files n d0" "Done (mr_coord s)"
  shows "\<exists>base T. files_inv j files n d0 s T {..<n} base \<and> (\<forall>r < n. map_of (mr_dir s) (out_name r) =
    Some (concat (partition_lines (j_reduce j) n (all_records (j_map j) files d0) r)))"
proof -
  obtain T S base where f: "files_inv j files n d0 s T S base" using assms(1) by (auto simp: run_inv_def)
  have "all_completed (reduceTasks (mr_coord s))" "length (reduceTasks (mr_coord s)) = n"
    using assms(1,3) by (auto simp: run_inv_def mr_inv_def run_sys_def phase_ok_def Done_def)
  then have "{..<n} \<subseteq> S" using f completed_all by (auto simp: files_inv_def)
  moreover have "S \<subseteq> {..<n}" using f by (simp add: files_inv_def job_dir_def)
  ultimately have S: "S = {..<n}" by simp
  have "all_records (j_map j) files base = all_records (j_map j) files d0"
    using f assms(2) by (intro all_records_extended) (simp_all add: files_inv_def job_ok_def)
  moreover have "job_dir (j_map j) (j_reduce j) files n base T {..<n} (mr_dir s)" using f unfolding S by (simp add: files_inv_def)
  ultimately have "\<forall>r < n. map_of (mr_dir s) (out_name r) = Some (concat (partition_lines (j_reduce j) n (all_records (j_map j) files d0) r))"
    unfolding job_dir_def by simp
  then show ?thesis using f unfolding S by blast
qed

lemma run_inv_steps: "(run_step j crashy)\<^sup>*\<^sup>* s t \<Longrightarrow> job_ok j files n d0 \<Longrightarrow> run_inv j crashy files n d0 s \<Longrightarrow> run_inv j crashy files n d0 t"
  by (induction rule: rtranclp_induct) (auto intro: run_inv_step)

section \<open>The outputs of the tests\<close>

text \<open>A file that a test writes beside the workers' files.\<close>

lemma gm_put_twice: "gm_put k v (gm_put k w m) = gm_put k v m"
  by (induction k w m rule: gm_put.induct) auto

lemma run_inv_extra:
  assumes "run_inv j crashy files n d0 s" "job_ok j files n d0" "map_of (mr_dir s) x = None" "result_name x"
  shows "run_inv j crashy files n (gm_put x content d0) (s\<lparr>mr_dir := gm_put x content (mr_dir s)\<rparr>)"
    and "job_ok j files n (gm_put x content d0)" and "all_records (j_map j) files (gm_put x content d0) = all_records (j_map j) files d0"
proof -
  obtain T S base where f: "files_inv j files n d0 s T S base" using assms(1) by (auto simp: run_inv_def)
  then have "map_of d0 \<subseteq>\<^sub>m map_of base" "clean_dir 10 base" "job_dir (j_map j) (j_reduce j) files n base T S (mr_dir s)"
    by (simp_all add: files_inv_def)
  moreover have inp: "set files \<subseteq> dom (map_of d0)" "clean_dir 10 d0" "n \<le> 10" using assms(2) by (simp_all add: job_ok_def)
  ultimately have "map_of d0 x = None"
    using job_dir_input [of "j_map j" "j_reduce j" files n base T S "mr_dir s" x] clean_dir_mono assms(3)
    by (metis map_le_def domIff not_None_eq)
  then have le: "map_of d0 \<subseteq>\<^sub>m map_of (gm_put x content d0)" by (auto simp: map_le_def)
  then show rec: "all_records (j_map j) files (gm_put x content d0) = all_records (j_map j) files d0"
    using inp(1) by (rule all_records_extended)
  show "job_ok j files n (gm_put x content d0)"
    using assms(2,4) rec inp(1) by (auto simp: job_ok_def clean_dir_result)
  have "files_inv j files n d0 (s\<lparr>mr_dir := gm_put x content (mr_dir s)\<rparr>) T S (gm_put x content base)"
    using files_inv_extra [OF f assms(2-4)] .
  then have "files_inv j files n (gm_put x content d0) (s\<lparr>mr_dir := gm_put x content (mr_dir s)\<rparr>) T S (gm_put x content base)"
    by (auto simp: files_inv_def map_le_def)
  then show "run_inv j crashy files n (gm_put x content d0) (s\<lparr>mr_dir := gm_put x content (mr_dir s)\<rparr>)"
    using assms(1) by (auto simp: run_inv_def run_sys_def)
qed

lemma run_keeps_file:
  assumes "run_inv j crashy files n d0 s" "job_ok j files n d0" "map_of d0 x = Some content"
  shows "map_of (mr_dir s) x = Some content"
proof -
  obtain T S base where f: "map_of d0 \<subseteq>\<^sub>m map_of base" "clean_dir n base" "job_dir (j_map j) (j_reduce j) files n base T S (mr_dir s)"
    using assms(1,2) clean_dir_mono by (fastforce simp: run_inv_def files_inv_def job_ok_def)
  have "map_of base x = Some content" using f(1) assms(3) by (metis domI map_le_def)
  then show ?thesis using job_dir_input [OF f(3,2)] by blast
qed

text \<open>The output of the sequential program, and the merged outputs.\<close>

definition seq_output :: "job \<Rightarrow> string list \<Rightarrow> fs \<Rightarrow> string" where
  "seq_output j files d =
     concat (map (key_line (j_reduce j) (all_records (j_map j) files d)) (sorted_list_of_set (Key ` set (all_records (j_map j) files d))))"

lemma run_merge:
  assumes "find_ok findp" "sort_ok le sortp" "mkOut b = Inr tmp" "length b = 16"
    and "run_inv j crashy files 10 d0 s" "job_ok j files 10 d0" "Done (mr_coord s)" "result_name out"
  shows "mergeOutput findp sortp tmp out (mr_dir s) = Inr (gm_put out (sortp [seq_output j files d0]) (mr_dir s))"
proof -
  define content where "content r = concat (partition_lines (j_reduce j) 10 (all_records (j_map j) files d0) r)" for r
  obtain base T where 1: "files_inv j files 10 d0 s T {..<10} base" "\<forall>r < 10. map_of (mr_dir s) (out_name r) = Some (content r)"
    using run_outputs [OF assms(5-7)] by (auto simp: content_def)
  have "distinct (map fst (mr_dir s))" using 1(1) by (simp add: files_inv_def job_dir_def)
  from mergeOutput_effect [OF assms(1,3,4) _ order_refl this assms(8) 1(2)] obtain rs where
    rs: "mergeOutput findp sortp tmp out (mr_dir s) = Inr (gm_put out (sortp (map content rs)) (gm_put out [] (mr_dir s)))"
    "mset rs = mset [0..<10]" by auto
  have "sortp (map content rs) = sortp [seq_output j files d0]" unfolding seq_output_def
    by (rule sort_determined [OF assms(2)], rule merged_lines [OF _ _ _ rs(2)])
      (auto simp: key_line_newline content_def partition_lines_def)
  with rs(1) show ?thesis by (simp add: gm_put_twice)
qed

lemma exits_grow: "run_step j crashy s t \<Longrightarrow> mr_exits s \<noteq> [] \<Longrightarrow> mr_exits t \<noteq> []"
  by (erule run_step.cases) (simp_all add: wk_exit_def startWorker_def)

lemma exits_stay: "(run_step j crashy)\<^sup>*\<^sup>* s t \<Longrightarrow> mr_exits s \<noteq> [] \<Longrightarrow> mr_exits t \<noteq> []"
  by (induction rule: rtranclp_induct) (auto dest: exits_grow)

section \<open>Progress\<close>

definition left_todo :: "coordinator \<Rightarrow> nat" where
  "left_todo c = todo (mapTasks c) + todo (reduceTasks c)"

text \<open>One task from the timeout of its last attempt to its report.\<close>

lemma coord_round:
  assumes "mr_inv files n \<lparr>coord = c, held = hs\<rparr>" "files \<noteq> []" "n > 0" "\<not> Done c"
  obtains now c1 go c2 r c3 where "CheckTimeout now c = (c1, go)" "Assign now c1 zero_rpc_reply = (c2, r)"
    "TaskType r = ''map'' \<or> TaskType r = ''reduce''" "ReportTaskCompletion c2 (reply_done r) = Inr c3" "left_todo c3 < left_todo c"
proof (cases "phase c")
  case MapPhase
  with assms(1,2) have "\<not> all_completed (mapTasks c)" by (auto simp: mr_inv_def phase_ok_def)
  then obtain now i where i: "find_index (\<lambda>t. State t = Idle) (expireTasksLocked now (mapTasks c)) = Some i" by (rule expire_idle)
  define ts where "ts = expireTasksLocked now (mapTasks c)"
  have l: "i < length ts" "State (ts ! i) = Idle" using i by (auto simp: ts_def find_index_Some)
  have less: "todo (ts[i := (start_task now (ts ! i))\<lparr>State := Completed\<rparr>]) < todo (mapTasks c)"
    using todo_complete [of i ts "start_task now (ts ! i)"] l by (simp add: ts_def)
  define c1 where "c1 = fst (CheckTimeout now c)"
  define a where "a = Assign now c1 zero_rpc_reply"
  have "\<exists>c3. ReportTaskCompletion (fst a) (reply_done (snd a)) = Inr c3 \<and> left_todo c3 < left_todo c"
    using MapPhase i l less
    by (simp add: CheckTimeout_def Assign_def c1_def a_def ts_def [symmetric] reply_done_def ReportTaskCompletion_def Let_def left_todo_def start_task_def)
  moreover have "TaskType (snd a) = ''map'' \<or> TaskType (snd a) = ''reduce''"
    using MapPhase i by (simp add: CheckTimeout_def Assign_def c1_def a_def ts_def [symmetric])
  ultimately show thesis
    using that [of now c1 "snd (CheckTimeout now c)" "fst a" "snd a"] by (auto simp: a_def c1_def)
next
  case ReducePhase
  with assms(1,3) have "\<not> all_completed (reduceTasks c)" by (auto simp: mr_inv_def phase_ok_def)
  then obtain now i where i: "find_index (\<lambda>t. State t = Idle) (expireTasksLocked now (reduceTasks c)) = Some i" by (rule expire_idle)
  define ts where "ts = expireTasksLocked now (reduceTasks c)"
  have l: "i < length ts" "State (ts ! i) = Idle" using i by (auto simp: ts_def find_index_Some)
  have less: "todo (ts[i := (start_task now (ts ! i))\<lparr>State := Completed\<rparr>]) < todo (reduceTasks c)"
    using todo_complete [of i ts "start_task now (ts ! i)"] l by (simp add: ts_def)
  define c1 where "c1 = fst (CheckTimeout now c)"
  define a where "a = Assign now c1 zero_rpc_reply"
  have "\<exists>c3. ReportTaskCompletion (fst a) (reply_done (snd a)) = Inr c3 \<and> left_todo c3 < left_todo c"
    using ReducePhase i l less
    by (simp add: CheckTimeout_def Assign_def c1_def a_def ts_def [symmetric] reply_done_def ReportTaskCompletion_def Let_def left_todo_def start_task_def)
  moreover have "TaskType (snd a) = ''map'' \<or> TaskType (snd a) = ''reduce''"
    using ReducePhase i by (simp add: CheckTimeout_def Assign_def c1_def a_def ts_def [symmetric])
  ultimately show thesis
    using that [of now c1 "snd (CheckTimeout now c)" "fst a" "snd a"] by (auto simp: a_def c1_def)
next
  case AllDone
  with assms(4) show thesis by (simp add: Done_def)
qed

text \<open>A report does not undo anything.\<close>

lemma report_todo:
  assumes "mr_inv files n (run_sys s)" "i < length (mr_wks s)" "mr_wks s ! i = Tell a"
  obtains c' where "ReportTaskCompletion (mr_coord s) a = Inr c'" "left_todo c' \<le> left_todo (mr_coord s)"
proof -
  have a: "a \<in> set (held (run_sys s))" using holds_in_held [OF assms(2), of a] assms(3) by (simp add: run_sys_def)
  have co: "coord (run_sys s) = mr_coord s" by (simp add: run_sys_def)
  from assms(1) a have "\<exists>c'. ReportTaskCompletion (mr_coord s) a = Inr c' \<and> left_todo c' \<le> left_todo (mr_coord s)"
  proof (cases rule: Report_held)
    case (map_task k tasks)
    then show ?thesis using todo_complete [of k "mapTasks (mr_coord s)" "mapTasks (mr_coord s) ! k"] by (simp add: co left_todo_def)
  next
    case (reduce_task k tasks)
    then show ?thesis using todo_complete [of k "reduceTasks (mr_coord s)" "reduceTasks (mr_coord s) ! k"] by (simp add: co left_todo_def)
  qed (simp add: co)
  then show thesis using that by blast
qed

text \<open>A worker that lives, or is started again, comes to its next call of \<open>Assign\<close>.\<close>

lemma tell_ready:
  assumes "run_inv j crashy files n d0 s" "\<not> Done (mr_coord s)" "i < length (mr_wks s)" "mr_wks s ! i = Tell a"
  shows "\<exists>t. run_step j crashy s t \<and> mr_wks t ! i = Ask \<and> i < length (mr_wks t) \<and> left_todo (mr_coord t) \<le> left_todo (mr_coord s)"
proof -
  have m: "mr_inv files (int n) (run_sys s)" and c: "mr_cpc s \<noteq> CGone" using assms(1,2) by (auto simp: run_inv_def)
  from m assms(3,4) obtain c' where c': "ReportTaskCompletion (mr_coord s) a = Inr c'" "left_todo c' \<le> left_todo (mr_coord s)"
    by (rule report_todo)
  with run_step.tell [OF assms(3,4) c, of c' j crashy] assms(3) show ?thesis
    by (intro exI [of _ "s\<lparr>mr_coord := c', mr_wks := (mr_wks s)[i := Ask]\<rparr>"]) simp
qed

lemma worker_ready:
  assumes "job_ok j files n d0" "run_inv j crashy files n d0 s" "\<not> Done (mr_coord s)" "i < length (mr_wks s)" "crashy \<or> mr_wks s ! i \<noteq> Gone"
  shows "\<exists>t. (run_step j crashy)\<^sup>*\<^sup>* s t \<and> mr_wks t ! i = Ask \<and> i < length (mr_wks t) \<and> left_todo (mr_coord t) \<le> left_todo (mr_coord s)"
proof (cases "mr_wks s ! i")
  case Ask
  then show ?thesis using assms(4) by blast
next
  case Gone
  then have "run_step j crashy s (startWorker i s)" using assms(4,5) by (intro run_step.restart) auto
  then show ?thesis using assms(4) by (intro exI [of _ "startWorker i s"]) (simp add: startWorker_def r_into_rtranclp)
next
  case (Tell a)
  then show ?thesis using tell_ready [OF assms(2-4)] by (meson r_into_rtranclp)
next
  case (Run r)
  obtain T S base where f: "files_inv j files n d0 s T S base" using assms(2) by (auto simp: run_inv_def)
  have "wk_ok files n T S (Done (mr_coord s)) (Run r)" using files_inv_nth [OF f assms(4)] unfolding Run .
  with assms(1) f show ?thesis
  proof (cases rule: turn_effect)
    case (task d' T' S')
    define t where "t = s\<lparr>mr_dir := d', mr_wks := (mr_wks s)[i := Tell (reply_done r)]\<rparr>"
    have st: "run_step j crashy s t" unfolding t_def using assms(4) Run task(1) by (rule run_step.work)
    have "run_inv j crashy files n d0 t" using run_inv_step [OF assms(1,2) st] .
    from tell_ready [OF this, of i "reply_done r"] assms(3,4) obtain u where "run_step j crashy t u" "mr_wks u ! i = Ask"
      "i < length (mr_wks u)" "left_todo (mr_coord u) \<le> left_todo (mr_coord s)" by (auto simp: t_def)
    then show ?thesis using st by (meson converse_rtranclp_into_rtranclp r_into_rtranclp)
  next
    case rest
    then have "run_step j crashy s (s\<lparr>mr_dir := mr_dir s, mr_wks := (mr_wks s)[i := Ask]\<rparr>)" using run_step.rest [OF assms(4) Run] by blast
    then show ?thesis using assms(4) by (intro exI [of _ "s\<lparr>mr_dir := mr_dir s, mr_wks := (mr_wks s)[i := Ask]\<rparr>"]) (simp add: r_into_rtranclp)
  next
    case leave
    then show ?thesis using assms(3) by simp
  qed
qed

text \<open>It then completes a task.\<close>

lemma run_round:
  assumes "job_ok j files n d0" "files \<noteq> []" "run_inv j crashy files n d0 s" "\<not> Done (mr_coord s)" "i < length (mr_wks s)" "mr_wks s ! i = Ask"
  shows "\<exists>t. (run_step j crashy)\<^sup>*\<^sup>* s t \<and> mr_wks t ! i = Ask \<and> i < length (mr_wks t) \<and> left_todo (mr_coord t) < left_todo (mr_coord s)"
proof -
  have m: "mr_inv files (int n) \<lparr>coord = mr_coord s, held = held_of (mr_wks s)\<rparr>" "mr_cpc s \<noteq> CGone" "int n > 0"
    using assms(1,3,4) by (auto simp: run_inv_def run_sys_def job_ok_def)
  from m(1) assms(2) m(3) assms(4) obtain now c1 go c2 r c3 where c: "CheckTimeout now (mr_coord s) = (c1, go)"
    "Assign now c1 zero_rpc_reply = (c2, r)" "TaskType r = ''map'' \<or> TaskType r = ''reduce''"
    "ReportTaskCompletion c2 (reply_done r) = Inr c3" "left_todo c3 < left_todo (mr_coord s)" by (rule coord_round)
  define s1 where "s1 = s\<lparr>mr_coord := c1\<rparr>"
  define s2 where "s2 = s1\<lparr>mr_coord := c2, mr_wks := (mr_wks s1)[i := Run r]\<rparr>"
  have 1: "run_step j crashy s s1" unfolding s1_def by (rule run_step.tick [OF c(1)])
  have 2: "run_step j crashy s1 s2" unfolding s2_def using assms(5,6) m(2) c(2) by (intro run_step.ask) (simp_all add: s1_def)
  have i2: "i < length (mr_wks s2)" "mr_wks s2 ! i = Run r" using assms(5) by (simp_all add: s1_def s2_def)
  have inv2: "run_inv j crashy files n d0 s2" using run_inv_step [OF assms(1) run_inv_step [OF assms(1,3) 1] 2] .
  then obtain T S base where f: "files_inv j files n d0 s2 T S base" by (auto simp: run_inv_def)
  have "wk_ok files n T S (Done (mr_coord s2)) (Run r)" using files_inv_nth [OF f i2(1)] unfolding i2(2) .
  with assms(1) f obtain d' where d': "job_turn j r (mr_dir s2) = Inr (d', Report (reply_done r))"
    by (rule turn_effect) (use c(3) in auto)
  define s3 where "s3 = s2\<lparr>mr_dir := d', mr_wks := (mr_wks s2)[i := Tell (reply_done r)]\<rparr>"
  have 3: "run_step j crashy s2 s3" unfolding s3_def using i2 d' by (rule run_step.work)
  have 4: "run_step j crashy s3 (s3\<lparr>mr_coord := c3, mr_wks := (mr_wks s3)[i := Ask]\<rparr>)"
    using i2(1) m(2) c(4) by (intro run_step.tell) (simp_all add: s1_def s2_def s3_def)
  have "(run_step j crashy)\<^sup>*\<^sup>* s (s3\<lparr>mr_coord := c3, mr_wks := (mr_wks s3)[i := Ask]\<rparr>)"
    using three_steps [of "run_step j crashy", OF 1 2 3] 4 by (rule rtranclp.rtrancl_into_rtrancl)
  then show ?thesis using c(5) assms(5)
    by (intro exI [of _ "s3\<lparr>mr_coord := c3, mr_wks := (mr_wks s3)[i := Ask]\<rparr>"]) (simp add: s1_def s2_def s3_def)
qed

lemma run_finishes:
  assumes "job_ok j files n d0" "files \<noteq> []" "run_inv j crashy files n d0 s" "i < length (mr_wks s)" "crashy \<or> mr_wks s ! i \<noteq> Gone"
  shows "\<exists>t. (run_step j crashy)\<^sup>*\<^sup>* s t \<and> Done (mr_coord t)"
  using assms(3-5)
proof (induction "left_todo (mr_coord s)" arbitrary: s rule: less_induct)
  case (less s)
  show ?case
  proof (cases "Done (mr_coord s)")
    case False
    from worker_ready [OF assms(1) less.prems(1) False less.prems(2,3)] obtain u where u: "(run_step j crashy)\<^sup>*\<^sup>* s u"
      "mr_wks u ! i = Ask" "i < length (mr_wks u)" "left_todo (mr_coord u) \<le> left_todo (mr_coord s)" by blast
    have iu: "run_inv j crashy files n d0 u" using run_inv_steps [OF u(1) assms(1) less.prems(1)] .
    show ?thesis
    proof (cases "Done (mr_coord u)")
      case False
      from run_round [OF assms(1,2) iu False u(3,2)] obtain v where v: "(run_step j crashy)\<^sup>*\<^sup>* u v" "mr_wks v ! i = Ask"
        "i < length (mr_wks v)" "left_todo (mr_coord v) < left_todo (mr_coord u)" by blast
      have "left_todo (mr_coord v) < left_todo (mr_coord s)" using v(4) u(4) by simp
      from less.hyps [OF this run_inv_steps [OF v(1) assms(1) iu] v(3)] v(2) obtain t where "(run_step j crashy)\<^sup>*\<^sup>* v t" "Done (mr_coord t)" by auto
      then show ?thesis using u(1) v(1) by (meson rtranclp_trans)
    qed (use u(1) in blast)
  qed blast
qed

lemma done_exits:
  assumes "Done (mr_coord s)"
  shows "\<exists>t. (run_step j crashy)\<^sup>*\<^sup>* s t \<and> mr_cpc t = CGone"
proof -
  have linger: "\<exists>t. (run_step j crashy)\<^sup>*\<^sup>* u t \<and> mr_cpc t = CGone" if "mr_cpc u = Lingering" for u
    using run_step.linger [OF that, of j crashy]
    by (intro exI [of _ "u\<lparr>mr_cpc := CGone, mr_exits := mr_exits u @ [length (mr_wks u)]\<rparr>"]) (simp add: r_into_rtranclp)
  show ?thesis
  proof (cases "mr_cpc s")
    case Polling
    then have "run_step j crashy s (s\<lparr>mr_cpc := Lingering\<rparr>)" using assms by (rule run_step.poll)
    then show ?thesis using linger [of "s\<lparr>mr_cpc := Lingering\<rparr>"] by (auto intro: converse_rtranclp_into_rtranclp)
  qed (use linger in blast)+
qed

text \<open>A worker that has exited is among the exits, unless it was started again.\<close>

definition gone_inv :: "string list \<Rightarrow> nat \<Rightarrow> mr_run \<Rightarrow> bool" where
  "gone_inv files nw s \<longleftrightarrow> files \<noteq> [] \<and> length (mr_wks s) = nw \<and> (Gone \<in> set (mr_wks s) \<or> mr_cpc s = CGone \<longrightarrow> mr_exits s \<noteq> [])"

lemma gone_update: "w \<noteq> Gone \<Longrightarrow> Gone \<in> set (ws[i := w]) \<Longrightarrow> Gone \<in> set ws"
  using set_update_subset_insert [of ws i w] by auto

lemma gone_inv_step: "gone_inv files nw s \<Longrightarrow> run_step j crashy s t \<Longrightarrow> gone_inv files nw t"
  by (erule run_step.cases) (auto simp: gone_inv_def wk_exit_def startWorker_def dest!: gone_update [rotated])

lemma gone_inv_init: "run_init files nw d s \<Longrightarrow> gone_inv files nw s"
proof -
  assume init: "run_init files nw d s"
  then obtain sock where "runMRchan files nw sock d = Inr s" by (auto simp: run_init_def)
  then show ?thesis using runMRchan_start [OF run_init_files [OF init], of nw sock d] run_init_files [OF init] by (auto simp: gone_inv_def)
qed

interpretation rg: invariant_machine "run_init files nw d" "run_step j crashy" "gone_inv files nw" for files nw d j crashy
  by unfold_locales (fact gone_inv_init, fact gone_inv_step)

section \<open>Properties of a run\<close>



text \<open>
  C17: a run can always be finished. From every state a run with at least one worker reaches, with all the crashes, timeouts and
  late attempts it took to come there, there is a way on to the exit of the coordinator, so that \<open>runMRchan\<close> returns.
\<close>
theorem run_can_finish:
  assumes "job_ok j files 10 d" "0 < nw" "reachable (run_init files nw d) (run_step j crashy) s"
  shows "\<exists>t. (run_step j crashy)\<^sup>*\<^sup>* s t \<and> mr_cpc t = CGone"
proof -
  have inv: "run_inv j crashy files 10 d s" using rn.reachable_inv [OF assms(3)] assms(1) by blast
  have gone: "gone_inv files nw s" using assms(3) by (rule rg.reachable_inv)
  then have "files \<noteq> []" by (simp add: gone_inv_def)
  show ?thesis
  proof (cases "Done (mr_coord s)")
    case False
    have "0 < length (mr_wks s)" using gone assms(2) by (simp add: gone_inv_def)
    moreover have "crashy \<or> mr_wks s ! 0 \<noteq> Gone"
      using gone inv False nth_mem [OF calculation] by (auto simp: gone_inv_def run_inv_def)
    ultimately obtain t where t: "(run_step j crashy)\<^sup>*\<^sup>* s t" "Done (mr_coord t)" using run_finishes [OF assms(1) \<open>files \<noteq> []\<close> inv] by blast
    then show ?thesis using done_exits [OF t(2), of j crashy] by (meson rtranclp_trans)
  qed (rule done_exits)
qed

section \<open>Witnesses\<close>

text \<open>A job that counts words, one input file, and a worker that has just started.\<close>

definition wit_job :: job where
  "wit_job = \<lparr>j_map = wit_mapf, j_reduce = (\<lambda>k vs. itoa (int (length vs))), j_sort = sort_key Key, j_temp = wit_mktemp\<rparr>"

lemma wit_job_ok: "job_ok wit_job [''in''] 10 [(''in'', ''x'')]"
proof -
  have "value_order_free (\<lambda>k vs. itoa (int (length vs)))" by (auto simp: value_order_free_def dest: mset_eq_length)
  moreover have "\<forall>kv \<in> set (all_records wit_mapf [''in''] [(''in'', ''x'')]). plain_key (Key kv)"
    by (simp add: all_records_def wit_mapf_def plain_key_def)
  moreover have "clean_dir 10 [(''in'', ''x'')]" by (simp add: clean_dir_def glob_match_iff)
  ultimately show ?thesis using sort_key_sorts wit_mktemp_fresh by (simp add: job_ok_def wit_job_def)
qed

definition wit_run :: mr_run where
  "wit_run = projr (runMRchan [''in''] 1 ''s'' [(''in'', ''x'')])"

lemma wit_run_reachable: "reachable (run_init [''in''] 1 [(''in'', ''x'')]) (run_step wit_job crashy) wit_run"
  using runMRchan_start [of "[''in'']" 1 "''s''" "[(''in'', ''x'')]"]
  by (intro reachable_start) (auto simp: run_init_def wit_run_def)

theorem run_can_finish_witness: "\<exists>t. (run_step wit_job False)\<^sup>*\<^sup>* wit_run t \<and> mr_cpc t = CGone"
  using run_can_finish [OF wit_job_ok _ wit_run_reachable, of False] by simp

lemma wit_tmp: "mkOut (replicate 16 0) = Inr ''mr-tmp-AAAAAAAA''"
  by code_simp

lemma wit_results: "result_name ''mr-wc-all.txt''" "result_name ''mr-wc-correct.txt''"
  by (auto simp: result_name_def glob_match_iff nat_digits.simps)


lemma wit_first: "\<exists>x. result_name x \<and> x \<noteq> ''mr-wc-all.txt'' \<and> map_of d x = None"
proof -
  have "infinite (range (\<lambda>k. replicate k (CHR ''a'')))" by (simp add: finite_image_iff inj_on_def)
  then obtain k where k: "replicate k (CHR ''a'') \<notin> dom (map_of d)"
    by (metis finite_dom_map_of finite_subset image_subsetI)
  have "result_name (replicate k (CHR ''a''))" by (cases k) (auto simp: result_name_def glob_match_iff)
  moreover have "replicate k (CHR ''a'') \<noteq> ''mr-wc-all.txt''" by (cases k) auto
  ultimately show ?thesis using k by (intro exI [of _ "replicate k (CHR ''a'')"]) (simp add: domIff)
qed


end
