(* ===== verification/LabRpc.thy ===== *)
theory LabRpc
  imports Prelude
begin

text \<open>
  The simulated network of the labs (\<open>labrpc/labrpc.go\<close>): end points, connections, servers with
  their services, and \<open>processReq\<close>, the goroutine that carries one RPC: it may drop the request, run
  the handler, give up when the server is deleted, drop or delay the reply.

  \<open>processReq\<close> is cut at the points where other goroutines interleave: the beginning, the run of
  the handler, the polls for a dead server and the end. The step relation \<open>net_step\<close> interleaves
  any number of RPCs with the tester's changes of the network. Random numbers are arguments.

  Shown: a handler runs at most once per call, a positive reply is the very reply of the handler
  of a server that was still registered, a reliable network delivers, and the counters count.
\<close>

section \<open>Messages\<close>

text \<open>Arguments and replies are bytes; \<open>nil\<close> is the empty string.\<close>

type_synonym bytes = string

record req_msg =
  endname :: string
  svcMeth :: string
  args :: bytes

record reply_msg =
  ok :: bool
  reply :: bytes

definition failed :: reply_msg where
  "failed = \<lparr>ok = False, reply = []\<rparr>"

definition SHORTDELAY :: int where "SHORTDELAY = 27"
definition LONGDELAY :: int where "LONGDELAY = 7000"

section \<open>Services and servers\<close>

text \<open>
  A handler decodes its arguments, calls the method on the receiver \<open>'a\<close> and encodes the reply;
  decoding may end the process.
\<close>

type_synonym 'a handler = "bytes \<Rightarrow> 'a \<Rightarrow> ('a \<times> bytes) result"

text \<open>What reflection says of a method of the receiver.\<close>

record 'a method_info =
  m_name :: string
  m_exported :: bool
  m_NumIn :: nat
  m_In2_ptr :: bool
  m_NumOut :: nat
  m_func :: "'a handler"

record 'a service =
  svc_name :: string
  methods :: "(string, 'a handler) gomap"

definition suitable :: "'a method_info \<Rightarrow> bool" where
  "suitable m \<longleftrightarrow> \<not> (\<not> m_exported m \<or> m_NumIn m \<noteq> 3 \<or> \<not> m_In2_ptr m \<or> m_NumOut m \<noteq> 0)"

definition MakeService :: "string \<Rightarrow> 'a method_info list \<Rightarrow> 'a service" where
  "MakeService name ms =
     \<lparr>svc_name = name,
      methods = foldl (\<lambda>t m. if suitable m then gm_put (m_name m) (m_func m) t else t) [] ms\<rparr>"

definition service_dispatch :: "'a service \<Rightarrow> string \<Rightarrow> req_msg \<Rightarrow> 'a \<Rightarrow> ('a \<times> reply_msg) result" where
  "service_dispatch svc methname req rcvr =
     (case map_of (methods svc) methname of
        Some method \<Rightarrow> res_bind (method (args req) rcvr) (\<lambda>(rcvr', rb). Inr (rcvr', \<lparr>ok = True, reply = rb\<rparr>))
      | None \<Rightarrow> Inl (Fatal ''unknown method''))"

text \<open>
  A server: its services, the count of incoming RPCs, the dispatch function a daemon installs, and
  the receiver's state.
\<close>

record 'a server =
  services :: "(string, 'a service) gomap"
  srv_count :: int
  dispatchf :: "(string \<Rightarrow> bytes \<Rightarrow> 'a \<Rightarrow> 'a \<times> bytes \<times> bool) option"
  rcvr :: 'a

definition MakeServer :: "'a \<Rightarrow> 'a server" where
  "MakeServer a = \<lparr>services = [], srv_count = 0, dispatchf = None, rcvr = a\<rparr>"

definition SetDispatch :: "(string \<Rightarrow> bytes \<Rightarrow> 'a \<Rightarrow> 'a \<times> bytes \<times> bool) \<Rightarrow> 'a server \<Rightarrow> 'a server" where
  "SetDispatch f rs = rs\<lparr>dispatchf := Some f\<rparr>"

definition AddService :: "'a service \<Rightarrow> 'a server \<Rightarrow> 'a server" where
  "AddService svc rs = rs\<lparr>services := gm_put (svc_name svc) svc (services rs)\<rparr>"

text \<open>\<open>strings.LastIndex(s, ".")\<close>; slicing at \<open>-1\<close> panics.\<close>

fun last_dot :: "string \<Rightarrow> nat option" where
  "last_dot [] = None"
| "last_dot (c # s) =
     (case last_dot s of
        Some i \<Rightarrow> Some (i + 1)
      | None \<Rightarrow> if c = CHR ''.'' then Some 0 else None)"

definition server_dispatch :: "req_msg \<Rightarrow> 'a server \<Rightarrow> ('a server \<times> reply_msg) result" where
  "server_dispatch req rs =
     (let rs1 = rs\<lparr>srv_count := srv_count rs + 1\<rparr>
      in case last_dot (svcMeth req) of
           None \<Rightarrow> Inl (Panic ''slice bounds out of range'')
         | Some dot \<Rightarrow>
             let serviceName = take dot (svcMeth req);
                 methodName = drop (dot + 1) (svcMeth req)
             in case dispatchf rs of
                  Some f \<Rightarrow> let (a, rep, k) = f (svcMeth req) (args req) (rcvr rs)
                             in Inr (rs1\<lparr>rcvr := a\<rparr>, \<lparr>ok = k, reply = rep\<rparr>)
                | None \<Rightarrow>
                    (case map_of (services rs) serviceName of
                       Some svc \<Rightarrow> res_bind (service_dispatch svc methodName req (rcvr rs))
                                      (\<lambda>(a, rep). Inr (rs1\<lparr>rcvr := a\<rparr>, rep))
                     | None \<Rightarrow> Inl (Fatal ''unknown service'')))"

text \<open>\<open>Dispatch\<close> is the entry point of a server that is called over a socket.\<close>

definition Dispatch :: "string \<Rightarrow> string \<Rightarrow> bytes \<Rightarrow> 'a server \<Rightarrow> ('a server \<times> bytes \<times> bool) result" where
  "Dispatch meth clnt b rs =
     res_bind (server_dispatch \<lparr>endname = clnt, svcMeth = meth, args = b\<rparr> rs) (\<lambda>(rs', rep). Inr (rs', reply rep, ok rep))"

definition Server_GetCount :: "'a server \<Rightarrow> int" where
  "Server_GetCount rs = srv_count rs"

section \<open>The network\<close>

text \<open>
  Servers are pointers into a heap of server objects; a deleted server stays in the map as a nil
  pointer. \<open>ends\<close> keeps the names of the end points (their channels are those of the network).
\<close>

record network =
  reliable :: bool
  longDelays :: bool
  longReordering :: bool
  ends :: "(string, unit) gomap"
  enabled :: "(string, bool) gomap"
  servers :: "(string, nat option) gomap"
  connections :: "(string, string option) gomap"
  net_done :: bool
  rpc_count :: "32 word"
  net_bytes :: "64 word"

definition MakeNetwork :: network where
  "MakeNetwork = \<lparr>reliable = True, longDelays = False, longReordering = False, ends = [], enabled = [],
     servers = [], connections = [], net_done = False, rpc_count = 0, net_bytes = 0\<rparr>"

definition Cleanup :: "network \<Rightarrow> network result" where
  "Cleanup rn = (if net_done rn then Inl (Panic ''close of closed channel'') else Inr (rn\<lparr>net_done := True\<rparr>))"

definition Reliable :: "bool \<Rightarrow> network \<Rightarrow> network" where "Reliable yes rn = rn\<lparr>reliable := yes\<rparr>"
definition IsReliable :: "network \<Rightarrow> bool" where "IsReliable rn = reliable rn"
definition LongReordering :: "bool \<Rightarrow> network \<Rightarrow> network" where "LongReordering yes rn = rn\<lparr>longReordering := yes\<rparr>"
definition LongDelays :: "bool \<Rightarrow> network \<Rightarrow> network" where "LongDelays yes rn = rn\<lparr>longDelays := yes\<rparr>"
definition IsLongDelays :: "network \<Rightarrow> bool" where "IsLongDelays rn = longDelays rn"

text \<open>Lookups of Go maps: the zero value for a missing key.\<close>

definition get_enabled :: "network \<Rightarrow> string \<Rightarrow> bool" where
  "get_enabled rn e = (map_of (enabled rn) e = Some True)"

definition get_connection :: "network \<Rightarrow> string \<Rightarrow> string option" where
  "get_connection rn e = (case map_of (connections rn) e of Some c \<Rightarrow> c | None \<Rightarrow> None)"

definition get_server :: "network \<Rightarrow> string \<Rightarrow> nat option" where
  "get_server rn s = (case map_of (servers rn) s of Some p \<Rightarrow> p | None \<Rightarrow> None)"

definition MakeEnd :: "string \<Rightarrow> network \<Rightarrow> network result" where
  "MakeEnd e rn =
     (if map_of (ends rn) e \<noteq> None then Inl (Fatal ''already exists'')
      else Inr (rn\<lparr>ends := gm_put e () (ends rn), enabled := gm_put e False (enabled rn),
                   connections := gm_put e None (connections rn)\<rparr>))"

definition LookupEnd :: "string \<Rightarrow> network \<Rightarrow> string result" where
  "LookupEnd e rn = (if map_of (ends rn) e = None then Inl (Fatal ''does not exist'') else Inr e)"

definition DeleteEnd :: "string \<Rightarrow> network \<Rightarrow> network result" where
  "DeleteEnd e rn =
     (if map_of (ends rn) e = None then Inl (Fatal ''does not exist'')
      else Inr (rn\<lparr>ends := gm_delete e (ends rn), enabled := gm_delete e (enabled rn),
                   connections := gm_delete e (connections rn)\<rparr>))"

definition AddServer :: "string \<Rightarrow> nat \<Rightarrow> network \<Rightarrow> network" where
  "AddServer s p rn = rn\<lparr>servers := gm_put s (Some p) (servers rn)\<rparr>"

definition DeleteServer :: "string \<Rightarrow> network \<Rightarrow> network" where
  "DeleteServer s rn = rn\<lparr>servers := gm_put s None (servers rn)\<rparr>"

definition Connect :: "string \<Rightarrow> string \<Rightarrow> network \<Rightarrow> network" where
  "Connect e s rn = rn\<lparr>connections := gm_put e (Some s) (connections rn)\<rparr>"

definition Enable :: "string \<Rightarrow> bool \<Rightarrow> network \<Rightarrow> network" where
  "Enable e b rn = rn\<lparr>enabled := gm_put e b (enabled rn)\<rparr>"

text \<open>\<open>GetCount\<close> dereferences the server's pointer.\<close>

definition GetCount :: "string \<Rightarrow> (nat \<Rightarrow> 'a server) \<Rightarrow> network \<Rightarrow> int result" where
  "GetCount s heap rn =
     (case get_server rn s of
        Some p \<Rightarrow> Inr (Server_GetCount (heap p))
      | None \<Rightarrow> Inl (Panic ''nil pointer dereference''))"

definition GetTotalCount :: "network \<Rightarrow> int" where "GetTotalCount rn = sint (rpc_count rn)"
definition GetTotalBytes :: "network \<Rightarrow> int" where "GetTotalBytes rn = sint (net_bytes rn)"

section \<open>processReq\<close>

record end_info =
  i_servername :: string
  i_server :: nat
  i_reliable :: bool
  i_longreordering :: bool

definition readEndnameInfo :: "string \<Rightarrow> network \<Rightarrow> bool \<times> string option \<times> nat option \<times> bool \<times> bool" where
  "readEndnameInfo e rn =
     (get_enabled rn e, get_connection rn e,
      (case get_connection rn e of Some s \<Rightarrow> get_server rn s | None \<Rightarrow> None),
      reliable rn, longReordering rn)"

definition isServerDead :: "string \<Rightarrow> string \<Rightarrow> nat \<Rightarrow> network \<Rightarrow> bool" where
  "isServerDead e s p rn = (\<not> get_enabled rn e \<or> get_server rn s \<noteq> Some p)"

text \<open>
  The beginning: either the RPC is answered with a failure (no connection, or the request is
  dropped, decided by the random number \<open>r\<close>), or the handler is to run.
\<close>

definition processReq_begin :: "int \<Rightarrow> req_msg \<Rightarrow> network \<Rightarrow> end_info option" where
  "processReq_begin r req rn =
     (case readEndnameInfo (endname req) rn of
        (True, Some s, Some p, rel, reord) \<Rightarrow>
          if rel = False \<and> r mod 1000 < 100 then None
          else Some \<lparr>i_servername = s, i_server = p, i_reliable = rel, i_longreordering = reord\<rparr>
      | _ \<Rightarrow> None)"

text \<open>
  The end: a failure, the handler's reply, or its reply after a delay (\<open>time.AfterFunc\<close>). \<open>replyOK\<close> is
  false when the wait was given up; the random numbers decide on dropping and delaying.
\<close>

datatype sending = SendFailure | SendReply reply_msg | SendLater reply_msg

definition processReq_end ::
  "int \<Rightarrow> int \<Rightarrow> bool \<Rightarrow> reply_msg \<Rightarrow> req_msg \<Rightarrow> end_info \<Rightarrow> network \<Rightarrow> sending" where
  "processReq_end r1 r2 replyOK rep req i rn =
     (let serverDead = isServerDead (endname req) (i_servername i) (i_server i) rn
      in if replyOK = False \<or> serverDead then SendFailure
         else if i_reliable i = False \<and> r1 mod 1000 < 100 then SendFailure
         else if i_longreordering i \<and> r2 mod 900 < 600 then SendLater rep
         else SendReply rep)"

text \<open>Sending a reply of the handler counts its bytes.\<close>

definition count_reply :: "reply_msg \<Rightarrow> network \<Rightarrow> network" where
  "count_reply rep rn = rn\<lparr>net_bytes := net_bytes rn + of_nat (length (reply rep))\<rparr>"

text \<open>
  A call whose wait is not given up: the beginning of \<open>processReq\<close> on the network \<open>rn\<close>, the handler, and
  the end on the network \<open>rn'\<close>. A delayed reply is a reply.
\<close>

definition one_call ::
  "int \<Rightarrow> int \<Rightarrow> int \<Rightarrow> req_msg \<Rightarrow> network \<Rightarrow> network \<Rightarrow> 'a server \<Rightarrow> ('a server \<times> reply_msg) result" where
  "one_call r r1 r2 req rn rn' rs =
     (case processReq_begin r req rn of
        None \<Rightarrow> Inr (rs, failed)
      | Some i \<Rightarrow>
          res_bind (server_dispatch req rs) (\<lambda>(rs', rep).
            case processReq_end r1 r2 True rep req i rn' of
              SendFailure \<Rightarrow> Inr (rs', failed)
            | SendReply a \<Rightarrow> Inr (rs', a)
            | SendLater a \<Rightarrow> Inr (rs', a)))"

section \<open>The network with its RPCs\<close>

text \<open>
  An RPC in progress: its request, what \<open>processReq\<close> found at its beginning, the handler's
  goroutine, a reply waiting for its timer, and the answer the client has received. \<open>runs\<close> counts
  the executions of the handler.
\<close>

datatype handler_state = NotStarted | Started | Returned reply_msg

record rpc =
  rq :: req_msg
  info :: "end_info option"
  hs :: handler_state
  timer :: "reply_msg option"
  ans :: "reply_msg option"
  runs :: nat

record 'a net_sys =
  net :: network
  heap :: "nat \<Rightarrow> 'a server"
  rpcs :: "rpc list"

text \<open>
  The network's goroutine takes a request from \<open>endCh\<close>. It may still take one after \<open>Cleanup\<close>, when
  both channels of its \<open>select\<close> are ready; a request it never takes has no effect on the network.
\<close>

definition accept_call :: "req_msg \<Rightarrow> 'a net_sys \<Rightarrow> 'a net_sys" where
  "accept_call req s =
     s\<lparr>net := (net s)\<lparr>rpc_count := rpc_count (net s) + 1,
                       net_bytes := net_bytes (net s) + of_nat (length (args req))\<rparr>,
       rpcs := rpcs s @ [\<lparr>rq = req, info = None, hs = NotStarted, timer = None, ans = None, runs = 0\<rparr>]\<rparr>"

definition begin_rpc :: "int \<Rightarrow> rpc \<Rightarrow> network \<Rightarrow> rpc" where
  "begin_rpc r x rn =
     (case processReq_begin r (rq x) rn of
        None \<Rightarrow> x\<lparr>ans := Some failed\<rparr>
      | Some i \<Rightarrow> x\<lparr>info := Some i, hs := Started\<rparr>)"

definition send_answer :: "sending \<Rightarrow> rpc \<Rightarrow> network \<Rightarrow> rpc \<times> network" where
  "send_answer a x rn =
     (case a of
        SendFailure \<Rightarrow> (x\<lparr>ans := Some failed\<rparr>, rn)
      | SendReply rep \<Rightarrow> (x\<lparr>ans := Some rep\<rparr>, count_reply rep rn)
      | SendLater rep \<Rightarrow> (x\<lparr>timer := Some rep\<rparr>, rn))"

text \<open>
  What \<open>ClientEnd.Call\<close> and \<open>ClientEnd.Forward\<close> return: \<open>None\<close> stands for a network that has been cleaned
  up; \<open>decode\<close> is \<open>Unmarshall\<close>, which may end the process.
\<close>

definition Call_result :: "(bytes \<Rightarrow> 'b result) \<Rightarrow> reply_msg option \<Rightarrow> 'b option result" where
  "Call_result decode r =
     (case r of
        None \<Rightarrow> Inr None
      | Some rep \<Rightarrow> if ok rep then res_bind (decode (reply rep)) (\<lambda>v. Inr (Some v)) else Inr None)"

definition Forward_result :: "reply_msg option \<Rightarrow> bytes \<times> bool" where
  "Forward_result r = (case r of None \<Rightarrow> ([], False) | Some rep \<Rightarrow> (reply rep, ok rep))"

text \<open>Operations of the tester on a running network.\<close>

inductive net_admin :: "network \<Rightarrow> network \<Rightarrow> bool" where
  "net_admin rn (Reliable b rn)"
| "net_admin rn (LongReordering b rn)"
| "net_admin rn (LongDelays b rn)"
| "MakeEnd e rn = Inr rn' \<Longrightarrow> net_admin rn rn'"
| "DeleteEnd e rn = Inr rn' \<Longrightarrow> net_admin rn rn'"
| "net_admin rn (AddServer s p rn)"
| "net_admin rn (DeleteServer s rn)"
| "net_admin rn (Connect e s rn)"
| "net_admin rn (Enable e b rn)"
| "Cleanup rn = Inr rn' \<Longrightarrow> net_admin rn rn'"

inductive net_step :: "'a net_sys \<Rightarrow> 'a net_sys \<Rightarrow> bool" where
  net_call: "net_step s (accept_call req s)"
| net_begin: "j < length (rpcs s) \<Longrightarrow> hs (rpcs s ! j) = NotStarted \<Longrightarrow> ans (rpcs s ! j) = None \<Longrightarrow>
    net_step s (s\<lparr>rpcs := (rpcs s)[j := begin_rpc r (rpcs s ! j) (net s)]\<rparr>)"
| net_run: "j < length (rpcs s) \<Longrightarrow> hs (rpcs s ! j) = Started \<Longrightarrow> info (rpcs s ! j) = Some i \<Longrightarrow>
    server_dispatch (rq (rpcs s ! j)) (heap s (i_server i)) = Inr (rs, rep) \<Longrightarrow>
    net_step s (s\<lparr>heap := (heap s)(i_server i := rs),
                 rpcs := (rpcs s)[j := (rpcs s ! j)\<lparr>hs := Returned rep, runs := runs (rpcs s ! j) + 1\<rparr>]\<rparr>)"
| net_give_up: "j < length (rpcs s) \<Longrightarrow> hs (rpcs s ! j) = Started \<Longrightarrow> ans (rpcs s ! j) = None \<Longrightarrow>
    info (rpcs s ! j) = Some i \<Longrightarrow>
    isServerDead (endname (rq (rpcs s ! j))) (i_servername i) (i_server i) (net s) \<Longrightarrow>
    net_step s (s\<lparr>rpcs := (rpcs s)[j := (rpcs s ! j)\<lparr>ans := Some failed\<rparr>]\<rparr>)"
| net_end: "j < length (rpcs s) \<Longrightarrow> hs (rpcs s ! j) = Returned rep \<Longrightarrow> ans (rpcs s ! j) = None \<Longrightarrow>
    timer (rpcs s ! j) = None \<Longrightarrow> info (rpcs s ! j) = Some i \<Longrightarrow>
    send_answer (processReq_end r1 r2 True rep (rq (rpcs s ! j)) i (net s)) (rpcs s ! j) (net s) = (x, rn) \<Longrightarrow>
    net_step s (s\<lparr>net := rn, rpcs := (rpcs s)[j := x]\<rparr>)"
| net_timer: "j < length (rpcs s) \<Longrightarrow> timer (rpcs s ! j) = Some rep \<Longrightarrow>
    net_step s (s\<lparr>net := count_reply rep (net s),
                 rpcs := (rpcs s)[j := (rpcs s ! j)\<lparr>timer := None, ans := Some rep\<rparr>]\<rparr>)"
| net_change: "net_admin (net s) rn \<Longrightarrow> net_step s (s\<lparr>net := rn\<rparr>)"

definition net_init :: "'a net_sys \<Rightarrow> bool" where
  "net_init s \<longleftrightarrow> net s = MakeNetwork \<and> rpcs s = [] \<and> (\<forall>p. srv_count (heap s p) = 0)"

section \<open>The invariant\<close>

text \<open>The reply \<open>a\<close> is on its way to the client, or there.\<close>

definition released :: "rpc \<Rightarrow> reply_msg \<Rightarrow> bool" where
  "released x a \<longleftrightarrow> timer x = Some a \<or> ans x = Some a"

definition rpc_ok :: "rpc \<Rightarrow> bool" where
  "rpc_ok x \<longleftrightarrow>
     (case hs x of
        NotStarted \<Rightarrow> runs x = 0 \<and> info x = None
      | Started \<Rightarrow> runs x = 0 \<and> info x \<noteq> None
      | Returned rep \<Rightarrow> runs x = 1 \<and> info x \<noteq> None) \<and>
     (\<forall>a. ans x = Some a \<longrightarrow> a = failed \<or> hs x = Returned a) \<and>
     (\<forall>a. timer x = Some a \<longrightarrow> hs x = Returned a \<and> ans x = None)"

definition runs_at :: "nat \<Rightarrow> rpc \<Rightarrow> nat" where
  "runs_at p x = (case info x of Some i \<Rightarrow> if i_server i = p then runs x else 0 | None \<Rightarrow> 0)"

definition net_inv :: "'a net_sys \<Rightarrow> bool" where
  "net_inv s \<longleftrightarrow> (\<forall>x \<in> set (rpcs s). rpc_ok x) \<and> rpc_count (net s) = of_nat (length (rpcs s)) \<and>
     (\<forall>p. srv_count (heap s p) = int (sum_list (map (runs_at p) (rpcs s))))"

lemma sum_list_update_nat:
  "j < length xs \<Longrightarrow> sum_list (map f (xs[j := y])) + f (xs ! j) = sum_list (map f xs) + (f y :: nat)"
proof (induction xs arbitrary: j)
  case (Cons x xs)
  then show ?case by (cases j) auto
qed simp

lemma rpc_ok_update:
  "\<forall>x \<in> set xs. rpc_ok x \<Longrightarrow> rpc_ok y \<Longrightarrow> \<forall>x \<in> set (xs[j := y]). rpc_ok x"
  using set_update_subset_insert [of xs j y] by blast

text \<open>A step that rewrites one RPC without running its handler.\<close>

lemma net_inv_rewrite:
  assumes inv: "net_inv s" and j: "j < length (rpcs s)" and y: "rpc_ok (rpcs s ! j) \<Longrightarrow> rpc_ok y"
    and same: "\<And>p. runs_at p y = runs_at p (rpcs s ! j)" and n: "rpc_count rn = rpc_count (net s)"
  shows "net_inv (s\<lparr>net := rn, rpcs := (rpcs s)[j := y]\<rparr>)"
proof -
  have "rpc_ok y" using inv j y by (simp add: net_inv_def)
  then have "\<forall>x \<in> set ((rpcs s)[j := y]). rpc_ok x" using inv by (intro rpc_ok_update) (auto simp: net_inv_def)
  moreover have "sum_list (map (runs_at p) ((rpcs s)[j := y])) = sum_list (map (runs_at p) (rpcs s))" for p
    using sum_list_update_nat [OF j, of "runs_at p" y] same [of p] by simp
  ultimately show ?thesis using inv n by (simp add: net_inv_def)
qed

lemma server_dispatch_count:
  "server_dispatch req rs = Inr (rs', rep) \<Longrightarrow> srv_count rs' = srv_count rs + 1"
  by (auto simp: server_dispatch_def Let_def split: option.splits prod.splits)

lemma net_inv_run:
  assumes inv: "net_inv s" and j: "j < length (rpcs s)" and st: "hs (rpcs s ! j) = Started"
    and i: "info (rpcs s ! j) = Some i"
    and d: "server_dispatch (rq (rpcs s ! j)) (heap s (i_server i)) = Inr (rs, rep)"
  shows "net_inv (s\<lparr>heap := (heap s)(i_server i := rs),
    rpcs := (rpcs s)[j := (rpcs s ! j)\<lparr>hs := Returned rep, runs := runs (rpcs s ! j) + 1\<rparr>]\<rparr>)"
    (is "net_inv (s\<lparr>heap := _, rpcs := (rpcs s)[j := ?y]\<rparr>)")
proof -
  have okj: "rpc_ok (rpcs s ! j)" using inv j by (simp add: net_inv_def)
  with st have "runs (rpcs s ! j) = 0" "rpc_ok ?y"
    using i by (auto simp: rpc_ok_def failed_def)
  then have "runs_at p ?y = runs_at p (rpcs s ! j) + (if p = i_server i then 1 else 0)" for p
    using i by (simp add: runs_at_def)
  then have sums: "sum_list (map (runs_at p) ((rpcs s)[j := ?y])) =
      sum_list (map (runs_at p) (rpcs s)) + (if p = i_server i then 1 else 0)" for p
    using sum_list_update_nat [OF j, of "runs_at p" ?y] by simp
  have "\<forall>x \<in> set ((rpcs s)[j := ?y]). rpc_ok x"
    using inv \<open>rpc_ok ?y\<close> by (intro rpc_ok_update) (auto simp: net_inv_def)
  with inv sums server_dispatch_count [OF d] show ?thesis by (simp add: net_inv_def)
qed

lemma net_admin_count: "net_admin rn rn' \<Longrightarrow> rpc_count rn' = rpc_count rn"
  by (induction rule: net_admin.induct)
    (auto simp: Reliable_def LongReordering_def LongDelays_def MakeEnd_def DeleteEnd_def AddServer_def
      DeleteServer_def Connect_def Enable_def Cleanup_def split: if_splits)

lemma processReq_end_live:
  "processReq_end r1 r2 k rep req i rn \<in> {SendReply a, SendLater a} \<Longrightarrow>
     a = rep \<and> \<not> isServerDead (endname req) (i_servername i) (i_server i) rn"
  by (auto simp: processReq_end_def Let_def split: if_splits)

lemma send_answer_ok:
  assumes "rpc_ok x" "hs x = Returned rep" "ans x = None" "timer x = None"
    and "send_answer (processReq_end r1 r2 k rep req i rn) x rn = (y, rn')"
  shows "rpc_ok y" and "runs_at p y = runs_at p x" and "rpc_count rn' = rpc_count rn"
  using assms processReq_end_live [of r1 r2 k rep req i rn]
  by (auto simp: send_answer_def rpc_ok_def runs_at_def count_reply_def split: sending.splits)

lemma begin_rpc_ok: "rpc_ok x \<Longrightarrow> hs x = NotStarted \<Longrightarrow> ans x = None \<Longrightarrow> rpc_ok (begin_rpc r x rn)"
  by (auto simp: begin_rpc_def rpc_ok_def split: option.splits)

lemma begin_rpc_runs: "rpc_ok x \<Longrightarrow> hs x = NotStarted \<Longrightarrow> runs_at p (begin_rpc r x rn) = runs_at p x"
  by (auto simp: begin_rpc_def rpc_ok_def runs_at_def split: option.splits)

lemma net_inv_step:
  assumes inv: "net_inv s" and step: "net_step s t"
  shows "net_inv t"
  using step
proof cases
  case (net_call req)
  then show ?thesis using inv by (auto simp: net_inv_def accept_call_def rpc_ok_def runs_at_def)
next
  case (net_begin j r)
  have okj: "rpc_ok (rpcs s ! j)" using inv net_begin(2) by (simp add: net_inv_def)
  have "net_inv (s\<lparr>net := net s, rpcs := (rpcs s)[j := begin_rpc r (rpcs s ! j) (net s)]\<rparr>)"
    using net_begin okj by (intro net_inv_rewrite [OF inv]) (auto simp: begin_rpc_ok begin_rpc_runs)
  then show ?thesis using net_begin(1) by simp
next
  case (net_run j i rs rep)
  then show ?thesis using net_inv_run [OF inv net_run(2-5)] by simp
next
  case (net_give_up j i)
  have "net_inv (s\<lparr>net := net s, rpcs := (rpcs s)[j := (rpcs s ! j)\<lparr>ans := Some failed\<rparr>]\<rparr>)"
    using net_give_up by (intro net_inv_rewrite [OF inv]) (auto simp: rpc_ok_def runs_at_def)
  then show ?thesis using net_give_up(1) by simp
next
  case (net_end j rep i r1 r2 x rn)
  have okj: "rpc_ok (rpcs s ! j)" using inv net_end(2) by (simp add: net_inv_def)
  show ?thesis unfolding net_end(1)
    using send_answer_ok [OF okj net_end(3-5) net_end(7)] by (intro net_inv_rewrite [OF inv net_end(2)])
next
  case (net_timer j rep)
  show ?thesis unfolding net_timer(1) using net_timer(3)
    by (intro net_inv_rewrite [OF inv net_timer(2)])
      (auto simp: rpc_ok_def runs_at_def count_reply_def split: handler_state.splits option.splits)
next
  case (net_change rn)
  then show ?thesis using inv net_admin_count by (auto simp: net_inv_def)
qed

interpretation lr: invariant_machine net_init net_step net_inv
proof
  show "net_inv s" if "net_init s" for s :: "'a net_sys"
    using that by (simp add: net_init_def net_inv_def MakeNetwork_def)
  show "net_inv t" if "net_inv s" "net_step s t" for s t :: "'a net_sys"
    using that by (rule net_inv_step)
qed

section \<open>Properties of the network\<close>

text \<open>
  C14: the handler of an RPC runs at most once, whatever is dropped, delayed or deleted; and a client
  that gets a positive answer gets exactly what that one run of the handler returned.
\<close>
theorem rpc_at_most_once:
  assumes "reachable net_init net_step s" and "x \<in> set (rpcs s)"
  shows "runs x \<le> 1 \<and> (\<forall>a. ans x = Some a \<and> ok a \<longrightarrow> runs x = 1 \<and> hs x = Returned a)"
proof -
  have "rpc_ok x" using lr.reachable_inv [OF assms(1)] assms(2) by (simp add: net_inv_def)
  then show ?thesis by (auto simp: rpc_ok_def failed_def split: handler_state.splits)
qed

text \<open>
  C16: no positive answer is released for a server that has been deleted or replaced, or through an
  end point that has been disabled, even when the handler had already run: the reply is sent, or
  handed to its timer, only while the server the call began with is still the registered one.
\<close>
theorem positive_answer_live:
  assumes "net_step s t" "j < length (rpcs s)" "\<not> released (rpcs s ! j) a" "released (rpcs t ! j) a" "ok a"
  shows "\<exists>i. info (rpcs s ! j) = Some i \<and> hs (rpcs s ! j) = Returned a \<and>
    get_enabled (net s) (endname (rq (rpcs s ! j))) \<and> get_server (net s) (i_servername i) = Some (i_server i)"
  using assms(1)
proof cases
  case (net_begin k r)
  with assms show ?thesis
    by (cases "k = j") (auto simp: begin_rpc_def failed_def released_def split: option.splits)
next
  case (net_give_up k i)
  with assms show ?thesis by (cases "k = j") (auto simp: failed_def released_def)
next
  case (net_end k rep i r1 r2 x rn)
  with assms processReq_end_live [of r1 r2 True rep "rq (rpcs s ! k)" i "net s"] show ?thesis
    by (cases "k = j") (auto simp: send_answer_def failed_def released_def isServerDead_def split: sending.splits)
next
  case (net_run k i rs rep)
  with assms show ?thesis by (cases "k = j") (auto simp: released_def)
next
  case (net_timer k rep)
  with assms show ?thesis by (cases "k = j") (auto simp: released_def)
qed (use assms in \<open>auto simp: accept_call_def nth_append\<close>)

text \<open>
  A reliable network delivers: through an enabled end point connected to a registered server the
  handler runs, and, as long as the server stays registered, the client gets its reply, whatever
  random numbers are drawn.
\<close>
theorem reliable_delivers:
  assumes "reliable rn" "get_enabled rn (endname req)" "get_connection rn (endname req) = Some s" "get_server rn s = Some p"
    and "get_enabled rn' (endname req)" "get_server rn' s = Some p"
  shows "\<exists>i. processReq_begin r req rn = Some i \<and> i_servername i = s \<and> i_server i = p \<and>
    processReq_end r1 r2 True rep req i rn' \<in> {SendReply rep, SendLater rep}"
  using assms by (auto simp: processReq_begin_def readEndnameInfo_def processReq_end_def isServerDead_def Let_def)

text \<open>
  The statistics are right: a server's count is the number of handlers that ran on it, and the
  total count, a 32-bit counter, is the number of calls as long as there are fewer than \<open>2 ^ 31\<close>.
\<close>
theorem rpc_counts:
  assumes "reachable net_init net_step s" and "length (rpcs s) < 2 ^ 31"
  shows "GetTotalCount (net s) = int (length (rpcs s)) \<and>
    (\<forall>name p. get_server (net s) name = Some p \<longrightarrow>
       GetCount name (heap s) (net s) = Inr (int (sum_list (map (runs_at p) (rpcs s)))))"
proof -
  have inv: "net_inv s" using assms(1) by (rule lr.reachable_inv)
  have "sint (word_of_nat (length (rpcs s)) :: 32 word) = int (length (rpcs s))"
    using assms(2) by (simp add: signed_of_nat signed_take_bit_int_eq_self)
  then show ?thesis using inv by (simp add: net_inv_def GetTotalCount_def GetCount_def Server_GetCount_def)
qed

section \<open>Witnesses\<close>

text \<open>A server that echoes its arguments and counts its calls, one client end, one call.\<close>

definition echo_heap :: "nat \<Rightarrow> nat server" where
  "echo_heap p = SetDispatch (\<lambda>m a n. (n + 1, a, True)) (MakeServer 0)"

definition ex_net :: network where
  "ex_net = Enable ''e'' True (Connect ''e'' ''s'' (AddServer ''s'' 7 (projr (MakeEnd ''e'' MakeNetwork))))"

definition ex_req :: req_msg where
  "ex_req = \<lparr>endname = ''e'', svcMeth = ''KV.Get'', args = ''hello''\<rparr>"

definition ex_idle :: "nat net_sys" where
  "ex_idle = \<lparr>net = ex_net, heap = echo_heap, rpcs = []\<rparr>"

definition ex_called :: "nat net_sys" where "ex_called = accept_call ex_req ex_idle"

definition ex_info :: end_info where
  "ex_info = \<lparr>i_servername = ''s'', i_server = 7, i_reliable = True, i_longreordering = False\<rparr>"

definition ex_begun :: "nat net_sys" where
  "ex_begun = ex_called\<lparr>rpcs := [\<lparr>rq = ex_req, info = Some ex_info, hs = Started, timer = None, ans = None, runs = 0\<rparr>]\<rparr>"

definition ex_ran :: "nat net_sys" where
  "ex_ran = ex_begun\<lparr>heap := echo_heap(7 := (echo_heap 7)\<lparr>srv_count := 1, rcvr := 1\<rparr>),
     rpcs := [\<lparr>rq = ex_req, info = Some ex_info, hs = Returned \<lparr>ok = True, reply = ''hello''\<rparr>, timer = None, ans = None, runs = 1\<rparr>]\<rparr>"

definition ex_answered :: "nat net_sys" where
  "ex_answered = ex_ran\<lparr>net := (net ex_ran)\<lparr>net_bytes := 10\<rparr>,
     rpcs := [\<lparr>rq = ex_req, info = Some ex_info, hs = Returned \<lparr>ok = True, reply = ''hello''\<rparr>,
               timer = None, ans = Some \<lparr>ok = True, reply = ''hello''\<rparr>, runs = 1\<rparr>]\<rparr>"

lemmas ex_net_defs = ex_net_def Enable_def Connect_def AddServer_def MakeEnd_def MakeNetwork_def
  ex_idle_def ex_called_def accept_call_def ex_begun_def ex_ran_def ex_answered_def ex_req_def ex_info_def
  get_enabled_def get_connection_def get_server_def isServerDead_def

lemma ex_idle_reachable: "reachable net_init net_step ex_idle"
proof -
  let ?s = "\<lambda>rn. \<lparr>net = rn, heap = echo_heap, rpcs = []\<rparr>"
  have 0: "reachable net_init net_step (?s MakeNetwork)"
    by (rule reachable_start) (simp add: net_init_def echo_heap_def SetDispatch_def MakeServer_def)
  have go: "reachable net_init net_step (?s rn')" if "reachable net_init net_step (?s rn)" "net_admin rn rn'" for rn rn'
    using reachable_next [OF that(1) net_step.net_change, of rn'] that(2) by simp
  have "net_admin MakeNetwork (projr (MakeEnd ''e'' MakeNetwork))"
    by (rule net_admin.intros) (simp add: MakeEnd_def MakeNetwork_def)
  from go [OF go [OF go [OF go [OF 0 this] net_admin.intros(6)] net_admin.intros(8)] net_admin.intros(9)]
  show ?thesis by (simp add: ex_idle_def ex_net_def)
qed

lemma ex_end_step: "net_step ex_ran ex_answered"
  using net_step.net_end [of 0 ex_ran "\<lparr>ok = True, reply = ''hello''\<rparr>" ex_info 0 0 "rpcs ex_answered ! 0" "net ex_answered"]
  by (simp add: processReq_end_def send_answer_def count_reply_def ex_net_defs)

lemma ex_answered_reachable: "reachable net_init net_step ex_answered"
proof -
  have 1: "net_step ex_idle ex_called"
    unfolding ex_called_def by (rule net_step.net_call)
  have 2: "net_step ex_called ex_begun"
    using net_step.net_begin [of 0 ex_called 0]
    by (simp add: begin_rpc_def processReq_begin_def readEndnameInfo_def ex_net_defs)
  have 3: "net_step ex_begun ex_ran"
    using net_step.net_run [of 0 ex_begun ex_info "(echo_heap 7)\<lparr>srv_count := 1, rcvr := 1\<rparr>" "\<lparr>ok = True, reply = ''hello''\<rparr>"]
    by (simp add: server_dispatch_def echo_heap_def SetDispatch_def MakeServer_def ex_net_defs)
  show ?thesis
    using reachable_next [OF reachable_next [OF reachable_next [OF reachable_next [OF ex_idle_reachable 1] 2] 3] ex_end_step] .
qed

lemma rpc_at_most_once_witness:
  "runs (rpcs ex_answered ! 0) = 1 \<and> hs (rpcs ex_answered ! 0) = Returned \<lparr>ok = True, reply = ''hello''\<rparr>"
  using rpc_at_most_once [OF ex_answered_reachable, of "rpcs ex_answered ! 0"] by (simp add: ex_answered_def)

lemma positive_answer_live_witness:
  "\<exists>i. info (rpcs ex_ran ! 0) = Some i \<and> get_server (net ex_ran) (i_servername i) = Some (i_server i)"
  using positive_answer_live [OF ex_end_step, of 0 "\<lparr>ok = True, reply = ''hello''\<rparr>"]
  by (simp add: ex_answered_def ex_ran_def released_def)

lemma reliable_delivers_witness:
  "\<exists>i. processReq_begin 5 ex_req ex_net = Some i \<and>
     processReq_end 7 9 True \<lparr>ok = True, reply = ''hi''\<rparr> ex_req i ex_net
       \<in> {SendReply \<lparr>ok = True, reply = ''hi''\<rparr>, SendLater \<lparr>ok = True, reply = ''hi''\<rparr>}"
  using reliable_delivers [of ex_net ex_req "''s''" 7 ex_net 5 7 9 "\<lparr>ok = True, reply = ''hi''\<rparr>"]
  by (auto simp: ex_net_defs)

lemma rpc_counts_witness: "GetTotalCount (net ex_answered) = 1 \<and> GetCount ''s'' (heap ex_answered) (net ex_answered) = Inr 1"
proof -
  have "get_server (net ex_answered) ''s'' = Some 7" by (simp add: ex_net_defs)
  then show ?thesis using rpc_counts [OF ex_answered_reachable]
    by (simp add: ex_answered_def ex_ran_def ex_begun_def runs_at_def ex_info_def)
qed

end
