(* ===== verification/Tester.thy ===== *)
theory Tester
  imports LabRpc
begin

text \<open>
  The tester's servers, groups and clients (\<open>tester1/persister.go\<close>, \<open>srv.go\<close>, \<open>group.go\<close>,
  \<open>clnts.go\<close>): persisted state across restarts, the end points between the servers of a group,
  network partitions, and the ends of clerks. The network they share is passed along explicitly;
  the random end names are arguments.

  Shown: after \<open>Partition\<close> two servers are connected in both directions exactly when they are on
  the same side; \<open>MakePartition\<close> puts the leader into a minority when the number of servers is odd,
  and not a partition at all when it is even.
\<close>

section \<open>persister.go\<close>

record persister =
  raftstate :: bytes
  snapshot :: bytes

definition MakePersister :: persister where
  "MakePersister = \<lparr>raftstate = [], snapshot = []\<rparr>"

definition clone :: "bytes \<Rightarrow> bytes" where
  "clone orig = (let x = replicate (length orig) (CHR 0x00) in take (length orig) orig @ drop (length orig) x)"

definition Checkpoint :: "persister \<Rightarrow> persister" where
  "Checkpoint ps = MakePersister\<lparr>raftstate := clone (raftstate ps), snapshot := clone (snapshot ps)\<rparr>"

definition ReadRaftState :: "persister \<Rightarrow> bytes" where "ReadRaftState ps = clone (raftstate ps)"
definition RaftStateSize :: "persister \<Rightarrow> int" where "RaftStateSize ps = int (length (raftstate ps))"
definition ReadSnapshot :: "persister \<Rightarrow> bytes" where "ReadSnapshot ps = clone (snapshot ps)"
definition SnapshotSize :: "persister \<Rightarrow> int" where "SnapshotSize ps = int (length (snapshot ps))"

definition Save :: "bytes \<Rightarrow> bytes \<Rightarrow> persister \<Rightarrow> persister" where
  "Save rs sn ps = ps\<lparr>raftstate := clone rs, snapshot := clone sn\<rparr>"

section \<open>srv.go\<close>

definition ServerName :: "int \<Rightarrow> int \<Rightarrow> string" where
  "ServerName gid i = ''server-'' @ itoa gid @ ''-'' @ itoa i"

text \<open>A server slot: the saved state, its end names, and the running daemon's persister.\<close>

record srv =
  saved :: "persister option"
  endNames :: "string list"
  dc :: "persister option"

fun make_ends :: "int \<Rightarrow> nat \<Rightarrow> string list \<Rightarrow> network \<Rightarrow> network result" where
  "make_ends gid j [] rn = Inr rn"
| "make_ends gid j (e # es) rn =
     res_bind (MakeEnd e rn) (\<lambda>rn1. make_ends gid (j + 1) es (Connect e (ServerName gid (int j)) rn1))"

text \<open>\<open>names\<close> are the random strings drawn, one per server of the group.\<close>

definition makeServer :: "int \<Rightarrow> string list \<Rightarrow> network \<Rightarrow> (srv \<times> network) result" where
  "makeServer gid names rn =
     res_bind (make_ends gid 0 names rn) (\<lambda>rn'. Inr (\<lparr>saved = None, endNames = names, dc = None\<rparr>, rn'))"

definition startServer :: "int \<Rightarrow> string list \<Rightarrow> srv \<Rightarrow> network \<Rightarrow> (srv \<times> network) result" where
  "startServer gid names s rn =
     res_bind (makeServer gid names rn) (\<lambda>(srv, rn').
       Inr (srv\<lparr>saved := (case saved s of None \<Rightarrow> Some MakePersister | Some p \<Rightarrow> Some p)\<rparr>, rn'))"

definition shutdownServer :: "srv \<Rightarrow> srv" where
  "shutdownServer s =
     (case dc s of
        Some p \<Rightarrow> s\<lparr>saved := Some (Checkpoint p), dc := None\<rparr>
      | None \<Rightarrow> s)"

definition srv_snapshotSize :: "srv \<Rightarrow> int result" where
  "srv_snapshotSize s =
     (case dc s of
        Some p \<Rightarrow> Inr (SnapshotSize p)
      | None \<Rightarrow> (case saved s of Some p \<Rightarrow> Inr (SnapshotSize p) | None \<Rightarrow> Inl (Panic ''nil pointer dereference'')))"

definition srv_raftSize :: "srv \<Rightarrow> int result" where
  "srv_raftSize s =
     (case dc s of
        Some p \<Rightarrow> Inr (RaftStateSize p)
      | None \<Rightarrow> (case saved s of Some p \<Rightarrow> Inr (RaftStateSize p) | None \<Rightarrow> Inl (Panic ''nil pointer dereference'')))"

section \<open>group.go\<close>

record server_grp =
  srvs :: "srv list"
  servernames :: "string list"
  grp_gid :: int
  connected :: "bool list"

text \<open>\<open>xs[i]\<close> for an index that is not negative.\<close>

definition at :: "'a list \<Rightarrow> nat \<Rightarrow> 'a result" where
  "at xs i = go_index xs (int i)"

fun make_servers :: "int \<Rightarrow> string list list \<Rightarrow> network \<Rightarrow> (srv list \<times> network) result" where
  "make_servers gid [] rn = Inr ([], rn)"
| "make_servers gid (names # rest) rn =
     res_bind (makeServer gid names rn) (\<lambda>(s, rn1).
       res_bind (make_servers gid rest rn1) (\<lambda>(ss, rn2). Inr (s # ss, rn2)))"

definition makeSrvGrp :: "int \<Rightarrow> string list list \<Rightarrow> network \<Rightarrow> (server_grp \<times> network) result" where
  "makeSrvGrp gid names rn =
     res_bind (make_servers gid names rn) (\<lambda>(ss, rn').
       Inr (\<lparr>srvs = ss, servernames = map (\<lambda>i. ServerName gid (int i)) [0..<length names],
             grp_gid = gid, connected = replicate (length names) False\<rparr>, rn'))"

definition sg_N :: "server_grp \<Rightarrow> nat" where "sg_N sg = length (srvs sg)"
definition SrvNames :: "server_grp \<Rightarrow> string list" where "SrvNames sg = servernames sg"
definition SrvName :: "nat \<Rightarrow> server_grp \<Rightarrow> string result" where "SrvName i sg = at (servernames sg) i"

fun SrvNamesTo :: "nat list \<Rightarrow> server_grp \<Rightarrow> string list result" where
  "SrvNamesTo [] sg = Inr []"
| "SrvNamesTo (i # is) sg =
     res_bind (at (servernames sg) i) (\<lambda>n. res_bind (SrvNamesTo is sg) (\<lambda>ns. Inr (n # ns)))"

definition sg_all :: "server_grp \<Rightarrow> nat list" where "sg_all sg = [0..<length (srvs sg)]"

definition IsConnected :: "nat \<Rightarrow> server_grp \<Rightarrow> bool result" where "IsConnected i sg = at (connected sg) i"

definition end_of :: "server_grp \<Rightarrow> nat \<Rightarrow> nat \<Rightarrow> string result" where
  "end_of sg i j = res_bind (at (srvs sg) i) (\<lambda>s. at (endNames s) j)"

text \<open>
  The loops over the end points (\<open>endNames\<close> is made by \<open>makeServer\<close> and never nil): outgoing ends of \<open>i\<close>, and ends of
  the others to \<open>i\<close>.
\<close>

fun enable_out :: "server_grp \<Rightarrow> nat \<Rightarrow> nat list \<Rightarrow> network \<Rightarrow> network result" where
  "enable_out sg i [] rn = Inr rn"
| "enable_out sg i (j # js) rn =
     res_bind (IsConnected j sg) (\<lambda>c.
       if c then res_bind (end_of sg i j) (\<lambda>e. enable_out sg i js (Enable e True rn))
       else enable_out sg i js rn)"

fun enable_in :: "server_grp \<Rightarrow> nat \<Rightarrow> nat list \<Rightarrow> network \<Rightarrow> network result" where
  "enable_in sg i [] rn = Inr rn"
| "enable_in sg i (j # js) rn =
     res_bind (IsConnected j sg) (\<lambda>c.
       if c then res_bind (end_of sg j i) (\<lambda>e. enable_in sg i js (Enable e True rn))
       else enable_in sg i js rn)"

fun disable_out :: "server_grp \<Rightarrow> nat \<Rightarrow> nat list \<Rightarrow> network \<Rightarrow> network result" where
  "disable_out sg i [] rn = Inr rn"
| "disable_out sg i (j # js) rn = res_bind (end_of sg i j) (\<lambda>e. disable_out sg i js (Enable e False rn))"

fun disable_in :: "server_grp \<Rightarrow> nat \<Rightarrow> nat list \<Rightarrow> network \<Rightarrow> network result" where
  "disable_in sg i [] rn = Inr rn"
| "disable_in sg i (j # js) rn = res_bind (end_of sg j i) (\<lambda>e. disable_in sg i js (Enable e False rn))"

definition set_connected :: "nat \<Rightarrow> bool \<Rightarrow> server_grp \<Rightarrow> server_grp result" where
  "set_connected i b sg = res_bind (go_update (connected sg) (int i) b) (\<lambda>c. Inr (sg\<lparr>connected := c\<rparr>))"

definition sg_connect :: "nat \<Rightarrow> nat list \<Rightarrow> server_grp \<times> network \<Rightarrow> (server_grp \<times> network) result" where
  "sg_connect i to = (\<lambda>(sg, rn).
     res_bind (set_connected i True sg) (\<lambda>sg1.
     res_bind (enable_out sg1 i to rn) (\<lambda>rn1.
     res_bind (enable_in sg1 i to rn1) (\<lambda>rn2. Inr (sg1, rn2)))))"

definition sg_disconnect :: "nat \<Rightarrow> nat list \<Rightarrow> server_grp \<times> network \<Rightarrow> (server_grp \<times> network) result" where
  "sg_disconnect i from = (\<lambda>(sg, rn).
     res_bind (set_connected i False sg) (\<lambda>sg1.
     res_bind (disable_out sg1 i from rn) (\<lambda>rn1.
     res_bind (disable_in sg1 i from rn1) (\<lambda>rn2. Inr (sg1, rn2)))))"

definition ConnectOne :: "nat \<Rightarrow> server_grp \<times> network \<Rightarrow> (server_grp \<times> network) result" where
  "ConnectOne i st = sg_connect i (sg_all (fst st)) st"

fun connect_list :: "nat list \<Rightarrow> server_grp \<times> network \<Rightarrow> (server_grp \<times> network) result" where
  "connect_list [] st = Inr st"
| "connect_list (i # is) st = res_bind (ConnectOne i st) (connect_list is)"

definition sg_ConnectAll :: "server_grp \<times> network \<Rightarrow> (server_grp \<times> network) result" where
  "sg_ConnectAll st = connect_list (sg_all (fst st)) st"

definition sg_DisconnectAll :: "nat \<Rightarrow> server_grp \<times> network \<Rightarrow> (server_grp \<times> network) result" where
  "sg_DisconnectAll i st = sg_disconnect i (sg_all (fst st)) st"

definition ShutdownServer :: "nat \<Rightarrow> server_grp \<times> network \<Rightarrow> (server_grp \<times> network) result" where
  "ShutdownServer i st =
     res_bind (sg_DisconnectAll i st) (\<lambda>(sg, rn).
     res_bind (at (srvs sg) i) (\<lambda>s.
       Inr (sg\<lparr>srvs := (srvs sg)[i := shutdownServer s]\<rparr>, DeleteServer (ServerName (grp_gid sg) (int i)) rn)))"

fun sg_Kill :: "nat list \<Rightarrow> server_grp \<times> network \<Rightarrow> (server_grp \<times> network) result" where
  "sg_Kill [] st = Inr st"
| "sg_Kill (i # is) st = res_bind (ShutdownServer i st) (sg_Kill is)"

text \<open>
  \<open>StartServer\<close>, where the daemon's process starts: the new daemon begins with the saved state; \<open>names\<close>
  are the strings drawn for its ends and \<open>p\<close> is the pointer of its new labrpc server.
\<close>

definition StartServer :: "nat \<Rightarrow> string list \<Rightarrow> nat \<Rightarrow> server_grp \<times> network \<Rightarrow> (server_grp \<times> network) result" where
  "StartServer i names p = (\<lambda>(sg, rn).
     res_bind (at (srvs sg) i) (\<lambda>old.
     res_bind (startServer (grp_gid sg) names old rn) (\<lambda>(s, rn1).
       Inr (sg\<lparr>srvs := (srvs sg)[i := s\<lparr>dc := saved s\<rparr>]\<rparr>, AddServer (ServerName (grp_gid sg) (int i)) p rn1))))"

definition sg_Shutdown :: "server_grp \<times> network \<Rightarrow> (server_grp \<times> network) result" where
  "sg_Shutdown st = sg_Kill (sg_all (fst st)) st"

text \<open>\<open>StartSrvs\<close>: each server with the names drawn for it and the pointer of its labrpc server.\<close>

fun StartSrvs :: "(nat \<times> string list \<times> nat) list \<Rightarrow> server_grp \<times> network \<Rightarrow> (server_grp \<times> network) result" where
  "StartSrvs [] st = Inr st"
| "StartSrvs ((i, names, p) # rest) st = res_bind (StartServer i names p st) (StartSrvs rest)"

definition StartServers :: "(string list \<times> nat) list \<Rightarrow> server_grp \<times> network \<Rightarrow> (server_grp \<times> network) result" where
  "StartServers draws st = res_bind (StartSrvs (zip (sg_all (fst st)) draws) st) sg_ConnectAll"

fun side_loop :: "nat list \<Rightarrow> nat list \<Rightarrow> nat list \<Rightarrow> server_grp \<times> network \<Rightarrow> (server_grp \<times> network) result" where
  "side_loop [] mine other st = Inr st"
| "side_loop (i # is) mine other st =
     res_bind (sg_disconnect i other st) (\<lambda>st1. res_bind (sg_connect i mine st1) (side_loop is mine other))"

definition sg_Partition :: "nat list \<Rightarrow> nat list \<Rightarrow> server_grp \<times> network \<Rightarrow> (server_grp \<times> network) result" where
  "sg_Partition p1 p2 st = res_bind (side_loop p1 p1 p2 st) (side_loop p2 p2 p1)"

fun partition_loop :: "nat \<Rightarrow> nat list \<Rightarrow> nat \<Rightarrow> nat list \<times> nat list \<Rightarrow> (nat list \<times> nat list) result" where
  "partition_loop l [] j p = Inr p"
| "partition_loop l (i # is) j (p1, p2) =
     (if i \<noteq> l then
        if j < length p1 then partition_loop l is (j + 1) (p1[j := i], p2)
        else res_bind (go_update p2 (int j - int (length p1)) i) (\<lambda>p2'. partition_loop l is (j + 1) (p1, p2'))
      else partition_loop l is j (p1, p2))"

definition MakePartition :: "nat \<Rightarrow> nat \<Rightarrow> (nat list \<times> nat list) result" where
  "MakePartition n l =
     res_bind (partition_loop l [0..<n] 0 (replicate (n div 2 + 1) 0, replicate (n div 2) 0)) (\<lambda>(p1, p2).
     res_bind (go_update p2 (int (length p2) - 1) l) (\<lambda>p2'. Inr (p1, p2')))"

definition max_size :: "int list \<Rightarrow> int" where
  "max_size ns = foldl (\<lambda>m n. if n > m then n else m) 0 ns"

fun collect :: "('a \<Rightarrow> 'b result) \<Rightarrow> 'a list \<Rightarrow> 'b list result" where
  "collect f [] = Inr []"
| "collect f (x # xs) = res_bind (f x) (\<lambda>y. res_bind (collect f xs) (\<lambda>ys. Inr (y # ys)))"

definition sg_RaftSize :: "server_grp \<Rightarrow> int result" where
  "sg_RaftSize sg = res_bind (collect srv_raftSize (srvs sg)) (\<lambda>ns. Inr (max_size ns))"

definition sg_SnapshotSize :: "server_grp \<Rightarrow> int result" where
  "sg_SnapshotSize sg = res_bind (collect srv_snapshotSize (srvs sg)) (\<lambda>ns. Inr (max_size ns))"

definition RpcCount :: "nat \<Rightarrow> server_grp \<Rightarrow> (nat \<Rightarrow> 'a server) \<Rightarrow> network \<Rightarrow> int result" where
  "RpcCount i sg hp rn = GetCount (ServerName (grp_gid sg) (int i)) hp rn"

subsection \<open>Groups\<close>

record groups =
  grps :: "(int, server_grp) gomap"

definition MakeGroup :: "int \<Rightarrow> string list list \<Rightarrow> groups \<times> network \<Rightarrow> (groups \<times> network) result" where
  "MakeGroup gid names = (\<lambda>(gs, rn).
     res_bind (makeSrvGrp gid names rn) (\<lambda>(sg, rn'). Inr (gs\<lparr>grps := gm_put gid sg (grps gs)\<rparr>, rn')))"

definition lookupGroup :: "int \<Rightarrow> groups \<Rightarrow> server_grp option" where
  "lookupGroup gid gs = map_of (grps gs) gid"

definition groups_delete :: "int \<Rightarrow> groups \<Rightarrow> groups" where
  "groups_delete gid gs = gs\<lparr>grps := gm_delete gid (grps gs)\<rparr>"

fun groups_cleanup :: "(int \<times> server_grp) list \<Rightarrow> network \<Rightarrow> ((int \<times> server_grp) list \<times> network) result" where
  "groups_cleanup [] rn = Inr ([], rn)"
| "groups_cleanup ((g, sg) # gs) rn =
     res_bind (sg_Shutdown (sg, rn)) (\<lambda>(sg', rn1).
       res_bind (groups_cleanup gs rn1) (\<lambda>(gs', rn2). Inr ((g, sg') # gs', rn2)))"

section \<open>clnts.go\<close>

text \<open>A clerk's ends, by server; \<open>None\<close> (nil) allows every server.\<close>

record clnt =
  clnt_ends :: "(string, string) gomap"
  clnt_srvs :: "string list option"

definition makeClntTo :: "string list option \<Rightarrow> clnt" where
  "makeClntTo allow = \<lparr>clnt_ends = [], clnt_srvs = allow\<rparr>"

definition allowedL :: "string \<Rightarrow> clnt \<Rightarrow> bool" where
  "allowedL server c = (case clnt_srvs c of None \<Rightarrow> True | Some ss \<Rightarrow> list_ex (\<lambda>n. n = server) ss)"

definition clnt_makeEnd :: "string \<Rightarrow> string \<Rightarrow> clnt \<times> network \<Rightarrow> (string \<times> clnt \<times> network) result" where
  "clnt_makeEnd name server = (\<lambda>(c, rn).
     case map_of (clnt_ends c) server of
       Some e \<Rightarrow> Inr (e, c, rn)
     | None \<Rightarrow>
         res_bind (MakeEnd name rn) (\<lambda>rn1.
           let rn2 = Connect name server rn1;
               rn3 = (if allowedL server c then Enable name True rn2 else Enable name False rn2)
           in Inr (name, c\<lparr>clnt_ends := gm_put server name (clnt_ends c)\<rparr>, rn3)))"

definition clnt_ConnectAll :: "clnt \<times> network \<Rightarrow> clnt \<times> network" where
  "clnt_ConnectAll = (\<lambda>(c, rn).
     (c\<lparr>clnt_srvs := None\<rparr>, foldl (\<lambda>n (s, e). Enable e True n) rn (clnt_ends c)))"

definition clnt_ConnectTo :: "string list \<Rightarrow> clnt \<times> network \<Rightarrow> clnt \<times> network" where
  "clnt_ConnectTo ss = (\<lambda>(c, rn).
     let c1 = c\<lparr>clnt_srvs := Some ss\<rparr>
     in (c1, foldl (\<lambda>n (s, e). if allowedL s c1 then Enable e True n else n) rn (clnt_ends c)))"

definition clnt_Disconnect :: "string \<Rightarrow> clnt \<times> network \<Rightarrow> clnt \<times> network" where
  "clnt_Disconnect server = (\<lambda>(c, rn).
     (c, foldl (\<lambda>n (s, e). if s = server then Enable e False n else n) rn (clnt_ends c)))"

definition clnt_DisconnectAll :: "clnt \<times> network \<Rightarrow> clnt \<times> network" where
  "clnt_DisconnectAll = (\<lambda>(c, rn).
     (c\<lparr>clnt_srvs := Some []\<rparr>, foldl (\<lambda>n (s, e). Enable e False n) rn (clnt_ends c)))"

fun delete_ends :: "(string \<times> string) list \<Rightarrow> network \<Rightarrow> network result" where
  "delete_ends [] rn = Inr rn"
| "delete_ends ((s, e) # es) rn = res_bind (DeleteEnd e rn) (delete_ends es)"

definition clnt_remove :: "clnt \<Rightarrow> network \<Rightarrow> network result" where
  "clnt_remove c rn = delete_ends (clnt_ends c) rn"

text \<open>All the clerks of a test, by their addresses.\<close>

record clnts =
  clerks :: "(nat, clnt) gomap"

definition MakeClientTo :: "nat \<Rightarrow> string list option \<Rightarrow> clnts \<Rightarrow> clnts" where
  "MakeClientTo p allow cs = cs\<lparr>clerks := gm_put p (makeClntTo allow) (clerks cs)\<rparr>"

definition MakeClient :: "nat \<Rightarrow> clnts \<Rightarrow> clnts" where
  "MakeClient p cs = MakeClientTo p None cs"

definition clnts_makeEnd :: "string \<Rightarrow> string \<Rightarrow> network \<Rightarrow> (string \<times> network) result" where
  "clnts_makeEnd name server rn =
     res_bind (MakeEnd name rn) (\<lambda>rn1. Inr (name, Enable name True (Connect name server rn1)))"

fun remove_all :: "(nat \<times> clnt) list \<Rightarrow> network \<Rightarrow> network result" where
  "remove_all [] rn = Inr rn"
| "remove_all ((p, c) # cs) rn = res_bind (clnt_remove c rn) (remove_all cs)"

definition clnts_cleanup :: "clnts \<times> network \<Rightarrow> (clnts \<times> network) result" where
  "clnts_cleanup = (\<lambda>(cs, rn). res_bind (remove_all (clerks cs) rn) (\<lambda>rn'. Inr (cs\<lparr>clerks := []\<rparr>, rn')))"

definition DeleteClient :: "nat \<Rightarrow> clnts \<times> network \<Rightarrow> (clnts \<times> network) result" where
  "DeleteClient p = (\<lambda>(cs, rn).
     case map_of (clerks cs) p of
       Some c \<Rightarrow> res_bind (clnt_remove c rn) (\<lambda>rn'. Inr (cs\<lparr>clerks := gm_delete p (clerks cs)\<rparr>, rn'))
     | None \<Rightarrow> Inr (cs, rn))"

section \<open>Connections between servers\<close>

text \<open>The name of the end of server \<open>i\<close> to server \<open>j\<close>, and whether it is enabled.\<close>

definition nm :: "server_grp \<Rightarrow> nat \<Rightarrow> nat \<Rightarrow> string" where
  "nm sg i j = endNames (srvs sg ! i) ! j"

definition linked :: "server_grp \<times> network \<Rightarrow> nat \<Rightarrow> nat \<Rightarrow> bool" where
  "linked st i j = get_enabled (snd st) (nm (fst st) i j)"

definition grp_wf :: "server_grp \<Rightarrow> bool" where
  "grp_wf sg \<longleftrightarrow> length (connected sg) = sg_N sg \<and> (\<forall>i < sg_N sg. length (endNames (srvs sg ! i)) = sg_N sg) \<and>
     (\<forall>i < sg_N sg. \<forall>j < sg_N sg. \<forall>a < sg_N sg. \<forall>b < sg_N sg. nm sg i j = nm sg a b \<longrightarrow> i = a \<and> j = b)"

lemma get_enabled_Enable [simp]: "get_enabled (Enable e b rn) x = (if x = e then b else get_enabled rn x)"
  by (auto simp: get_enabled_def Enable_def)

lemma at_Inr [simp]: "i < length xs \<Longrightarrow> at xs i = Inr (xs ! i)"
  by (simp add: at_def)

lemma end_of_nm: "grp_wf sg \<Longrightarrow> i < sg_N sg \<Longrightarrow> j < sg_N sg \<Longrightarrow> end_of sg i j = Inr (nm sg i j)"
  by (simp add: end_of_def grp_wf_def sg_N_def nm_def)

lemma IsConnected_Inr: "grp_wf sg \<Longrightarrow> i < sg_N sg \<Longrightarrow> IsConnected i sg = Inr (connected sg ! i)"
  by (simp add: IsConnected_def grp_wf_def)

lemma nm_eq:
  "grp_wf sg \<Longrightarrow> i < sg_N sg \<Longrightarrow> j < sg_N sg \<Longrightarrow> a < sg_N sg \<Longrightarrow> b < sg_N sg \<Longrightarrow>
     nm sg a b = nm sg i j \<longleftrightarrow> a = i \<and> b = j"
  unfolding grp_wf_def by blast

lemmas grp_simps = end_of_nm IsConnected_Inr nm_eq linked_def

lemma enable_out_effect:
  assumes "grp_wf sg" "i < sg_N sg" "set js \<subseteq> {..<sg_N sg}"
  shows "\<exists>rn'. enable_out sg i js rn = Inr rn' \<and> (\<forall>a < sg_N sg. \<forall>b < sg_N sg.
    linked (sg, rn') a b = (linked (sg, rn) a b \<or> a = i \<and> b \<in> set js \<and> connected sg ! b))"
  using assms(3)
proof (induction js arbitrary: rn)
  case (Cons j js)
  then have j: "j < sg_N sg" and js: "set js \<subseteq> {..<sg_N sg}" by auto
  show ?case
  proof (cases "connected sg ! j")
    case True
    then show ?thesis using Cons.IH [OF js, of "Enable (nm sg i j) True rn"] assms(1,2) j
      by (auto simp: grp_simps)
  next
    case False
    then show ?thesis using Cons.IH [OF js, of rn] assms(1,2) j by (auto simp: grp_simps)
  qed
qed simp

lemma enable_in_effect:
  assumes "grp_wf sg" "i < sg_N sg" "set js \<subseteq> {..<sg_N sg}"
  shows "\<exists>rn'. enable_in sg i js rn = Inr rn' \<and> (\<forall>a < sg_N sg. \<forall>b < sg_N sg.
    linked (sg, rn') a b = (linked (sg, rn) a b \<or> b = i \<and> a \<in> set js \<and> connected sg ! a))"
  using assms(3)
proof (induction js arbitrary: rn)
  case (Cons j js)
  then have j: "j < sg_N sg" and js: "set js \<subseteq> {..<sg_N sg}" by auto
  show ?case
  proof (cases "connected sg ! j")
    case True
    then show ?thesis using Cons.IH [OF js, of "Enable (nm sg j i) True rn"] assms(1,2) j
      by (auto simp: grp_simps)
  next
    case False
    then show ?thesis using Cons.IH [OF js, of rn] assms(1,2) j by (auto simp: grp_simps)
  qed
qed simp

lemma disable_out_effect:
  assumes "grp_wf sg" "i < sg_N sg" "set js \<subseteq> {..<sg_N sg}"
  shows "\<exists>rn'. disable_out sg i js rn = Inr rn' \<and> (\<forall>a < sg_N sg. \<forall>b < sg_N sg.
    linked (sg, rn') a b = (linked (sg, rn) a b \<and> \<not> (a = i \<and> b \<in> set js)))"
  using assms(3)
proof (induction js arbitrary: rn)
  case (Cons j js)
  then have j: "j < sg_N sg" and js: "set js \<subseteq> {..<sg_N sg}" by auto
  show ?case using Cons.IH [OF js, of "Enable (nm sg i j) False rn"] assms(1,2) j by (auto simp: grp_simps)
qed simp

lemma disable_in_effect:
  assumes "grp_wf sg" "i < sg_N sg" "set js \<subseteq> {..<sg_N sg}"
  shows "\<exists>rn'. disable_in sg i js rn = Inr rn' \<and> (\<forall>a < sg_N sg. \<forall>b < sg_N sg.
    linked (sg, rn') a b = (linked (sg, rn) a b \<and> \<not> (b = i \<and> a \<in> set js)))"
  using assms(3)
proof (induction js arbitrary: rn)
  case (Cons j js)
  then have j: "j < sg_N sg" and js: "set js \<subseteq> {..<sg_N sg}" by auto
  show ?case using Cons.IH [OF js, of "Enable (nm sg j i) False rn"] assms(1,2) j by (auto simp: grp_simps)
qed simp

text \<open>A state of the group: the \<open>connected\<close> flags and the links, seen as functions.\<close>

definition grp_like :: "server_grp \<Rightarrow> server_grp \<Rightarrow> bool" where
  "grp_like sg sg' \<longleftrightarrow> srvs sg' = srvs sg \<and> grp_wf sg'"

lemma grp_like_N: "grp_like sg sg' \<Longrightarrow> sg_N sg' = sg_N sg"
  by (simp add: grp_like_def sg_N_def)

lemma set_connected_effect:
  assumes "grp_wf sg" "i < sg_N sg"
  shows "set_connected i b sg = Inr (sg\<lparr>connected := (connected sg)[i := b]\<rparr>) \<and>
    grp_like sg (sg\<lparr>connected := (connected sg)[i := b]\<rparr>)"
  using assms by (simp add: set_connected_def go_update_def grp_wf_def grp_like_def sg_N_def nm_def)

lemma linked_connected [simp]: "linked (sg\<lparr>connected := c\<rparr>, rn) a b = linked (sg, rn) a b"
  by (simp add: linked_def nm_def)

lemma sg_connect_effect:
  assumes "grp_wf sg" "i < sg_N sg" "set js \<subseteq> {..<sg_N sg}"
  obtains sg' rn' where "sg_connect i js (sg, rn) = Inr (sg', rn')" "grp_like sg sg'"
    "connected sg' = (connected sg)[i := True]"
    "\<And>a b. a < sg_N sg \<Longrightarrow> b < sg_N sg \<Longrightarrow> linked (sg', rn') a b =
       (linked (sg, rn) a b \<or> a = i \<and> b \<in> set js \<and> connected sg' ! b \<or> b = i \<and> a \<in> set js \<and> connected sg' ! a)"
proof -
  let ?sg = "sg\<lparr>connected := (connected sg)[i := True]\<rparr>"
  have sc: "set_connected i True sg = Inr ?sg" "grp_like sg ?sg" using set_connected_effect assms by auto
  then have wf: "grp_wf ?sg" "i < sg_N ?sg" "set js \<subseteq> {..<sg_N ?sg}"
    using assms by (auto simp: grp_like_def sg_N_def)
  obtain rn1 where 1: "enable_out ?sg i js rn = Inr rn1" "\<forall>a < sg_N ?sg. \<forall>b < sg_N ?sg.
      linked (?sg, rn1) a b = (linked (?sg, rn) a b \<or> a = i \<and> b \<in> set js \<and> connected ?sg ! b)"
    using enable_out_effect [OF wf] by blast
  obtain rn2 where 2: "enable_in ?sg i js rn1 = Inr rn2" "\<forall>a < sg_N ?sg. \<forall>b < sg_N ?sg.
      linked (?sg, rn2) a b = (linked (?sg, rn1) a b \<or> b = i \<and> a \<in> set js \<and> connected ?sg ! a)"
    using enable_in_effect [OF wf] by blast
  have "sg_connect i js (sg, rn) = Inr (?sg, rn2)" using sc(1) 1(1) 2(1) by (simp add: sg_connect_def)
  moreover have "connected ?sg = (connected sg)[i := True]" by simp
  moreover have "linked (?sg, rn2) a b =
      (linked (sg, rn) a b \<or> a = i \<and> b \<in> set js \<and> connected ?sg ! b \<or> b = i \<and> a \<in> set js \<and> connected ?sg ! a)"
    if "a < sg_N sg" "b < sg_N sg" for a b
    using 1(2) 2(2) that grp_like_N [OF sc(2)] by simp
  ultimately show thesis by (rule that [OF _ sc(2)])
qed

lemma sg_disconnect_effect:
  assumes "grp_wf sg" "i < sg_N sg" "set js \<subseteq> {..<sg_N sg}"
  obtains sg' rn' where "sg_disconnect i js (sg, rn) = Inr (sg', rn')" "grp_like sg sg'"
    "connected sg' = (connected sg)[i := False]"
    "\<And>a b. a < sg_N sg \<Longrightarrow> b < sg_N sg \<Longrightarrow> linked (sg', rn') a b =
       (linked (sg, rn) a b \<and> \<not> (a = i \<and> b \<in> set js) \<and> \<not> (b = i \<and> a \<in> set js))"
proof -
  let ?sg = "sg\<lparr>connected := (connected sg)[i := False]\<rparr>"
  have sc: "set_connected i False sg = Inr ?sg" "grp_like sg ?sg" using set_connected_effect assms by auto
  then have wf: "grp_wf ?sg" "i < sg_N ?sg" "set js \<subseteq> {..<sg_N ?sg}"
    using assms by (auto simp: grp_like_def sg_N_def)
  obtain rn1 where 1: "disable_out ?sg i js rn = Inr rn1" "\<forall>a < sg_N ?sg. \<forall>b < sg_N ?sg.
      linked (?sg, rn1) a b = (linked (?sg, rn) a b \<and> \<not> (a = i \<and> b \<in> set js))"
    using disable_out_effect [OF wf] by blast
  obtain rn2 where 2: "disable_in ?sg i js rn1 = Inr rn2" "\<forall>a < sg_N ?sg. \<forall>b < sg_N ?sg.
      linked (?sg, rn2) a b = (linked (?sg, rn1) a b \<and> \<not> (b = i \<and> a \<in> set js))"
    using disable_in_effect [OF wf] by blast
  have "sg_disconnect i js (sg, rn) = Inr (?sg, rn2)" using sc(1) 1(1) 2(1) by (simp add: sg_disconnect_def)
  moreover have "connected ?sg = (connected sg)[i := False]" by simp
  moreover have "linked (?sg, rn2) a b =
      (linked (sg, rn) a b \<and> \<not> (a = i \<and> b \<in> set js) \<and> \<not> (b = i \<and> a \<in> set js))"
    if "a < sg_N sg" "b < sg_N sg" for a b
    using 1(2) 2(2) that grp_like_N [OF sc(2)] by simp
  ultimately show thesis by (rule that [OF _ sc(2)])
qed

text \<open>The servers \<open>q\<close> of one side are connected to each other and cut off from the other side.\<close>

definition side_done :: "nat set \<Rightarrow> nat set \<Rightarrow> server_grp \<times> network \<Rightarrow> bool" where
  "side_done q other st \<longleftrightarrow> (\<forall>a \<in> q. connected (fst st) ! a) \<and> (\<forall>a \<in> q. \<forall>b \<in> q. linked st a b) \<and>
     (\<forall>a \<in> q. \<forall>b \<in> other. \<not> linked st a b \<and> \<not> linked st b a)"

definition outside_same :: "nat set \<Rightarrow> server_grp \<times> network \<Rightarrow> server_grp \<times> network \<Rightarrow> bool" where
  "outside_same mine st st' \<longleftrightarrow>
     (\<forall>a < sg_N (fst st). \<forall>b < sg_N (fst st). a \<notin> mine \<and> b \<notin> mine \<longrightarrow> linked st' a b = linked st a b) \<and>
     (\<forall>a < sg_N (fst st). a \<notin> mine \<longrightarrow> connected (fst st') ! a = connected (fst st) ! a)"

lemma side_step:
  assumes wf: "grp_wf sg" and i: "i \<in> set mine" and m: "set mine \<union> set other \<subseteq> {..<sg_N sg}"
    and dis: "set mine \<inter> set other = {}" and q: "q \<subseteq> set mine" "side_done q (set other) (sg, rn)"
  obtains sg' rn' where "side_loop [i] mine other (sg, rn) = Inr (sg', rn')" "grp_like sg sg'"
    "side_done (insert i q) (set other) (sg', rn')" "outside_same (set mine) (sg, rn) (sg', rn')"
proof -
  have iN: "i < sg_N sg" using i m by auto
  have o: "set other \<subseteq> {..<sg_N sg}" and mN: "set mine \<subseteq> {..<sg_N sg}" using m by auto
  obtain sg1 rn1 where d: "sg_disconnect i other (sg, rn) = Inr (sg1, rn1)" "grp_like sg sg1"
    "connected sg1 = (connected sg)[i := False]"
    "\<And>a b. a < sg_N sg \<Longrightarrow> b < sg_N sg \<Longrightarrow> linked (sg1, rn1) a b =
       (linked (sg, rn) a b \<and> \<not> (a = i \<and> b \<in> set other) \<and> \<not> (b = i \<and> a \<in> set other))"
    using sg_disconnect_effect [OF wf iN o, of rn] by blast
  have N: "sg_N sg1 = sg_N sg" and wf1: "grp_wf sg1" using d(2) by (auto simp: grp_like_N grp_like_def)
  obtain sg2 rn2 where c: "sg_connect i mine (sg1, rn1) = Inr (sg2, rn2)" "grp_like sg1 sg2"
    "connected sg2 = (connected sg1)[i := True]"
    "\<And>a b. a < sg_N sg1 \<Longrightarrow> b < sg_N sg1 \<Longrightarrow> linked (sg2, rn2) a b =
       (linked (sg1, rn1) a b \<or> a = i \<and> b \<in> set mine \<and> connected sg2 ! b \<or> b = i \<and> a \<in> set mine \<and> connected sg2 ! a)"
    using sg_connect_effect [OF wf1, of i mine rn1] iN mN N by metis
  have conn: "connected sg2 = (connected sg)[i := True]" using c(3) d(3) by simp
  have len: "length (connected sg) = sg_N sg" using wf by (simp add: grp_wf_def)
  have lk: "linked (sg2, rn2) a b = (linked (sg, rn) a b \<and> \<not> (a = i \<and> b \<in> set other) \<and> \<not> (b = i \<and> a \<in> set other) \<or>
      a = i \<and> b \<in> set mine \<and> connected sg2 ! b \<or> b = i \<and> a \<in> set mine \<and> connected sg2 ! a)"
    if "a < sg_N sg" "b < sg_N sg" for a b
    using c(4) d(4) that N by simp
  have qc: "connected sg2 ! a" if "a \<in> insert i q" for a
    using q that iN len by (auto simp: conn side_done_def nth_list_update)
  have iq: "insert i q \<subseteq> set mine" using i q(1) by simp
  have "side_done (insert i q) (set other) (sg2, rn2)"
    unfolding side_done_def fst_conv
  proof (intro conjI ballI)
    fix a b assume ab: "a \<in> insert i q" "b \<in> insert i q"
    then have "a < sg_N sg" "b < sg_N sg" "a \<in> set mine" "b \<in> set mine" using iq mN by auto
    then show "linked (sg2, rn2) a b"
      using ab qc lk [of a b] q(2) dis by (auto simp: side_done_def)
  next
    fix a b assume ab: "a \<in> insert i q" "b \<in> set other"
    then have "a < sg_N sg" "b < sg_N sg" "a \<in> set mine" "b \<notin> set mine" using iq mN o dis by auto
    then show "\<not> linked (sg2, rn2) a b" "\<not> linked (sg2, rn2) b a"
      using ab lk [of a b] lk [of b a] q(2) i by (auto simp: side_done_def)
  qed (use qc in auto)
  moreover have "outside_same (set mine) (sg, rn) (sg2, rn2)"
    using i len by (auto simp: outside_same_def lk conn nth_list_update split: if_splits) (metis nth_list_update_neq)+
  moreover have "grp_like sg sg2" using c(2) d(2) by (simp add: grp_like_def)
  moreover have "side_loop [i] mine other (sg, rn) = Inr (sg2, rn2)" using d(1) c(1) by simp
  ultimately show thesis using that by blast
qed

lemma outside_same_trans:
  "outside_same m st st' \<Longrightarrow> outside_same m st' st'' \<Longrightarrow> sg_N (fst st') = sg_N (fst st) \<Longrightarrow> outside_same m st st''"
  unfolding outside_same_def by metis

lemma side_loop_Cons:
  "side_loop (i # is) mine other st = res_bind (side_loop [i] mine other st) (side_loop is mine other)"
  by (cases "sg_disconnect i other st"; simp; cases "sg_connect i mine (projr (sg_disconnect i other st))"; simp)

lemma side_loop_effect:
  assumes "grp_wf sg" "set is \<subseteq> set mine" "set mine \<union> set other \<subseteq> {..<sg_N sg}"
    "set mine \<inter> set other = {}" "q \<subseteq> set mine" "side_done q (set other) (sg, rn)"
  shows "\<exists>sg' rn'. side_loop is mine other (sg, rn) = Inr (sg', rn') \<and> grp_like sg sg' \<and>
    side_done (q \<union> set is) (set other) (sg', rn') \<and> outside_same (set mine) (sg, rn) (sg', rn')"
  using assms
proof (induction "is" arbitrary: q sg rn)
  case Nil
  then show ?case by (simp add: grp_like_def outside_same_def)
next
  case (Cons i "is")
  have i: "i \<in> set mine" and sub: "set is \<subseteq> set mine" using Cons.prems(2) by auto
  obtain sg1 rn1 where 1: "side_loop [i] mine other (sg, rn) = Inr (sg1, rn1)" "grp_like sg sg1"
    "side_done (insert i q) (set other) (sg1, rn1)" "outside_same (set mine) (sg, rn) (sg1, rn1)"
    by (rule side_step [OF Cons.prems(1) i Cons.prems(3-6)])
  have N: "sg_N sg1 = sg_N sg" using 1(2) by (rule grp_like_N)
  obtain sg2 rn2 where 2: "side_loop is mine other (sg1, rn1) = Inr (sg2, rn2)" "grp_like sg1 sg2"
    "side_done (insert i q \<union> set is) (set other) (sg2, rn2)" "outside_same (set mine) (sg1, rn1) (sg2, rn2)"
  proof -
    have "grp_wf sg1" "set mine \<union> set other \<subseteq> {..<sg_N sg1}" "insert i q \<subseteq> set mine"
      using Cons.prems(3,5) i 1(2) N by (auto simp: grp_like_def)
    from Cons.IH [OF this(1) sub this(2) Cons.prems(4) this(3) 1(3)] show thesis using that by blast
  qed
  have "side_loop (i # is) mine other (sg, rn) = Inr (sg2, rn2)"
    using side_loop_Cons [of i "is" mine other "(sg, rn)"] 1(1) 2(1) by (simp only: res_bind.simps)
  moreover have "grp_like sg sg2" using 1(2) 2(2) by (simp add: grp_like_def)
  moreover have "outside_same (set mine) (sg, rn) (sg2, rn2)"
    using outside_same_trans [OF 1(4) 2(4)] N by simp
  ultimately show ?case using 2(3) by auto
qed

lemma Partition_effect:
  assumes wf: "grp_wf sg" and p: "set p1 \<union> set p2 = {..<sg_N sg}" "set p1 \<inter> set p2 = {}"
  shows "\<exists>sg' rn'. sg_Partition p1 p2 (sg, rn) = Inr (sg', rn') \<and> grp_like sg sg' \<and>
    (\<forall>i < sg_N sg. connected sg' ! i) \<and>
    (\<forall>i < sg_N sg. \<forall>j < sg_N sg. linked (sg', rn') i j = (i \<in> set p1 \<longleftrightarrow> j \<in> set p1))"
proof -
  obtain sg1 rn1 where 1: "side_loop p1 p1 p2 (sg, rn) = Inr (sg1, rn1)" "grp_like sg sg1"
    "side_done (set p1) (set p2) (sg1, rn1)"
    using side_loop_effect [OF wf, of p1 p1 p2 "{}" rn] p by (auto simp: side_done_def)
  have N: "sg_N sg1 = sg_N sg" using 1(2) by (rule grp_like_N)
  obtain sg2 rn2 where 2: "side_loop p2 p2 p1 (sg1, rn1) = Inr (sg2, rn2)" "grp_like sg1 sg2"
    "side_done (set p2) (set p1) (sg2, rn2)" "outside_same (set p2) (sg1, rn1) (sg2, rn2)"
  proof -
    have "grp_wf sg1" "set p2 \<union> set p1 \<subseteq> {..<sg_N sg1}" "set p2 \<inter> set p1 = {}" "side_done {} (set p1) (sg1, rn1)"
      using 1(2) p N by (auto simp: grp_like_def side_done_def)
    from side_loop_effect [OF this(1) subset_refl this(2,3) empty_subsetI this(4)] show thesis
      using that by auto
  qed
  have "linked (sg2, rn2) i j = (i \<in> set p1 \<longleftrightarrow> j \<in> set p1)" if "i < sg_N sg" "j < sg_N sg" for i j
  proof -
    have side: "a \<in> set p1 \<and> a \<notin> set p2 \<or> a \<in> set p2 \<and> a \<notin> set p1" if "a < sg_N sg" for a
      using p that by auto
    show ?thesis
      using side [OF that(1)] side [OF that(2)] 1(3) 2(3,4) that N
      by (auto simp: side_done_def outside_same_def)
  qed
  moreover have "connected sg2 ! i" if "i < sg_N sg" for i
    using p 1(3) 2(3,4) that N by (cases "i \<in> set p2") (auto simp: side_done_def outside_same_def)
  ultimately show ?thesis using 1 2 by (auto simp: sg_Partition_def grp_like_def)
qed

section \<open>MakePartition\<close>

text \<open>The two slices, seen as one array, are filled from the left with the other servers.\<close>

lemma partition_loop_fill:
  assumes "length p1 + length p2 \<ge> j + length (filter (\<lambda>i. i \<noteq> l) is)"
  shows "\<exists>q1 q2. partition_loop l is j (p1, p2) = Inr (q1, q2) \<and> length q1 = length p1 \<and> length q2 = length p2 \<and>
    q1 @ q2 = take j (p1 @ p2) @ filter (\<lambda>i. i \<noteq> l) is @ drop (j + length (filter (\<lambda>i. i \<noteq> l) is)) (p1 @ p2)"
  using assms
proof (induction "is" arbitrary: j p1 p2)
  case Nil
  then show ?case by (simp del: take_append drop_append)
next
  case (Cons i "is")
  show ?case
  proof (cases "i = l")
    case True
    then show ?thesis using Cons.IH [of j p1 p2] Cons.prems by simp
  next
    case False
    define q where "q = (if j < length p1 then (p1[j := i], p2) else (p1, p2[j - length p1 := i]))"
    have j: "j < length p1 + length p2" using Cons.prems False by simp
    then have step: "partition_loop l (i # is) j (p1, p2) = partition_loop l is (j + 1) q"
      using False by (auto simp: q_def go_update_def nat_diff_distrib')
    have q: "fst q @ snd q = (p1 @ p2)[j := i]" "length (fst q) = length p1" "length (snd q) = length p2"
      using j by (auto simp: q_def list_update_append)
    have "take (j + 1) ((p1 @ p2)[j := i]) = take j (p1 @ p2) @ [i]"
      using j by (simp add: take_Suc_conv_app_nth take_update_cancel del: append_eq_append_conv)
    moreover have "drop (j + 1 + k) ((p1 @ p2)[j := i]) = drop (j + 1 + k) (p1 @ p2)" for k by simp
    ultimately show ?thesis
      using Cons.IH [of "j + 1" "fst q" "snd q"] Cons.prems False q step by simp
  qed
qed

lemma filter_ne_upt:
  "l < n \<Longrightarrow> length (filter (\<lambda>i. i \<noteq> l) [0..<n]) = n - 1"
proof -
  assume "l < n"
  then have "set (filter (\<lambda>i. i \<noteq> l) [0..<n]) = {..<n} - {l}" by auto
  then have "card ({..<n} - {l}) = length (filter (\<lambda>i. i \<noteq> l) [0..<n])"
    using distinct_card [of "filter (\<lambda>i. i \<noteq> l) [0..<n]"] by simp
  then show ?thesis using \<open>l < n\<close> by simp
qed

lemma MakePartition_shape:
  assumes l: "l < n" and n: "n > 1"
  shows "\<exists>p1 p2. MakePartition n l = Inr (p1, p2) \<and> length p1 = n div 2 + 1 \<and> length p2 = n div 2 \<and>
    p1 @ p2 = filter (\<lambda>i. i \<noteq> l) [0..<n] @ (if even n then [0, l] else [l])"
proof -
  let ?ys = "filter (\<lambda>i. i \<noteq> l) [0..<n]" and ?z = "replicate (n div 2 + 1) 0 @ replicate (n div 2) (0 :: nat)"
  have len: "length ?ys = n - 1" using l by (rule filter_ne_upt)
  have m: "n div 2 + 1 + n div 2 = (if even n then n + 1 else n)" by presburger
  obtain q1 q2 where q: "partition_loop l [0..<n] 0 (replicate (n div 2 + 1) 0, replicate (n div 2) 0) = Inr (q1, q2)"
    "length q1 = n div 2 + 1" "length q2 = n div 2" "q1 @ q2 = ?ys @ drop (n - 1) ?z"
  proof -
    have "length (replicate (n div 2 + 1) 0) + length (replicate (n div 2) 0) \<ge> 0 + length ?ys"
      using len m by (simp split: if_splits)
    from partition_loop_fill [OF this] show thesis using that len by (simp del: replicate_Suc) blast
  qed
  have "?z = replicate (n div 2 + 1 + n div 2) 0" by (simp add: replicate_add)
  then have z: "drop (n - 1) ?z = (if even n then [0, 0] else [0])"
    unfolding m using n by (auto simp: numeral_2_eq_2)
  have pos: "0 < n div 2" using n by simp
  have up: "go_update q2 (int (length q2) - 1) l = Inr (q2[length q2 - 1 := l])"
    using pos q(3) by (auto simp: go_update_def nat_diff_distrib')
  have "q1 @ q2[length q2 - 1 := l] = (q1 @ q2)[length (q1 @ q2) - 1 := l]"
    using pos q(3) by (cases "n div 2") (simp_all add: list_update_append)
  also have "\<dots> = ?ys @ (if even n then [0, l] else [l])"
    unfolding q(4) z using len by (auto simp: list_update_append)
  finally show ?thesis using q up by (simp add: MakePartition_def)
qed

section \<open>Properties of the tester's groups\<close>

text \<open>
  \<open>Partition\<close> cuts the group in two: whatever the state before, afterwards every server is
  connected, and the end of server \<open>i\<close> to server \<open>j\<close> is enabled exactly when both are on the same side.
\<close>
theorem Partition_isolates:
  assumes "grp_wf sg" and "set p1 \<union> set p2 = {..<sg_N sg}" "set p1 \<inter> set p2 = {}"
  shows "\<exists>sg' rn'. sg_Partition p1 p2 (sg, rn) = Inr (sg', rn') \<and>
    (\<forall>i < sg_N sg. connected sg' ! i) \<and>
    (\<forall>i < sg_N sg. \<forall>j < sg_N sg. get_enabled rn' (endNames (srvs sg ! i) ! j) = (i \<in> set p1 \<longleftrightarrow> j \<in> set p1))"
  using Partition_effect [OF assms, of rn] unfolding linked_def nm_def grp_like_def by auto

text \<open>
  With an odd number of servers, at least three, \<open>MakePartition\<close> splits the servers into a majority
  without the leader and a minority with it.
\<close>
theorem MakePartition_minority:
  assumes "odd n" "n > 1" "l < n"
  shows "\<exists>p1 p2. MakePartition n l = Inr (p1, p2) \<and> set p1 \<union> set p2 = {..<n} \<and> distinct (p1 @ p2) \<and>
    l \<in> set p2 \<and> length p2 < length p1"
proof -
  obtain p1 p2 where p': "MakePartition n l = Inr (p1, p2)" "length p1 = n div 2 + 1" "length p2 = n div 2"
    "p1 @ p2 = filter (\<lambda>i. i \<noteq> l) [0..<n] @ (if even n then [0, l] else [l])"
    using MakePartition_shape [OF assms(3,2)] by blast
  have p: "MakePartition n l = Inr (p1, p2)" "length p1 = n div 2 + 1" "length p2 = n div 2"
    "p1 @ p2 = filter (\<lambda>i. i \<noteq> l) [0..<n] @ [l]" using p' assms(1) by simp_all
  have "set (p1 @ p2) = {..<n}" unfolding p(4) using assms(3) by auto
  then have "set p1 \<union> set p2 = {..<n}" by simp
  moreover have "distinct (p1 @ p2)" unfolding p(4) by simp
  moreover have "l \<in> set p2"
  proof -
    have "p2 \<noteq> []" using p(3) assms(2) by auto
    then have "last p2 = l" using arg_cong [OF p(4), of last] by simp
    with \<open>p2 \<noteq> []\<close> show ?thesis using last_in_set by blast
  qed
  moreover have "length p2 < length p1" using p(2,3) by simp
  ultimately show ?thesis using p(1) by blast
qed

text \<open>
  With an even number of servers \<open>MakePartition\<close> does not partition them: a slot of the second
  slice is never filled and server 0 is listed twice.
\<close>
theorem MakePartition_even:
  assumes "even n" "n > 1" "l < n" "l \<noteq> 0"
  shows "\<exists>p1 p2. MakePartition n l = Inr (p1, p2) \<and> \<not> distinct (p1 @ p2)"
proof -
  obtain p1 p2 where p': "MakePartition n l = Inr (p1, p2)"
    "p1 @ p2 = filter (\<lambda>i. i \<noteq> l) [0..<n] @ (if even n then [0, l] else [l])"
    using MakePartition_shape [OF assms(3,2)] by blast
  have p: "MakePartition n l = Inr (p1, p2)" "p1 @ p2 = filter (\<lambda>i. i \<noteq> l) [0..<n] @ [0, l]"
    using p' assms(1) by simp_all
  have "0 \<in> set (filter (\<lambda>i. i \<noteq> l) [0..<n])" using assms by auto
  then have "\<not> distinct (p1 @ p2)" unfolding p(2) by auto
  with p(1) show ?thesis by blast
qed

section \<open>Witnesses\<close>

definition ex_grp :: server_grp where
  "ex_grp = \<lparr>srvs = [\<lparr>saved = None, endNames = [''a'', ''b''], dc = None\<rparr>,
                      \<lparr>saved = None, endNames = [''c'', ''d''], dc = None\<rparr>],
             servernames = [''server-0-0'', ''server-0-1''], grp_gid = 0, connected = [False, True]\<rparr>"

lemma Partition_isolates_witness:
  "\<exists>sg' rn'. sg_Partition [0] [1] (ex_grp, MakeNetwork) = Inr (sg', rn') \<and>
     get_enabled rn' ''a'' \<and> \<not> get_enabled rn' ''b'' \<and> \<not> get_enabled rn' ''c'' \<and> get_enabled rn' ''d''"
proof -
  have wf: "grp_wf ex_grp"
    by (auto simp: grp_wf_def ex_grp_def sg_N_def nm_def less_Suc_eq)
  have N: "sg_N ex_grp = 2" by (simp add: sg_N_def ex_grp_def)
  show ?thesis using Partition_isolates [OF wf, of "[0]" "[1]" MakeNetwork] unfolding N
    by (force simp: ex_grp_def less_Suc_eq numeral_2_eq_2)
qed

lemma MakePartition_minority_witness:
  "\<exists>p1 p2. MakePartition 5 0 = Inr (p1, p2) \<and> set p1 \<union> set p2 = {..<5} \<and> 0 \<in> set p2 \<and> length p2 < length p1"
  using MakePartition_minority [of 5 0] by auto

lemma MakePartition_even_witness: "\<exists>p1 p2. MakePartition 4 2 = Inr (p1, p2) \<and> \<not> distinct (p1 @ p2)"
  using MakePartition_even [of 4 2] by simp

end
