(* ===== verification/Daemon.thy ===== *)
theory Daemon
  imports Tester
begin

text \<open>
  Server processes and the configuration of a test (\<open>tester1/daemonclnt.go\<close>, \<open>daemonsrv.go\<close>, \<open>testsrv.go\<close>,
  \<open>config.go\<close>): the command line the tester gives to a daemon and the daemon reads back, the transfer of the
  persisted state at a shutdown and at a restart, the set-up of a test and its statistics.

  Shown: a daemon recovers its group, its number and its end points from its command line; servers
  that are killed and started again run with the state they had, and the whole group is connected; a
  configuration is set up with all its servers connected.
\<close>

section \<open>The command line of a daemon\<close>

definition options :: "bool \<Rightarrow> string list" where
  "options useRaftStateMachine = (if useRaftStateMachine then [''--raft-state-machine''] else [])"

definition daemon_args :: "string list \<Rightarrow> bool \<Rightarrow> string \<Rightarrow> int \<Rightarrow> int \<Rightarrow> string list \<Rightarrow> string list" where
  "daemon_args pargs useRSM endName gid sid names =
     pargs @ options useRSM @ [itoa gid, itoa sid, itoa (int (length names)), endName] @ names"

text \<open>\<open>strconv.Atoi\<close>: an optional sign, decimal digits, and a value that fits 64 bits.\<close>

definition digits_int :: "bool \<Rightarrow> string \<Rightarrow> int option" where
  "digits_int neg ds =
     (if ds \<noteq> [] \<and> list_all is_digit ds
      then let n = (if neg then - int (digits_value ds) else int (digits_value ds))
           in if - (2 ^ 63) \<le> n \<and> n < 2 ^ 63 then Some n else None
      else None)"

definition Atoi :: "string \<Rightarrow> int option" where
  "Atoi s =
     (case s of
        c # ds \<Rightarrow> (if c = CHR ''-'' then digits_int True ds else if c = CHR ''+'' then digits_int False ds else digits_int False s)
      | [] \<Rightarrow> None)"

text \<open>The loop that skips the options: the index after the last of the leading arguments that begin with a dash.\<close>

fun skip_options :: "nat \<Rightarrow> nat \<Rightarrow> string list \<Rightarrow> nat result" where
  "skip_options s i [] = Inr s"
| "skip_options s i (a # as) =
     (case a of
        [] \<Rightarrow> Inl (Panic ''index out of range'')
      | c # cs \<Rightarrow> if c = CHR ''-'' then skip_options (i + 1) (i + 1) as else Inr s)"

record daemon_conf =
  dm_gid :: int
  dm_sid :: int
  dm_tester :: string
  dm_endNames :: "string list"
  dm_endName :: string

text \<open>\<open>xs[a:b]\<close>.\<close>

definition go_slice :: "'a list \<Rightarrow> int \<Rightarrow> int \<Rightarrow> 'a list result" where
  "go_slice xs a b =
     (if 0 \<le> a \<and> a \<le> b \<and> b \<le> int (length xs) then Inr (take (nat (b - a)) (drop (nat a) xs))
      else Inl (Panic ''slice bounds out of range''))"

text \<open>
  The arguments of \<open>InitDaemon\<close>; \<open>None\<close> is the error of \<open>Atoi\<close>. The processes pass \<open>os.Args[1:]\<close>, which is
  also what the loop looks at.
\<close>

definition arg_int :: "string list \<Rightarrow> nat \<Rightarrow> int option result" where
  "arg_int argv i = res_bind (go_index argv (int i)) (\<lambda>a. Inr (Atoi a))"

definition InitDaemon_args :: "string list \<Rightarrow> daemon_conf option result" where
  "InitDaemon_args argv =
     res_bind (skip_options 0 0 argv) (\<lambda>s.
     res_bind (arg_int argv s) (\<lambda>g. case g of None \<Rightarrow> Inr None | Some gid \<Rightarrow>
     res_bind (arg_int argv (s + 1)) (\<lambda>d. case d of None \<Rightarrow> Inr None | Some sid \<Rightarrow>
     res_bind (arg_int argv (s + 2)) (\<lambda>n. case n of None \<Rightarrow> Inr None | Some nsrv \<Rightarrow>
     res_bind (go_index argv (int s + 3)) (\<lambda>testerEndName.
     res_bind (go_slice argv (int s + 4) (int s + 4 + nsrv)) (\<lambda>names.
     res_bind (go_index names sid) (\<lambda>me.
       Inr (Some \<lparr>dm_gid = gid, dm_sid = sid, dm_tester = testerEndName, dm_endNames = names, dm_endName = me\<rparr>))))))))"

section \<open>The daemon's persister\<close>

record init_args =
  ia_Raftstate :: bytes
  ia_Snapshot :: bytes

text \<open>What the tester sends, what the daemon makes of it, and what comes back at a shutdown.\<close>

definition dc_init :: "persister \<Rightarrow> init_args" where
  "dc_init p = \<lparr>ia_Raftstate = ReadRaftState p, ia_Snapshot = ReadSnapshot p\<rparr>"

definition ds_Init :: "init_args \<Rightarrow> persister" where
  "ds_Init a = Save (ia_Raftstate a) (ia_Snapshot a) MakePersister"

definition CheckpointPersister :: "persister \<Rightarrow> init_args" where
  "CheckpointPersister ps =
     (let p = Checkpoint ps in \<lparr>ia_Raftstate = ReadRaftState p, ia_Snapshot = ReadSnapshot p\<rparr>)"

definition checkpointPersister :: "init_args option \<Rightarrow> persister result" where
  "checkpointPersister back =
     (case back of
        None \<Rightarrow> Inl (Fatal ''checkpointPersister: no return'')
      | Some r \<Rightarrow> Inr (Save (ia_Raftstate r) (ia_Snapshot r) MakePersister))"

definition StateSize :: "persister \<Rightarrow> int \<times> int" where
  "StateSize ps = (RaftStateSize ps, SnapshotSize ps)"

section \<open>Forwarding calls through the tester\<close>

record forward_args =
  fw_Method :: string
  fw_End :: string
  fw_Args :: bytes
  fw_Id :: "64 word"

text \<open>
  The daemon numbers its calls; \<open>answer\<close> is the reply of the tester, or \<open>None\<close> when the call to the tester
  fails. In the tester a call for an end that does not exist is fatal.
\<close>

definition ds_forward :: "string \<Rightarrow> string \<Rightarrow> bytes \<Rightarrow> 64 word \<Rightarrow> 64 word \<times> forward_args" where
  "ds_forward e method b n = (n + 1, \<lparr>fw_Method = method, fw_End = e, fw_Args = b, fw_Id = n + 1\<rparr>)"

definition forward_result :: "(bytes \<times> bool) option \<Rightarrow> bytes \<times> bool" where
  "forward_result answer = (case answer of None \<Rightarrow> ([], False) | Some r \<Rightarrow> r)"

definition TesterRPC_Forward :: "forward_args \<Rightarrow> reply_msg option \<Rightarrow> network \<Rightarrow> (bytes \<times> bool) result" where
  "TesterRPC_Forward a answer rn = res_bind (LookupEnd (fw_End a) rn) (\<lambda>_. Inr (Forward_result answer))"

section \<open>The configuration of a test\<close>

record config =
  cfg_clnts :: clnts
  cfg_groups :: groups
  cfg_net :: network
  cfg_rpcs0 :: int
  cfg_ops :: "32 word"
  cfg_endName :: string

definition GRP0 :: int where "GRP0 = 0"

text \<open>\<open>b\<close> are the bytes read from \<open>crypto/rand\<close>.\<close>

definition Randstring :: "nat \<Rightarrow> nat list \<Rightarrow> string result" where
  "Randstring n b = (let s = b64_encode b in if n \<le> length s then Inr (take n s) else Inl (Panic ''slice bounds out of range''))"

text \<open>
  \<open>MakeGroupStart\<close> and \<open>MakeConfig\<close>: \<open>names\<close> are the end names drawn for the slots of the group, \<open>draws\<close> those
  drawn for its processes with the pointers of their labrpc servers. \<open>Group\<close> of a missing group is nil.
\<close>

definition with_group :: "int \<Rightarrow> (server_grp \<times> network \<Rightarrow> (server_grp \<times> network) result) \<Rightarrow> groups \<times> network \<Rightarrow> (groups \<times> network) result" where
  "with_group gid f = (\<lambda>(gs, rn).
     case lookupGroup gid gs of
       None \<Rightarrow> Inl (Panic ''nil pointer dereference'')
     | Some sg \<Rightarrow> res_bind (f (sg, rn)) (\<lambda>(sg', rn'). Inr (gs\<lparr>grps := gm_put gid sg' (grps gs)\<rparr>, rn')))"

definition MakeGroupStart :: "int \<Rightarrow> string list list \<Rightarrow> (string list \<times> nat) list \<Rightarrow> groups \<times> network \<Rightarrow> (groups \<times> network) result" where
  "MakeGroupStart gid names draws st =
     res_bind (MakeGroup gid names st) (with_group gid (StartServers draws))"

definition MakeConfig :: "nat list \<Rightarrow> string list list \<Rightarrow> (string list \<times> nat) list \<Rightarrow> bool \<Rightarrow> config result" where
  "MakeConfig b names draws rel =
     res_bind (Randstring 20 b) (\<lambda>e.
     res_bind (MakeGroupStart GRP0 names draws (\<lparr>grps = []\<rparr>, MakeNetwork)) (\<lambda>(gs, rn).
       Inr \<lparr>cfg_clnts = \<lparr>clerks = []\<rparr>, cfg_groups = gs, cfg_net = Reliable rel rn, cfg_rpcs0 = 0, cfg_ops = 0, cfg_endName = e\<rparr>))"

definition ExitGroup :: "int \<Rightarrow> config \<Rightarrow> config result" where
  "ExitGroup gid cfg =
     res_bind (with_group gid sg_Shutdown (cfg_groups cfg, cfg_net cfg)) (\<lambda>(gs, rn).
       Inr (cfg\<lparr>cfg_groups := groups_delete gid gs, cfg_net := rn\<rparr>))"

definition cfg_Cleanup :: "config \<Rightarrow> config result" where
  "cfg_Cleanup cfg =
     res_bind (clnts_cleanup (cfg_clnts cfg, cfg_net cfg)) (\<lambda>(cs, rn1).
     res_bind (groups_cleanup (grps (cfg_groups cfg)) rn1) (\<lambda>(gs, rn2).
     res_bind (LabRpc.Cleanup rn2) (\<lambda>rn3.
       Inr (cfg\<lparr>cfg_clnts := cs, cfg_groups := \<lparr>grps = gs\<rparr>, cfg_net := rn3\<rparr>))))"

definition RpcTotal :: "config \<Rightarrow> int" where "RpcTotal cfg = GetTotalCount (cfg_net cfg)"
definition BytesTotal :: "config \<Rightarrow> int" where "BytesTotal cfg = GetTotalBytes (cfg_net cfg)"

definition cfg_Begin :: "config \<Rightarrow> config" where
  "cfg_Begin cfg = cfg\<lparr>cfg_rpcs0 := RpcTotal cfg, cfg_ops := 0\<rparr>"

definition OpInc :: "config \<Rightarrow> config" where
  "OpInc cfg = cfg\<lparr>cfg_ops := cfg_ops cfg + 1\<rparr>"

definition cfg_CheckTimeout :: "bool \<Rightarrow> int \<Rightarrow> unit result" where
  "cfg_CheckTimeout bad seconds =
     (if \<not> bad \<and> seconds > 120 then Inl (Fatal ''test took longer than 120 seconds'') else Inr ())"

text \<open>\<open>End\<close> prints the number of peers, of RPCs since \<open>Begin\<close> and of operations, unless the test has failed.\<close>

definition cfg_End :: "bool \<Rightarrow> int \<Rightarrow> config \<Rightarrow> (nat \<times> int \<times> int) option result" where
  "cfg_End bad seconds cfg =
     res_bind (cfg_CheckTimeout bad seconds) (\<lambda>_.
       if bad then Inr None
       else case lookupGroup GRP0 (cfg_groups cfg) of
              None \<Rightarrow> Inl (Panic ''nil pointer dereference'')
            | Some sg \<Rightarrow> Inr (Some (sg_N sg, RpcTotal cfg - cfg_rpcs0 cfg, sint (cfg_ops cfg))))"

text \<open>\<open>random_handles\<close>: \<open>rand.Intn(i + 1)\<close> is the \<open>i\<close>-th number of \<open>rs\<close> reduced to the range.\<close>

fun shuffle_loop :: "nat list \<Rightarrow> nat \<Rightarrow> 'a list \<Rightarrow> 'a list" where
  "shuffle_loop [] i sa = sa"
| "shuffle_loop (r # rs) i sa =
     (if i < length sa then let j = r mod (i + 1) in shuffle_loop rs (i + 1) (sa[i := sa ! j, j := sa ! i]) else sa)"

definition random_handles :: "nat list \<Rightarrow> 'a list \<Rightarrow> 'a list" where
  "random_handles rs kvh = shuffle_loop (take (length kvh) rs) 0 kvh"

section \<open>Command lines and persisters\<close>

lemma itoa_nonneg: "0 \<le> i \<Longrightarrow> itoa i = nat_digits (nat i)"
  by (simp add: itoa_def)

lemma nat_digits_head: "\<exists>c cs. nat_digits n = c # cs \<and> is_digit c"
  using nat_digits_digits [of n] by (cases "nat_digits n") auto

lemma Atoi_itoa:
  assumes "0 \<le> i" "i < 2 ^ 63"
  shows "Atoi (itoa i) = Some i"
proof -
  obtain c cs where d: "nat_digits (nat i) = c # cs" "is_digit c" using nat_digits_head by blast
  then have "c \<noteq> CHR ''-''" "c \<noteq> CHR ''+''" by (auto simp: is_digit_def)
  then have "Atoi (itoa i) = digits_int False (nat_digits (nat i))"
    using d(1) assms(1) by (simp add: Atoi_def itoa_nonneg)
  also have "\<dots> = Some i"
    using nat_digits_digits [of "nat i"] assms by (simp add: digits_int_def digits_value_nat_digits list_all_iff)
  finally show ?thesis .
qed

lemma skip_options_count:
  assumes "\<forall>p \<in> set opts. \<exists>cs. p = CHR ''-'' # cs" "x = c # cs" "c \<noteq> CHR ''-''"
  shows "skip_options i i (opts @ x # rest) = Inr (i + length opts)"
  using assms(1)
proof (induction opts arbitrary: i)
  case (Cons p opts)
  then obtain ds where "p = CHR ''-'' # ds" by auto
  with Cons.IH [of "i + 1"] Cons.prems show ?case by simp
qed (simp add: assms(2,3))

lemma clone_id [simp]: "clone x = x"
  by (simp add: clone_def)

lemma Checkpoint_id [simp]: "Checkpoint p = p"
  by (simp add: Checkpoint_def MakePersister_def)

text \<open>What \<open>StartServer\<close> and \<open>shutdownServer\<close> take a daemon's persister to be is what the messages carry.\<close>

lemma daemon_persister:
  "ds_Init (dc_init p) = p"
  "checkpointPersister (Some (CheckpointPersister p)) = Inr (Checkpoint p)"
  by (simp_all add: ds_Init_def dc_init_def checkpointPersister_def CheckpointPersister_def Save_def MakePersister_def
      ReadRaftState_def ReadSnapshot_def Let_def)

section \<open>Connecting a whole group\<close>

lemma connect_list_append: "connect_list (xs @ ys) st = res_bind (connect_list xs st) (connect_list ys)"
proof (induction xs arbitrary: st)
  case (Cons x xs)
  then show ?case by (cases "ConnectOne x st") auto
qed simp

lemma enable_ends:
  "enable_out sg i js rn = Inr rn' \<Longrightarrow> ends rn' = ends rn" "enable_in sg i js rn = Inr rn' \<Longrightarrow> ends rn' = ends rn"
  by (induction js arbitrary: rn) (auto simp: Enable_def split: if_splits)

lemma disable_ends:
  "disable_out sg i js rn = Inr rn' \<Longrightarrow> ends rn' = ends rn" "disable_in sg i js rn = Inr rn' \<Longrightarrow> ends rn' = ends rn"
  by (induction js arbitrary: rn) (auto simp: Enable_def)

lemma sg_disconnect_frame:
  "sg_disconnect i js (sg, rn) = Inr (sg', rn') \<Longrightarrow> ends rn' = ends rn \<and> grp_gid sg' = grp_gid sg"
  by (auto simp: sg_disconnect_def set_connected_def dest!: disable_ends)

lemma connect_prefix:
  assumes "grp_wf sg" "k \<le> sg_N sg"
  shows "\<exists>sg' rn'. connect_list [0..<k] (sg, rn) = Inr (sg', rn') \<and> grp_like sg sg' \<and>
    (\<forall>a < k. connected sg' ! a) \<and> (\<forall>a < k. \<forall>b < k. linked (sg', rn') a b)"
  using assms(2)
proof (induction k)
  case 0
  then show ?case using assms(1) by (simp add: grp_like_def)
next
  case (Suc k)
  then obtain sg1 rn1 where 1: "connect_list [0..<k] (sg, rn) = Inr (sg1, rn1)" "grp_like sg sg1"
    "\<forall>a < k. connected sg1 ! a" "\<forall>a < k. \<forall>b < k. linked (sg1, rn1) a b" by auto
  have N: "sg_N sg1 = sg_N sg" using grp_like_N [OF 1(2)] .
  have wf: "grp_wf sg1" "k < sg_N sg1" "set (sg_all sg1) \<subseteq> {..<sg_N sg1}"
    using 1(2) Suc.prems N by (auto simp: grp_like_def sg_all_def sg_N_def)
  obtain sg2 rn2 where 2: "sg_connect k (sg_all sg1) (sg1, rn1) = Inr (sg2, rn2)" "grp_like sg1 sg2"
    "connected sg2 = (connected sg1)[k := True]"
    "\<And>a b. a < sg_N sg1 \<Longrightarrow> b < sg_N sg1 \<Longrightarrow> linked (sg2, rn2) a b =
       (linked (sg1, rn1) a b \<or> a = k \<and> b \<in> set (sg_all sg1) \<and> connected sg2 ! b \<or> b = k \<and> a \<in> set (sg_all sg1) \<and> connected sg2 ! a)"
    using sg_connect_effect [where rn = rn1, OF wf] by metis
  have len: "length (connected sg1) = sg_N sg1" using wf(1) by (simp add: grp_wf_def)
  then have c: "\<forall>a < Suc k. connected sg2 ! a" using 2(3) 1(3) wf(2) by (auto simp: less_Suc_eq)
  have "linked (sg2, rn2) a b" if "a < Suc k" "b < Suc k" for a b
    using that 2(4) [of a b] c 1(4) wf(2) by (auto simp: sg_all_def sg_N_def less_Suc_eq)
  moreover have "connect_list [0..<Suc k] (sg, rn) = Inr (sg2, rn2)"
    using 1(1) 2(1) by (simp add: connect_list_append ConnectOne_def)
  moreover have "grp_like sg sg2" using 1(2) 2(2) by (simp add: grp_like_def)
  ultimately show ?case using c by blast
qed

lemma ConnectAll_links:
  assumes "grp_wf sg"
  shows "\<exists>sg' rn'. sg_ConnectAll (sg, rn) = Inr (sg', rn') \<and> grp_like sg sg' \<and>
    (\<forall>a < sg_N sg. connected sg' ! a) \<and> (\<forall>a < sg_N sg. \<forall>b < sg_N sg. linked (sg', rn') a b)"
  using connect_prefix [OF assms order_refl] by (simp add: sg_ConnectAll_def sg_all_def sg_N_def)

section \<open>Killing and starting servers\<close>

text \<open>A group whose end points exist in the network.\<close>

definition grp_in :: "server_grp \<Rightarrow> network \<Rightarrow> bool" where
  "grp_in sg rn \<longleftrightarrow> grp_wf sg \<and> (\<forall>i < sg_N sg. set (endNames (srvs sg ! i)) \<subseteq> dom (map_of (ends rn)))"

lemma grp_in_same_ends:
  assumes "grp_in sg rn" "map endNames (srvs sg') = map endNames (srvs sg)" "length (connected sg') = length (connected sg)"
    and "ends rn' = ends rn"
  shows "grp_in sg' rn'"
proof -
  have N: "sg_N sg' = sg_N sg" using map_eq_imp_length_eq [OF assms(2)] by (simp add: sg_N_def)
  have e: "endNames (srvs sg' ! i) = endNames (srvs sg ! i)" if "i < sg_N sg" for i
    using arg_cong [OF assms(2), of "\<lambda>xs. xs ! i"] that N by (simp add: sg_N_def)
  then have n: "nm sg' i j = nm sg i j" if "i < sg_N sg" for i j using that by (simp add: nm_def)
  have wf: "grp_wf sg" using assms(1) by (simp add: grp_in_def)
  have "grp_wf sg'" unfolding grp_wf_def N
    using wf assms(3) by (simp add: e n grp_wf_def)
  then show ?thesis using assms(1,4) e by (simp add: grp_in_def N)
qed

lemma endNames_shutdown [simp]: "endNames (shutdownServer s) = endNames s"
  by (simp add: shutdownServer_def split: option.split)

lemma map_update_same: "i < length xs \<Longrightarrow> f y = f (xs ! i) \<Longrightarrow> map f (xs[i := y]) = map f xs"
  by (metis list_update_id map_update)

lemma ShutdownServer_effect:
  assumes "grp_in sg rn" "i < sg_N sg"
  shows "\<exists>sg' rn'. ShutdownServer i (sg, rn) = Inr (sg', rn') \<and> grp_in sg' rn' \<and>
    srvs sg' = (srvs sg)[i := shutdownServer (srvs sg ! i)] \<and> ends rn' = ends rn \<and> grp_gid sg' = grp_gid sg"
proof -
  have wf: "grp_wf sg" "i < sg_N sg" "set (sg_all sg) \<subseteq> {..<sg_N sg}"
    using assms by (auto simp: grp_in_def sg_all_def sg_N_def)
  obtain sg1 rn1 where 1: "sg_disconnect i (sg_all sg) (sg, rn) = Inr (sg1, rn1)" "grp_like sg sg1"
    using sg_disconnect_effect [where rn = rn, OF wf] by metis
  note frame = sg_disconnect_frame [OF 1(1)]
  define sg' where "sg' = sg1\<lparr>srvs := (srvs sg1)[i := shutdownServer (srvs sg1 ! i)]\<rparr>"
  define rn' where "rn' = DeleteServer (ServerName (grp_gid sg1) (int i)) rn1"
  have s: "srvs sg1 = srvs sg" "i < length (srvs sg)" using 1(2) assms(2) by (auto simp: grp_like_def sg_N_def)
  have "ShutdownServer i (sg, rn) = Inr (sg', rn')"
    using 1(1) s by (simp add: ShutdownServer_def sg_DisconnectAll_def sg'_def rn'_def)
  moreover have "grp_in sg1 rn1" using 1(2) frame assms(1) by (simp add: grp_in_def grp_like_def sg_N_def)
  then have "grp_in sg' rn'"
    by (rule grp_in_same_ends) (simp_all add: sg'_def rn'_def DeleteServer_def map_update_same s)
  ultimately show ?thesis using s frame by (auto simp: sg'_def rn'_def DeleteServer_def)
qed

lemma shutdown_twice [simp]: "shutdownServer (shutdownServer s) = shutdownServer s"
  by (simp add: shutdownServer_def split: option.split)

lemma Kill_effect:
  assumes "grp_in sg rn" "\<forall>i \<in> set is. i < sg_N sg"
  shows "\<exists>sg' rn'. sg_Kill is (sg, rn) = Inr (sg', rn') \<and> grp_in sg' rn' \<and>
    srvs sg' = map (\<lambda>i. if i \<in> set is then shutdownServer (srvs sg ! i) else srvs sg ! i) [0..<sg_N sg] \<and>
    ends rn' = ends rn"
  using assms
proof (induction "is" arbitrary: sg rn)
  case Nil
  then show ?case by (simp add: sg_N_def map_nth)
next
  case (Cons i "is")
  then obtain sg1 rn1 where 1: "ShutdownServer i (sg, rn) = Inr (sg1, rn1)" "grp_in sg1 rn1"
    "srvs sg1 = (srvs sg)[i := shutdownServer (srvs sg ! i)]" "ends rn1 = ends rn"
    using ShutdownServer_effect [of sg rn i] by auto
  have N: "sg_N sg1 = sg_N sg" using 1(3) by (simp add: sg_N_def)
  obtain sg' rn' where 2: "sg_Kill is (sg1, rn1) = Inr (sg', rn')" "grp_in sg' rn'"
    "srvs sg' = map (\<lambda>j. if j \<in> set is then shutdownServer (srvs sg1 ! j) else srvs sg1 ! j) [0..<sg_N sg1]" "ends rn' = ends rn1"
    using Cons.IH [OF 1(2)] Cons.prems(2) N by auto
  have "srvs sg' = map (\<lambda>j. if j \<in> set (i # is) then shutdownServer (srvs sg ! j) else srvs sg ! j) [0..<sg_N sg]"
    unfolding 2(3) N using 1(3) Cons.prems(2) by (auto simp: sg_N_def nth_list_update)
  with 1 2 show ?case by simp
qed

lemma make_ends_effect:
  assumes "distinct names" "set names \<inter> dom (map_of (ends rn)) = {}"
  shows "\<exists>rn'. make_ends gid j names rn = Inr rn' \<and> dom (map_of (ends rn')) = dom (map_of (ends rn)) \<union> set names"
  using assms
proof (induction names arbitrary: j rn)
  case (Cons e es)
  define rn1 where "rn1 = Connect e (ServerName gid (int j)) (rn\<lparr>ends := gm_put e () (ends rn),
      enabled := gm_put e False (enabled rn), connections := gm_put e None (connections rn)\<rparr>)"
  have "map_of (ends rn) e = None" using Cons.prems(2) by auto
  then have m: "make_ends gid j (e # es) rn = make_ends gid (j + 1) es rn1"
    by (simp add: MakeEnd_def rn1_def)
  have d: "dom (map_of (ends rn1)) = insert e (dom (map_of (ends rn)))" by (simp add: rn1_def Connect_def)
  then have "set es \<inter> dom (map_of (ends rn1)) = {}" using Cons.prems by auto
  with Cons.IH [of rn1 "j + 1"] Cons.prems(1) m d show ?case by auto
qed simp

definition fresh_names :: "nat \<Rightarrow> network \<Rightarrow> string list \<Rightarrow> bool" where
  "fresh_names n rn names \<longleftrightarrow> distinct names \<and> set names \<inter> dom (map_of (ends rn)) = {} \<and> length names = n"

definition restored :: "srv \<Rightarrow> persister" where
  "restored s = (case saved s of None \<Rightarrow> MakePersister | Some p \<Rightarrow> p)"

lemma grp_in_new_ends:
  assumes "grp_in sg rn" "i < sg_N sg" "fresh_names (sg_N sg) rn names" "endNames s = names"
    and "dom (map_of (ends rn')) = dom (map_of (ends rn)) \<union> set names"
  shows "grp_in (sg\<lparr>srvs := (srvs sg)[i := s]\<rparr>) rn'"
proof -
  let ?sg = "sg\<lparr>srvs := (srvs sg)[i := s]\<rparr>"
  have N: "sg_N ?sg = sg_N sg" by (simp add: sg_N_def)
  have wf: "grp_wf sg" and inn: "\<And>a. a < sg_N sg \<Longrightarrow> set (endNames (srvs sg ! a)) \<subseteq> dom (map_of (ends rn))"
    using assms(1) by (auto simp: grp_in_def)
  have e: "endNames (srvs ?sg ! a) = (if a = i then names else endNames (srvs sg ! a))" if "a < sg_N sg" for a
    using that assms(2,4) by (simp add: sg_N_def nth_list_update)
  have len: "length (endNames (srvs ?sg ! a)) = sg_N sg" if "a < sg_N sg" for a
    using e [OF that] that wf assms(3) by (auto simp: grp_wf_def fresh_names_def)
  have old: "nm sg a b \<in> dom (map_of (ends rn))" if "a < sg_N sg" "b < sg_N sg" for a b
  proof -
    have "nm sg a b \<in> set (endNames (srvs sg ! a))" using that wf by (simp add: nm_def grp_wf_def)
    with inn [OF that(1)] show ?thesis by blast
  qed
  have new: "names ! b \<notin> dom (map_of (ends rn))" if "b < sg_N sg" for b
  proof -
    have "names ! b \<in> set names" using that assms(3) by (simp add: fresh_names_def)
    then show ?thesis using assms(3) unfolding fresh_names_def by blast
  qed
  have n: "nm ?sg a b = (if a = i then names ! b else nm sg a b)" if "a < sg_N sg" for a b
    using e [OF that] by (simp add: nm_def)
  have "a = c \<and> b = d" if "a < sg_N sg" "b < sg_N sg" "c < sg_N sg" "d < sg_N sg" "nm ?sg a b = nm ?sg c d" for a b c d
  proof (cases "a = i \<or> c = i")
    case True
    then have "a = i \<and> c = i" using that n [of a b] n [of c d] old [of c d] old [of a b] new [of b] new [of d]
      by (auto split: if_splits)
    with that n [of a b] n [of c d] assms(3) show ?thesis by (simp add: fresh_names_def nth_eq_iff_index_eq)
  next
    case False
    with that n [of a b] n [of c d] nm_eq [OF wf] show ?thesis by simp
  qed
  moreover have "length (connected ?sg) = sg_N sg" using wf by (simp add: grp_wf_def)
  ultimately have "grp_wf ?sg" unfolding grp_wf_def N using len by blast
  moreover have "set (endNames (srvs ?sg ! a)) \<subseteq> dom (map_of (ends rn'))" if "a < sg_N sg" for a
    using e [OF that] inn [OF that] assms(5) by auto
  ultimately show ?thesis unfolding grp_in_def N by blast
qed

lemma StartServer_effect:
  assumes "grp_in sg rn" "i < sg_N sg" "fresh_names (sg_N sg) rn names"
  defines "sg' \<equiv> sg\<lparr>srvs := (srvs sg)[i := \<lparr>saved = Some (restored (srvs sg ! i)), endNames = names, dc = Some (restored (srvs sg ! i))\<rparr>]\<rparr>"
  shows "\<exists>rn'. StartServer i names p (sg, rn) = Inr (sg', rn') \<and> grp_in sg' rn' \<and>
    dom (map_of (ends rn')) = dom (map_of (ends rn)) \<union> set names"
proof -
  obtain rn1 where 1: "make_ends (grp_gid sg) 0 names rn = Inr rn1"
    "dom (map_of (ends rn1)) = dom (map_of (ends rn)) \<union> set names"
    using make_ends_effect [of names rn] assms(3) unfolding fresh_names_def by blast
  define rn' where "rn' = AddServer (ServerName (grp_gid sg) (int i)) p rn1"
  have e: "ends rn' = ends rn1" by (simp add: rn'_def AddServer_def)
  have "StartServer i names p (sg, rn) = Inr (sg', rn')"
    using 1(1) assms(2)
    by (simp add: StartServer_def startServer_def makeServer_def sg'_def rn'_def restored_def sg_N_def split: option.split)
  moreover have "grp_in sg' rn'" unfolding sg'_def
    by (rule grp_in_new_ends [OF assms(1-3)]) (simp_all add: e 1(2))
  ultimately show ?thesis using 1(2) e by auto
qed

text \<open>The names drawn for several starts are all fresh and different.\<close>

definition fresh_draws :: "nat \<Rightarrow> network \<Rightarrow> (string list \<times> nat) list \<Rightarrow> bool" where
  "fresh_draws n rn draws \<longleftrightarrow>
     fresh_names (length (concat (map fst draws))) rn (concat (map fst draws)) \<and> (\<forall>d \<in> set draws. length (fst d) = n)"

lemma fresh_draws_Cons:
  assumes "fresh_draws n rn ((names, p) # draws)" "dom (map_of (ends rn')) = dom (map_of (ends rn)) \<union> set names"
  shows "fresh_names n rn names" "fresh_draws n rn' draws"
  using assms by (auto simp: fresh_draws_def fresh_names_def)

text \<open>Starting servers: a started server runs with what was saved, and every server keeps what was saved.\<close>

lemma StartSrvs_effect:
  assumes "grp_in sg rn" "\<forall>i \<in> set is. i < sg_N sg" "length draws = length is" "fresh_draws (sg_N sg) rn draws"
  shows "\<exists>sg' rn'. StartSrvs (zip is draws) (sg, rn) = Inr (sg', rn') \<and> grp_in sg' rn' \<and> sg_N sg' = sg_N sg \<and>
    (\<forall>i < sg_N sg. restored (srvs sg' ! i) = restored (srvs sg ! i) \<and>
       dc (srvs sg' ! i) = (if i \<in> set is then Some (restored (srvs sg ! i)) else dc (srvs sg ! i)))"
  using assms
proof (induction "is" arbitrary: sg rn draws)
  case (Cons i "is")
  then obtain names p ds where ds: "draws = (names, p) # ds" by (cases draws) auto
  define sg1 where "sg1 = sg\<lparr>srvs := (srvs sg)[i := \<lparr>saved = Some (restored (srvs sg ! i)), endNames = names, dc = Some (restored (srvs sg ! i))\<rparr>]\<rparr>"
  have "fresh_names (sg_N sg) rn names" using Cons.prems(4) by (auto simp: ds fresh_draws_def fresh_names_def)
  then obtain rn1 where 1: "StartServer i names p (sg, rn) = Inr (sg1, rn1)" "grp_in sg1 rn1"
    "dom (map_of (ends rn1)) = dom (map_of (ends rn)) \<union> set names"
    using StartServer_effect [of sg rn i names p] Cons.prems(1,2) by (auto simp: sg1_def)
  have N: "sg_N sg1 = sg_N sg" by (simp add: sg1_def sg_N_def)
  have "fresh_draws (sg_N sg1) rn1 ds" using fresh_draws_Cons(2) [OF Cons.prems(4) [unfolded ds] 1(3)] N by simp
  then obtain sg' rn' where 2: "StartSrvs (zip is ds) (sg1, rn1) = Inr (sg', rn')" "grp_in sg' rn'" "sg_N sg' = sg_N sg1"
    "\<forall>i < sg_N sg1. restored (srvs sg' ! i) = restored (srvs sg1 ! i) \<and>
       dc (srvs sg' ! i) = (if i \<in> set is then Some (restored (srvs sg1 ! i)) else dc (srvs sg1 ! i))"
    using Cons.IH [OF 1(2), of ds] Cons.prems(2,3) N ds by auto
  have "restored (srvs sg1 ! j) = restored (srvs sg ! j)" "dc (srvs sg1 ! j) = (if j = i then Some (restored (srvs sg ! j)) else dc (srvs sg ! j))"
    if "j < sg_N sg" for j
    using that by (cases "i = j"; simp add: sg1_def sg_N_def restored_def)+
  with 1 2 N show ?case by (auto simp: ds)
qed (auto simp: restored_def)

lemma start_and_connect:
  assumes "grp_in sg rn" "\<forall>i \<in> set is. i < sg_N sg" "length draws = length is" "fresh_draws (sg_N sg) rn draws"
  shows "\<exists>sg' rn'. res_bind (StartSrvs (zip is draws) (sg, rn)) sg_ConnectAll = Inr (sg', rn') \<and> sg_N sg' = sg_N sg \<and>
    (\<forall>i < sg_N sg. dc (srvs sg' ! i) = (if i \<in> set is then Some (restored (srvs sg ! i)) else dc (srvs sg ! i))) \<and>
    (\<forall>a < sg_N sg. \<forall>b < sg_N sg. connected sg' ! a \<and> linked (sg', rn') a b)"
proof -
  obtain sg1 rn1 where 1: "StartSrvs (zip is draws) (sg, rn) = Inr (sg1, rn1)" "grp_in sg1 rn1" "sg_N sg1 = sg_N sg"
    "\<forall>i < sg_N sg. dc (srvs sg1 ! i) = (if i \<in> set is then Some (restored (srvs sg ! i)) else dc (srvs sg ! i))"
    using StartSrvs_effect [OF assms] by blast
  have "grp_wf sg1" using 1(2) by (simp add: grp_in_def)
  then obtain sg' rn' where 2: "sg_ConnectAll (sg1, rn1) = Inr (sg', rn')" "grp_like sg1 sg'"
    "\<forall>a < sg_N sg1. connected sg' ! a" "\<forall>a < sg_N sg1. \<forall>b < sg_N sg1. linked (sg', rn') a b"
    using ConnectAll_links by blast
  have "srvs sg' = srvs sg1" "sg_N sg' = sg_N sg1" using 2(2) grp_like_N [OF 2(2)] by (auto simp: grp_like_def)
  with 1 2 show ?thesis by auto
qed

section \<open>Setting up a group\<close>

lemma make_servers_effect:
  assumes "fresh_draws n rn (map (\<lambda>x. (x, 0)) names)"
  shows "\<exists>ss rn'. make_servers gid names rn = Inr (ss, rn') \<and> map endNames ss = names \<and>
    (\<forall>s \<in> set ss. saved s = None \<and> dc s = None) \<and>
    dom (map_of (ends rn')) = dom (map_of (ends rn)) \<union> set (concat names)"
  using assms
proof (induction names arbitrary: rn)
  case (Cons x names)
  then have "distinct x" "set x \<inter> dom (map_of (ends rn)) = {}" by (auto simp: fresh_draws_def fresh_names_def)
  then obtain rn1 where 1: "make_ends gid 0 x rn = Inr rn1" "dom (map_of (ends rn1)) = dom (map_of (ends rn)) \<union> set x"
    using make_ends_effect by blast
  have "fresh_draws n rn1 (map (\<lambda>x. (x, 0)) names)" using fresh_draws_Cons(2) [OF _ 1(2)] Cons.prems by simp
  then obtain ss rn' where 2: "make_servers gid names rn1 = Inr (ss, rn')" "map endNames ss = names"
    "\<forall>s \<in> set ss. saved s = None \<and> dc s = None" "dom (map_of (ends rn')) = dom (map_of (ends rn1)) \<union> set (concat names)"
    using Cons.IH by blast
  with 1 show ?case by (auto simp: makeServer_def)
qed simp

lemma distinct_concat_nth:
  assumes "distinct (concat xss)" "i < length xss" "a < length xss" "j < length (xss ! i)" "b < length (xss ! a)"
    and "xss ! i ! j = xss ! a ! b"
  shows "i = a \<and> j = b"
  using assms
proof (induction xss arbitrary: i a)
  case (Cons x xss)
  have out: "xss ! k ! l \<notin> set x" if "k < length xss" "l < length (xss ! k)" for k l
  proof -
    have "xss ! k ! l \<in> set (concat xss)" using that by (auto intro!: bexI [of _ "xss ! k"])
    then show ?thesis using Cons.prems(1) by auto
  qed
  show ?case
  proof (cases i; cases a)
    fix i' a' assume "i = Suc i'" "a = Suc a'"
    with Cons.IH [of i' a'] Cons.prems show ?thesis by simp
  qed (use Cons.prems out in \<open>auto simp: nth_eq_iff_index_eq\<close>, (metis nth_mem)+)
qed simp

lemma MakeGroup_effect:
  assumes "fresh_draws (length names) rn (map (\<lambda>x. (x, 0)) names)"
  shows "\<exists>sg rn'. makeSrvGrp gid names rn = Inr (sg, rn') \<and> grp_in sg rn' \<and> sg_N sg = length names \<and>
    (\<forall>i < sg_N sg. restored (srvs sg ! i) = MakePersister) \<and> dom (map_of (ends rn')) = dom (map_of (ends rn)) \<union> set (concat names)"
proof -
  obtain ss rn' where 1: "make_servers gid names rn = Inr (ss, rn')" "map endNames ss = names"
    "\<forall>s \<in> set ss. saved s = None \<and> dc s = None" "dom (map_of (ends rn')) = dom (map_of (ends rn)) \<union> set (concat names)"
    using make_servers_effect [OF assms] by blast
  define sg where "sg = \<lparr>srvs = ss, servernames = map (\<lambda>i. ServerName gid (int i)) [0..<length names],
      grp_gid = gid, connected = replicate (length names) False\<rparr>"
  have len: "length ss = length names" using map_eq_imp_length_eq [of endNames ss id names] 1(2) by simp
  have N: "sg_N sg = length names" by (simp add: sg_def sg_N_def len)
  have e: "endNames (srvs sg ! i) = names ! i" if "i < length names" for i
    using 1(2) that len by (metis nth_map select_convs(1) server_grp.select_convs(1) sg_def)
  have each: "length (names ! i) = length names" if "i < length names" for i
    using assms that by (simp add: fresh_draws_def)
  have dist: "distinct (concat names)" using assms by (simp add: fresh_draws_def fresh_names_def comp_def)
  have "grp_wf sg" unfolding grp_wf_def N
    using e each distinct_concat_nth [OF dist] by (simp add: nm_def sg_def)
  moreover have "set (endNames (srvs sg ! i)) \<subseteq> dom (map_of (ends rn'))" if "i < length names" for i
    using e [OF that] 1(4) that by auto
  moreover have "restored (srvs sg ! i) = MakePersister" if "i < length names" for i
    using 1(3) that len by (simp add: sg_def restored_def)
  ultimately show ?thesis using 1(1,4) N by (auto simp: makeSrvGrp_def sg_def [symmetric] grp_in_def)
qed

lemma shuffle_loop_mset: "mset (shuffle_loop rs i sa) = mset sa"
proof (induction rs i sa rule: shuffle_loop.induct)
  case (2 r rs i sa)
  show ?case
  proof (cases "i < length sa")
    case True
    define j where "j = r mod (i + 1)"
    have "j < length sa" using True le_less_trans [of j i] by (simp add: j_def less_Suc_eq_le [symmetric])
    then have "mset (sa[i := sa ! j, j := sa ! i]) = mset sa" using True by (rule mset_swap)
    with 2 True show ?thesis by (simp add: j_def Let_def)
  qed simp
qed simp

lemma kill_start_connect:
  assumes "grp_in sg rn" and "\<forall>i < sg_N sg. dc (srvs sg ! i) \<noteq> None"
    and "\<forall>i \<in> set is. i < sg_N sg" "length draws = length is" "fresh_draws (sg_N sg) rn draws"
  shows "\<exists>sg' rn'. res_bind (sg_Kill is (sg, rn)) (\<lambda>st. res_bind (StartSrvs (zip is draws) st) sg_ConnectAll) = Inr (sg', rn') \<and>
    (\<forall>i < sg_N sg. dc (srvs sg' ! i) = dc (srvs sg ! i)) \<and>
    (\<forall>a < sg_N sg. \<forall>b < sg_N sg. connected sg' ! a \<and> linked (sg', rn') a b)"
proof -
  obtain sg1 rn1 where 1: "sg_Kill is (sg, rn) = Inr (sg1, rn1)" "grp_in sg1 rn1"
    "srvs sg1 = map (\<lambda>i. if i \<in> set is then shutdownServer (srvs sg ! i) else srvs sg ! i) [0..<sg_N sg]" "ends rn1 = ends rn"
    using Kill_effect [OF assms(1,3)] by blast
  have N: "sg_N sg1 = sg_N sg" using 1(3) by (simp add: sg_N_def)
  have kept: "(if i \<in> set is then Some (restored (srvs sg1 ! i)) else dc (srvs sg1 ! i)) = dc (srvs sg ! i)" if i: "i < sg_N sg" for i
    using assms(2) i 1(3) by (auto simp: restored_def shutdownServer_def)
  have "fresh_draws (sg_N sg1) rn1 draws" using assms(5) 1(4) N by (simp add: fresh_draws_def fresh_names_def)
  with start_and_connect [OF 1(2) _ assms(4)] assms(3) N obtain sg' rn' where
    "res_bind (StartSrvs (zip is draws) (sg1, rn1)) sg_ConnectAll = Inr (sg', rn')"
    "\<forall>i < sg_N sg. dc (srvs sg' ! i) = (if i \<in> set is then Some (restored (srvs sg1 ! i)) else dc (srvs sg1 ! i))"
    "\<forall>a < sg_N sg. \<forall>b < sg_N sg. connected sg' ! a \<and> linked (sg', rn') a b" by auto
  with 1(1) kept show ?thesis by auto
qed

text \<open>The start of a test, for the set-ups of all labs.\<close>

lemma MakeConfig_ready:
  assumes "length b = 40" and "length draws = length names"
    and "fresh_draws (length names) MakeNetwork (map (\<lambda>x. (x, 0)) names @ draws)"
  shows "\<exists>cfg sg. MakeConfig b names draws rel = Inr cfg \<and> lookupGroup GRP0 (cfg_groups cfg) = Some sg \<and>
    sg_N sg = length names \<and> IsReliable (cfg_net cfg) = rel \<and> cfg_End False 0 cfg = Inr (Some (length names, RpcTotal cfg, 0)) \<and>
    (\<forall>i < length names. dc (srvs sg ! i) = Some MakePersister) \<and>
    (\<forall>a < length names. \<forall>b < length names. connected sg ! a \<and> linked (sg, cfg_net cfg) a b)"
proof -
  obtain e where e: "Randstring 20 b = Inr e" using b64_prefix [of b 20] assms(1) by (auto simp: Randstring_def Let_def)
  have f1: "fresh_draws (length names) MakeNetwork (map (\<lambda>x. (x, 0)) names)"
    using assms(3) by (auto simp: fresh_draws_def fresh_names_def)
  obtain sg1 rn1 where 1: "makeSrvGrp GRP0 names MakeNetwork = Inr (sg1, rn1)" "grp_in sg1 rn1" "sg_N sg1 = length names"
    "\<forall>i < sg_N sg1. restored (srvs sg1 ! i) = MakePersister"
    "dom (map_of (ends rn1)) = dom (map_of (ends MakeNetwork)) \<union> set (concat names)"
    using MakeGroup_effect [OF f1] by blast
  have f2: "fresh_draws (sg_N sg1) rn1 draws"
    using assms(3) 1(3,5) by (auto simp: fresh_draws_def fresh_names_def comp_def)
  have "\<forall>i \<in> set [0..<length names]. i < sg_N sg1" using 1(3) by simp
  from start_and_connect [OF 1(2) this _ f2] assms(2) 1(3,4) obtain sg rn where
    2: "StartServers draws (sg1, rn1) = Inr (sg, rn)" "sg_N sg = length names"
    "\<forall>i < length names. dc (srvs sg ! i) = Some MakePersister"
    "\<forall>a < length names. \<forall>b < length names. connected sg ! a \<and> linked (sg, rn) a b"
    by (auto simp: StartServers_def sg_all_def sg_N_def)
  define cfg where "cfg = \<lparr>cfg_clnts = \<lparr>clerks = []\<rparr>, cfg_groups = \<lparr>grps = [(GRP0, sg)]\<rparr>,
      cfg_net = Reliable rel rn, cfg_rpcs0 = 0, cfg_ops = 0, cfg_endName = e\<rparr>"
  have "MakeConfig b names draws rel = Inr cfg"
    using e 1(1) 2(1) by (simp add: MakeConfig_def MakeGroupStart_def MakeGroup_def with_group_def lookupGroup_def cfg_def)
  moreover have "cfg_End False 0 cfg = Inr (Some (length names, RpcTotal cfg, 0))"
    using 2(2) by (simp add: cfg_End_def cfg_CheckTimeout_def lookupGroup_def cfg_def)
  moreover have "linked (sg, cfg_net cfg) a b = linked (sg, rn) a b" for a b
    by (simp add: cfg_def linked_def Reliable_def get_enabled_def)
  ultimately show ?thesis using 2
    by (intro exI [of _ cfg] exI [of _ sg]) (simp add: cfg_def lookupGroup_def IsReliable_def Reliable_def)
qed

section \<open>Properties of the daemons and the configuration\<close>

text \<open>
  A daemon reads back from its command line what the tester put there: its group, its number, the
  tester's end and the end names, among them its own, whatever options come before.
\<close>
theorem daemon_command_line:
  assumes "\<forall>p \<in> set pargs. \<exists>cs. p = CHR ''-'' # cs" and "0 \<le> gid" "gid < 2 ^ 63"
    and "sid < length names" "length names < 2 ^ 63"
  shows "InitDaemon_args (daemon_args pargs useRSM endName gid (int sid) names) =
    Inr (Some \<lparr>dm_gid = gid, dm_sid = int sid, dm_tester = endName, dm_endNames = names, dm_endName = names ! sid\<rparr>)"
proof -
  define opts where "opts = pargs @ options useRSM"
  define l where "l = length opts"
  have dash: "\<forall>p \<in> set opts. \<exists>cs. p = CHR ''-'' # cs" using assms(1) by (auto simp: opts_def options_def)
  obtain c cs where c: "itoa gid = c # cs" "is_digit c" using nat_digits_head assms(2) by (metis itoa_nonneg)
  then have "c \<noteq> CHR ''-''" by (auto simp: is_digit_def)
  define argv where "argv = opts @ itoa gid # itoa (int sid) # itoa (int (length names)) # endName # names"
  have nums: "Atoi (itoa gid) = Some gid" "Atoi (itoa (int sid)) = Some (int sid)"
    "Atoi (itoa (int (length names))) = Some (int (length names))"
    by (rule Atoi_itoa; use assms(2-5) in simp)+
  have "daemon_args pargs useRSM endName gid (int sid) names = argv" by (simp add: daemon_args_def opts_def argv_def)
  moreover have "skip_options 0 0 argv = Inr l"
    using skip_options_count [OF dash c(1) \<open>c \<noteq> CHR ''-''\<close>, of 0] by (simp add: argv_def l_def)
  moreover have "arg_int argv l = Inr (Some gid)" "arg_int argv (l + 1) = Inr (Some (int sid))"
    "arg_int argv (l + 2) = Inr (Some (int (length names)))"
    using nums by (simp_all add: arg_int_def go_index_def argv_def l_def nth_append nat_add_distrib)
  moreover have "go_index argv (int l + 3) = Inr endName"
    by (simp add: go_index_def argv_def l_def nth_append nat_add_distrib)
  moreover have "go_slice argv (int l + 4) (int l + 4 + int (length names)) = Inr names"
    by (simp add: go_slice_def argv_def l_def nat_add_distrib)
  moreover have "go_index names (int sid) = Inr (names ! sid)" using assms(4) by simp
  ultimately show ?thesis by (simp add: InitDaemon_args_def)
qed

text \<open>
  Recovery from crashes. When any servers of a running group are killed, started again with fresh
  end points and the group is connected, nothing of this fails, every server runs with exactly the
  persisted state it had before, and every server is connected with every other in both directions.
\<close>
theorem crash_restart_recovers:
  assumes "grp_in sg rn" and "\<forall>i < sg_N sg. dc (srvs sg ! i) \<noteq> None"
    and "\<forall>i \<in> set is. i < sg_N sg" "length draws = length is" "fresh_draws (sg_N sg) rn draws"
  shows "\<exists>sg' rn'. res_bind (sg_Kill is (sg, rn)) (\<lambda>st. res_bind (StartSrvs (zip is draws) st) sg_ConnectAll) = Inr (sg', rn') \<and>
    (\<forall>i < sg_N sg. dc (srvs sg' ! i) = dc (srvs sg ! i)) \<and>
    (\<forall>a < sg_N sg. \<forall>b < sg_N sg. connected sg' ! a \<and> linked (sg', rn') a b)"
  using assms by (rule kill_start_connect)

text \<open>
  A test starts with a complete network. With fresh end names, \<open>MakeConfig\<close> succeeds; its group has
  as many servers as asked for, all of them running with an empty persister and connected with each
  other, the network is as reliable as asked for, and the statistics of an empty test report the
  servers, the RPCs so far and no operation.
\<close>
theorem MakeConfig_connects:
  assumes "length b = 40" and "length draws = length names"
    and "fresh_draws (length names) MakeNetwork (map (\<lambda>x. (x, 0)) names @ draws)"
  shows "\<exists>cfg sg. MakeConfig b names draws rel = Inr cfg \<and> lookupGroup GRP0 (cfg_groups cfg) = Some sg \<and>
    sg_N sg = length names \<and> IsReliable (cfg_net cfg) = rel \<and> cfg_End False 0 cfg = Inr (Some (length names, RpcTotal cfg, 0)) \<and>
    (\<forall>i < length names. dc (srvs sg ! i) = Some MakePersister) \<and>
    (\<forall>a < length names. \<forall>b < length names. connected sg ! a \<and> linked (sg, cfg_net cfg) a b)"
  using assms by (rule MakeConfig_ready)

section \<open>Witnesses of the daemons\<close>

theorem daemon_command_line_witness:
  "InitDaemon_args (daemon_args [''--max-raft-state=-1''] False ''t'' 3 (int 1) [''e0'', ''e1'']) =
     Inr (Some \<lparr>dm_gid = 3, dm_sid = int 1, dm_tester = ''t'', dm_endNames = [''e0'', ''e1''], dm_endName = [''e0'', ''e1''] ! 1\<rparr>)"
  by (rule daemon_command_line) auto

definition wit_sg :: server_grp where
  "wit_sg = \<lparr>srvs = [\<lparr>saved = None, endNames = [''a'', ''b''], dc = Some \<lparr>raftstate = ''p'', snapshot = []\<rparr>\<rparr>,
                    \<lparr>saved = None, endNames = [''c'', ''d''], dc = Some \<lparr>raftstate = ''q'', snapshot = ''s''\<rparr>\<rparr>],
     servernames = [''s0'', ''s1''], grp_gid = 0, connected = [True, True]\<rparr>"

definition wit_rn :: network where
  "wit_rn = MakeNetwork\<lparr>ends := [(''a'', ()), (''b'', ()), (''c'', ()), (''d'', ())]\<rparr>"

lemma wit_sg_in: "grp_in wit_sg wit_rn"
  by (auto simp: grp_in_def grp_wf_def wit_sg_def wit_rn_def sg_N_def nm_def less_Suc_eq)

theorem crash_restart_recovers_witness:
  "\<exists>sg' rn'. res_bind (sg_Kill [1] (wit_sg, wit_rn))
      (\<lambda>st. res_bind (StartSrvs (zip [1] [([''x'', ''y''], 7)]) st) sg_ConnectAll) = Inr (sg', rn') \<and>
    dc (srvs sg' ! 1) = Some \<lparr>raftstate = ''q'', snapshot = ''s''\<rparr> \<and> linked (sg', rn') 0 1"
proof -
  have s: "\<forall>i < sg_N wit_sg. dc (srvs wit_sg ! i) \<noteq> None" "\<forall>i \<in> set [1]. i < sg_N wit_sg" "sg_N wit_sg = 2"
    by (auto simp: wit_sg_def sg_N_def less_Suc_eq)
  have f: "fresh_draws (sg_N wit_sg) wit_rn [([''x'', ''y''], 7)]"
    by (auto simp: fresh_draws_def fresh_names_def wit_sg_def wit_rn_def sg_N_def)
  have d: "dc (srvs wit_sg ! 1) = Some \<lparr>raftstate = ''q'', snapshot = ''s''\<rparr>" by (simp add: wit_sg_def)
  have l: "length [([''x'', ''y''], 7 :: nat)] = length [1 :: nat]" by simp
  from crash_restart_recovers [OF wit_sg_in s(1,2) l f] obtain sg' rn' where
    "res_bind (sg_Kill [1] (wit_sg, wit_rn)) (\<lambda>st. res_bind (StartSrvs (zip [1] [([''x'', ''y''], 7)]) st) sg_ConnectAll) = Inr (sg', rn')"
    "\<forall>i < 2. dc (srvs sg' ! i) = dc (srvs wit_sg ! i)" "\<forall>a < 2. \<forall>b < 2. connected sg' ! a \<and> linked (sg', rn') a b"
    unfolding s(3) by blast
  with d show ?thesis by auto
qed

theorem MakeConfig_connects_witness:
  "\<exists>cfg sg. MakeConfig (replicate 40 0) [[''a'', ''b''], [''c'', ''d'']] [([''e'', ''f''], 0), ([''g'', ''h''], 1)] False = Inr cfg \<and>
     lookupGroup GRP0 (cfg_groups cfg) = Some sg \<and> linked (sg, cfg_net cfg) 1 0"
proof -
  have f: "fresh_draws (length [[''a'', ''b''], [''c'', ''d'']]) MakeNetwork
      (map (\<lambda>x. (x, 0)) [[''a'', ''b''], [''c'', ''d'']] @ [([''e'', ''f''], 0), ([''g'', ''h''], 1)])"
    by (auto simp: fresh_draws_def fresh_names_def MakeNetwork_def)
  have "length (replicate 40 (0 :: nat)) = 40"
    "length [([''e'', ''f''], 0 :: nat), ([''g'', ''h''], 1)] = length [[''a'', ''b''], [''c'', ''d'']]" by simp_all
  from MakeConfig_connects [OF this f, of False] obtain cfg sg where
    "MakeConfig (replicate 40 0) [[''a'', ''b''], [''c'', ''d'']] [([''e'', ''f''], 0), ([''g'', ''h''], 1)] False = Inr cfg"
    "lookupGroup GRP0 (cfg_groups cfg) = Some sg"
    "\<forall>a < length [[''a'', ''b''], [''c'', ''d'']]. \<forall>b < length [[''a'', ''b''], [''c'', ''d'']]. connected sg ! a \<and> linked (sg, cfg_net cfg) a b"
    by blast
  then show ?thesis by auto
qed

end
