(* ===== verification/GroupOps.thy ===== *)
theory GroupOps
  imports Daemon
begin

text \<open>
  The operations of a server group (\<open>tester1/group.go\<close>) in any order: connecting, disconnecting, partitioning,
  shutting down and starting servers, interleaved with the servers' own calls of \<open>Persister.Save\<close>.

  Shown: as long as server numbers are in range, end names are fresh and, as the comment of \<open>StartServer\<close>
  asks, only servers that do not run are started, no sequence of operations panics, the group stays
  well-formed, and the group implements an abstract store with one crash-safe cell per server.
\<close>

section \<open>Operations\<close>

datatype grp_op =
    ConnectOp nat "nat list"
  | DisconnectOp nat "nat list"
  | ConnectAllOp
  | PartitionOp "nat list" "nat list"
  | KillOp "nat list"
  | StartOp nat "string list" nat
  | SaveOp nat bytes bytes

text \<open>The process of server \<open>i\<close> saves its state; a process that does not run saves nothing.\<close>

definition daemon_Save :: "nat \<Rightarrow> bytes \<Rightarrow> bytes \<Rightarrow> server_grp \<times> network \<Rightarrow> (server_grp \<times> network) result" where
  "daemon_Save i state snap = (\<lambda>(sg, rn).
     res_bind (at (srvs sg) i) (\<lambda>s.
       Inr (sg\<lparr>srvs := (srvs sg)[i := s\<lparr>dc := map_option (Save state snap) (dc s)\<rparr>]\<rparr>, rn)))"

fun grp_do :: "grp_op \<Rightarrow> server_grp \<times> network \<Rightarrow> (server_grp \<times> network) result" where
  "grp_do (ConnectOp i js) st = sg_connect i js st"
| "grp_do (DisconnectOp i js) st = sg_disconnect i js st"
| "grp_do ConnectAllOp st = sg_ConnectAll st"
| "grp_do (PartitionOp p1 p2) st = sg_Partition p1 p2 st"
| "grp_do (KillOp is) st = sg_Kill is st"
| "grp_do (StartOp i names p) st = StartServer i names p st"
| "grp_do (SaveOp i state snap) st = daemon_Save i state snap st"

fun grp_run :: "grp_op list \<Rightarrow> server_grp \<times> network \<Rightarrow> (server_grp \<times> network) result" where
  "grp_run [] st = Inr st"
| "grp_run (op # ops) st = res_bind (grp_do op st) (grp_run ops)"

text \<open>What a caller has to respect.\<close>

fun op_ok :: "grp_op \<Rightarrow> server_grp \<times> network \<Rightarrow> bool" where
  "op_ok (ConnectOp i js) (sg, rn) = (i < sg_N sg \<and> list_all (\<lambda>j. j < sg_N sg) js)"
| "op_ok (DisconnectOp i js) (sg, rn) = (i < sg_N sg \<and> list_all (\<lambda>j. j < sg_N sg) js)"
| "op_ok ConnectAllOp (sg, rn) = True"
| "op_ok (PartitionOp p1 p2) (sg, rn) = list_all (\<lambda>j. j < sg_N sg) (p1 @ p2)"
| "op_ok (KillOp is) (sg, rn) = list_all (\<lambda>j. j < sg_N sg) is"
| "op_ok (StartOp i names p) (sg, rn) = (i < sg_N sg \<and> dc (srvs sg ! i) = None \<and> fresh_names (sg_N sg) rn names)"
| "op_ok (SaveOp i state snap) (sg, rn) = (i < sg_N sg)"

fun ops_ok :: "grp_op list \<Rightarrow> server_grp \<times> network \<Rightarrow> bool" where
  "ops_ok [] st = True"
| "ops_ok (op # ops) st = (op_ok op st \<and> (case grp_do op st of Inr st' \<Rightarrow> ops_ok ops st' | Inl f \<Rightarrow> True))"

section \<open>The abstract group\<close>

text \<open>One cell per server: whether the server runs, and its persisted state.\<close>

type_synonym cells = "(bool \<times> persister) list"

definition cell_of :: "srv \<Rightarrow> bool \<times> persister" where
  "cell_of s = (case dc s of Some p \<Rightarrow> (True, p) | None \<Rightarrow> (False, restored s))"

definition grp_abs :: "server_grp \<Rightarrow> cells" where
  "grp_abs sg = map cell_of (srvs sg)"

definition cell_stop :: "nat \<Rightarrow> cells \<Rightarrow> cells" where
  "cell_stop i cs = cs[i := (False, snd (cs ! i))]"

fun abs_do :: "grp_op \<Rightarrow> cells \<Rightarrow> cells" where
  "abs_do (KillOp is) cs = foldl (\<lambda>cs i. cell_stop i cs) cs is"
| "abs_do (StartOp i names p) cs = cs[i := (True, snd (cs ! i))]"
| "abs_do (SaveOp i state snap) cs =
     (if fst (cs ! i) then cs[i := (True, \<lparr>raftstate = state, snapshot = snap\<rparr>)] else cs)"
| "abs_do op cs = cs"

definition abs_run :: "grp_op list \<Rightarrow> cells \<Rightarrow> cells" where
  "abs_run ops cs = foldl (\<lambda>cs op. abs_do op cs) cs ops"

section \<open>Every operation\<close>

text \<open>What one operation gives: the group is well-formed, has the same servers, and its cells are \<open>cs\<close>.\<close>

definition grp_after :: "server_grp \<Rightarrow> cells \<Rightarrow> (server_grp \<times> network) result \<Rightarrow> bool" where
  "grp_after sg cs r \<longleftrightarrow> (\<exists>sg' rn'. r = Inr (sg', rn') \<and> grp_in sg' rn' \<and> sg_N sg' = sg_N sg \<and>
     grp_gid sg' = grp_gid sg \<and> servernames sg' = servernames sg \<and> grp_abs sg' = cs)"

lemma grp_afterI:
  "r = Inr (sg', rn') \<Longrightarrow> grp_in sg' rn' \<Longrightarrow> sg_N sg' = sg_N sg \<Longrightarrow> grp_gid sg' = grp_gid sg \<Longrightarrow>
   servernames sg' = servernames sg \<Longrightarrow> grp_abs sg' = cs \<Longrightarrow> grp_after sg cs r"
  by (auto simp: grp_after_def)

lemma grp_after_refl: "grp_in sg rn \<Longrightarrow> grp_after sg (grp_abs sg) (Inr (sg, rn))"
  by (auto simp: grp_after_def)

text \<open>Operations one after the other.\<close>

lemma grp_after_bind:
  assumes "grp_after sg cs r"
    and "\<And>sg1 rn1. grp_in sg1 rn1 \<Longrightarrow> sg_N sg1 = sg_N sg \<Longrightarrow> grp_abs sg1 = cs \<Longrightarrow> r = Inr (sg1, rn1) \<Longrightarrow> grp_after sg1 cs' (f (sg1, rn1))"
  shows "grp_after sg cs' (res_bind r f)"
proof -
  obtain sg1 rn1 where 1: "r = Inr (sg1, rn1)" "grp_in sg1 rn1" "sg_N sg1 = sg_N sg" "grp_gid sg1 = grp_gid sg"
    "servernames sg1 = servernames sg" "grp_abs sg1 = cs"
    using assms(1) by (auto simp: grp_after_def)
  show ?thesis using assms(2) [OF 1(2,3,6,1)] 1 by (auto simp: grp_after_def)
qed

lemma sg_disconnect_after:
  assumes "grp_in sg rn" "i < sg_N sg" "list_all (\<lambda>j. j < sg_N sg) js"
  shows "grp_after sg (grp_abs sg) (sg_disconnect i js (sg, rn))"
proof -
  have wf: "grp_wf sg" "set js \<subseteq> {..<sg_N sg}" using assms by (auto simp: grp_in_def list_all_iff)
  obtain sg' rn' where 1: "sg_disconnect i js (sg, rn) = Inr (sg', rn')" "grp_like sg sg'"
    using sg_disconnect_effect [OF wf(1) assms(2) wf(2), of rn] by metis
  have "ends rn' = ends rn" "grp_gid sg' = grp_gid sg" "servernames sg' = servernames sg"
    using 1(1) by (auto simp: sg_disconnect_def set_connected_def dest!: disable_ends)
  then show ?thesis using 1(2) assms(1) by (intro grp_afterI [OF 1(1)]) (auto simp: grp_in_def grp_like_def sg_N_def grp_abs_def)
qed

lemma sg_connect_after:
  assumes "grp_in sg rn" "i < sg_N sg" "list_all (\<lambda>j. j < sg_N sg) js"
  shows "grp_after sg (grp_abs sg) (sg_connect i js (sg, rn))"
proof -
  have wf: "grp_wf sg" "set js \<subseteq> {..<sg_N sg}" using assms by (auto simp: grp_in_def list_all_iff)
  obtain sg' rn' where 1: "sg_connect i js (sg, rn) = Inr (sg', rn')" "grp_like sg sg'"
    using sg_connect_effect [OF wf(1) assms(2) wf(2), of rn] by metis
  have "ends rn' = ends rn" "grp_gid sg' = grp_gid sg" "servernames sg' = servernames sg"
    using 1(1) by (auto simp: sg_connect_def set_connected_def dest!: enable_ends)
  then show ?thesis using 1(2) assms(1) by (intro grp_afterI [OF 1(1)]) (auto simp: grp_in_def grp_like_def sg_N_def grp_abs_def)
qed

lemma connect_list_after:
  "grp_in sg rn \<Longrightarrow> list_all (\<lambda>i. i < sg_N sg) is \<Longrightarrow> grp_after sg (grp_abs sg) (connect_list is (sg, rn))"
proof (induction "is" arbitrary: sg rn)
  case Nil
  then show ?case by (simp add: grp_after_refl)
next
  case (Cons i "is")
  have "list_all (\<lambda>j. j < sg_N sg) (sg_all sg)" by (simp add: sg_all_def sg_N_def list_all_iff)
  then have "grp_after sg (grp_abs sg) (ConnectOne i (sg, rn))"
    using sg_connect_after Cons.prems by (simp add: ConnectOne_def)
  then show ?case unfolding connect_list.simps
  proof (rule grp_after_bind)
    fix sg1 rn1 assume "grp_in sg1 rn1" "sg_N sg1 = sg_N sg" and c: "grp_abs sg1 = grp_abs sg"
    then show "grp_after sg1 (grp_abs sg) (connect_list is (sg1, rn1))"
      using Cons.IH [of sg1 rn1] Cons.prems(2) by (simp add: c)
  qed
qed

lemma side_loop_after:
  assumes "grp_in sg rn" "list_all (\<lambda>i. i < sg_N sg) (is @ mine @ other)"
  shows "grp_after sg (grp_abs sg) (side_loop is mine other (sg, rn))"
  using assms
proof (induction "is" arbitrary: sg rn)
  case Nil
  then show ?case by (simp add: grp_after_refl)
next
  case (Cons i "is")
  have "grp_after sg (grp_abs sg) (sg_disconnect i other (sg, rn))" using sg_disconnect_after Cons.prems by simp
  then show ?case unfolding side_loop.simps
  proof (rule grp_after_bind)
    fix sg1 rn1 assume 1: "grp_in sg1 rn1" "sg_N sg1 = sg_N sg" and c: "grp_abs sg1 = grp_abs sg"
    have "grp_after sg1 (grp_abs sg) (sg_connect i mine (sg1, rn1))"
      using sg_connect_after [OF 1(1), of i mine] 1(2) Cons.prems(2) by (simp add: c)
    then show "grp_after sg1 (grp_abs sg) (res_bind (sg_connect i mine (sg1, rn1)) (side_loop is mine other))"
    proof (rule grp_after_bind)
      fix sg2 rn2 assume "grp_in sg2 rn2" "sg_N sg2 = sg_N sg1" and c: "grp_abs sg2 = grp_abs sg"
      then show "grp_after sg2 (grp_abs sg) (side_loop is mine other (sg2, rn2))"
        using Cons.IH [of sg2 rn2] Cons.prems(2) 1(2) by (simp add: c)
    qed
  qed
qed

lemma Partition_after:
  assumes "grp_in sg rn" "list_all (\<lambda>i. i < sg_N sg) (p1 @ p2)"
  shows "grp_after sg (grp_abs sg) (sg_Partition p1 p2 (sg, rn))"
  unfolding sg_Partition_def
proof (rule grp_after_bind)
  show "grp_after sg (grp_abs sg) (side_loop p1 p1 p2 (sg, rn))" using assms by (intro side_loop_after) auto
next
  fix sg1 rn1 assume "grp_in sg1 rn1" "sg_N sg1 = sg_N sg" and c: "grp_abs sg1 = grp_abs sg"
  then show "grp_after sg1 (grp_abs sg) (side_loop p2 p2 p1 (sg1, rn1))"
    using side_loop_after [of sg1 rn1 p2 p2 p1] assms(2) by (simp add: c)
qed

text \<open>Shutting a server down keeps what its process had saved.\<close>

lemma cell_of_shutdown: "cell_of (shutdownServer s) = (False, snd (cell_of s))"
  by (simp add: cell_of_def shutdownServer_def restored_def split: option.split)

lemma grp_abs_nth: "i < sg_N sg \<Longrightarrow> grp_abs sg ! i = cell_of (srvs sg ! i)"
  by (simp add: grp_abs_def sg_N_def)

lemma Shutdown_after:
  assumes "grp_in sg rn" "i < sg_N sg"
  shows "grp_after sg (cell_stop i (grp_abs sg)) (ShutdownServer i (sg, rn))"
proof -
  obtain sg' rn' where 1: "ShutdownServer i (sg, rn) = Inr (sg', rn')" "grp_in sg' rn'"
    "srvs sg' = (srvs sg)[i := shutdownServer (srvs sg ! i)]" "grp_gid sg' = grp_gid sg"
    using ShutdownServer_effect [OF assms] by blast
  have "servernames sg' = servernames sg"
    using 1(1) by (auto simp: ShutdownServer_def sg_DisconnectAll_def sg_disconnect_def set_connected_def)
  moreover have "grp_abs sg' = cell_stop i (grp_abs sg)"
    using assms(2) by (simp add: cell_stop_def grp_abs_nth 1(3) cell_of_shutdown flip: cell_of_shutdown)
      (simp add: grp_abs_def 1(3) map_update)
  ultimately show ?thesis using 1 by (intro grp_afterI [OF 1(1)]) (simp_all add: sg_N_def)
qed

lemma Kill_after:
  "grp_in sg rn \<Longrightarrow> list_all (\<lambda>i. i < sg_N sg) is \<Longrightarrow>
   grp_after sg (foldl (\<lambda>cs i. cell_stop i cs) (grp_abs sg) is) (sg_Kill is (sg, rn))"
proof (induction "is" arbitrary: sg rn)
  case Nil
  then show ?case by (simp add: grp_after_refl)
next
  case (Cons i "is")
  then have "grp_after sg (cell_stop i (grp_abs sg)) (ShutdownServer i (sg, rn))" by (intro Shutdown_after) auto
  then show ?case unfolding sg_Kill.simps
  proof (rule grp_after_bind)
    fix sg1 rn1 assume "grp_in sg1 rn1" "sg_N sg1 = sg_N sg" and c: "grp_abs sg1 = cell_stop i (grp_abs sg)"
    then show "grp_after sg1 (foldl (\<lambda>cs i. cell_stop i cs) (grp_abs sg) (i # is)) (sg_Kill is (sg1, rn1))"
      using Cons.IH [of sg1 rn1] Cons.prems(2) by (simp add: c)
  qed
qed

lemma Start_after:
  assumes "grp_in sg rn" "i < sg_N sg" "dc (srvs sg ! i) = None" "fresh_names (sg_N sg) rn names"
  shows "grp_after sg ((grp_abs sg)[i := (True, snd (grp_abs sg ! i))]) (StartServer i names p (sg, rn))"
proof -
  let ?s = "\<lparr>saved = Some (restored (srvs sg ! i)), endNames = names, dc = Some (restored (srvs sg ! i))\<rparr>"
  obtain rn' where 1: "StartServer i names p (sg, rn) = Inr (sg\<lparr>srvs := (srvs sg)[i := ?s]\<rparr>, rn')"
    "grp_in (sg\<lparr>srvs := (srvs sg)[i := ?s]\<rparr>) rn'"
    using StartServer_effect [OF assms(1,2,4)] by blast
  have "grp_abs (sg\<lparr>srvs := (srvs sg)[i := ?s]\<rparr>) = (grp_abs sg)[i := (True, snd (grp_abs sg ! i))]"
    using assms(2,3) by (simp add: grp_abs_nth cell_of_def) (simp add: grp_abs_def map_update cell_of_def)
  then show ?thesis using 1 by (intro grp_afterI [OF 1(1)]) (simp_all add: sg_N_def)
qed

lemma Save_after:
  assumes "grp_in sg rn" "i < sg_N sg"
  shows "grp_after sg (abs_do (SaveOp i state snap) (grp_abs sg)) (daemon_Save i state snap (sg, rn))"
proof -
  let ?s = "(srvs sg ! i)\<lparr>dc := map_option (Save state snap) (dc (srvs sg ! i))\<rparr>"
  have 1: "daemon_Save i state snap (sg, rn) = Inr (sg\<lparr>srvs := (srvs sg)[i := ?s]\<rparr>, rn)"
    using assms(2) by (simp add: daemon_Save_def sg_N_def)
  have "grp_in (sg\<lparr>srvs := (srvs sg)[i := ?s]\<rparr>) rn"
    using assms by (intro grp_in_same_ends [OF assms(1)]) (simp_all add: map_update_same sg_N_def)
  moreover have "cell_of ?s = (if fst (cell_of (srvs sg ! i)) then (True, \<lparr>raftstate = state, snapshot = snap\<rparr>) else cell_of (srvs sg ! i))"
    by (simp add: cell_of_def restored_def Save_def split: option.split)
  then have "grp_abs (sg\<lparr>srvs := (srvs sg)[i := ?s]\<rparr>) = abs_do (SaveOp i state snap) (grp_abs sg)"
    using assms(2) by (simp add: grp_abs_nth) (auto simp: grp_abs_def map_update sg_N_def list_update_same_conv)
  ultimately show ?thesis using 1 by (intro grp_afterI [OF 1]) (simp_all add: sg_N_def)
qed

lemma grp_do_after:
  assumes "grp_in sg rn" "op_ok op (sg, rn)"
  shows "grp_after sg (abs_do op (grp_abs sg)) (grp_do op (sg, rn))"
proof (cases op)
  case ConnectAllOp
  have "list_all (\<lambda>i. i < sg_N sg) (sg_all sg)" by (simp add: sg_all_def sg_N_def list_all_iff)
  then show ?thesis using connect_list_after [OF assms(1)] by (simp add: ConnectAllOp sg_ConnectAll_def)
qed (use assms sg_connect_after sg_disconnect_after Partition_after Kill_after Start_after Save_after in auto)

lemma grp_run_after:
  assumes "grp_in sg rn" "ops_ok ops (sg, rn)"
  shows "grp_after sg (abs_run ops (grp_abs sg)) (grp_run ops (sg, rn))"
  using assms
proof (induction ops arbitrary: sg rn)
  case Nil
  then show ?case by (simp add: abs_run_def grp_after_refl)
next
  case (Cons op ops)
  then have "grp_after sg (abs_do op (grp_abs sg)) (grp_do op (sg, rn))" by (intro grp_do_after) auto
  then show ?case unfolding grp_run.simps
  proof (rule grp_after_bind)
    fix sg1 rn1 assume 1: "grp_in sg1 rn1" "grp_do op (sg, rn) = Inr (sg1, rn1)" and c: "grp_abs sg1 = abs_do op (grp_abs sg)"
    then show "grp_after sg1 (abs_run (op # ops) (grp_abs sg)) (grp_run ops (sg1, rn1))"
      using Cons.IH [OF 1(1)] Cons.prems(2) by (simp add: c abs_run_def)
  qed
qed

section \<open>Properties\<close>

text \<open>
  C27: operations on a group are safe in any order: a sequence of operations with server numbers in range,
  fresh end names and no start of a running server never panics, and leaves a group of the same servers
  whose flags and end names have the right sizes, whose end names are all different and whose ends all
  exist in the network.
\<close>
theorem group_ops_sound:
  assumes "grp_in sg rn" and "ops_ok ops (sg, rn)"
  shows "\<exists>sg' rn'. grp_run ops (sg, rn) = Inr (sg', rn') \<and> grp_in sg' rn' \<and> sg_N sg' = sg_N sg \<and>
    grp_gid sg' = grp_gid sg \<and> SrvNames sg' = SrvNames sg"
  using grp_run_after [OF assms] by (auto simp: grp_after_def SrvNames_def)


text \<open>A server saves, is killed with the other cut off from it, and started again.\<close>

definition wit_ops :: "grp_op list" where
  "wit_ops = [PartitionOp [0] [1], SaveOp 1 ''new'' ''snap'', KillOp [1], StartOp 1 [''x'', ''y''] 7, ConnectAllOp]"

lemma fresh_names_code [code]:
  "fresh_names n rn names \<longleftrightarrow> distinct names \<and> list_all (\<lambda>e. map_of (ends rn) e = None) names \<and> length names = n"
  by (auto simp: fresh_names_def list_all_iff)

lemma wit_ops_ok: "ops_ok wit_ops (wit_sg, wit_rn)"
  by code_simp

theorem group_ops_sound_witness:
  "\<exists>sg' rn'. grp_run wit_ops (wit_sg, wit_rn) = Inr (sg', rn') \<and> grp_in sg' rn' \<and> SrvNames sg' = [''s0'', ''s1'']"
  using group_ops_sound [OF wit_sg_in wit_ops_ok] by (auto simp: SrvNames_def wit_sg_def)


end
