(* ===== verification/Shardcfg.thy ===== *)
theory Shardcfg
  imports Prelude
begin

text \<open>
  Shard configurations (\<open>shardkv1/shardcfg/shardcfg.go\<close>): which replica group serves which of the
  twelve shards, and the operations that add and remove groups and balance the shards over them.

  The main results: \<open>Rebalance\<close> terminates (each move lowers the sum of the squared loads), assigns
  every shard to a group and leaves loads that differ by at most one; \<open>JoinBalance\<close> and
  \<open>LeaveBalance\<close> therefore always produce a configuration that \<open>CheckConfig\<close> accepts.
\<close>

section \<open>The configuration\<close>

definition NShards :: nat where "NShards = 12"
definition NumFirst :: int where "NumFirst = 1"
definition Gid1 :: int where "Gid1 = 1"

record shard_config =
  cfgNum :: int
  Shards :: "int list"
  cfgGroups :: "(int, string list) gomap"

definition Key2Shard :: "string \<Rightarrow> int" where
  "Key2Shard key = uint (fnv32a key) mod int NShards"

definition MakeShardConfig :: shard_config where
  "MakeShardConfig = \<lparr>cfgNum = 0, Shards = replicate NShards 0, cfgGroups = []\<rparr>"

text \<open>\<open>Copy\<close>; the new map is filled in the order of the iteration over the old one.\<close>

definition cfg_Copy :: "shard_config \<Rightarrow> shard_config" where
  "cfg_Copy cfg =
     MakeShardConfig\<lparr>cfgNum := cfgNum cfg, Shards := Shards cfg,
       cfgGroups := foldl (\<lambda>m (k, srvs). gm_put k srvs m) [] (cfgGroups cfg)\<rparr>"

section \<open>analyze, least\<close>

text \<open>\<open>counts[g]\<close> of a Go map of ints: zero for a key that is not there.\<close>

definition lookup0 :: "(int, int) gomap \<Rightarrow> int \<Rightarrow> int" where
  "lookup0 m g = (case map_of m g of Some n \<Rightarrow> n | None \<Rightarrow> 0)"

definition shard_counts :: "int list \<Rightarrow> (int, int) gomap" where
  "shard_counts shards = foldl (\<lambda>m g. gm_put g (lookup0 m g + 1) m) [] shards"

type_synonym loads = "int \<times> int \<times> int \<times> int"

fun analyze_loop :: "(int \<Rightarrow> int) \<Rightarrow> int list \<Rightarrow> loads \<Rightarrow> loads" where
  "analyze_loop counts [] acc = acc"
| "analyze_loop counts (g # gs) (mg, mn, lg, ln) =
     (let (ln', lg') = (if counts g < ln then (counts g, g) else (ln, lg));
          (mn', mg') = (if counts g > mn then (counts g, g) else (mn, mg))
      in analyze_loop counts gs (mg', mn', lg', ln'))"

definition analyze :: "shard_config \<Rightarrow> loads" where
  "analyze c = analyze_loop (lookup0 (shard_counts (Shards c))) (sort (gm_keys (cfgGroups c))) (-1, -1, -1, 257)"

definition least :: "shard_config \<Rightarrow> int" where
  "least c = (let (mg, mn, lg, ln) = analyze c in lg)"

section \<open>Rebalance\<close>

fun assign_loop :: "nat list \<Rightarrow> shard_config \<Rightarrow> shard_config" where
  "assign_loop [] c = c"
| "assign_loop (s # ss) c =
     (if map_of (cfgGroups c) (Shards c ! s) = None
      then assign_loop ss (c\<lparr>Shards := (Shards c)[s := least c]\<rparr>) else assign_loop ss c)"

text \<open>The inner loop: the first shard of group \<open>mg\<close> goes to \<open>lg\<close>.\<close>

definition move_shard :: "int \<Rightarrow> int \<Rightarrow> int list \<Rightarrow> int list" where
  "move_shard mg lg shards =
     (case find_index (\<lambda>g. g = mg) shards of Some s \<Rightarrow> shards[s := lg] | None \<Rightarrow> shards)"

subsection \<open>Loads\<close>

abbreviation load :: "int list \<Rightarrow> int \<Rightarrow> nat" where
  "load shards g \<equiv> count (mset shards) g"

lemma shard_counts_load: "lookup0 (shard_counts shards) = (\<lambda>g. int (load shards g))"
proof (rule ext)
  fix g
  have "lookup0 (foldl (\<lambda>m g. gm_put g (lookup0 m g + 1) m) m xs) g = lookup0 m g + int (load xs g)" for m xs
    by (induction xs arbitrary: m) (auto simp: lookup0_def)
  then show "lookup0 (shard_counts shards) g = int (load shards g)" by (simp add: shard_counts_def lookup0_def)
qed

text \<open>The scan keeps the extremes of what it has seen.\<close>

definition extremes :: "(int \<Rightarrow> int) \<Rightarrow> int set \<Rightarrow> loads \<Rightarrow> bool" where
  "extremes counts G a \<longleftrightarrow> (case a of (mg, mn, lg, ln) \<Rightarrow>
     mg \<in> G \<and> lg \<in> G \<and> mn = counts mg \<and> ln = counts lg \<and> (\<forall>g \<in> G. ln \<le> counts g \<and> counts g \<le> mn))"

lemma analyze_loop_extremes:
  assumes "extremes counts G a"
  shows "extremes counts (G \<union> set gs) (analyze_loop counts gs a)"
  using assms
proof (induction gs arbitrary: G a)
  case (Cons g gs)
  obtain mg mn lg ln where a: "a = (mg, mn, lg, ln)" by (cases a)
  let ?a = "(if counts g > mn then g else mg, if counts g > mn then counts g else mn,
             if counts g < ln then g else lg, if counts g < ln then counts g else ln)"
  have "extremes counts (insert g G) ?a" using Cons.prems by (auto simp: a extremes_def split: if_splits)
  from Cons.IH [OF this] show ?case by (simp add: a split: if_splits)
qed simp

lemma analyze_extremes:
  assumes len: "length (Shards c) < 257" and ne: "cfgGroups c \<noteq> []"
  shows "extremes (\<lambda>g. int (load (Shards c) g)) (dom (map_of (cfgGroups c))) (analyze c)"
proof -
  let ?n = "\<lambda>g. int (load (Shards c) g)"
  obtain g gs where gs: "sort (gm_keys (cfgGroups c)) = g # gs"
    using ne by (cases "sort (gm_keys (cfgGroups c))") (auto simp: gm_keys_def dest: arg_cong [of _ _ length])
  have "load (Shards c) g < 257" using len count_le_length [of "Shards c" g]
    by (simp add: count_mset)
  then have "analyze c = analyze_loop ?n gs (g, ?n g, g, ?n g)"
    by (simp add: analyze_def gs shard_counts_load)
  moreover have "extremes ?n {g} (g, ?n g, g, ?n g)" by (simp add: extremes_def)
  ultimately have "extremes ?n ({g} \<union> set gs) (analyze c)" using analyze_loop_extremes by metis
  moreover have "{g} \<union> set gs = dom (map_of (cfgGroups c))"
    using arg_cong [OF gs, of set] by simp
  ultimately show ?thesis by simp
qed

subsection \<open>The balancing loop\<close>

text \<open>The sum of the squared loads, which every move lowers.\<close>

definition potential :: "int list \<Rightarrow> nat" where
  "potential shards = (\<Sum>g \<in> set shards. load shards g * load shards g)"

lemma potential_superset:
  "finite A \<Longrightarrow> set shards \<subseteq> A \<Longrightarrow> potential shards = (\<Sum>g \<in> A. load shards g * load shards g)"
  unfolding potential_def by (rule sum.mono_neutral_left) (auto simp: count_eq_zero_iff)

lemma move_shard_update:
  assumes "load shards mg > 0"
  obtains s where "s < length shards" "shards ! s = mg" "move_shard mg lg shards = shards[s := lg]"
proof -
  have "find_index (\<lambda>g. g = mg) shards \<noteq> None" using assms by auto
  then obtain s where s: "find_index (\<lambda>g. g = mg) shards = Some s" by blast
  with that show thesis by (auto simp: move_shard_def find_index_Some)
qed

lemma load_move_shard:
  assumes "load shards mg > 0" "mg \<noteq> lg"
  shows "load (move_shard mg lg shards) g =
    (if g = mg then load shards mg - 1 else if g = lg then load shards lg + 1 else load shards g)"
  using assms(1)
proof (rule move_shard_update)
  fix s assume "s < length shards" "shards ! s = mg" "move_shard mg lg shards = shards[s := lg]"
  with assms show ?thesis by (simp add: mset_update)
qed

lemma set_move_shard: "set (move_shard mg lg shards) \<subseteq> insert lg (set shards)"
  using set_update_subset_insert [of shards _ lg] by (auto simp: move_shard_def split: option.splits)

lemma length_move_shard [simp]: "length (move_shard mg lg shards) = length shards"
  by (simp add: move_shard_def split: option.splits)

lemma potential_move_shard:
  assumes big: "load shards mg \<ge> load shards lg + 2"
  shows "potential (move_shard mg lg shards) < potential shards"
proof -
  let ?A = "insert mg (insert lg (set shards))" and ?R = "set shards - {mg, lg}"
  let ?q = "\<lambda>xs g. load xs g * load xs g" and ?new = "move_shard mg lg shards"
  have ne: "mg \<noteq> lg" using big by auto
  have pos: "load shards mg > 0" using big by linarith
  have split: "(\<Sum>g \<in> ?A. ?q xs g) = ?q xs mg + ?q xs lg + (\<Sum>g \<in> ?R. ?q xs g)" for xs
    using ne by (simp add: insert_Diff_if sum.insert_remove Diff_insert2 [symmetric] insert_commute)
  have "potential shards = ?q shards mg + ?q shards lg + (\<Sum>g \<in> ?R. ?q shards g)"
    using potential_superset [of ?A shards] split by auto
  moreover have "potential ?new = ?q ?new mg + ?q ?new lg + (\<Sum>g \<in> ?R. ?q ?new g)"
    using potential_superset [of ?A ?new] set_move_shard [of mg lg shards] split by auto
  moreover have "(\<Sum>g \<in> ?R. ?q ?new g) = (\<Sum>g \<in> ?R. ?q shards g)"
    by (rule sum.cong) (auto simp: load_move_shard [OF pos ne])
  moreover have "?q ?new mg + ?q ?new lg < ?q shards mg + ?q shards lg"
  proof -
    obtain k where k: "load shards mg = load shards lg + 2 + k" using big by (metis le_Suc_ex)
    then show ?thesis using ne by (simp add: load_move_shard [OF pos ne] k algebra_simps)
  qed
  ultimately show ?thesis by simp
qed

lemma analyze_empty: "cfgGroups c = [] \<Longrightarrow> analyze c = (-1, -1, -1, 257)"
  by (simp add: analyze_def gm_keys_def)

lemma analyze_loads:
  assumes "length (Shards c) = NShards" "analyze c = (mg, mn, lg, ln)" "mn \<ge> ln + 2"
  shows "load (Shards c) mg \<ge> load (Shards c) lg + 2"
proof (cases "cfgGroups c = []")
  case True
  with assms show ?thesis by (simp add: analyze_empty)
next
  case False
  have "length (Shards c) < 257" using assms(1) by (simp add: NShards_def)
  from analyze_extremes [OF this False] assms(2,3) show ?thesis by (simp add: extremes_def)
qed

text \<open>
  The loop of \<open>Rebalance\<close>. \<open>Shards\<close> is an array of \<open>NShards\<close> elements; a list of another length,
  which Go's type excludes, is left alone.
\<close>

function balance_loop :: "shard_config \<Rightarrow> shard_config" where
  "balance_loop c =
     (let (mg, mn, lg, ln) = analyze c
      in if mn < ln + 2 \<or> length (Shards c) \<noteq> NShards then c
         else balance_loop (c\<lparr>Shards := move_shard mg lg (Shards c)\<rparr>))"
  by auto

termination
proof (relation "measure (\<lambda>c. potential (Shards c))", goal_cases)
  case (2 c x mg y mn z lg ln)
  then have "length (Shards c) = NShards" "analyze c = (mg, mn, lg, ln)" "mn \<ge> ln + 2" by auto
  from potential_move_shard [OF analyze_loads [OF this]] show ?case by simp
qed simp

declare balance_loop.simps [simp del]

definition Rebalance :: "shard_config \<Rightarrow> shard_config" where
  "Rebalance c =
     (if length (cfgGroups c) < 1 then c\<lparr>Shards := replicate (length (Shards c)) 0\<rparr>
      else balance_loop (assign_loop [0..<length (Shards c)] c))"

section \<open>Join and Leave\<close>

text \<open>
  The result of \<open>Join\<close> and \<open>Leave\<close>: \<open>log.Fatalf\<close>, or the boolean and the configuration, which has
  been changed up to the point of return. The arguments of \<open>Join\<close> come in the iteration order of the
  argument map.
\<close>

definition shares_server :: "string list \<Rightarrow> (int, string list) gomap \<Rightarrow> bool" where
  "shares_server servers groups \<longleftrightarrow>
     list_ex (\<lambda>(xgid, xservers). list_ex (\<lambda>s1. list_ex (\<lambda>s2. s1 = s2) servers) xservers) groups"

fun join_loop :: "(int \<times> string list) list \<Rightarrow> shard_config \<Rightarrow> (bool \<times> shard_config) result" where
  "join_loop [] cfg = Inr (True, cfg)"
| "join_loop ((gid, servers) # rest) cfg =
     (if map_of (cfgGroups cfg) gid \<noteq> None then Inr (False, cfg)
      else if shares_server servers (cfgGroups cfg) then Inl (Fatal ''Join puts a server in two groups'')
      else join_loop rest (cfg\<lparr>cfgGroups := gm_put gid servers (cfgGroups cfg)\<rparr>))"

definition Join :: "(int, string list) gomap \<Rightarrow> shard_config \<Rightarrow> (bool \<times> shard_config) result" where
  "Join servers cfg =
     res_bind (join_loop servers cfg) (\<lambda>(ok, cfg').
       if \<not> ok then Inr (False, cfg')
       else if servers = [] then Inl (Fatal ''Join but no change'')
       else Inr (True, cfg'\<lparr>cfgNum := cfgNum cfg' + 1\<rparr>))"

fun leave_loop :: "int list \<Rightarrow> shard_config \<Rightarrow> bool \<times> shard_config" where
  "leave_loop [] cfg = (True, cfg)"
| "leave_loop (gid # gids) cfg =
     (if map_of (cfgGroups cfg) gid = None then (False, cfg)
      else leave_loop gids (cfg\<lparr>cfgGroups := gm_delete gid (cfgGroups cfg)\<rparr>))"

definition Leave :: "int list \<Rightarrow> shard_config \<Rightarrow> (bool \<times> shard_config) result" where
  "Leave gids cfg =
     (let (ok, cfg') = leave_loop gids cfg
      in if \<not> ok then Inr (False, cfg')
         else if gids = [] then Inl (Fatal ''Leave but no change'')
         else Inr (True, cfg'\<lparr>cfgNum := cfgNum cfg' + 1\<rparr>))"

definition JoinBalance :: "(int, string list) gomap \<Rightarrow> shard_config \<Rightarrow> (bool \<times> shard_config) result" where
  "JoinBalance servers cfg =
     res_bind (Join servers cfg) (\<lambda>(ok, cfg'). if \<not> ok then Inr (False, cfg') else Inr (True, Rebalance cfg'))"

definition LeaveBalance :: "int list \<Rightarrow> shard_config \<Rightarrow> (bool \<times> shard_config) result" where
  "LeaveBalance gids cfg =
     res_bind (Leave gids cfg) (\<lambda>(ok, cfg'). if \<not> ok then Inr (False, cfg') else Inr (True, Rebalance cfg'))"

section \<open>Queries and the tester's check\<close>

definition GidServers :: "int \<Rightarrow> shard_config \<Rightarrow> (int \<times> string list \<times> bool) result" where
  "GidServers sh cfg =
     res_bind (go_index (Shards cfg) sh) (\<lambda>gid.
       case map_of (cfgGroups cfg) gid of Some srvs \<Rightarrow> Inr (gid, srvs, True) | None \<Rightarrow> Inr (gid, [], False))"

definition IsMember :: "int \<Rightarrow> shard_config \<Rightarrow> bool" where
  "IsMember gid cfg \<longleftrightarrow> list_ex (\<lambda>g. g = gid) (Shards cfg)"

fun minmax_loop :: "(int \<Rightarrow> int) \<Rightarrow> int list \<Rightarrow> int \<times> int \<Rightarrow> int \<times> int" where
  "minmax_loop counts [] acc = acc"
| "minmax_loop counts (g # gs) (mi, ma) =
     minmax_loop counts gs (if counts g < mi then counts g else mi, if counts g > ma then counts g else ma)"

definition CheckConfig :: "int list \<Rightarrow> shard_config \<Rightarrow> unit result" where
  "CheckConfig groups cfg =
     (if length (cfgGroups cfg) \<noteq> length groups then Inl (Fatal ''wanted other groups'')
      else if list_ex (\<lambda>g. map_of (cfgGroups cfg) g = None) groups then Inl (Fatal ''missing group'')
      else if length groups > 0 \<and> list_ex (\<lambda>g. map_of (cfgGroups cfg) g = None) (Shards cfg)
      then Inl (Fatal ''shard in an invalid group'')
      else let (mi, ma) = minmax_loop (lookup0 (shard_counts (Shards cfg))) (gm_keys (cfgGroups cfg)) (257, 0)
           in if ma > mi + 1 then Inl (Fatal ''max too much larger than min'') else Inr ())"

section \<open>Well-formed configurations\<close>

definition cfg_wf :: "shard_config \<Rightarrow> bool" where
  "cfg_wf c \<longleftrightarrow> length (Shards c) = NShards \<and> distinct (map fst (cfgGroups c))"

text \<open>Every shard is in a group, and loads differ by at most one.\<close>

definition all_assigned :: "shard_config \<Rightarrow> bool" where
  "all_assigned c \<longleftrightarrow> set (Shards c) \<subseteq> dom (map_of (cfgGroups c))"

definition balanced :: "shard_config \<Rightarrow> bool" where
  "balanced c \<longleftrightarrow> (\<forall>g \<in> dom (map_of (cfgGroups c)). \<forall>h \<in> dom (map_of (cfgGroups c)).
     load (Shards c) g \<le> load (Shards c) h + 1)"

lemma least_group:
  assumes "length (Shards c) = NShards" "cfgGroups c \<noteq> []"
  shows "least c \<in> dom (map_of (cfgGroups c))"
proof -
  have "length (Shards c) < 257" using assms(1) by (simp add: NShards_def)
  from analyze_extremes [OF this assms(2)] show ?thesis
    by (cases "analyze c") (simp add: least_def extremes_def)
qed

lemma assign_loop_keeps:
  "length (Shards (assign_loop ss c)) = length (Shards c) \<and>
   cfgGroups (assign_loop ss c) = cfgGroups c \<and> cfgNum (assign_loop ss c) = cfgNum c"
  by (induction ss c rule: assign_loop.induct) auto

lemma assign_loop_assigns:
  assumes "length (Shards c) = NShards" "cfgGroups c \<noteq> []" "set ss \<subseteq> {..<NShards}"
  shows "\<forall>s < NShards. s \<in> set ss \<or> Shards c ! s \<in> dom (map_of (cfgGroups c)) \<longrightarrow>
    Shards (assign_loop ss c) ! s \<in> dom (map_of (cfgGroups c))"
  using assms
proof (induction ss c rule: assign_loop.induct)
  case (2 s ss c)
  show ?case
  proof (cases "map_of (cfgGroups c) (Shards c ! s) = None")
    case True
    have l: "least c \<in> dom (map_of (cfgGroups c))" using 2(3,4) by (rule least_group)
    have "\<forall>t < NShards. t \<in> set ss \<or> (Shards c)[s := least c] ! t \<in> dom (map_of (cfgGroups c)) \<longrightarrow>
        Shards (assign_loop (s # ss) c) ! t \<in> dom (map_of (cfgGroups c))"
      using 2(1) [OF True] 2(3-5) True by simp
    moreover have "(Shards c)[s := least c] ! s = least c" using 2(3,5) by simp
    ultimately show ?thesis using l by (metis nth_list_update_neq set_ConsD)
  next
    case False
    then show ?thesis using 2(2) [OF False] 2(3-5) by auto
  qed
qed simp

lemma balance_loop_result:
  assumes "length (Shards c) = NShards" "all_assigned c" "cfgGroups c \<noteq> []"
  shows "length (Shards (balance_loop c)) = NShards \<and> cfgGroups (balance_loop c) = cfgGroups c \<and>
    cfgNum (balance_loop c) = cfgNum c \<and> all_assigned (balance_loop c) \<and> balanced (balance_loop c)"
  using assms
proof (induction c rule: balance_loop.induct)
  case (1 c)
  obtain mg mn lg ln where a: "analyze c = (mg, mn, lg, ln)" by (cases "analyze c")
  have ext: "extremes (\<lambda>g. int (load (Shards c) g)) (dom (map_of (cfgGroups c))) (mg, mn, lg, ln)"
    using analyze_extremes [of c] 1(2,4) a by (simp add: NShards_def)
  show ?case
  proof (cases "mn < ln + 2")
    case True
    then have "balance_loop c = c" using a by (subst balance_loop.simps) simp
    moreover have "balanced c" unfolding balanced_def
    proof (intro ballI)
      fix g h assume "g \<in> dom (map_of (cfgGroups c))" "h \<in> dom (map_of (cfgGroups c))"
      with ext have "int (load (Shards c) g) \<le> mn" "ln \<le> int (load (Shards c) h)" by (auto simp: extremes_def)
      with True show "load (Shards c) g \<le> load (Shards c) h + 1" by linarith
    qed
    ultimately show ?thesis using 1(2-4) by simp
  next
    case False
    let ?c = "c\<lparr>Shards := move_shard mg lg (Shards c)\<rparr>"
    have "balance_loop c = balance_loop ?c" using a False 1(2) by (subst balance_loop.simps) simp
    moreover have "all_assigned ?c"
      using 1(3) set_move_shard [of mg lg "Shards c"] ext by (auto simp: all_assigned_def extremes_def)
    ultimately show ?thesis using 1(1) [OF a [symmetric]] False 1(2,4) by simp
  qed
qed

lemma Rebalance_good:
  assumes "cfg_wf c" "cfgGroups c \<noteq> []"
  shows "cfg_wf (Rebalance c) \<and> cfgGroups (Rebalance c) = cfgGroups c \<and> cfgNum (Rebalance c) = cfgNum c \<and>
    all_assigned (Rebalance c) \<and> balanced (Rebalance c)"
proof -
  let ?a = "assign_loop [0..<length (Shards c)] c"
  have len: "length (Shards c) = NShards" using assms by (simp add: cfg_wf_def)
  have "\<forall>s < NShards. Shards ?a ! s \<in> dom (map_of (cfgGroups c))"
    using assign_loop_assigns [OF len assms(2), of "[0..<length (Shards c)]"] len by (simp add: atLeast0LessThan)
  then have "set (Shards ?a) \<subseteq> dom (map_of (cfgGroups c))"
    using len by (simp add: subset_code(1) all_set_conv_all_nth assign_loop_keeps)
  then have "all_assigned ?a" by (simp add: all_assigned_def assign_loop_keeps)
  moreover have "Rebalance c = balance_loop ?a" using assms(2) by (simp add: Rebalance_def Suc_le_eq)
  ultimately show ?thesis
    using balance_loop_result [of ?a] assms len by (simp add: cfg_wf_def assign_loop_keeps)
qed

lemma Rebalance_empty:
  "cfgGroups c = [] \<Longrightarrow> Rebalance c = c\<lparr>Shards := replicate (length (Shards c)) 0\<rparr>"
  by (simp add: Rebalance_def)

lemma minmax_loop_values:
  "minmax_loop counts gs (mi, ma) = (mi', ma') \<Longrightarrow>
     (mi' = mi \<or> mi' \<in> counts ` set gs) \<and> (ma' = ma \<or> ma' \<in> counts ` set gs)"
  by (induction gs arbitrary: mi ma) (force split: if_splits)+

lemma load_le_NShards: "length shards = NShards \<Longrightarrow> int (load shards g) \<le> 12"
  using count_le_length [of shards g] by (simp add: count_mset NShards_def)

lemma CheckConfig_accepts:
  assumes wf: "cfg_wf c" and bal: "balanced c" and asg: "cfgGroups c = [] \<or> all_assigned c"
    and gs: "distinct gs" "set gs = dom (map_of (cfgGroups c))"
  shows "CheckConfig gs c = Inr ()"
proof -
  have len: "length (cfgGroups c) = length gs"
  proof -
    have "distinct (map fst (cfgGroups c))" using wf by (simp add: cfg_wf_def)
    then have "length (map fst (cfgGroups c)) = card (dom (map_of (cfgGroups c)))"
      using distinct_card [of "map fst (cfgGroups c)"] by (simp add: dom_map_of_conv_image_fst)
    then show ?thesis using gs distinct_card [of gs] by simp
  qed
  obtain mi ma where m: "minmax_loop (lookup0 (shard_counts (Shards c))) (gm_keys (cfgGroups c)) (257, 0) = (mi, ma)"
    by (cases "minmax_loop (lookup0 (shard_counts (Shards c))) (gm_keys (cfgGroups c)) (257, 0)")
  have small: "int (load (Shards c) g) \<le> 12" for g
    using wf load_le_NShards unfolding cfg_wf_def by blast
  have mi: "mi = 257 \<or> (\<exists>g \<in> dom (map_of (cfgGroups c)). mi = int (load (Shards c) g))"
    and ma: "ma = 0 \<or> (\<exists>g \<in> dom (map_of (cfgGroups c)). ma = int (load (Shards c) g))"
    using minmax_loop_values [OF m] by (auto simp: shard_counts_load)
  have both: "ma \<le> mi + 1" if "ma = int (load (Shards c) g)" "mi = int (load (Shards c) h)"
    "g \<in> dom (map_of (cfgGroups c))" "h \<in> dom (map_of (cfgGroups c))" for g h
  proof -
    have "load (Shards c) g \<le> load (Shards c) h + 1" using bal that(3,4) unfolding balanced_def by blast
    then show ?thesis by (simp add: that(1,2))
  qed
  have "ma \<le> mi + 1"
  proof (cases "ma = 0")
    case True
    then show ?thesis using mi by auto
  next
    case False
    with ma obtain g where g: "g \<in> dom (map_of (cfgGroups c))" "ma = int (load (Shards c) g)" by blast
    then show ?thesis using mi both [OF g(2) _ g(1)] small [of g] by auto
  qed
  then have "\<not> ma > mi + 1" by simp
  moreover have "\<not> list_ex (\<lambda>g. map_of (cfgGroups c) g = None) gs"
    using gs(2) by (auto simp: list_ex_iff)
  moreover have "\<not> (length gs > 0 \<and> list_ex (\<lambda>g. map_of (cfgGroups c) g = None) (Shards c))"
    using asg len by (auto simp: list_ex_iff all_assigned_def)
  ultimately show ?thesis using len m by (simp add: CheckConfig_def)
qed

text \<open>What \<open>Rebalance\<close> produces is accepted by the tester's check, also with no group left.\<close>

lemma Rebalance_CheckConfig:
  assumes "cfg_wf c" "distinct gs" "set gs = dom (map_of (cfgGroups c))"
  shows "CheckConfig gs (Rebalance c) = Inr () \<and> cfg_wf (Rebalance c)"
proof (cases "cfgGroups c = []")
  case True
  with assms have "cfg_wf (Rebalance c)" "balanced (Rebalance c)"
    by (simp_all add: Rebalance_empty cfg_wf_def balanced_def)
  with assms True show ?thesis by (simp add: CheckConfig_accepts Rebalance_empty)
next
  case False
  with Rebalance_good [OF assms(1)] assms show ?thesis by (simp add: CheckConfig_accepts)
qed

subsection \<open>Join and Leave that succeed\<close>

text \<open>New groups, and no server in two groups.\<close>

definition joinable :: "(int, string list) gomap \<Rightarrow> (int, string list) gomap \<Rightarrow> bool" where
  "joinable servers groups \<longleftrightarrow> servers \<noteq> [] \<and> distinct (map fst (groups @ servers)) \<and>
     distinct (concat (map snd (groups @ servers)))"

lemma gm_put_new: "k \<notin> fst ` set m \<Longrightarrow> gm_put k v m = m @ [(k, v)]"
  by (induction m) auto

lemma join_loop_success:
  assumes "distinct (map fst (cfgGroups cfg @ servers))" "distinct (concat (map snd (cfgGroups cfg @ servers)))"
  shows "join_loop servers cfg = Inr (True, cfg\<lparr>cfgGroups := cfgGroups cfg @ servers\<rparr>)"
  using assms
proof (induction servers arbitrary: cfg)
  case (Cons p rest)
  obtain gid srvs where p: "p = (gid, srvs)" by (cases p)
  have new: "gid \<notin> fst ` set (cfgGroups cfg)" using Cons.prems(1) by (auto simp: p)
  then have "map_of (cfgGroups cfg) gid = None" by (simp add: map_of_eq_None_iff)
  moreover have "\<not> shares_server srvs (cfgGroups cfg)"
    using Cons.prems(2) by (fastforce simp: p shares_server_def list_ex_iff)
  moreover have "join_loop rest (cfg\<lparr>cfgGroups := cfgGroups cfg @ [(gid, srvs)]\<rparr>) =
      Inr (True, cfg\<lparr>cfgGroups := (cfgGroups cfg @ [(gid, srvs)]) @ rest\<rparr>)"
    using Cons.IH [of "cfg\<lparr>cfgGroups := cfgGroups cfg @ [(gid, srvs)]\<rparr>"] Cons.prems by (simp add: p)
  ultimately show ?case by (simp add: p gm_put_new [OF new])
qed simp

lemma leave_loop_success:
  assumes "distinct gids" "set gids \<subseteq> dom (map_of (cfgGroups cfg))"
  shows "\<exists>groups. leave_loop gids cfg = (True, cfg\<lparr>cfgGroups := groups\<rparr>) \<and>
    dom (map_of groups) = dom (map_of (cfgGroups cfg)) - set gids \<and>
    (distinct (map fst (cfgGroups cfg)) \<longrightarrow> distinct (map fst groups))"
  using assms
proof (induction gids arbitrary: cfg)
  case Nil
  then show ?case by (auto intro!: exI [of _ "cfgGroups cfg"])
next
  case (Cons gid gids)
  let ?c = "cfg\<lparr>cfgGroups := gm_delete gid (cfgGroups cfg)\<rparr>"
  have "distinct gids" "set gids \<subseteq> dom (map_of (cfgGroups ?c))" using Cons.prems by auto
  from Cons.IH [OF this] obtain groups where g: "leave_loop gids ?c = (True, ?c\<lparr>cfgGroups := groups\<rparr>)"
    "dom (map_of groups) = dom (map_of (cfgGroups ?c)) - set gids"
    "distinct (map fst (cfgGroups ?c)) \<longrightarrow> distinct (map fst groups)"
    by blast
  have "map_of (cfgGroups cfg) gid \<noteq> None" using Cons.prems(2) by auto
  with g(1) have "leave_loop (gid # gids) cfg = (True, cfg\<lparr>cfgGroups := groups\<rparr>)" by auto
  moreover have "dom (map_of groups) = dom (map_of (cfgGroups cfg)) - set (gid # gids)"
    unfolding g(2) by auto
  moreover have "distinct (map fst (cfgGroups cfg)) \<longrightarrow> distinct (map fst groups)" using g(3) by auto
  ultimately show ?case by blast
qed

section \<open>Properties of shard configurations\<close>

text \<open>
  C11: \<open>Rebalance\<close> terminates with every shard assigned to an existing group and the loads of any two
  groups differing by at most one; the groups and the configuration number are untouched.
\<close>
theorem Rebalance_balances:
  assumes "cfg_wf c" "cfgGroups c \<noteq> []"
  shows "set (Shards (Rebalance c)) \<subseteq> dom (map_of (cfgGroups c)) \<and>
    (\<forall>g h. g \<in> dom (map_of (cfgGroups c)) \<and> h \<in> dom (map_of (cfgGroups c)) \<longrightarrow>
       load (Shards (Rebalance c)) g \<le> load (Shards (Rebalance c)) h + 1) \<and>
    length (Shards (Rebalance c)) = NShards \<and>
    cfgGroups (Rebalance c) = cfgGroups c \<and> cfgNum (Rebalance c) = cfgNum c"
  using Rebalance_good [OF assms] unfolding cfg_wf_def all_assigned_def balanced_def by metis

text \<open>
  \<open>Rebalance\<close> moves no shard of a configuration that is already assigned and balanced.
\<close>
theorem Rebalance_stable:
  assumes "cfg_wf c" "all_assigned c" "balanced c"
  shows "Rebalance c = c"
proof -
  have ne: "cfgGroups c \<noteq> []" using assms(1,2) by (auto simp: cfg_wf_def all_assigned_def NShards_def)
  have len: "length (Shards c) = NShards" using assms(1) by (simp add: cfg_wf_def)
  have asg: "assign_loop ss c = c" if "set ss \<subseteq> {..<NShards}" for ss
    using that
  proof (induction ss)
    case (Cons s ss)
    then have "Shards c ! s \<in> set (Shards c)" using len by (intro nth_mem) simp
    then have "Shards c ! s \<in> dom (map_of (cfgGroups c))" using assms(2) unfolding all_assigned_def by (rule rev_subsetD)
    with Cons show ?case by (auto simp: domIff)
  qed simp
  obtain mg mn lg ln where a: "analyze c = (mg, mn, lg, ln)" by (cases "analyze c")
  have ext: "extremes (\<lambda>g. int (load (Shards c) g)) (dom (map_of (cfgGroups c))) (mg, mn, lg, ln)"
    using analyze_extremes [of c] ne len a by (simp add: NShards_def)
  then have "load (Shards c) mg \<le> load (Shards c) lg + 1" using assms(3) by (auto simp: balanced_def extremes_def)
  with ext have "mn < ln + 2" by (simp add: extremes_def)
  then have "balance_loop c = c" using a by (subst balance_loop.simps) simp
  then show ?thesis using asg [of "[0..<length (Shards c)]"] ne len by (simp add: Rebalance_def Suc_le_eq atLeast0LessThan)
qed

text \<open>
  Joining new groups, no server of which is in another group, succeeds, raises the configuration
  number by one, has exactly the old and the new groups, and passes the tester's \<open>CheckConfig\<close>.
\<close>
theorem JoinBalance_checked:
  assumes "cfg_wf cfg" "joinable servers (cfgGroups cfg)"
    and "distinct gs" "set gs = dom (map_of (cfgGroups cfg)) \<union> fst ` set servers"
  shows "\<exists>cfg'. JoinBalance servers cfg = Inr (True, cfg') \<and> cfgNum cfg' = cfgNum cfg + 1 \<and>
    dom (map_of (cfgGroups cfg')) = set gs \<and> CheckConfig gs cfg' = Inr () \<and> cfg_wf cfg'"
proof -
  let ?c = "cfg\<lparr>cfgGroups := cfgGroups cfg @ servers, cfgNum := cfgNum cfg + 1\<rparr>"
  have "JoinBalance servers cfg = Inr (True, Rebalance ?c)"
    using assms(2) join_loop_success [of cfg servers] by (simp add: JoinBalance_def Join_def joinable_def)
  moreover have "cfg_wf ?c" using assms(1,2) by (simp add: cfg_wf_def joinable_def)
  moreover have "set gs = dom (map_of (cfgGroups ?c))"
    using assms(4) by (auto simp: dom_map_of_conv_image_fst)
  moreover have "cfgGroups ?c \<noteq> []" using assms(2) by (simp add: joinable_def)
  ultimately show ?thesis using Rebalance_CheckConfig [of ?c gs] Rebalance_good [of ?c] assms(3) by auto
qed

text \<open>
  Leaving with groups of the configuration succeeds, raises the configuration number by one and
  leaves a configuration of the remaining groups (possibly none) that passes \<open>CheckConfig\<close>.
\<close>
theorem LeaveBalance_checked:
  assumes "cfg_wf cfg" "gids \<noteq> []" "distinct gids" "set gids \<subseteq> dom (map_of (cfgGroups cfg))"
    and "distinct gs" "set gs = dom (map_of (cfgGroups cfg)) - set gids"
  shows "\<exists>cfg'. LeaveBalance gids cfg = Inr (True, cfg') \<and> cfgNum cfg' = cfgNum cfg + 1 \<and>
    dom (map_of (cfgGroups cfg')) = set gs \<and> CheckConfig gs cfg' = Inr () \<and> cfg_wf cfg'"
proof -
  obtain groups where l: "leave_loop gids cfg = (True, cfg\<lparr>cfgGroups := groups\<rparr>)"
    "dom (map_of groups) = dom (map_of (cfgGroups cfg)) - set gids"
    "distinct (map fst (cfgGroups cfg)) \<longrightarrow> distinct (map fst groups)"
    using leave_loop_success [OF assms(3,4)] by blast
  let ?c = "cfg\<lparr>cfgGroups := groups, cfgNum := cfgNum cfg + 1\<rparr>"
  have "LeaveBalance gids cfg = Inr (True, Rebalance ?c)"
    using assms(2) l(1) by (simp add: LeaveBalance_def Leave_def)
  moreover have "cfg_wf ?c" using assms(1) l(3) by (simp add: cfg_wf_def)
  moreover have "cfgGroups (Rebalance ?c) = groups" "cfgNum (Rebalance ?c) = cfgNum cfg + 1"
    using Rebalance_good [OF \<open>cfg_wf ?c\<close>] Rebalance_empty [of ?c] by (cases "groups = []"; simp)+
  ultimately show ?thesis using Rebalance_CheckConfig [of ?c gs] assms(5,6) l(2) by simp
qed

section \<open>Witnesses\<close>

definition wit_cfg :: shard_config where
  "wit_cfg = MakeShardConfig\<lparr>cfgGroups := [(1, [''a'']), (2, [''b''])]\<rparr>"

lemma wit_cfg_wf: "cfg_wf wit_cfg"
  by (simp add: cfg_wf_def wit_cfg_def MakeShardConfig_def)

lemma Rebalance_balances_witness:
  "set (Shards (Rebalance wit_cfg)) \<subseteq> dom (map_of (cfgGroups wit_cfg)) \<and>
   load (Shards (Rebalance wit_cfg)) 1 \<le> load (Shards (Rebalance wit_cfg)) 2 + 1"
  using Rebalance_balances [OF wit_cfg_wf] by (simp add: wit_cfg_def)

lemma Rebalance_stable_witness:
  "Rebalance (MakeShardConfig\<lparr>Shards := [1,1,1,1,1,1,2,2,2,2,2,2], cfgGroups := [(1, [''a'']), (2, [''b''])]\<rparr>) =
   MakeShardConfig\<lparr>Shards := [1,1,1,1,1,1,2,2,2,2,2,2], cfgGroups := [(1, [''a'']), (2, [''b''])]\<rparr>"
  by (rule Rebalance_stable) (auto simp: cfg_wf_def all_assigned_def balanced_def MakeShardConfig_def NShards_def)

lemma JoinBalance_checked_witness:
  "\<exists>cfg'. JoinBalance [(3, [''c''])] wit_cfg = Inr (True, cfg') \<and> cfgNum cfg' = 1 \<and> CheckConfig [1, 2, 3] cfg' = Inr ()"
  using JoinBalance_checked [OF wit_cfg_wf, of "[(3, [''c''])]" "[1, 2, 3]"]
  by (auto simp: wit_cfg_def joinable_def MakeShardConfig_def)

lemma LeaveBalance_checked_witness:
  "\<exists>cfg'. LeaveBalance [1] wit_cfg = Inr (True, cfg') \<and> cfgNum cfg' = 1 \<and> CheckConfig [2] cfg' = Inr ()"
  using LeaveBalance_checked [OF wit_cfg_wf, of "[1]" "[2]"]
  by (auto simp: wit_cfg_def MakeShardConfig_def)

end
