(* ===== verification/ShardJson.thy ===== *)
theory ShardJson
  imports Shardcfg Json
begin

text \<open>
  Configurations as text (\<open>String\<close> and \<open>FromString\<close> of \<open>shardkv1/shardcfg/shardcfg.go\<close>): the form in which a shard
  controller stores them under a key of the key/value server. \<open>encoding/json\<close> is modelled for this type: the
  fields in the order of the struct, a map as an object whose keys are the decimal numbers in the order
  of their text; of the decoder only what it does on such text matters, everything else is an error here.
  Server lists are not nil.

  The locale \<open>json_codec\<close> is the contract of a value's encoder and decoder; sequences are proved once inside it
  and interpreted on numbers, strings, lists of strings and map entries.
\<close>

section \<open>Numbers and strings\<close>

definition in_int64 :: "int \<Rightarrow> bool" where
  "in_int64 i \<longleftrightarrow> - (2 ^ 63) \<le> i \<and> i < 2 ^ 63"

definition dec_int :: "string \<Rightarrow> (int \<times> string) option" where
  "dec_int s =
     (let (neg, ds) = (case s of c # cs \<Rightarrow> if c = CHR ''-'' then (True, cs) else (False, s) | [] \<Rightarrow> (False, s))
      in Option.bind (dec_nat ds) (\<lambda>(n, r).
           let i = (if neg then - int n else int n) in if in_int64 i then Some (i, r) else None))"

definition dec_string :: "string \<Rightarrow> (string \<times> string) option" where
  "dec_string s = Option.bind (expect [quote] s) json_unescape"

section \<open>Sequences\<close>

text \<open>A sequence in brackets, given the encoder or decoder of its items; the fuel of \<open>dec_more\<close> is the length of the text.\<close>

fun enc_more :: "('a \<Rightarrow> string) \<Rightarrow> char \<Rightarrow> 'a list \<Rightarrow> string" where
  "enc_more e cl [] = [cl]"
| "enc_more e cl (x # xs) = CHR '','' # e x @ enc_more e cl xs"

fun enc_seq :: "('a \<Rightarrow> string) \<Rightarrow> char \<Rightarrow> char \<Rightarrow> 'a list \<Rightarrow> string" where
  "enc_seq e op cl [] = [op, cl]"
| "enc_seq e op cl (x # xs) = op # e x @ enc_more e cl xs"

fun dec_more :: "nat \<Rightarrow> (string \<Rightarrow> ('a \<times> string) option) \<Rightarrow> char \<Rightarrow> string \<Rightarrow> ('a list \<times> string) option" where
  "dec_more (Suc n) d cl (c # s) =
     (if c = cl then Some ([], s)
      else if c = CHR '','' then
        Option.bind (d s) (\<lambda>(x, s1). Option.bind (dec_more n d cl s1) (\<lambda>(xs, r). Some (x # xs, r)))
      else None)"
| "dec_more n d cl s = None"

fun dec_seq :: "(string \<Rightarrow> ('a \<times> string) option) \<Rightarrow> char \<Rightarrow> char \<Rightarrow> string \<Rightarrow> ('a list \<times> string) option" where
  "dec_seq d op cl (c # c' # s) =
     (if c \<noteq> op then None
      else if c' = cl then Some ([], s)
      else Option.bind (d (c' # s)) (\<lambda>(x, s1). Option.bind (dec_more (length s1) d cl s1) (\<lambda>(xs, r). Some (x # xs, r))))"
| "dec_seq d op cl s = None"

section \<open>Configurations\<close>

text \<open>An entry of the \<open>Groups\<close> object: the key is text.\<close>

definition enc_group :: "int \<times> string list \<Rightarrow> string" where
  "enc_group = (\<lambda>(gid, srvs). json_string (itoa gid) @ CHR '':'' # enc_seq json_string (CHR ''['') (CHR '']'') srvs)"

definition dec_group :: "string \<Rightarrow> ((int \<times> string list) \<times> string) option" where
  "dec_group s =
     Option.bind (dec_string s) (\<lambda>(k, s1).
     Option.bind (dec_int k) (\<lambda>(gid, rest).
     Option.bind (if rest = [] then expect '':'' s1 else None) (\<lambda>s2.
     Option.bind (dec_seq dec_string (CHR ''['') (CHR '']'') s2) (\<lambda>(srvs, s3). Some ((gid, srvs), s3)))))"

text \<open>\<open>json.Marshal\<close> visits the keys of a map in the order of their text.\<close>

definition sorted_groups :: "(int, string list) gomap \<Rightarrow> (int \<times> string list) list" where
  "sorted_groups m = sort_key (\<lambda>(gid, srvs). itoa gid) m"

definition cfg_String :: "shard_config \<Rightarrow> string" where
  "cfg_String cfg =
     CHR ''{'' # json_string ''Num'' @ CHR '':'' # itoa (cfgNum cfg) @
     CHR '','' # json_string ''Shards'' @ CHR '':'' # enc_seq itoa (CHR ''['') (CHR '']'') (Shards cfg) @
     CHR '','' # json_string ''Groups'' @ CHR '':'' # enc_seq enc_group (CHR ''{'') (CHR ''}'') (sorted_groups (cfgGroups cfg)) @ ''}''"

text \<open>
  The array \<open>Shards\<close> keeps its length: what is missing is zero and what is too much is dropped. A later entry
  of a map replaces an earlier one.
\<close>

definition cfg_FromString :: "string \<Rightarrow> shard_config result" where
  "cfg_FromString s =
     (case
        Option.bind (expect (CHR ''{'' # json_string ''Num'' @ [CHR '':'']) s) (\<lambda>s1.
        Option.bind (dec_int s1) (\<lambda>(num, s2).
        Option.bind (expect (CHR '','' # json_string ''Shards'' @ [CHR '':'']) s2) (\<lambda>s3.
        Option.bind (dec_seq dec_int (CHR ''['') (CHR '']'') s3) (\<lambda>(shards, s4).
        Option.bind (expect (CHR '','' # json_string ''Groups'' @ [CHR '':'']) s4) (\<lambda>s5.
        Option.bind (dec_seq dec_group (CHR ''{'') (CHR ''}'') s5) (\<lambda>(gs, s6).
          if s6 = ''}'' then Some \<lparr>cfgNum = num, Shards = take NShards (shards @ replicate NShards 0),
            cfgGroups = foldl (\<lambda>m (k, srvs). gm_put k srvs m) [] gs\<rparr> else None))))))
      of None \<Rightarrow> Inl (Fatal ''Unmarshall err'') | Some cfg \<Rightarrow> Inr cfg)"

section \<open>The contract of a codec\<close>

text \<open>What may come after a value.\<close>

definition delimited :: "string \<Rightarrow> bool" where
  "delimited r \<longleftrightarrow> r \<noteq> [] \<and> hd r \<in> set '',:]}''"

locale json_codec =
  fixes enc :: "'a \<Rightarrow> string" and dec :: "string \<Rightarrow> ('a \<times> string) option" and ok :: "'a \<Rightarrow> bool"
  assumes dec_enc: "ok x \<Longrightarrow> delimited r \<Longrightarrow> dec (enc x @ r) = Some (x, r)"
    and enc_start: "enc x \<noteq> [] \<and> hd (enc x) \<notin> set '',:]}''"
begin

lemma enc_more_delimited: "cl \<in> set '']}'' \<Longrightarrow> delimited (enc_more enc cl xs @ r)"
  by (cases xs) (auto simp: delimited_def)

lemma dec_enc_more:
  assumes "cl \<in> set '']}''" "\<forall>x \<in> set xs. ok x" "length xs < n"
  shows "dec_more n dec cl (enc_more enc cl xs @ r) = Some (xs, r)"
  using assms(2,3)
proof (induction xs arbitrary: n)
  case Nil
  then show ?case by (cases n) auto
next
  case (Cons x xs)
  then obtain m where n: "n = Suc m" by (cases n) auto
  have "dec (enc x @ enc_more enc cl xs @ r) = Some (x, enc_more enc cl xs @ r)"
    using Cons.prems(1) by (intro dec_enc enc_more_delimited assms(1)) auto
  then show ?case using Cons n assms(1) by auto
qed

lemma length_enc_more: "length xs < length (enc_more enc cl xs @ r)"
  by (induction xs) auto

lemma dec_enc_seq:
  assumes "cl \<in> set '']}''" "\<forall>x \<in> set xs. ok x"
  shows "dec_seq dec op cl (enc_seq enc op cl xs @ r) = Some (xs, r)"
proof (cases xs)
  case (Cons x ys)
  obtain c s where e: "enc x = c # s" "c \<noteq> cl" using enc_start [of x] assms(1) by (cases "enc x") auto
  have "dec (enc x @ enc_more enc cl ys @ r) = Some (x, enc_more enc cl ys @ r)"
    using assms Cons by (intro dec_enc enc_more_delimited) auto
  moreover have "dec_more (length (enc_more enc cl ys @ r)) dec cl (enc_more enc cl ys @ r) = Some (ys, r)"
    using assms Cons length_enc_more by (intro dec_enc_more) auto
  ultimately show ?thesis using e Cons by simp
qed simp

end

section \<open>The codecs\<close>

lemma delimited_no_digit: "delimited r \<Longrightarrow> r = [] \<or> \<not> is_digit (hd r)"
  by (auto simp: delimited_def is_digit_def)

lemma dec_int_itoa:
  assumes "in_int64 i" "r = [] \<or> \<not> is_digit (hd r)"
  shows "dec_int (itoa i @ r) = Some (i, r)"
proof (cases "i < 0")
  case True
  then show ?thesis using assms by (simp add: dec_int_def itoa_def dec_nat_digits)
next
  case False
  obtain c cs where d: "nat_digits (nat i) = c # cs" "is_digit c"
    using nat_digits_digits [of "nat i"] by (cases "nat_digits (nat i)") auto
  then have "c \<noteq> CHR ''-''" by (auto simp: is_digit_def)
  moreover have "itoa i @ r = c # cs @ r" using False d by (simp add: itoa_def)
  moreover have "dec_nat (c # cs @ r) = Some (nat i, r)" using dec_nat_digits [OF assms(2), of "nat i"] d by simp
  ultimately show ?thesis using assms(1) False by (simp add: dec_int_def)
qed

lemma itoa_start: "itoa i \<noteq> [] \<and> hd (itoa i) \<notin> set '',:]}''"
proof -
  obtain c cs where "nat_digits (nat \<bar>i\<bar>) = c # cs" "is_digit c"
    using nat_digits_digits [of "nat \<bar>i\<bar>"] by (cases "nat_digits (nat \<bar>i\<bar>)") auto
  then show ?thesis by (auto simp: itoa_def is_digit_def)
qed

interpretation ints: json_codec itoa dec_int in_int64
  by unfold_locales (auto simp: dec_int_itoa delimited_no_digit itoa_start simp del: list.set)

lemma dec_string_json [simp]: "dec_string (json_string s @ r) = Some (s, r)"
  by (simp add: dec_string_def json_string_def json_unescape_string)

lemma json_string_start: "json_string s \<noteq> [] \<and> hd (json_string s) \<notin> set '',:]}''"
  by (simp add: json_string_def quote_def)

interpretation strings: json_codec json_string dec_string "\<lambda>_. True"
  by unfold_locales (auto simp: json_string_start simp del: list.set)

lemma dec_enc_group: "in_int64 (fst g) \<Longrightarrow> dec_group (enc_group g @ r) = Some (g, r)"
  using dec_int_itoa [of "fst g" "[]"] strings.dec_enc_seq [of "CHR '']''" "snd g" "CHR ''[''" r]
  by (simp add: dec_group_def enc_group_def case_prod_beta)

interpretation group_entries: json_codec enc_group dec_group "\<lambda>g. in_int64 (fst g)"
proof
  show "dec_group (enc_group g @ r) = Some (g, r)" if "in_int64 (fst g)" "delimited r" for g r
    using that(1) by (rule dec_enc_group)
  show "enc_group g \<noteq> [] \<and> hd (enc_group g) \<notin> set '',:]}''" for g
    by (simp add: enc_group_def case_prod_beta json_string_def quote_def)
qed

lemma sorted_groups_set: "set (sorted_groups m) = set m" "distinct (map fst m) \<Longrightarrow> distinct (map fst (sorted_groups m))"
  by (auto simp: sorted_groups_def distinct_map intro: inj_on_subset)

lemma map_of_sorted_groups: "distinct (map fst m) \<Longrightarrow> map_of (sorted_groups m) = map_of m"
  by (rule map_of_inject_set [THEN iffD2]) (simp_all add: sorted_groups_set)

lemma map_of_refill: "distinct (map fst gs) \<Longrightarrow> map_of (foldl (\<lambda>m (k, v). gm_put k v m) m0 gs) = map_of m0 ++ map_of gs"
proof (induction gs arbitrary: m0)
  case (Cons g gs)
  then have "map_of gs (fst g) = None" by (simp add: map_of_eq_None_iff)
  then show ?case using Cons by (cases g) (auto simp: map_add_def fun_eq_iff split: option.split)
qed simp

section \<open>The round trip\<close>

definition cfg_in_int64 :: "shard_config \<Rightarrow> bool" where
  "cfg_in_int64 cfg \<longleftrightarrow> in_int64 (cfgNum cfg) \<and> list_all in_int64 (Shards cfg) \<and> list_all (\<lambda>g. in_int64 (fst g)) (cfgGroups cfg)"


definition wit_json_cfg :: shard_config where
  "wit_json_cfg = \<lparr>cfgNum = 7, Shards = [2, 10, 2, 10, 2, 10, 2, 10, 2, 10, 2, 10], cfgGroups = [(2, [''server-2-0'', ''a b'']), (10, [])]\<rparr>"


end
