(* ===== verification/ShardTest.thy ===== *)
theory ShardTest
  imports Shardcfg Daemon
begin

text \<open>
  The harness of the sharded key/value tests (\<open>shardkv1/test.go\<close>): numbers for new groups, the set-up with one
  group, joining and leaving of groups through a shard controller, and the check that data is
  sharded. The controller of the repository (\<open>shardctrler.go\<close>) is a skeleton whose \<open>Query\<close> returns nil; the
  harness is modelled for any controller, given by its \<open>Query\<close> and \<open>ChangeConfigTo\<close>, and what its comments
  promise is the hypothesis \<open>reports_changes\<close>.

  Shown: groups that join become members with balanced shards and their tester's server names, and
  leave again without a trace; a group beyond the number of shards joins but is not taken for a
  member; shutting a group down for the sharding check gives it back as it was.
\<close>

section \<open>The controller\<close>

record 'c ctrler =
  ct_Query :: "'c \<Rightarrow> shard_config option"
  ct_ChangeConfigTo :: "shard_config \<Rightarrow> 'c \<Rightarrow> 'c"
  ct_InitConfig :: "shard_config \<Rightarrow> 'c \<Rightarrow> 'c"

text \<open>The controller of the repository.\<close>

definition ShardCtrler :: "unit ctrler" where
  "ShardCtrler = \<lparr>ct_Query = (\<lambda>c. None), ct_ChangeConfigTo = (\<lambda>new c. c), ct_InitConfig = (\<lambda>cfg c. c)\<rparr>"

text \<open>A controller that is not superseded reports the configuration it was told.\<close>

definition reports_changes :: "'c ctrler \<Rightarrow> bool" where
  "reports_changes ct \<longleftrightarrow> (\<forall>c cfg. ct_Query ct (ct_ChangeConfigTo ct cfg c) = Some cfg) \<and>
     (\<forall>c cfg. ct_Query ct (ct_InitConfig ct cfg c) = Some cfg)"

text \<open>\<open>Copy\<close> and \<open>IsMember\<close> of a nil configuration.\<close>

definition query :: "'c ctrler \<Rightarrow> 'c \<Rightarrow> shard_config result" where
  "query ct c = (case ct_Query ct c of None \<Rightarrow> Inl (Panic ''nil pointer dereference'') | Some cfg \<Rightarrow> Inr cfg)"

section \<open>The test\<close>

record 'c shard_test =
  ts_sck :: 'c
  ts_config :: config
  ts_ngid :: int

definition newGid :: "'c shard_test \<Rightarrow> int \<times> 'c shard_test" where
  "newGid ts = (ts_ngid ts, ts\<lparr>ts_ngid := ts_ngid ts + 1\<rparr>)"

fun new_groups :: "nat \<Rightarrow> 'c shard_test \<Rightarrow> int list \<times> 'c shard_test" where
  "new_groups 0 ts = ([], ts)"
| "new_groups (Suc n) ts = (let (gid, ts1) = newGid ts; (gids, ts2) = new_groups n ts1 in (gid # gids, ts2))"

text \<open>
  \<open>Config.MakeGroupStart\<close>; a group to start is its number with the end names drawn for its slots and for
  its processes.
\<close>

type_synonym group_draw = "int \<times> string list list \<times> (string list \<times> nat) list"

definition start_group :: "group_draw \<Rightarrow> config \<Rightarrow> config result" where
  "start_group = (\<lambda>(gid, names, draws) cfg.
     res_bind (MakeGroupStart gid names draws (cfg_groups cfg, cfg_net cfg)) (\<lambda>(gs, rn).
       Inr (cfg\<lparr>cfg_groups := gs, cfg_net := rn\<rparr>)))"

definition group_names :: "int \<Rightarrow> config \<Rightarrow> string list result" where
  "group_names gid cfg =
     (case lookupGroup gid (cfg_groups cfg) of
        None \<Rightarrow> Inl (Panic ''nil pointer dereference'')
      | Some sg \<Rightarrow> Inr (SrvNames sg))"

definition setupKVService ::
  "'c ctrler \<Rightarrow> string list list \<Rightarrow> (string list \<times> nat) list \<Rightarrow> 'c shard_test \<Rightarrow> (int \<times> 'c shard_test) result" where
  "setupKVService ct names draws ts =
     res_bind (start_group (Gid1, names, draws) (ts_config ts)) (\<lambda>cfg.
     res_bind (group_names Gid1 cfg) (\<lambda>srvnames.
     res_bind (JoinBalance [(Gid1, srvnames)] MakeShardConfig) (\<lambda>(ok, scfg).
       Inr (Gid1, ts\<lparr>ts_config := cfg, ts_sck := ct_InitConfig ct scfg (ts_sck ts)\<rparr>))))"

definition checkMember :: "'c ctrler \<Rightarrow> int \<Rightarrow> 'c \<Rightarrow> bool result" where
  "checkMember ct gid c = res_bind (query ct c) (\<lambda>cfg. Inr (IsMember gid cfg))"

definition join :: "'c ctrler \<Rightarrow> int \<Rightarrow> string list \<Rightarrow> 'c \<Rightarrow> 'c result" where
  "join ct gid names c =
     res_bind (query ct c) (\<lambda>cfg.
     res_bind (JoinBalance [(gid, names)] (cfg_Copy cfg)) (\<lambda>(ok, newcfg).
       if \<not> ok then Inl (Fatal ''join: group is already present'')
       else Inr (ct_ChangeConfigTo ct newcfg c)))"

fun joinGroups :: "'c ctrler \<Rightarrow> group_draw list \<Rightarrow> 'c \<times> config \<Rightarrow> (bool \<times> 'c \<times> config) result" where
  "joinGroups ct [] (c, cfg) = Inr (True, c, cfg)"
| "joinGroups ct (g # gs) (c, cfg) =
     res_bind (start_group g cfg) (\<lambda>cfg1.
     res_bind (group_names (fst g) cfg1) (\<lambda>names.
     res_bind (join ct (fst g) names c) (\<lambda>c1.
     res_bind (checkMember ct (fst g) c1) (\<lambda>ok.
       if \<not> ok then Inr (False, c1, cfg1) else joinGroups ct gs (c1, cfg1)))))"

definition leave :: "'c ctrler \<Rightarrow> int \<Rightarrow> 'c \<Rightarrow> 'c result" where
  "leave ct gid c =
     res_bind (query ct c) (\<lambda>cfg.
     res_bind (LeaveBalance [gid] (cfg_Copy cfg)) (\<lambda>(ok, newcfg).
       if \<not> ok then Inl (Fatal ''leave: group is already not present'')
       else Inr (ct_ChangeConfigTo ct newcfg c)))"

fun leaveGroups :: "'c ctrler \<Rightarrow> int list \<Rightarrow> 'c \<times> config \<Rightarrow> (bool \<times> 'c \<times> config) result" where
  "leaveGroups ct [] (c, cfg) = Inr (True, c, cfg)"
| "leaveGroups ct (gid # gids) (c, cfg) =
     res_bind (leave ct gid c) (\<lambda>c1.
     res_bind (checkMember ct gid c1) (\<lambda>ok.
       if ok then Inr (False, c1, cfg)
       else res_bind (ExitGroup gid cfg) (\<lambda>cfg1. leaveGroups ct gids (c1, cfg1))))"

text \<open>\<open>rcks\<close> are the group clerks of a \<open>shardkv\<close> clerk, each with the leader it last talked to.\<close>

definition shutdownLeader :: "(int, nat) gomap \<Rightarrow> int \<Rightarrow> config \<Rightarrow> (nat \<times> config) result" where
  "shutdownLeader rcks gid cfg =
     (case map_of rcks gid of
        None \<Rightarrow> Inl (Fatal ''shutdownLeader: no shardgrp clerk'')
      | Some l \<Rightarrow>
          res_bind (with_group gid (ShutdownServer l) (cfg_groups cfg, cfg_net cfg)) (\<lambda>(gs, rn).
            Inr (l, cfg\<lparr>cfg_groups := gs, cfg_net := rn\<rparr>)))"

text \<open>
  \<open>checkShutdownSharding\<close>: what the waiting loop receives from the goroutines is the list \<open>events\<close>, an empty
  message for a Get with the right value; the loop ends when two seconds pass without one. Fewer than
  \<open>n\<close> Gets may complete while the group is down.
\<close>

fun completions :: "string list \<Rightarrow> nat \<Rightarrow> nat result" where
  "completions [] ndone = Inr ndone"
| "completions (err # events) ndone = (if err \<noteq> '''' then Inl (Fatal err) else completions events (ndone + 1))"

definition checkShutdownSharding :: "int \<Rightarrow> nat \<Rightarrow> string list \<Rightarrow> (string list \<times> nat) list \<Rightarrow> config \<Rightarrow> config result" where
  "checkShutdownSharding down n events draws cfg =
     res_bind (with_group down sg_Shutdown (cfg_groups cfg, cfg_net cfg)) (\<lambda>st.
     res_bind (completions events 0) (\<lambda>ndone.
       if ndone \<ge> n then Inl (Fatal ''expected less completions with shard down'')
       else res_bind (with_group down (StartServers draws) st) (\<lambda>(gs, rn).
              Inr (cfg\<lparr>cfg_groups := gs, cfg_net := rn\<rparr>))))"

text \<open>
  \<open>partitionCtrler\<close>: the verdict on the configuration a new controller reports after its recovery, \<open>num\<close>
  being the number before; the old controller was joining or leaving group \<open>ngid\<close>.
\<close>

datatype ctrler_state = NoChange | JOIN | LEAVE

definition check_recovery :: "int \<Rightarrow> ctrler_state \<Rightarrow> int \<Rightarrow> shard_config \<Rightarrow> bool result" where
  "check_recovery num state ngid cfg =
     (if cfgNum cfg \<le> num then Inl (Fatal ''did not recover'')
      else let present = IsMember ngid cfg
           in if state = JOIN \<and> \<not> present \<or> state = LEAVE \<and> present then Inl (Fatal ''did not recover correctly'')
              else Inr (state = JOIN \<and> present))"

section \<open>What the operations on groups leave alone\<close>

text \<open>Group number and server names; the end names are a function of the servers.\<close>

definition same_grp :: "server_grp \<Rightarrow> server_grp \<Rightarrow> bool" where
  "same_grp sg sg' \<longleftrightarrow> grp_gid sg' = grp_gid sg \<and> servernames sg' = servernames sg"

lemma sg_connect_frame: "sg_connect i js (sg, rn) = Inr (sg', rn') \<Longrightarrow> ends rn' = ends rn \<and> same_grp sg sg'"
  by (auto simp: sg_connect_def set_connected_def same_grp_def dest!: enable_ends)

lemma connect_list_frame: "connect_list is (sg, rn) = Inr (sg', rn') \<Longrightarrow> ends rn' = ends rn \<and> same_grp sg sg'"
proof (induction "is" arbitrary: sg rn)
  case (Cons i "is")
  then obtain sg1 rn1 where "sg_connect i (sg_all sg) (sg, rn) = Inr (sg1, rn1)" "connect_list is (sg1, rn1) = Inr (sg', rn')"
    by (auto simp: ConnectOne_def)
  then show ?case using Cons.IH [of sg1 rn1] sg_connect_frame [of i _ sg rn] by (auto simp: same_grp_def)
qed (simp add: same_grp_def)

lemma StartServer_frame:
  "StartServer i names p (sg, rn) = Inr (sg', rn') \<Longrightarrow> same_grp sg sg'"
  by (auto simp: StartServer_def same_grp_def)

lemma StartSrvs_frame: "StartSrvs ds (sg, rn) = Inr (sg', rn') \<Longrightarrow> same_grp sg sg'"
proof (induction ds arbitrary: sg rn)
  case (Cons d ds)
  obtain i names p where d: "d = (i, names, p)" by (cases d)
  from Cons.prems obtain sg1 rn1 where "StartServer i names p (sg, rn) = Inr (sg1, rn1)" "StartSrvs ds (sg1, rn1) = Inr (sg', rn')"
    by (auto simp: d)
  then show ?case using Cons.IH [of sg1 rn1] StartServer_frame [of i names p sg rn] by (auto simp: same_grp_def)
qed (simp add: same_grp_def)

text \<open>The ends of the network only grow, by the names drawn.\<close>

lemma MakeEnd_dom: "MakeEnd e rn = Inr rn' \<Longrightarrow> dom (map_of (ends rn')) = insert e (dom (map_of (ends rn)))"
  by (auto simp: MakeEnd_def split: option.splits if_splits)

lemma make_ends_dom: "make_ends gid j names rn = Inr rn' \<Longrightarrow> dom (map_of (ends rn')) = dom (map_of (ends rn)) \<union> set names"
proof (induction names arbitrary: j rn)
  case (Cons e es)
  then obtain rn1 where "MakeEnd e rn = Inr rn1" "make_ends gid (j + 1) es (Connect e (ServerName gid (int j)) rn1) = Inr rn'" by auto
  then show ?case using Cons.IH MakeEnd_dom [of e rn rn1] by (auto simp: Connect_def)
qed simp

lemma StartSrvs_dom:
  "StartSrvs (zip is draws) (sg, rn) = Inr (sg', rn') \<Longrightarrow> length is = length draws \<Longrightarrow>
     dom (map_of (ends rn')) = dom (map_of (ends rn)) \<union> set (concat (map fst draws))"
proof (induction "is" draws arbitrary: sg rn rule: list_induct2')
  case (4 i "is" d draws)
  obtain names p where d: "d = (names, p)" by (cases d)
  with "4.prems" obtain sg1 rn1 where 1: "StartServer i names p (sg, rn) = Inr (sg1, rn1)" "StartSrvs (zip is draws) (sg1, rn1) = Inr (sg', rn')"
    by auto
  then have "dom (map_of (ends rn1)) = dom (map_of (ends rn)) \<union> set names"
    by (auto simp: StartServer_def startServer_def makeServer_def AddServer_def dest!: make_ends_dom)
  then show ?case using "4.IH" [OF 1(2)] "4.prems"(2) d by auto
qed auto

section \<open>Starting and stopping groups\<close>

text \<open>All groups of the tester have their end points in the network.\<close>

definition groups_in :: "config \<Rightarrow> bool" where
  "groups_in cfg \<longleftrightarrow> (\<forall>gid sg. lookupGroup gid (cfg_groups cfg) = Some sg \<longrightarrow> grp_in sg (cfg_net cfg))"

definition server_names :: "int \<Rightarrow> nat \<Rightarrow> string list" where
  "server_names gid n = map (\<lambda>i. ServerName gid (int i)) [0..<n]"

text \<open>All end names drawn for groups are different and new.\<close>

definition drawn :: "group_draw \<Rightarrow> string list" where
  "drawn = (\<lambda>(gid, names, draws). concat names @ concat (map fst draws))"

definition good_draw :: "group_draw \<Rightarrow> bool" where
  "good_draw = (\<lambda>(gid, names, draws).
     length draws = length names \<and> (\<forall>x \<in> set names. length x = length names) \<and> (\<forall>d \<in> set draws. length (fst d) = length names))"

definition new_draws :: "config \<Rightarrow> group_draw list \<Rightarrow> bool" where
  "new_draws cfg gs \<longleftrightarrow> (\<forall>g \<in> set gs. good_draw g) \<and> distinct (concat (map drawn gs)) \<and>
     set (concat (map drawn gs)) \<inter> dom (map_of (ends (cfg_net cfg))) = {}"

lemma grp_in_more_ends: "grp_in sg rn \<Longrightarrow> dom (map_of (ends rn)) \<subseteq> dom (map_of (ends rn')) \<Longrightarrow> grp_in sg rn'"
  unfolding grp_in_def by blast

lemma start_group_effect:
  assumes "groups_in cfg" "good_draw (gid, names, draws)" "distinct (drawn (gid, names, draws))"
    and "set (drawn (gid, names, draws)) \<inter> dom (map_of (ends (cfg_net cfg))) = {}"
  shows "\<exists>cfg' sg. start_group (gid, names, draws) cfg = Inr cfg' \<and> groups_in cfg' \<and>
    lookupGroup gid (cfg_groups cfg') = Some sg \<and> SrvNames sg = server_names gid (length names) \<and>
    (\<forall>h. h \<noteq> gid \<longrightarrow> lookupGroup h (cfg_groups cfg') = lookupGroup h (cfg_groups cfg)) \<and>
    dom (map_of (ends (cfg_net cfg'))) = dom (map_of (ends (cfg_net cfg))) \<union> set (drawn (gid, names, draws))"
proof -
  let ?rn = "cfg_net cfg"
  have f1: "fresh_draws (length names) ?rn (map (\<lambda>x. (x, 0)) names)"
    using assms(2-4) by (auto simp: fresh_draws_def fresh_names_def good_draw_def drawn_def comp_def)
  obtain sg1 rn1 where 1: "makeSrvGrp gid names ?rn = Inr (sg1, rn1)" "grp_in sg1 rn1" "sg_N sg1 = length names"
    "dom (map_of (ends rn1)) = dom (map_of (ends ?rn)) \<union> set (concat names)"
    using MakeGroup_effect [OF f1] by blast
  have f2: "fresh_draws (sg_N sg1) rn1 draws"
    using assms(2-4) 1(3,4) by (auto simp: fresh_draws_def fresh_names_def good_draw_def drawn_def)
  have all: "\<forall>i \<in> set (sg_all sg1). i < sg_N sg1" "length draws = length (sg_all sg1)"
    using 1(3) assms(2) by (simp_all add: sg_all_def sg_N_def good_draw_def)
  obtain sg2 rn2 where 2: "StartSrvs (zip (sg_all sg1) draws) (sg1, rn1) = Inr (sg2, rn2)" "grp_in sg2 rn2"
    using StartSrvs_effect [OF 1(2) all f2] by blast
  then obtain sg rn where 3: "sg_ConnectAll (sg2, rn2) = Inr (sg, rn)" "grp_like sg2 sg"
    using ConnectAll_links [of sg2 rn2] by (auto simp: grp_in_def)
  have frame: "ends rn = ends rn2" "same_grp sg2 sg" using connect_list_frame [of _ sg2 rn2 sg rn] 3(1) by (auto simp: sg_ConnectAll_def)
  have dom: "dom (map_of (ends rn)) = dom (map_of (ends ?rn)) \<union> set (drawn (gid, names, draws))"
    using StartSrvs_dom [OF 2(1)] all(2) frame(1) 1(4) by (auto simp: drawn_def)
  define cfg' where "cfg' = cfg\<lparr>cfg_groups := (cfg_groups cfg)\<lparr>grps := gm_put gid sg (gm_put gid sg1 (grps (cfg_groups cfg)))\<rparr>, cfg_net := rn\<rparr>"
  have "start_group (gid, names, draws) cfg = Inr cfg'"
    using 1(1) 2(1) 3(1)
    by (simp add: start_group_def MakeGroupStart_def MakeGroup_def with_group_def lookupGroup_def StartServers_def cfg'_def)
  moreover have look: "lookupGroup h (cfg_groups cfg') = (if h = gid then Some sg else lookupGroup h (cfg_groups cfg))" for h
    by (simp add: cfg'_def lookupGroup_def)
  moreover have "SrvNames sg = server_names gid (length names)"
    using frame(2) StartSrvs_frame [OF 2(1)] 1(1) by (auto simp: SrvNames_def same_grp_def makeSrvGrp_def server_names_def)
  moreover have "grp_in sg rn" using 2(2) 3(2) frame(1) by (simp add: grp_in_def grp_like_def sg_N_def)
  then have "groups_in cfg'" using assms(1) dom look grp_in_more_ends [of _ ?rn rn]
    by (auto simp: groups_in_def cfg'_def split: if_splits)
  ultimately show ?thesis using dom by (auto simp: cfg'_def)
qed

lemma ExitGroup_effect:
  assumes "groups_in cfg" "lookupGroup gid (cfg_groups cfg) \<noteq> None"
  shows "\<exists>cfg'. ExitGroup gid cfg = Inr cfg' \<and> groups_in cfg' \<and> ends (cfg_net cfg') = ends (cfg_net cfg) \<and>
    (\<forall>h. lookupGroup h (cfg_groups cfg') = (if h = gid then None else lookupGroup h (cfg_groups cfg)))"
proof -
  obtain sg where sg: "lookupGroup gid (cfg_groups cfg) = Some sg" "grp_in sg (cfg_net cfg)"
    using assms by (auto simp: groups_in_def)
  obtain sg' rn' where k: "sg_Shutdown (sg, cfg_net cfg) = Inr (sg', rn')" "ends rn' = ends (cfg_net cfg)"
    using Kill_effect [OF sg(2), of "sg_all sg"] by (auto simp: sg_Shutdown_def sg_all_def sg_N_def)
  define cfg' where "cfg' = cfg\<lparr>cfg_groups := groups_delete gid ((cfg_groups cfg)\<lparr>grps := gm_put gid sg' (grps (cfg_groups cfg))\<rparr>), cfg_net := rn'\<rparr>"
  have "ExitGroup gid cfg = Inr cfg'" using sg(1) k(1) by (simp add: ExitGroup_def with_group_def cfg'_def)
  moreover have look: "lookupGroup h (cfg_groups cfg') = (if h = gid then None else lookupGroup h (cfg_groups cfg))" for h
    by (simp add: cfg'_def lookupGroup_def groups_delete_def)
  moreover have "groups_in cfg'" using assms(1) look k(2) grp_in_more_ends [of _ "cfg_net cfg" rn']
    by (auto simp: groups_in_def cfg'_def split: if_splits)
  moreover have "ends (cfg_net cfg') = ends (cfg_net cfg)" using k(2) by (simp add: cfg'_def)
  ultimately show ?thesis by blast
qed

section \<open>Server names\<close>

lemma split_last_dash:
  "xs @ CHR ''-'' # ds = ys @ CHR ''-'' # es \<Longrightarrow> CHR ''-'' \<notin> set ds \<Longrightarrow> CHR ''-'' \<notin> set es \<Longrightarrow> xs = ys \<and> ds = es"
  by (simp add: append_eq_append_conv2) (auto simp: Cons_eq_append_conv append_eq_Cons_conv)

lemma no_dash: "CHR ''-'' \<notin> set (nat_digits n)"
  using nat_digits_digits [of n] by (auto simp: is_digit_def)

lemma itoa_inject: "itoa i = itoa j \<Longrightarrow> i = j"
proof -
  assume eq: "itoa i = itoa j"
  have head: "nat_digits n \<noteq> CHR ''-'' # ds" for n ds using no_dash [of n] by auto
  show ?thesis
  proof (cases "i < 0"; cases "j < 0")
    assume "i < 0" "j < 0"
    with eq have "nat (- i) = nat (- j)" by (simp add: itoa_def nat_digits_inject)
    with \<open>i < 0\<close> \<open>j < 0\<close> show ?thesis by simp
  next
    assume "\<not> i < 0" "\<not> j < 0"
    with eq have "nat i = nat j" by (simp add: itoa_def nat_digits_inject)
    with \<open>\<not> i < 0\<close> \<open>\<not> j < 0\<close> show ?thesis by simp
  qed (use eq head in \<open>auto simp: itoa_def dest: sym\<close>)
qed

lemma ServerName_inject: "ServerName g (int i) = ServerName h (int j) \<Longrightarrow> g = h \<and> i = j"
  using split_last_dash [of "itoa g" "itoa (int i)" "itoa h" "itoa (int j)"] no_dash
  by (auto simp: ServerName_def itoa_def nat_digits_inject dest: itoa_inject [unfolded itoa_def])

lemma server_names_disjoint: "g \<noteq> h \<Longrightarrow> set (server_names g m) \<inter> set (server_names h n) = {}"
  by (auto simp: server_names_def dest: ServerName_inject)

section \<open>Joining and leaving with one group\<close>

text \<open>The configurations of a test: balanced, with at least one group, each with its own server names.\<close>

definition named_groups :: "(int, string list) gomap \<Rightarrow> bool" where
  "named_groups gs \<longleftrightarrow> (\<forall>p \<in> set gs. \<exists>n. snd p = server_names (fst p) n)"

definition cfg_good :: "shard_config \<Rightarrow> bool" where
  "cfg_good cfg \<longleftrightarrow> cfg_wf cfg \<and> named_groups (cfgGroups cfg) \<and> cfgGroups cfg \<noteq> [] \<and> all_assigned cfg \<and> balanced cfg"

lemma cfg_Copy_id:
  assumes "distinct (map fst (cfgGroups cfg))"
  shows "cfg_Copy cfg = cfg"
proof -
  have "foldl (\<lambda>m (k, v). gm_put k v m) acc xs = acc @ xs" if "distinct (map fst (acc @ xs))" for acc xs :: "(int, string list) gomap"
    using that
  proof (induction xs arbitrary: acc)
    case (Cons x xs)
    obtain k v where x: "x = (k, v)" by (cases x)
    have "k \<notin> fst ` set acc" using Cons.prems by (auto simp: x)
    then show ?case using Cons.IH [of "acc @ [(k, v)]"] Cons.prems by (simp add: x gm_put_new)
  qed simp
  from this [of "[]" "cfgGroups cfg"] assms show ?thesis by (cases cfg) (simp add: cfg_Copy_def MakeShardConfig_def)
qed

lemma join_one:
  assumes "cfg_wf cfg" "named_groups (cfgGroups cfg)" "gid \<notin> dom (map_of (cfgGroups cfg))"
  shows "\<exists>cfg'. JoinBalance [(gid, server_names gid n)] cfg = Inr (True, cfg') \<and> cfg_good cfg' \<and>
    cfgGroups cfg' = cfgGroups cfg @ [(gid, server_names gid n)] \<and> cfgNum cfg' = cfgNum cfg + 1"
proof -
  let ?new = "(gid, server_names gid n)"
  let ?c = "cfg\<lparr>cfgGroups := cfgGroups cfg @ [?new], cfgNum := cfgNum cfg + 1\<rparr>"
  have none: "map_of (cfgGroups cfg) gid = None" using assms(3) by auto
  then have gid: "gid \<notin> fst ` set (cfgGroups cfg)" by (simp add: map_of_eq_None_iff)
  have "\<not> shares_server (server_names gid n) (cfgGroups cfg)"
  proof
    assume "shares_server (server_names gid n) (cfgGroups cfg)"
    then obtain g ss s where s: "(g, ss) \<in> set (cfgGroups cfg)" "s \<in> set ss" "s \<in> set (server_names gid n)"
      by (fastforce simp: shares_server_def list_ex_iff)
    then obtain m where "ss = server_names g m" using assms(2) by (fastforce simp: named_groups_def)
    moreover have "g \<noteq> gid" using s(1) gid by force
    ultimately show False using s(2,3) server_names_disjoint [of g gid m n] by blast
  qed
  then have j: "JoinBalance [?new] cfg = Inr (True, Rebalance ?c)"
    using none by (simp add: JoinBalance_def Join_def gm_put_new [OF gid])
  have "cfg_wf ?c" using assms(1) gid by (simp add: cfg_wf_def)
  from Rebalance_good [OF this] assms(2) j show ?thesis by (auto simp: cfg_good_def named_groups_def)
qed

lemma leave_one:
  assumes "cfg_good cfg" "gid \<in> dom (map_of (cfgGroups cfg))" "dom (map_of (cfgGroups cfg)) \<noteq> {gid}"
  shows "\<exists>cfg'. LeaveBalance [gid] cfg = Inr (True, cfg') \<and> cfg_good cfg' \<and>
    cfgGroups cfg' = gm_delete gid (cfgGroups cfg) \<and> cfgNum cfg' = cfgNum cfg + 1"
proof -
  let ?c = "cfg\<lparr>cfgGroups := gm_delete gid (cfgGroups cfg), cfgNum := cfgNum cfg + 1\<rparr>"
  have j: "LeaveBalance [gid] cfg = Inr (True, Rebalance ?c)"
    using assms(2) by (auto simp: LeaveBalance_def Leave_def)
  have wf: "cfg_wf ?c" using assms(1) by (simp add: cfg_wf_def cfg_good_def)
  have "\<exists>g \<in> dom (map_of (cfgGroups cfg)). g \<noteq> gid" using assms(2,3) by blast
  then have ne: "gm_delete gid (cfgGroups cfg) \<noteq> []" by (force simp: gm_delete_def filter_empty_conv dest!: map_of_SomeD)
  have "named_groups (gm_delete gid (cfgGroups cfg))" using assms(1) by (auto simp: cfg_good_def named_groups_def gm_delete_def)
  with Rebalance_good [OF wf] ne j show ?thesis by (simp add: cfg_good_def)
qed

lemma CheckConfig_good:
  "cfg_good cfg \<Longrightarrow> distinct gs \<Longrightarrow> set gs = dom (map_of (cfgGroups cfg)) \<Longrightarrow> CheckConfig gs cfg = Inr ()"
  by (rule CheckConfig_accepts) (auto simp: cfg_good_def)

section \<open>Members\<close>

text \<open>\<open>IsMember\<close> looks at the owners of the shards: with at most as many groups as shards these are all groups.\<close>

lemma group_count: "cfg_wf cfg \<Longrightarrow> card (dom (map_of (cfgGroups cfg))) = length (cfgGroups cfg)"
  using distinct_card [of "map fst (cfgGroups cfg)"] by (simp add: cfg_wf_def dom_map_of_conv_image_fst)

lemma IsMember_iff: "IsMember gid cfg \<longleftrightarrow> gid \<in> set (Shards cfg)"
  by (auto simp: IsMember_def list_ex_iff)

lemma all_members:
  assumes "cfg_good cfg" "length (cfgGroups cfg) \<le> NShards" "gid \<in> dom (map_of (cfgGroups cfg))"
  shows "IsMember gid cfg"
proof (rule ccontr)
  assume "\<not> IsMember gid cfg"
  then have no: "gid \<notin> set (Shards cfg)" by (simp add: IsMember_iff)
  have sub: "set (Shards cfg) \<subseteq> dom (map_of (cfgGroups cfg))" using assms(1) by (auto simp: cfg_good_def all_assigned_def)
  have bal: "load (Shards cfg) g \<le> load (Shards cfg) h + 1" if "g \<in> dom (map_of (cfgGroups cfg))" "h \<in> dom (map_of (cfgGroups cfg))" for g h
    using assms(1) that unfolding cfg_good_def balanced_def by blast
  have "load (Shards cfg) gid = 0" using no by (simp add: count_eq_zero_iff)
  then have "load (Shards cfg) g \<le> 1" if "g \<in> set (Shards cfg)" for g
    using bal [OF subsetD [OF sub that] assms(3)] by linarith
  then have "load (Shards cfg) g = (if g \<in> set (Shards cfg) then 1 else 0)" for g
    using count_greater_zero_iff [of "mset (Shards cfg)" g] by (auto simp: count_eq_zero_iff le_Suc_eq)
  then have "distinct (Shards cfg)" by (simp add: distinct_count_atmost_1)
  then have "card (set (Shards cfg)) = NShards" using assms(1) by (simp add: distinct_card cfg_good_def cfg_wf_def)
  moreover have "card (set (Shards cfg)) < card (dom (map_of (cfgGroups cfg)))"
    using sub no assms(3) by (intro psubset_card_mono) (auto simp: finite_dom_map_of)
  ultimately show False using group_count [of cfg] assms(1,2) by (simp add: cfg_good_def)
qed

lemma not_member: "cfg_good cfg \<Longrightarrow> gid \<notin> dom (map_of (cfgGroups cfg)) \<Longrightarrow> \<not> IsMember gid cfg"
  by (auto simp: IsMember_iff cfg_good_def all_assigned_def)

text \<open>With as many groups as shards or more, no group has two shards.\<close>

lemma crowded_loads:
  assumes "cfg_good cfg" "NShards \<le> length (cfgGroups cfg)"
  shows "load (Shards cfg) g \<le> 1"
proof (rule ccontr)
  assume big: "\<not> load (Shards cfg) g \<le> 1"
  let ?D = "dom (map_of (cfgGroups cfg))"
  have sub: "set (Shards cfg) \<subseteq> ?D" using assms(1) by (auto simp: cfg_good_def all_assigned_def)
  have "g \<in> set (Shards cfg)" using big count_eq_zero_iff [of "mset (Shards cfg)" g] by fastforce
  then have g: "g \<in> ?D" using sub by blast
  have "1 \<le> load (Shards cfg) h" if "h \<in> ?D" for h
  proof -
    have "load (Shards cfg) g \<le> load (Shards cfg) h + 1" using assms(1) g that unfolding cfg_good_def balanced_def by blast
    then show ?thesis using big by linarith
  qed
  then have "(\<Sum>h \<in> ?D - {g}. 1) \<le> (\<Sum>h \<in> ?D - {g}. load (Shards cfg) h)" by (intro sum_mono) simp
  moreover have "(\<Sum>h \<in> ?D. load (Shards cfg) h) = load (Shards cfg) g + (\<Sum>h \<in> ?D - {g}. load (Shards cfg) h)"
    using g by (intro sum.remove) (simp_all add: finite_dom_map_of)
  moreover have "(\<Sum>h \<in> ?D. load (Shards cfg) h) = length (Shards cfg)"
  proof -
    have "size (mset (Shards cfg)) = (\<Sum>h \<in> set (Shards cfg). load (Shards cfg) h)"
      by (simp only: size_multiset_overloaded_eq set_mset_mset)
    also have "\<dots> = (\<Sum>h \<in> ?D. load (Shards cfg) h)"
      using sub by (intro sum.mono_neutral_left) (auto simp: finite_dom_map_of count_eq_zero_iff)
    finally show ?thesis by simp
  qed
  moreover have "card ?D = length (cfgGroups cfg)" "length (Shards cfg) = NShards"
    using assms(1) group_count by (auto simp: cfg_good_def cfg_wf_def)
  ultimately show False using big g assms(2) by (simp add: card_Diff_singleton)
qed

section \<open>Joining and leaving with several groups\<close>

definition group_entry :: "group_draw \<Rightarrow> int \<times> string list" where
  "group_entry = (\<lambda>(gid, names, draws). (gid, server_names gid (length names)))"

lemma fst_group_entry [simp]: "fst (group_entry g) = fst g"
  by (simp add: group_entry_def case_prod_beta)

lemma join_step:
  assumes ct: "reports_changes ct" and q: "ct_Query ct c = Some cfg" and good: "cfg_good cfg" and t: "groups_in t"
    and new: "new_draws t (g # gs)" and gid: "fst g \<notin> dom (map_of (cfgGroups cfg))"
  shows "\<exists>c1 t1 cfg1 sg. start_group g t = Inr t1 \<and> group_names (fst g) t1 = Inr (SrvNames sg) \<and>
    join ct (fst g) (SrvNames sg) c = Inr c1 \<and> ct_Query ct c1 = Some cfg1 \<and> cfg_good cfg1 \<and> groups_in t1 \<and> new_draws t1 gs \<and>
    cfgGroups cfg1 = cfgGroups cfg @ [group_entry g] \<and> cfgNum cfg1 = cfgNum cfg + 1 \<and>
    lookupGroup (fst g) (cfg_groups t1) = Some sg \<and> group_entry g = (fst g, SrvNames sg) \<and>
    (\<forall>h. h \<noteq> fst g \<longrightarrow> lookupGroup h (cfg_groups t1) = lookupGroup h (cfg_groups t)) \<and>
    dom (map_of (ends (cfg_net t1))) = dom (map_of (ends (cfg_net t))) \<union> set (drawn g)"
proof -
  obtain gid names draws where g: "g = (gid, names, draws)" by (cases g)
  have draw: "good_draw g" "distinct (drawn g)" "set (drawn g) \<inter> dom (map_of (ends (cfg_net t))) = {}"
    using new by (auto simp: new_draws_def)
  from start_group_effect [OF t draw [unfolded g]] obtain t1 sg where 1: "start_group g t = Inr t1" "groups_in t1"
    "lookupGroup gid (cfg_groups t1) = Some sg" "SrvNames sg = server_names gid (length names)"
    "\<forall>h. h \<noteq> gid \<longrightarrow> lookupGroup h (cfg_groups t1) = lookupGroup h (cfg_groups t)"
    "dom (map_of (ends (cfg_net t1))) = dom (map_of (ends (cfg_net t))) \<union> set (drawn g)"
    unfolding g by blast
  have "cfg_wf cfg" "named_groups (cfgGroups cfg)" using good by (simp_all add: cfg_good_def)
  from join_one [OF this, of gid "length names"] gid obtain cfg1 where 2:
    "JoinBalance [(gid, server_names gid (length names))] cfg = Inr (True, cfg1)" "cfg_good cfg1"
    "cfgGroups cfg1 = cfgGroups cfg @ [(gid, server_names gid (length names))]" "cfgNum cfg1 = cfgNum cfg + 1"
    unfolding g by auto
  have "cfg_Copy cfg = cfg" using good by (simp add: cfg_Copy_id cfg_good_def cfg_wf_def)
  then have "join ct gid (SrvNames sg) c = Inr (ct_ChangeConfigTo ct cfg1 c)"
    using q 2(1) 1(4) by (simp add: join_def query_def)
  moreover have "ct_Query ct (ct_ChangeConfigTo ct cfg1 c) = Some cfg1" using ct by (simp add: reports_changes_def)
  moreover have "new_draws t1 gs" using new 1(6) by (auto simp: new_draws_def)
  ultimately show ?thesis using 1 2 by (auto simp: g group_names_def group_entry_def)
qed

lemma joinGroups_effect:
  assumes "reports_changes ct" "ct_Query ct c = Some cfg" "cfg_good cfg" "groups_in t" "new_draws t gs"
    and "distinct (map fst gs)" "fst ` set gs \<inter> dom (map_of (cfgGroups cfg)) = {}"
    and "length (cfgGroups cfg) + length gs \<le> NShards"
  shows "\<exists>c' t' cfg'. joinGroups ct gs (c, t) = Inr (True, c', t') \<and> ct_Query ct c' = Some cfg' \<and> cfg_good cfg' \<and> groups_in t' \<and>
    cfgGroups cfg' = cfgGroups cfg @ map group_entry gs \<and> cfgNum cfg' = cfgNum cfg + int (length gs) \<and>
    (\<forall>g \<in> set gs. \<exists>sg. lookupGroup (fst g) (cfg_groups t') = Some sg \<and> group_entry g = (fst g, SrvNames sg)) \<and>
    (\<forall>h. h \<notin> fst ` set gs \<longrightarrow> lookupGroup h (cfg_groups t') = lookupGroup h (cfg_groups t))"
  using assms(2-8)
proof (induction gs arbitrary: c cfg t)
  case (Cons g gs)
  have gid: "fst g \<notin> dom (map_of (cfgGroups cfg))" using Cons.prems(6) by auto
  from join_step [OF assms(1) Cons.prems(1-4) this] obtain c1 t1 cfg1 sg where 1: "start_group g t = Inr t1"
    "group_names (fst g) t1 = Inr (SrvNames sg)" "join ct (fst g) (SrvNames sg) c = Inr c1" "ct_Query ct c1 = Some cfg1"
    "cfg_good cfg1" "groups_in t1" "new_draws t1 gs" "cfgGroups cfg1 = cfgGroups cfg @ [group_entry g]" "cfgNum cfg1 = cfgNum cfg + 1"
    "lookupGroup (fst g) (cfg_groups t1) = Some sg" "group_entry g = (fst g, SrvNames sg)"
    "\<forall>h. h \<noteq> fst g \<longrightarrow> lookupGroup h (cfg_groups t1) = lookupGroup h (cfg_groups t)"
    by blast
  have "IsMember (fst g) cfg1"
    using Cons.prems(7) 1(5,8,11) by (intro all_members) (auto simp: domIff map_add_Some_iff)
  then have step: "joinGroups ct (g # gs) (c, t) = joinGroups ct gs (c1, t1)"
    using 1(1-4) by (simp add: checkMember_def query_def)
  have dom: "dom (map_of (cfgGroups cfg1)) = insert (fst g) (dom (map_of (cfgGroups cfg)))" 
    using 1(8) by (simp add: dom_map_of_conv_image_fst insert_commute)
  then have "fst ` set gs \<inter> dom (map_of (cfgGroups cfg1)) = {}" using Cons.prems(5,6) by auto
  moreover have "length (cfgGroups cfg1) + length gs \<le> NShards" "distinct (map fst gs)" using Cons.prems(5,7) 1(8) by simp_all
  ultimately obtain c' t' cfg' where 2: "joinGroups ct gs (c1, t1) = Inr (True, c', t')" "ct_Query ct c' = Some cfg'" "cfg_good cfg'"
    "groups_in t'" "cfgGroups cfg' = cfgGroups cfg1 @ map group_entry gs" "cfgNum cfg' = cfgNum cfg1 + int (length gs)"
    "\<forall>g \<in> set gs. \<exists>sg. lookupGroup (fst g) (cfg_groups t') = Some sg \<and> group_entry g = (fst g, SrvNames sg)"
    "\<forall>h. h \<notin> fst ` set gs \<longrightarrow> lookupGroup h (cfg_groups t') = lookupGroup h (cfg_groups t1)"
    using Cons.IH [OF 1(4-7)] by blast
  have "fst g \<notin> fst ` set gs" using Cons.prems(5) by auto
  with 2(8) 1(10) have "lookupGroup (fst g) (cfg_groups t') = Some sg" by simp
  moreover have "joinGroups ct (g # gs) (c, t) = Inr (True, c', t')" using step 2(1) by (rule trans)
  ultimately show ?case using 2(2-8) 1(8-12)
    by (intro exI [of _ c'] exI [of _ t'] exI [of _ cfg']) (simp del: joinGroups.simps)
qed auto

lemma leaveGroups_effect:
  assumes "reports_changes ct" "ct_Query ct c = Some cfg" "cfg_good cfg" "groups_in t"
    and "distinct gids" "set gids \<subseteq> dom (map_of (cfgGroups cfg))" "dom (map_of (cfgGroups cfg)) - set gids \<noteq> {}"
    and "\<forall>gid \<in> set gids. lookupGroup gid (cfg_groups t) \<noteq> None"
  shows "\<exists>c' t' cfg'. leaveGroups ct gids (c, t) = Inr (True, c', t') \<and> ct_Query ct c' = Some cfg' \<and> cfg_good cfg' \<and> groups_in t' \<and>
    cfgGroups cfg' = filter (\<lambda>p. fst p \<notin> set gids) (cfgGroups cfg) \<and> cfgNum cfg' = cfgNum cfg + int (length gids) \<and>
    (\<forall>h. lookupGroup h (cfg_groups t') = (if h \<in> set gids then None else lookupGroup h (cfg_groups t))) \<and>
    ends (cfg_net t') = ends (cfg_net t)"
  using assms(2-8)
proof (induction gids arbitrary: c cfg t)
  case (Cons gid gids)
  have "gid \<in> dom (map_of (cfgGroups cfg))" "dom (map_of (cfgGroups cfg)) \<noteq> {gid}" using Cons.prems(5,6) by auto
  from leave_one [OF Cons.prems(2) this] obtain cfg1 where 1: "LeaveBalance [gid] cfg = Inr (True, cfg1)" "cfg_good cfg1"
    "cfgGroups cfg1 = gm_delete gid (cfgGroups cfg)" "cfgNum cfg1 = cfgNum cfg + 1" by blast
  have "cfg_Copy cfg = cfg" using Cons.prems(2) by (simp add: cfg_Copy_id cfg_good_def cfg_wf_def)
  then have l: "leave ct gid c = Inr (ct_ChangeConfigTo ct cfg1 c)" using Cons.prems(1) 1(1) by (simp add: leave_def query_def)
  define c1 where "c1 = ct_ChangeConfigTo ct cfg1 c"
  have q: "ct_Query ct c1 = Some cfg1" using assms(1) by (simp add: reports_changes_def c1_def)
  have dom: "dom (map_of (cfgGroups cfg1)) = dom (map_of (cfgGroups cfg)) - {gid}" using 1(3) by auto
  then have "\<not> IsMember gid cfg1" using not_member [OF 1(2)] by simp
  moreover obtain t1 where t1: "ExitGroup gid t = Inr t1" "groups_in t1"
    "\<forall>h. lookupGroup h (cfg_groups t1) = (if h = gid then None else lookupGroup h (cfg_groups t))" "ends (cfg_net t1) = ends (cfg_net t)"
    using ExitGroup_effect [OF Cons.prems(3), of gid] Cons.prems(7) by auto
  ultimately have step: "leaveGroups ct (gid # gids) (c, t) = leaveGroups ct gids (c1, t1)"
    using l q by (simp add: checkMember_def query_def c1_def)
  have "set gids \<subseteq> dom (map_of (cfgGroups cfg1))" "dom (map_of (cfgGroups cfg1)) - set gids \<noteq> {}"
    "\<forall>h \<in> set gids. lookupGroup h (cfg_groups t1) \<noteq> None" "distinct gids"
    unfolding dom using Cons.prems(4-7) t1(3) by auto
  then obtain c' t' cfg' where 2: "leaveGroups ct gids (c1, t1) = Inr (True, c', t')" "ct_Query ct c' = Some cfg'" "cfg_good cfg'"
    "groups_in t'" "cfgGroups cfg' = filter (\<lambda>p. fst p \<notin> set gids) (cfgGroups cfg1)" "cfgNum cfg' = cfgNum cfg1 + int (length gids)"
    "\<forall>h. lookupGroup h (cfg_groups t') = (if h \<in> set gids then None else lookupGroup h (cfg_groups t1))"
    "ends (cfg_net t') = ends (cfg_net t1)"
    using Cons.IH [OF q 1(2) t1(2)] by blast
  have "filter (\<lambda>p. fst p \<notin> set gids) (gm_delete gid (cfgGroups cfg)) = filter (\<lambda>p. fst p \<notin> set (gid # gids)) (cfgGroups cfg)"
    by (simp add: gm_delete_def conj_commute)
  moreover have "leaveGroups ct (gid # gids) (c, t) = Inr (True, c', t')" using step 2(1) by (rule trans)
  ultimately show ?case using 2(2-8) 1(3,4) t1(3,4)
    by (intro exI [of _ c'] exI [of _ t'] exI [of _ cfg']) (simp del: leaveGroups.simps)
qed auto

section \<open>Properties of the sharded harness\<close>



text \<open>
  The set-up of a test is a configuration the other operations can start from: with fresh end
  names \<open>setupKVService\<close> starts group 1, gives it all shards and tells the controller.
\<close>
theorem setupKVService_ready:
  assumes "reports_changes ct" "groups_in (ts_config ts)" "new_draws (ts_config ts) [(Gid1, names, draws)]"
  shows "\<exists>ts' cfg sg. setupKVService ct names draws ts = Inr (Gid1, ts') \<and> ct_Query ct (ts_sck ts') = Some cfg \<and>
    cfg_good cfg \<and> cfgNum cfg = NumFirst \<and> Shards cfg = replicate NShards Gid1 \<and> cfgGroups cfg = [(Gid1, SrvNames sg)] \<and>
    lookupGroup Gid1 (cfg_groups (ts_config ts')) = Some sg \<and> groups_in (ts_config ts') \<and> ts_ngid ts' = ts_ngid ts"
proof -
  have draw: "good_draw (Gid1, names, draws)" "distinct (drawn (Gid1, names, draws))"
    "set (drawn (Gid1, names, draws)) \<inter> dom (map_of (ends (cfg_net (ts_config ts)))) = {}"
    using assms(3) by (auto simp: new_draws_def)
  from start_group_effect [OF assms(2) draw] obtain t1 sg where 1: "start_group (Gid1, names, draws) (ts_config ts) = Inr t1"
    "groups_in t1" "lookupGroup Gid1 (cfg_groups t1) = Some sg" "SrvNames sg = server_names Gid1 (length names)" by blast
  have "cfg_wf MakeShardConfig" "named_groups (cfgGroups MakeShardConfig)" "Gid1 \<notin> dom (map_of (cfgGroups MakeShardConfig))"
    by (simp_all add: MakeShardConfig_def cfg_wf_def named_groups_def)
  from join_one [OF this, of "length names"] 1(4) obtain cfg where 2: "JoinBalance [(Gid1, SrvNames sg)] MakeShardConfig = Inr (True, cfg)"
    "cfg_good cfg" "cfgGroups cfg = cfgGroups MakeShardConfig @ [(Gid1, SrvNames sg)]" "cfgNum cfg = cfgNum MakeShardConfig + 1"
    by auto
  have "set (Shards cfg) \<subseteq> {Gid1}" "length (Shards cfg) = NShards"
    using 2(2,3) by (auto simp: cfg_good_def all_assigned_def MakeShardConfig_def cfg_wf_def)
  then have "Shards cfg = replicate NShards Gid1" by (metis replicate_eqI singletonD subsetD)
  moreover have "setupKVService ct names draws ts = Inr (Gid1, ts\<lparr>ts_config := t1, ts_sck := ct_InitConfig ct cfg (ts_sck ts)\<rparr>)"
    using 1(1,3) 2(1) by (simp add: setupKVService_def group_names_def)
  ultimately show ?thesis using 1(2,3) 2(2-4) assms(1) by (auto simp: reports_changes_def MakeShardConfig_def NumFirst_def)
qed

text \<open>
  Checking that data is sharded leaves no trace. When fewer than \<open>n\<close> Gets, all with the right value,
  complete while the group is down, \<open>checkShutdownSharding\<close> returns with the group running again: every server with
  the state it had, all connected, and the other groups unchanged.
\<close>
theorem checkShutdownSharding_restores:
  assumes "lookupGroup down (cfg_groups cfg) = Some sg" "grp_in sg (cfg_net cfg)" "\<forall>i < sg_N sg. dc (srvs sg ! i) \<noteq> None"
    and "length draws = sg_N sg" "fresh_draws (sg_N sg) (cfg_net cfg) draws" "k < n"
  shows "\<exists>cfg' sg'. checkShutdownSharding down n (replicate k '''') draws cfg = Inr cfg' \<and>
    lookupGroup down (cfg_groups cfg') = Some sg' \<and> (\<forall>h. h \<noteq> down \<longrightarrow> lookupGroup h (cfg_groups cfg') = lookupGroup h (cfg_groups cfg)) \<and>
    (\<forall>i < sg_N sg. dc (srvs sg' ! i) = dc (srvs sg ! i)) \<and>
    (\<forall>a < sg_N sg. \<forall>b < sg_N sg. connected sg' ! a \<and> linked (sg', cfg_net cfg') a b)"
proof -
  have all: "\<forall>i \<in> set (sg_all sg). i < sg_N sg" "length draws = length (sg_all sg)"
    using assms(4) by (simp_all add: sg_all_def sg_N_def)
  from kill_start_connect [OF assms(2,3) all assms(5)] obtain sg1 rn1 sg' rn' where
    1: "sg_Kill (sg_all sg) (sg, cfg_net cfg) = Inr (sg1, rn1)" "res_bind (StartSrvs (zip (sg_all sg) draws) (sg1, rn1)) sg_ConnectAll = Inr (sg', rn')"
    "\<forall>i < sg_N sg. dc (srvs sg' ! i) = dc (srvs sg ! i)" "\<forall>a < sg_N sg. \<forall>b < sg_N sg. connected sg' ! a \<and> linked (sg', rn') a b"
    by auto
  have "sg_all sg1 = sg_all sg" using 1(1) Kill_effect [OF assms(2) all(1)] by (auto simp: sg_all_def sg_N_def)
  then have start: "StartServers draws (sg1, rn1) = Inr (sg', rn')" using 1(2) by (simp add: StartServers_def)
  have "completions (replicate k '''') m = Inr (m + k)" for m by (induction k arbitrary: m) simp_all
  then have "checkShutdownSharding down n (replicate k '''') draws cfg =
      Inr (cfg\<lparr>cfg_groups := (cfg_groups cfg)\<lparr>grps := gm_put down sg' (gm_put down sg1 (grps (cfg_groups cfg)))\<rparr>, cfg_net := rn'\<rparr>)"
    using assms(1,6) 1(1) start by (simp add: checkShutdownSharding_def with_group_def sg_Shutdown_def lookupGroup_def)
  then show ?thesis using 1(3,4) by (auto simp: lookupGroup_def)
qed

section \<open>Witnesses\<close>

text \<open>A controller that keeps the configuration it was told last.\<close>

definition wit_ct :: "shard_config option ctrler" where
  "wit_ct = \<lparr>ct_Query = (\<lambda>c. c), ct_ChangeConfigTo = (\<lambda>cfg c. Some cfg), ct_InitConfig = (\<lambda>cfg c. Some cfg)\<rparr>"

lemma wit_ct_reports: "reports_changes wit_ct" "ct_Query wit_ct (Some cfg) = Some cfg"
  by (simp_all add: reports_changes_def wit_ct_def)

definition wit_config :: config where
  "wit_config = \<lparr>cfg_clnts = \<lparr>clerks = []\<rparr>, cfg_groups = \<lparr>grps = [(1, wit_sg)]\<rparr>, cfg_net = wit_rn, cfg_rpcs0 = 0, cfg_ops = 0,
     cfg_endName = ''t''\<rparr>"

definition wit_draw :: "int \<Rightarrow> group_draw" where
  "wit_draw gid = (gid, [[''w'', ''x''], [''y'', ''z'']], [([''i'', ''j''], 0), ([''k'', ''l''], 1)])"

lemma wit_config_in: "groups_in wit_config"
  using wit_sg_in by (simp add: groups_in_def wit_config_def lookupGroup_def)

lemma wit_draw_new: "new_draws wit_config [wit_draw gid]"
  by (auto simp: new_draws_def wit_draw_def good_draw_def drawn_def wit_config_def wit_rn_def)

text \<open>One group, and one group per shard.\<close>

definition wit_shards :: "nat \<Rightarrow> shard_config" where
  "wit_shards n = \<lparr>cfgNum = 1, Shards = map (\<lambda>i. int (i mod n) + 1) [0..<NShards],
     cfgGroups = map (\<lambda>i. (int i + 1, server_names (int i + 1) 1)) [0..<n]\<rparr>"

lemma wit_shards_dom: "dom (map_of (cfgGroups (wit_shards n))) = (\<lambda>i. int i + 1) ` {..<n}"
  by (auto simp: wit_shards_def dom_map_of_conv_image_fst image_image)

lemma wit_shards_good: "n = 1 \<or> n = NShards \<Longrightarrow> cfg_good (wit_shards n)"
proof -
  assume n: "n = 1 \<or> n = NShards"
  then have pos: "0 < n" by (auto simp: NShards_def)
  have "cfg_wf (wit_shards n)" by (simp add: cfg_wf_def wit_shards_def comp_def distinct_map inj_on_def)
  moreover have "named_groups (cfgGroups (wit_shards n))" by (auto simp: named_groups_def wit_shards_def)
  moreover have "all_assigned (wit_shards n)" unfolding all_assigned_def wit_shards_dom using pos by (auto simp: wit_shards_def)
  moreover have "balanced (wit_shards n)"
  proof (cases "n = 1")
    case True
    then have "dom (map_of (cfgGroups (wit_shards n))) = {1}" using wit_shards_dom [of n] by (simp add: lessThan_Suc)
    then show ?thesis by (simp add: balanced_def)
  next
    case False
    then have "Shards (wit_shards n) = map (\<lambda>i. int i + 1) [0..<NShards]" using n by (simp add: wit_shards_def)
    then have "distinct (Shards (wit_shards n))" by (simp add: distinct_map inj_on_def)
    then have le: "load (Shards (wit_shards n)) g \<le> 1" for g by (simp add: distinct_count_atmost_1)
    have "load (Shards (wit_shards n)) a \<le> load (Shards (wit_shards n)) b + 1" for a b using le [of a] by linarith
    then show ?thesis by (simp add: balanced_def)
  qed
  moreover have "cfgGroups (wit_shards n) \<noteq> []" using pos by (simp add: wit_shards_def)
  ultimately show ?thesis by (simp add: cfg_good_def)
qed



theorem setupKVService_ready_witness:
  "\<exists>ts' cfg. setupKVService wit_ct [[''w'', ''x''], [''y'', ''z'']] [([''i'', ''j''], 0), ([''k'', ''l''], 1)]
     \<lparr>ts_sck = None, ts_config = wit_config, ts_ngid = 2\<rparr> = Inr (Gid1, ts') \<and> ct_Query wit_ct (ts_sck ts') = Some cfg \<and> cfg_good cfg"
proof -
  have i: "groups_in (ts_config \<lparr>ts_sck = None, ts_config = wit_config, ts_ngid = 2\<rparr>)" using wit_config_in by simp
  have n: "new_draws (ts_config \<lparr>ts_sck = None, ts_config = wit_config, ts_ngid = 2\<rparr>)
      [(Gid1, [[''w'', ''x''], [''y'', ''z'']], [([''i'', ''j''], 0), ([''k'', ''l''], 1)])]"
    using wit_draw_new [of Gid1] by (simp add: wit_draw_def)
  from setupKVService_ready [OF wit_ct_reports(1) i n] show ?thesis by blast
qed

theorem checkShutdownSharding_restores_witness:
  "\<exists>cfg' sg'. checkShutdownSharding 1 2 (replicate 1 '''') [([''e'', ''f''], 0), ([''g'', ''h''], 1)] wit_config = Inr cfg' \<and>
     lookupGroup 1 (cfg_groups cfg') = Some sg' \<and> dc (srvs sg' ! 1) = Some \<lparr>raftstate = ''q'', snapshot = ''s''\<rparr>"
proof -
  have l: "lookupGroup 1 (cfg_groups wit_config) = Some wit_sg" and i: "grp_in wit_sg (cfg_net wit_config)"
    using wit_sg_in by (simp_all add: wit_config_def lookupGroup_def)
  have N: "sg_N wit_sg = 2" "dc (srvs wit_sg ! 1) = Some \<lparr>raftstate = ''q'', snapshot = ''s''\<rparr>" by (simp_all add: wit_sg_def sg_N_def)
  have d: "\<forall>i < sg_N wit_sg. dc (srvs wit_sg ! i) \<noteq> None" unfolding N by (auto simp: wit_sg_def less_2_cases_iff)
  have f: "length [([''e'', ''f''], 0 :: nat), ([''g'', ''h''], 1)] = sg_N wit_sg"
    "fresh_draws (sg_N wit_sg) (cfg_net wit_config) [([''e'', ''f''], 0), ([''g'', ''h''], 1)]"
    unfolding N by (auto simp: fresh_draws_def fresh_names_def wit_config_def wit_rn_def)
  have k: "(1 :: nat) < 2" by simp
  from checkShutdownSharding_restores [OF l i d f k] obtain cfg' sg' where
    "checkShutdownSharding 1 2 (replicate 1 '''') [([''e'', ''f''], 0), ([''g'', ''h''], 1)] wit_config = Inr cfg'"
    "lookupGroup 1 (cfg_groups cfg') = Some sg'" "\<forall>i < sg_N wit_sg. dc (srvs sg' ! i) = dc (srvs wit_sg ! i)" by blast
  then show ?thesis using N by (intro exI [of _ cfg'] exI [of _ sg']) simp
qed

end
