(* ===== verification/ShardChurn.thy ===== *)
theory ShardChurn
  imports ShardTest
begin

text \<open>
  Groups that join and leave while a test runs (\<open>partitionCtrler\<close> and \<open>concurCtrler\<close> of \<open>shardkv1/test.go\<close>): the loop of
  one goroutine, its being cut off in the middle of a join or leave because a group is down, the restart of that
  group, and the recovery by a second controller. As in \<open>ShardTest\<close> the controller is any; that a second one takes
  over what the first stored is the hypothesis \<open>takes_over\<close>. One goroutine is followed at a time; the pauses, the clients
  through which the controllers call, and the Gets at the end of a test are left out.

  Shown: any number of turns gives the groups back as they were; a controller cut off in a join or in a leave is
  recovered to the old groups, with the crashed group running again and its state kept.
\<close>

section \<open>The goroutines\<close>

text \<open>The end names drawn for a new group; its number comes from \<open>newGid\<close>.\<close>

type_synonym start_draw = "string list list \<times> (string list \<times> nat) list"

text \<open>One turn; the flag says whether the group became a member, and then left again.\<close>

definition churn_turn :: "'c ctrler \<Rightarrow> start_draw \<Rightarrow> 'c shard_test \<Rightarrow> (bool \<times> 'c shard_test) result" where
  "churn_turn ct d ts =
     (let (ngid, ts1) = newGid ts
      in res_bind (joinGroups ct [(ngid, d)] (ts_sck ts1, ts_config ts1)) (\<lambda>(_, c1, cfg1).
         res_bind (checkMember ct ngid c1) (\<lambda>ok.
           if ok then res_bind (leaveGroups ct [ngid] (c1, cfg1)) (\<lambda>(_, c2, cfg2).
             Inr (True, ts1\<lparr>ts_sck := c2, ts_config := cfg2\<rparr>))
           else Inr (False, ts1\<lparr>ts_sck := c1, ts_config := cfg1\<rparr>))))"

text \<open>The goroutine of \<open>partitionCtrler\<close> returns when it is deposed.\<close>

fun churn :: "'c ctrler \<Rightarrow> start_draw list \<Rightarrow> 'c shard_test \<Rightarrow> (bool \<times> 'c shard_test) result" where
  "churn ct [] ts = Inr (True, ts)"
| "churn ct (d # ds) ts =
     res_bind (churn_turn ct d ts) (\<lambda>(ok, ts1). if ok then churn ct ds ts1 else Inr (False, ts1))"

text \<open>
  The goroutines of \<open>concurCtrler\<close> make a new controller in every turn, \<open>init\<close> being its \<open>InitController\<close>, and go on
  when a join failed.
\<close>

fun concur_churn :: "'c ctrler \<Rightarrow> ('c \<Rightarrow> 'c) \<Rightarrow> start_draw list \<Rightarrow> 'c shard_test \<Rightarrow> 'c shard_test result" where
  "concur_churn ct init [] ts = Inr ts"
| "concur_churn ct init (d # ds) ts =
     res_bind (churn_turn ct d (ts\<lparr>ts_sck := init (ts_sck ts)\<rparr>)) (\<lambda>(ok, ts1). concur_churn ct init ds ts1)"

section \<open>A controller that is cut off\<close>

text \<open>Where the goroutine is when a group it needs goes down.\<close>

datatype in_flight = JoinOf start_draw | LeaveOf start_draw

text \<open>
  The last turn up to the call of \<open>ChangeConfigTo\<close> that hangs: the state and number that \<open>partitionCtrler\<close> reads, and the change that
  is pending. A goroutine whose group did not become a member has returned in state \<open>JOIN\<close>, with nothing pending.
\<close>

fun cut_off ::
  "'c ctrler \<Rightarrow> in_flight \<Rightarrow> 'c shard_test \<Rightarrow> (ctrler_state \<times> int \<times> ('c \<Rightarrow> 'c result) \<times> 'c shard_test) result" where
  "cut_off ct (JoinOf d) ts =
     (let (ngid, ts1) = newGid ts
      in res_bind (start_group (ngid, d) (ts_config ts1)) (\<lambda>cfg1.
         res_bind (group_names ngid cfg1) (\<lambda>names.
           Inr (JOIN, ngid, join ct ngid names, ts1\<lparr>ts_config := cfg1\<rparr>))))"
| "cut_off ct (LeaveOf d) ts =
     (let (ngid, ts1) = newGid ts
      in res_bind (joinGroups ct [(ngid, d)] (ts_sck ts1, ts_config ts1)) (\<lambda>(_, c1, cfg1).
         res_bind (checkMember ct ngid c1) (\<lambda>ok.
           let ts2 = ts1\<lparr>ts_sck := c1, ts_config := cfg1\<rparr>
           in Inr (if ok then (LEAVE, ngid, leave ct ngid, ts2) else (JOIN, ngid, Inr, ts2)))))"

text \<open>The group goes down and is started again.\<close>

definition crash_group :: "int \<Rightarrow> (string list \<times> nat) list \<Rightarrow> config \<Rightarrow> config result" where
  "crash_group gid draws cfg =
     res_bind (with_group gid sg_Shutdown (cfg_groups cfg, cfg_net cfg)) (\<lambda>st.
     res_bind (with_group gid (StartServers draws) st) (\<lambda>(gs, rn).
       Inr (cfg\<lparr>cfg_groups := gs, cfg_net := rn\<rparr>)))"

text \<open>The new controller: its configuration is checked, and a group that has only joined leaves again.\<close>

definition recover_ctrler :: "'c ctrler \<Rightarrow> int \<Rightarrow> ctrler_state \<Rightarrow> int \<Rightarrow> 'c shard_test \<Rightarrow> 'c shard_test result" where
  "recover_ctrler ct num state ngid ts =
     res_bind (query ct (ts_sck ts)) (\<lambda>cfg.
     res_bind (check_recovery num state ngid cfg) (\<lambda>cleanup.
       if cleanup then res_bind (leaveGroups ct [ngid] (ts_sck ts, ts_config ts)) (\<lambda>(_, c, t).
         Inr (ts\<lparr>ts_sck := c, ts_config := t\<rparr>))
       else Inr ts))"

text \<open>
  \<open>partitionCtrler\<close>: the goroutine has made the turns \<open>ds\<close> and is in \<open>fl\<close> when group \<open>gid\<close> goes down; what is pending
  takes effect with the \<open>InitController\<close> of the second controller, after the group was started again. When the goroutine
  has returned before, nothing is pending.
\<close>

definition partitionCtrler ::
  "'c ctrler \<Rightarrow> ('c \<Rightarrow> 'c) \<Rightarrow> int \<Rightarrow> start_draw list \<Rightarrow> in_flight \<Rightarrow> (string list \<times> nat) list \<Rightarrow> 'c shard_test \<Rightarrow> 'c shard_test result" where
  "partitionCtrler ct init gid ds fl restart ts =
     res_bind (query ct (ts_sck ts)) (\<lambda>cfg.
     res_bind (churn ct ds (ts\<lparr>ts_sck := init (ts_sck ts)\<rparr>)) (\<lambda>(going, ts1).
     res_bind (if going then cut_off ct fl ts1 else Inr (JOIN, ts_ngid ts1 - 1, Inr, ts1)) (\<lambda>(state, ngid, pending, ts2).
     res_bind (crash_group gid restart (ts_config ts2)) (\<lambda>t.
     res_bind (pending (ts_sck ts2)) (\<lambda>c.
       recover_ctrler ct (cfgNum cfg) state ngid (ts2\<lparr>ts_sck := init c, ts_config := t\<rparr>))))))"

section \<open>The state between turns\<close>

text \<open>A second controller reports what the first stored.\<close>

definition takes_over :: "'c ctrler \<Rightarrow> ('c \<Rightarrow> 'c) \<Rightarrow> bool" where
  "takes_over ct init \<longleftrightarrow> (\<forall>c. ct_Query ct (init c) = ct_Query ct c)"

text \<open>The controller reports a balanced configuration with room for a further group, and new numbers are new.\<close>

definition test_in :: "'c ctrler \<Rightarrow> shard_config \<Rightarrow> 'c shard_test \<Rightarrow> bool" where
  "test_in ct cfg ts \<longleftrightarrow> ct_Query ct (ts_sck ts) = Some cfg \<and> cfg_good cfg \<and> groups_in (ts_config ts) \<and>
     length (cfgGroups cfg) < NShards \<and> (\<forall>g \<in> dom (map_of (cfgGroups cfg)). g < ts_ngid ts)"

text \<open>End names for several new groups; the group numbers do not matter.\<close>

abbreviation new_starts :: "config \<Rightarrow> start_draw list \<Rightarrow> bool" where
  "new_starts t ds \<equiv> new_draws t (map (Pair 0) ds)"

lemma drawn_gid: "drawn (gid, d) = drawn (0, d)" and good_draw_gid: "good_draw (gid, d) = good_draw (0, d)"
  by (simp_all add: drawn_def good_draw_def case_prod_beta)

lemma new_starts_Cons: "new_starts t (d # ds) \<Longrightarrow> new_draws t ((gid, d) # map (Pair 0) ds)"
  using drawn_gid [of gid d] good_draw_gid [of gid d] by (simp add: new_draws_def)

lemma test_in_init: "takes_over ct init \<Longrightarrow> test_in ct cfg (ts\<lparr>ts_sck := init (ts_sck ts)\<rparr>) = test_in ct cfg ts"
  by (simp add: takes_over_def test_in_def)

lemma join_new:
  assumes "reports_changes ct" "test_in ct cfg ts" "new_starts (ts_config ts) (d # ds)"
  shows "\<exists>c1 t1 cfg1 sg. start_group (ts_ngid ts, d) (ts_config ts) = Inr t1 \<and> group_names (ts_ngid ts) t1 = Inr (SrvNames sg) \<and>
    join ct (ts_ngid ts) (SrvNames sg) (ts_sck ts) = Inr c1 \<and> joinGroups ct [(ts_ngid ts, d)] (ts_sck ts, ts_config ts) = Inr (True, c1, t1) \<and>
    ct_Query ct c1 = Some cfg1 \<and> cfg_good cfg1 \<and> IsMember (ts_ngid ts) cfg1 \<and> groups_in t1 \<and> new_starts t1 ds \<and>
    cfgGroups cfg1 = cfgGroups cfg @ [group_entry (ts_ngid ts, d)] \<and> cfgNum cfg1 = cfgNum cfg + 1 \<and>
    lookupGroup (ts_ngid ts) (cfg_groups t1) = Some sg \<and>
    (\<forall>h. h \<noteq> ts_ngid ts \<longrightarrow> lookupGroup h (cfg_groups t1) = lookupGroup h (cfg_groups (ts_config ts))) \<and>
    dom (map_of (ends (cfg_net t1))) = dom (map_of (ends (cfg_net (ts_config ts)))) \<union> set (drawn (0, d))"
proof -
  have ti: "ct_Query ct (ts_sck ts) = Some cfg" "cfg_good cfg" "groups_in (ts_config ts)" "length (cfgGroups cfg) < NShards"
    and gid: "fst (ts_ngid ts, d) \<notin> dom (map_of (cfgGroups cfg))"
    using assms(2) by (auto simp: test_in_def)
  from join_step [OF assms(1) ti(1-3) new_starts_Cons [OF assms(3)] gid] obtain c1 t1 cfg1 sg where 1:
    "start_group (ts_ngid ts, d) (ts_config ts) = Inr t1" "group_names (ts_ngid ts) t1 = Inr (SrvNames sg)"
    "join ct (ts_ngid ts) (SrvNames sg) (ts_sck ts) = Inr c1" "ct_Query ct c1 = Some cfg1" "cfg_good cfg1" "groups_in t1" "new_starts t1 ds"
    "cfgGroups cfg1 = cfgGroups cfg @ [group_entry (ts_ngid ts, d)]" "cfgNum cfg1 = cfgNum cfg + 1"
    "lookupGroup (ts_ngid ts) (cfg_groups t1) = Some sg" 
    "\<forall>h. h \<noteq> ts_ngid ts \<longrightarrow> lookupGroup h (cfg_groups t1) = lookupGroup h (cfg_groups (ts_config ts))"
    "dom (map_of (ends (cfg_net t1))) = dom (map_of (ends (cfg_net (ts_config ts)))) \<union> set (drawn (ts_ngid ts, d))"
    by auto
  have "ts_ngid ts \<in> dom (map_of (cfgGroups cfg1))" unfolding 1(8) by (simp add: dom_map_of_conv_image_fst)
  then have m: "IsMember (ts_ngid ts) cfg1" using ti(4) 1(5,8) by (intro all_members) simp_all
  then have "joinGroups ct [(ts_ngid ts, d)] (ts_sck ts, ts_config ts) = Inr (True, c1, t1)"
    using 1(1-4) by (simp add: checkMember_def query_def)
  with 1 m show ?thesis unfolding drawn_gid [of "ts_ngid ts"] by blast
qed

lemma leave_new:
  assumes "reports_changes ct" "ct_Query ct c1 = Some cfg1" "cfg_good cfg1" "groups_in t1"
    and "cfgGroups cfg1 = cfgGroups cfg @ [group_entry (ngid, d)]" "cfg_good cfg" "ngid \<notin> dom (map_of (cfgGroups cfg))"
    and "lookupGroup ngid (cfg_groups t1) \<noteq> None"
  shows "\<exists>c2 t2 cfg2. leaveGroups ct [ngid] (c1, t1) = Inr (True, c2, t2) \<and> ct_Query ct c2 = Some cfg2 \<and> cfg_good cfg2 \<and> groups_in t2 \<and>
    cfgGroups cfg2 = cfgGroups cfg \<and> cfgNum cfg2 = cfgNum cfg1 + 1 \<and> leave ct ngid c1 = Inr c2 \<and> \<not> IsMember ngid cfg2 \<and>
    (\<forall>h. lookupGroup h (cfg_groups t2) = (if h = ngid then None else lookupGroup h (cfg_groups t1))) \<and> ends (cfg_net t2) = ends (cfg_net t1)"
proof -
  have dom: "dom (map_of (cfgGroups cfg1)) = insert ngid (dom (map_of (cfgGroups cfg)))"
    unfolding assms(5) by (simp add: dom_map_of_conv_image_fst)
  have "dom (map_of (cfgGroups cfg)) \<noteq> {}" using assms(6) by (simp add: cfg_good_def)
  then have "set [ngid] \<subseteq> dom (map_of (cfgGroups cfg1))" "dom (map_of (cfgGroups cfg1)) - set [ngid] \<noteq> {}" 
    unfolding dom using assms(7) by auto
  moreover have "\<forall>gid \<in> set [ngid]. lookupGroup gid (cfg_groups t1) \<noteq> None" using assms(8) by simp
  moreover have "distinct [ngid]" by simp
  ultimately obtain c2 t2 cfg2 where 2: "leaveGroups ct [ngid] (c1, t1) = Inr (True, c2, t2)" "ct_Query ct c2 = Some cfg2" "cfg_good cfg2" "groups_in t2"
    "cfgGroups cfg2 = filter (\<lambda>p. fst p \<notin> set [ngid]) (cfgGroups cfg1)" "cfgNum cfg2 = cfgNum cfg1 + int (length [ngid])"
    "\<forall>h. lookupGroup h (cfg_groups t2) = (if h \<in> set [ngid] then None else lookupGroup h (cfg_groups t1))" "ends (cfg_net t2) = ends (cfg_net t1)"
    using leaveGroups_effect [OF assms(1-4), of "[ngid]"] by (simp del: leaveGroups.simps list.set list.size) blast
  have same: "cfgGroups cfg2 = cfgGroups cfg"
    unfolding 2(5) assms(5) using assms(7) by (auto simp: filter_id_conv dom_map_of_conv_image_fst)
  then have "\<not> IsMember ngid cfg2" using not_member [OF 2(3)] assms(7) by simp
  moreover have "leave ct ngid c1 = Inr c2" using 2(1) by (auto split: if_splits)
  ultimately show ?thesis using 2 same by (intro exI [of _ c2] exI [of _ t2] exI [of _ cfg2]) (simp del: leaveGroups.simps)
qed

section \<open>Turns\<close>

lemma churn_turn_effect:
  assumes "reports_changes ct" "test_in ct cfg ts" "new_starts (ts_config ts) (d # ds)"
  shows "\<exists>ts' cfg'. churn_turn ct d ts = Inr (True, ts') \<and> test_in ct cfg' ts' \<and> new_starts (ts_config ts') ds \<and>
    cfgGroups cfg' = cfgGroups cfg \<and> cfgNum cfg' = cfgNum cfg + 2 \<and> ts_ngid ts' = ts_ngid ts + 1 \<and>
    (\<forall>h. lookupGroup h (cfg_groups (ts_config ts')) = (if h = ts_ngid ts then None else lookupGroup h (cfg_groups (ts_config ts)))) \<and>
    dom (map_of (ends (cfg_net (ts_config ts')))) = dom (map_of (ends (cfg_net (ts_config ts)))) \<union> set (drawn (0, d))"
proof -
  let ?n = "ts_ngid ts"
  have ti: "cfg_good cfg" "length (cfgGroups cfg) < NShards" "\<forall>g \<in> dom (map_of (cfgGroups cfg)). g < ?n" "?n \<notin> dom (map_of (cfgGroups cfg))"
    using assms(2) by (auto simp: test_in_def)
  from join_new [OF assms] obtain c1 t1 cfg1 sg where 1: "joinGroups ct [(?n, d)] (ts_sck ts, ts_config ts) = Inr (True, c1, t1)"
    "ct_Query ct c1 = Some cfg1" "cfg_good cfg1" "groups_in t1" "IsMember ?n cfg1" "new_starts t1 ds"
    "cfgGroups cfg1 = cfgGroups cfg @ [group_entry (?n, d)]" "cfgNum cfg1 = cfgNum cfg + 1" "lookupGroup ?n (cfg_groups t1) = Some sg"
    "\<forall>h. h \<noteq> ?n \<longrightarrow> lookupGroup h (cfg_groups t1) = lookupGroup h (cfg_groups (ts_config ts))"
    "dom (map_of (ends (cfg_net t1))) = dom (map_of (ends (cfg_net (ts_config ts)))) \<union> set (drawn (0, d))" by blast
  from leave_new [OF assms(1) 1(2-4,7) ti(1,4)] 1(9) obtain c2 t2 cfg2 where 2: "leaveGroups ct [?n] (c1, t1) = Inr (True, c2, t2)"
    "ct_Query ct c2 = Some cfg2" "cfg_good cfg2" "groups_in t2" "cfgGroups cfg2 = cfgGroups cfg" "cfgNum cfg2 = cfgNum cfg1 + 1"
    "\<forall>h. lookupGroup h (cfg_groups t2) = (if h = ?n then None else lookupGroup h (cfg_groups t1))" "ends (cfg_net t2) = ends (cfg_net t1)"
    by (auto simp del: leaveGroups.simps)
  define ts' where "ts' = ts\<lparr>ts_sck := c2, ts_config := t2, ts_ngid := ?n + 1\<rparr>"
  have "churn_turn ct d ts = Inr (True, ts')"
    using 1(1,2,5) 2(1) by (simp add: churn_turn_def newGid_def checkMember_def query_def ts'_def del: joinGroups.simps leaveGroups.simps)
  moreover have "\<forall>g \<in> dom (map_of (cfgGroups cfg)). g < ?n + 1" using ti(3) by (meson zless_add1_eq)
  then have "test_in ct cfg2 ts'" using 2(2-5) ti(2) by (simp add: test_in_def ts'_def)
  moreover have "new_starts t2 ds" using 1(6) 2(8) by (simp add: new_draws_def)
  ultimately show ?thesis using 1(8,10,11) 2(5-8) by (intro exI [of _ ts'] exI [of _ cfg2]) (simp add: ts'_def)
qed

text \<open>What any number of turns leaves: the groups as they were, and the numbers and end names used up.\<close>

definition turned :: "'c ctrler \<Rightarrow> start_draw list \<Rightarrow> shard_config \<Rightarrow> 'c shard_test \<Rightarrow> shard_config \<Rightarrow> 'c shard_test \<Rightarrow> bool" where
  "turned ct ds cfg ts cfg' ts' \<longleftrightarrow> test_in ct cfg' ts' \<and> cfgGroups cfg' = cfgGroups cfg \<and> cfgNum cfg' = cfgNum cfg + 2 * int (length ds) \<and>
     ts_ngid ts' = ts_ngid ts + int (length ds) \<and>
     (\<forall>h < ts_ngid ts. lookupGroup h (cfg_groups (ts_config ts')) = lookupGroup h (cfg_groups (ts_config ts))) \<and>
     (\<forall>h. ts_ngid ts \<le> h \<and> h < ts_ngid ts' \<longrightarrow> lookupGroup h (cfg_groups (ts_config ts')) = None) \<and>
     dom (map_of (ends (cfg_net (ts_config ts')))) = dom (map_of (ends (cfg_net (ts_config ts)))) \<union> set (concat (map (drawn \<circ> Pair 0) ds))"

lemma turned_Nil: "test_in ct cfg ts \<Longrightarrow> turned ct [] cfg ts cfg ts"
  by (auto simp: turned_def)

lemma turned_Cons:
  assumes "cfgGroups cfg1 = cfgGroups cfg" "cfgNum cfg1 = cfgNum cfg + 2" "ts_ngid ts1 = ts_ngid ts + 1"
    and "\<forall>h. lookupGroup h (cfg_groups (ts_config ts1)) = (if h = ts_ngid ts then None else lookupGroup h (cfg_groups (ts_config ts)))"
    and "dom (map_of (ends (cfg_net (ts_config ts1)))) = dom (map_of (ends (cfg_net (ts_config ts)))) \<union> set (drawn (0, d))"
    and "turned ct ds cfg1 ts1 cfg' ts'"
  shows "turned ct (d # ds) cfg ts cfg' ts'"
proof -
  note t = assms(6) [unfolded turned_def assms(3)]
  have "lookupGroup h (cfg_groups (ts_config ts')) = None" if "ts_ngid ts \<le> h" "h < ts_ngid ts'" for h
  proof (cases "h = ts_ngid ts")
    case True
    then show ?thesis using t assms(4) by simp
  next
    case False
    then show ?thesis using t that by simp
  qed
  with t show ?thesis using assms(1,2,4,5) by (simp add: turned_def Un_assoc)
qed

lemma churn_effect:
  assumes "reports_changes ct" "test_in ct cfg ts" "new_starts (ts_config ts) (ds @ es)"
  shows "\<exists>ts' cfg'. churn ct ds ts = Inr (True, ts') \<and> turned ct ds cfg ts cfg' ts' \<and> new_starts (ts_config ts') es"
  using assms(2,3)
proof (induction ds arbitrary: cfg ts)
  case (Cons d ds)
  from churn_turn_effect [OF assms(1) Cons.prems(1), of d "ds @ es"] Cons.prems(2) obtain ts1 cfg1 where 1:
    "churn_turn ct d ts = Inr (True, ts1)" "test_in ct cfg1 ts1" "new_starts (ts_config ts1) (ds @ es)"
    "cfgGroups cfg1 = cfgGroups cfg" "cfgNum cfg1 = cfgNum cfg + 2" "ts_ngid ts1 = ts_ngid ts + 1"
    "\<forall>h. lookupGroup h (cfg_groups (ts_config ts1)) = (if h = ts_ngid ts then None else lookupGroup h (cfg_groups (ts_config ts)))"
    "dom (map_of (ends (cfg_net (ts_config ts1)))) = dom (map_of (ends (cfg_net (ts_config ts)))) \<union> set (drawn (0, d))" by auto
  from Cons.IH [OF 1(2,3)] obtain ts' cfg' where 2: "churn ct ds ts1 = Inr (True, ts')" "turned ct ds cfg1 ts1 cfg' ts'" "new_starts (ts_config ts') es"
    by blast
  have "turned ct (d # ds) cfg ts cfg' ts'" using 1(4-8) 2(2) by (rule turned_Cons)
  then show ?case using 1(1) 2(1,3) by auto
qed (auto intro: turned_Nil)

lemma concur_churn_effect:
  assumes "reports_changes ct" "takes_over ct init" "test_in ct cfg ts" "new_starts (ts_config ts) ds"
  shows "\<exists>ts' cfg'. concur_churn ct init ds ts = Inr ts' \<and> turned ct ds cfg ts cfg' ts'"
  using assms(3,4)
proof (induction ds arbitrary: cfg ts)
  case (Cons d ds)
  let ?ts = "ts\<lparr>ts_sck := init (ts_sck ts)\<rparr>"
  have "test_in ct cfg ?ts" using Cons.prems(1) test_in_init [OF assms(2)] by blast
  from churn_turn_effect [OF assms(1) this, of d ds] Cons.prems(2) obtain ts1 cfg1 where 1:
    "churn_turn ct d ?ts = Inr (True, ts1)" "test_in ct cfg1 ts1" "new_starts (ts_config ts1) ds"
    "cfgGroups cfg1 = cfgGroups cfg" "cfgNum cfg1 = cfgNum cfg + 2" "ts_ngid ts1 = ts_ngid ts + 1"
    "\<forall>h. lookupGroup h (cfg_groups (ts_config ts1)) = (if h = ts_ngid ts then None else lookupGroup h (cfg_groups (ts_config ts)))"
    "dom (map_of (ends (cfg_net (ts_config ts1)))) = dom (map_of (ends (cfg_net (ts_config ts)))) \<union> set (drawn (0, d))" by auto
  from Cons.IH [OF 1(2,3)] obtain ts' cfg' where 2: "concur_churn ct init ds ts1 = Inr ts'" "turned ct ds cfg1 ts1 cfg' ts'"
    by blast
  have "turned ct (d # ds) cfg ts cfg' ts'" using 1(4-8) 2(2) by (rule turned_Cons)
  then show ?case using 1(1) 2(1) by auto
qed (auto intro: turned_Nil)

section \<open>The group that goes down\<close>

lemma crash_group_effect:
  assumes "groups_in t" "lookupGroup gid (cfg_groups t) = Some sg" "\<forall>i < sg_N sg. dc (srvs sg ! i) \<noteq> None"
    and "length draws = sg_N sg" "fresh_draws (sg_N sg) (cfg_net t) draws"
  shows "\<exists>t' sg'. crash_group gid draws t = Inr t' \<and> groups_in t' \<and> lookupGroup gid (cfg_groups t') = Some sg' \<and>
    (\<forall>i < sg_N sg. dc (srvs sg' ! i) = dc (srvs sg ! i)) \<and>
    (\<forall>h. h \<noteq> gid \<longrightarrow> lookupGroup h (cfg_groups t') = lookupGroup h (cfg_groups t))"
proof -
  have all: "\<forall>i \<in> set (sg_all sg). i < sg_N sg" "length draws = length (sg_all sg)" "set (sg_all sg) = {..<sg_N sg}"
    using assms(4) by (auto simp: sg_all_def sg_N_def)
  have "grp_in sg (cfg_net t)" using assms(1,2) by (simp add: groups_in_def)
  from Kill_effect [OF this all(1)] obtain sg1 rn1 where 1: "sg_Kill (sg_all sg) (sg, cfg_net t) = Inr (sg1, rn1)" "grp_in sg1 rn1"
    "srvs sg1 = map (\<lambda>i. if i \<in> set (sg_all sg) then shutdownServer (srvs sg ! i) else srvs sg ! i) [0..<sg_N sg]" "ends rn1 = ends (cfg_net t)" by blast
  have N: "sg_N sg1 = sg_N sg" "sg_all sg1 = sg_all sg" using 1(3) by (simp_all add: sg_N_def sg_all_def)
  have f: "fresh_draws (sg_N sg1) rn1 draws" using assms(5) 1(4) N by (simp add: fresh_draws_def fresh_names_def)
  from StartSrvs_effect [OF 1(2) all(1,2) [folded N] f] obtain sg2 rn2 where 2: "StartSrvs (zip (sg_all sg1) draws) (sg1, rn1) = Inr (sg2, rn2)"
    "grp_in sg2 rn2" "\<forall>i < sg_N sg1. dc (srvs sg2 ! i) = (if i \<in> set (sg_all sg1) then Some (restored (srvs sg1 ! i)) else dc (srvs sg1 ! i))" by blast
  obtain sg' rn' where 3: "sg_ConnectAll (sg2, rn2) = Inr (sg', rn')" "grp_like sg2 sg'"
    using 2(2) ConnectAll_links [of sg2 rn2] by (auto simp: grp_in_def)
  have e: "ends rn' = ends rn2" using connect_list_frame [of _ sg2 rn2 sg' rn'] 3(1) by (auto simp: sg_ConnectAll_def)
  have sub: "dom (map_of (ends (cfg_net t))) \<subseteq> dom (map_of (ends rn'))"
    using StartSrvs_dom [OF 2(1)] all(2) N(2) e 1(4) by auto
  define t' where "t' = t\<lparr>cfg_groups := (cfg_groups t)\<lparr>grps := gm_put gid sg' (gm_put gid sg1 (grps (cfg_groups t)))\<rparr>, cfg_net := rn'\<rparr>"
  have "crash_group gid draws t = Inr t'"
    using assms(2) 1(1) 2(1) 3(1) by (simp add: crash_group_def with_group_def sg_Shutdown_def StartServers_def lookupGroup_def t'_def)
  moreover have look: "lookupGroup h (cfg_groups t') = (if h = gid then Some sg' else lookupGroup h (cfg_groups t))" for h
    by (simp add: t'_def lookupGroup_def)
  moreover have "grp_in sg' rn'" using 2(2) 3(2) e by (simp add: grp_in_def grp_like_def sg_N_def)
  then have "groups_in t'" using assms(1) look grp_in_more_ends [OF _ sub] by (auto simp: groups_in_def t'_def split: if_splits)
  moreover have "dc (srvs sg' ! i) = dc (srvs sg ! i)" if "i < sg_N sg" for i
    using that 2(3) 3(2) N 1(3) all(3) assms(3) by (auto simp: grp_like_def restored_def shutdownServer_def)
  ultimately show ?thesis by (intro exI [of _ t'] exI [of _ sg']) simp
qed

section \<open>Recovery\<close>

text \<open>The end names for the restart of the group are new as well.\<close>

definition new_restart :: "(string list \<times> nat) list \<Rightarrow> start_draw list \<Rightarrow> server_grp \<Rightarrow> config \<Rightarrow> bool" where
  "new_restart restart ds sg t \<longleftrightarrow> length restart = sg_N sg \<and> fresh_draws (sg_N sg) (cfg_net t) restart \<and>
     set (concat (map fst restart)) \<inter> set (concat (map (drawn \<circ> Pair 0) ds)) = {}"

lemma new_restart_later:
  assumes "new_restart restart (ds @ es) sg t"
    and "dom (map_of (ends (cfg_net t'))) = dom (map_of (ends (cfg_net t))) \<union> set (concat (map (drawn \<circ> Pair 0) ds))"
  shows "new_restart restart es sg t'"
proof -
  let ?N = "set (concat (map fst restart))"
  have "?N \<inter> dom (map_of (ends (cfg_net t'))) = {}" "?N \<inter> set (concat (map (drawn \<circ> Pair 0) es)) = {}"
    unfolding assms(2) using assms(1) by (simp_all add: new_restart_def fresh_draws_def fresh_names_def Int_Un_distrib)
  then show ?thesis using assms(1) by (simp add: new_restart_def fresh_draws_def fresh_names_def)
qed

text \<open>
  The turns, the join of one more group, and the crash: the pending join, and the tester's groups after the
  restart, with the new one among them.
\<close>

lemma churn_join_crash:
  assumes "reports_changes ct" "test_in ct cfg ts" "new_starts (ts_config ts) (ds @ [d])"
    and "lookupGroup gid (cfg_groups (ts_config ts)) = Some sg" "gid < ts_ngid ts" "\<forall>i < sg_N sg. dc (srvs sg ! i) \<noteq> None"
    and "new_restart restart (ds @ [d]) sg (ts_config ts)"
  shows "\<exists>ts1 c2 t2 cfg2 srvnames t3 sg'. churn ct ds ts = Inr (True, ts1) \<and>
    start_group (ts_ngid ts1, d) (ts_config ts1) = Inr t2 \<and> group_names (ts_ngid ts1) t2 = Inr srvnames \<and>
    join ct (ts_ngid ts1) srvnames (ts_sck ts1) = Inr c2 \<and>
    joinGroups ct [(ts_ngid ts1, d)] (ts_sck ts1, ts_config ts1) = Inr (True, c2, t2) \<and>
    ct_Query ct c2 = Some cfg2 \<and> cfg_good cfg2 \<and> IsMember (ts_ngid ts1) cfg2 \<and>
    cfgGroups cfg2 = cfgGroups cfg @ [group_entry (ts_ngid ts1, d)] \<and> cfgNum cfg2 = cfgNum cfg + 2 * int (length ds) + 1 \<and>
    ts_ngid ts \<le> ts_ngid ts1 \<and> crash_group gid restart t2 = Inr t3 \<and> groups_in t3 \<and> lookupGroup gid (cfg_groups t3) = Some sg' \<and>
    (\<forall>i < sg_N sg. dc (srvs sg' ! i) = dc (srvs sg ! i)) \<and> lookupGroup (ts_ngid ts1) (cfg_groups t3) \<noteq> None \<and>
    (\<forall>h < ts_ngid ts. h \<noteq> gid \<longrightarrow> lookupGroup h (cfg_groups t3) = lookupGroup h (cfg_groups (ts_config ts)))"
proof -
  from churn_effect [OF assms(1-3)] obtain ts1 cfg1 where 1: "churn ct ds ts = Inr (True, ts1)" "turned ct ds cfg ts cfg1 ts1"
    "new_starts (ts_config ts1) [d]" by blast
  have ti: "test_in ct cfg1 ts1" "ts_ngid ts \<le> ts_ngid ts1" "cfgGroups cfg1 = cfgGroups cfg" "cfgNum cfg1 = cfgNum cfg + 2 * int (length ds)"
    and same: "\<And>h. h < ts_ngid ts \<Longrightarrow> lookupGroup h (cfg_groups (ts_config ts1)) = lookupGroup h (cfg_groups (ts_config ts))"
    and dom: "dom (map_of (ends (cfg_net (ts_config ts1)))) =
      dom (map_of (ends (cfg_net (ts_config ts)))) \<union> set (concat (map (drawn \<circ> Pair 0) ds))"
    using 1(2) by (simp_all add: turned_def)
  from join_new [OF assms(1) ti(1) 1(3)] obtain c2 t2 cfg2 sgn where 2:
    "start_group (ts_ngid ts1, d) (ts_config ts1) = Inr t2" "group_names (ts_ngid ts1) t2 = Inr (SrvNames sgn)"
    "join ct (ts_ngid ts1) (SrvNames sgn) (ts_sck ts1) = Inr c2" "joinGroups ct [(ts_ngid ts1, d)] (ts_sck ts1, ts_config ts1) = Inr (True, c2, t2)"
    "ct_Query ct c2 = Some cfg2" "cfg_good cfg2" "IsMember (ts_ngid ts1) cfg2" "groups_in t2"
    "cfgGroups cfg2 = cfgGroups cfg1 @ [group_entry (ts_ngid ts1, d)]" "cfgNum cfg2 = cfgNum cfg1 + 1"
    "lookupGroup (ts_ngid ts1) (cfg_groups t2) = Some sgn"
    "\<forall>h. h \<noteq> ts_ngid ts1 \<longrightarrow> lookupGroup h (cfg_groups t2) = lookupGroup h (cfg_groups (ts_config ts1))"
    "dom (map_of (ends (cfg_net t2))) = dom (map_of (ends (cfg_net (ts_config ts1)))) \<union> set (drawn (0, d))" by blast
  have old: "lookupGroup h (cfg_groups t2) = lookupGroup h (cfg_groups (ts_config ts))" if "h < ts_ngid ts" for h
    using that same [OF that] 2(12) ti(2) by simp
  have "dom (map_of (ends (cfg_net t2))) = dom (map_of (ends (cfg_net (ts_config ts)))) \<union> set (concat (map (drawn \<circ> Pair 0) (ds @ [d])))"
    unfolding 2(13) dom by (simp add: Un_assoc)
  with assms(7) have "new_restart restart [] sg t2" using new_restart_later [of restart "ds @ [d]" "[]" sg "ts_config ts" t2] by simp
  then have r: "length restart = sg_N sg" "fresh_draws (sg_N sg) (cfg_net t2) restart" by (simp_all add: new_restart_def)
  from crash_group_effect [OF 2(8) _ assms(6) r, of gid] old [OF assms(5)] assms(4) obtain t3 sg' where 3: "crash_group gid restart t2 = Inr t3"
    "groups_in t3" "lookupGroup gid (cfg_groups t3) = Some sg'" "\<forall>i < sg_N sg. dc (srvs sg' ! i) = dc (srvs sg ! i)"
    "\<forall>h. h \<noteq> gid \<longrightarrow> lookupGroup h (cfg_groups t3) = lookupGroup h (cfg_groups t2)" by auto
  have "lookupGroup (ts_ngid ts1) (cfg_groups t3) \<noteq> None" using 3(5) 2(11) assms(5) ti(2) by simp
  moreover have "\<forall>h < ts_ngid ts. h \<noteq> gid \<longrightarrow> lookupGroup h (cfg_groups t3) = lookupGroup h (cfg_groups (ts_config ts))" using 3(5) old by simp
  moreover have "cfgGroups cfg2 = cfgGroups cfg @ [group_entry (ts_ngid ts1, d)]" "cfgNum cfg2 = cfgNum cfg + 2 * int (length ds) + 1"
    using 2(9,10) ti(3,4) by simp_all
  ultimately show ?thesis using 1(1) 2(1-7) 3(1-4) ti(2)
    by (intro exI [of _ ts1] exI [of _ c2] exI [of _ t2] exI [of _ cfg2] exI [of _ "SrvNames sgn"] exI [of _ t3] exI [of _ sg'])
       (simp del: joinGroups.simps)
qed

section \<open>Properties\<close>

text \<open>
  A controller that goes on joining and leaving does no harm. Every turn of a goroutine of \<open>partitionCtrler\<close> or of
  \<open>concurCtrler\<close>, with a new controller each time, succeeds; after any number of them the configuration has the same groups, balanced, with its number
  raised by two per turn, the tester's old groups are unchanged and none of the new ones is left.
\<close>
theorem churn_harmless:
  assumes "reports_changes ct" "takes_over ct init" "test_in ct cfg ts" "new_starts (ts_config ts) ds"
  shows "\<exists>ts1 cfg1. churn ct ds ts = Inr (True, ts1) \<and> turned ct ds cfg ts cfg1 ts1"
    and "\<exists>ts1 cfg1. concur_churn ct init ds ts = Inr ts1 \<and> turned ct ds cfg ts cfg1 ts1"
  using churn_effect [OF assms(1,3), of ds "[]"] concur_churn_effect [OF assms] assms(4) by auto


section \<open>Witnesses\<close>

definition wit_test :: "shard_config option shard_test" where
  "wit_test = \<lparr>ts_sck = Some (wit_shards 1), ts_config = wit_config, ts_ngid = 2\<rparr>"

definition wit_start :: start_draw where "wit_start = snd (wit_draw 0)"

lemma wit_test_in: "test_in wit_ct (wit_shards 1) wit_test"
proof -
  have "\<forall>g \<in> dom (map_of (cfgGroups (wit_shards 1))). g < ts_ngid wit_test" unfolding wit_shards_dom by (auto simp: wit_test_def)
  moreover have "length (cfgGroups (wit_shards 1)) < NShards" by (simp add: wit_shards_def NShards_def)
  ultimately show ?thesis using wit_shards_good [of 1] wit_config_in wit_ct_reports(2) by (simp add: test_in_def wit_test_def)
qed

lemma wit_start_new: "new_starts (ts_config wit_test) ([] @ [wit_start])"
  using wit_draw_new [of 0] by (simp add: wit_start_def wit_draw_def wit_test_def)

lemma wit_takes_over: "takes_over wit_ct id" by (simp add: takes_over_def)

theorem churn_harmless_witness: "\<exists>ts1 cfg1. churn wit_ct [wit_start] wit_test = Inr (True, ts1) \<and> turned wit_ct [wit_start] (wit_shards 1) wit_test cfg1 ts1"
  using churn_harmless(1) [OF wit_ct_reports(1) wit_takes_over wit_test_in, of "[wit_start]"] wit_start_new by simp


end
