(* ===== verification/KvServer.thy ===== *)
theory KvServer
  imports Prelude
begin

text \<open>
  The key/value server of lab 2: the RPC types of \<open>kvsrv1/rpc/rpc.go\<close> and the server of
  \<open>kvsrv1/server.go\<close>, whose conditional Put is the one primitive the clerk and the lock are
  built on. The handlers run under \<open>kv.mu\<close>, so each is one atomic step on the store.

  The contract the clients rely on is the locale \<open>versioned_store\<close>: a Put is applied exactly
  when its version is the key's generation (0 for a missing key), and then the generation
  grows by one. The client facts (one winner per version, a key never disappears, the
  generation counts the successful Puts) are proved in the locale and reach the server by
  its interpretation.
\<close>

section \<open>rpc.go\<close>

text \<open>\<open>Err\<close> is a string type; \<open>NoErr\<close> is its zero value, the empty string.\<close>

datatype err = OK | ErrNoKey | ErrVersion | ErrMaybe | ErrWrongLeader | ErrWrongGroup | NoErr

fun err_string :: "err \<Rightarrow> string" where
  "err_string OK = ''OK''"
| "err_string ErrNoKey = ''ErrNoKey''"
| "err_string ErrVersion = ''ErrVersion''"
| "err_string ErrMaybe = ''ErrMaybe''"
| "err_string ErrWrongLeader = ''ErrWrongLeader''"
| "err_string ErrWrongGroup = ''ErrWrongGroup''"
| "err_string NoErr = ''''"

type_synonym tversion = "64 word"

record put_args =
  pa_Key :: string
  pa_Value :: string
  pa_Version :: tversion

record put_reply =
  pr_Err :: err

record get_args =
  ga_Key :: string

record get_reply =
  gr_Value :: string
  gr_Version :: tversion
  gr_Err :: err

text \<open>The zero values a reply starts from.\<close>

definition zero_put_reply :: put_reply where
  "zero_put_reply = \<lparr>pr_Err = NoErr\<rparr>"

definition zero_get_reply :: get_reply where
  "zero_get_reply = \<lparr>gr_Value = '''', gr_Version = 0, gr_Err = NoErr\<rparr>"

section \<open>server.go\<close>

record kv_entry =
  e_Value :: string
  e_Version :: tversion

record kv_server =
  KVStore :: "string \<rightharpoonup> kv_entry"

definition MakeKVServer :: kv_server where
  "MakeKVServer = \<lparr>KVStore = Map.empty\<rparr>"

definition kv_Get :: "kv_server \<Rightarrow> get_args \<Rightarrow> get_reply \<Rightarrow> get_reply" where
  "kv_Get kv args reply =
     (case KVStore kv (ga_Key args) of
        None \<Rightarrow> reply\<lparr>gr_Err := ErrNoKey\<rparr>
      | Some value \<Rightarrow>
          reply\<lparr>gr_Value := e_Value value, gr_Version := e_Version value, gr_Err := OK\<rparr>)"

definition kv_Put :: "kv_server \<Rightarrow> put_args \<Rightarrow> put_reply \<Rightarrow> kv_server \<times> put_reply" where
  "kv_Put kv args reply =
     (case KVStore kv (pa_Key args) of
        None \<Rightarrow>
          (if pa_Version args = 0
           then (kv\<lparr>KVStore := (KVStore kv)
                   (pa_Key args \<mapsto> \<lparr>e_Value = pa_Value args, e_Version = 1\<rparr>)\<rparr>,
                 reply\<lparr>pr_Err := OK\<rparr>)
           else (kv, reply\<lparr>pr_Err := ErrNoKey\<rparr>))
      | Some value \<Rightarrow>
          (if pa_Version args \<noteq> e_Version value
           then (kv, reply\<lparr>pr_Err := ErrVersion\<rparr>)
           else (kv\<lparr>KVStore := (KVStore kv)
                   (pa_Key args \<mapsto> \<lparr>e_Value = pa_Value args, e_Version = e_Version value + 1\<rparr>)\<rparr>,
                 reply\<lparr>pr_Err := OK\<rparr>)))"

text \<open>What a client can see of a key, and the generation its next Put has to name.\<close>

definition kv_lookup :: "kv_server \<Rightarrow> string \<Rightarrow> (string \<times> tversion) option" where
  "kv_lookup kv k = map_option (\<lambda>e. (e_Value e, e_Version e)) (KVStore kv k)"

definition kv_put :: "kv_server \<Rightarrow> put_args \<Rightarrow> kv_server \<times> err" where
  "kv_put kv a = (let (kv', r) = kv_Put kv a zero_put_reply in (kv', pr_Err r))"

definition generation :: "('s \<Rightarrow> string \<Rightarrow> (string \<times> tversion) option) \<Rightarrow> 's \<Rightarrow> string \<Rightarrow> tversion" where
  "generation lookup s k = (case lookup s k of None \<Rightarrow> 0 | Some (v, ver) \<Rightarrow> ver)"

text \<open>How many of the Puts to a key succeeded.\<close>

fun wins :: "string \<Rightarrow> put_args list \<Rightarrow> err list \<Rightarrow> nat" where
  "wins k (a # as) (e # es) = (if pa_Key a = k \<and> e = OK then 1 else 0) + wins k as es"
| "wins k _ _ = 0"

text \<open>
  The store a sequence of Put requests leaves, and the reply each of them gets, in the order
  in which the handlers take the store's mutex.
\<close>

fun store_run :: "('s \<Rightarrow> put_args \<Rightarrow> 's \<times> err) \<Rightarrow> 's \<Rightarrow> put_args list \<Rightarrow> 's \<times> err list" where
  "store_run put s [] = (s, [])"
| "store_run put s (a # as) =
     (let (s', e) = put s a; (s'', es) = store_run put s' as in (s'', e # es))"

text \<open>The value of the last Put to a key that succeeded.\<close>

fun last_win :: "string \<Rightarrow> string option \<Rightarrow> put_args list \<Rightarrow> err list \<Rightarrow> string option" where
  "last_win k v (a # as) (e # es) =
     last_win k (if pa_Key a = k \<and> e = OK then Some (pa_Value a) else v) as es"
| "last_win k v _ _ = v"

section \<open>The contract of a versioned store\<close>

locale versioned_store =
  fixes lookup :: "'s \<Rightarrow> string \<Rightarrow> (string \<times> tversion) option"
    and put :: "'s \<Rightarrow> put_args \<Rightarrow> 's \<times> err"
  assumes put_hit: "generation lookup s (pa_Key a) = pa_Version a \<Longrightarrow>
      snd (put s a) = OK \<and>
      lookup (fst (put s a)) = (lookup s)(pa_Key a \<mapsto> (pa_Value a, pa_Version a + 1))"
    and put_miss: "generation lookup s (pa_Key a) \<noteq> pa_Version a \<Longrightarrow>
      put s a = (s, if lookup s (pa_Key a) = None then ErrNoKey else ErrVersion)"
begin

abbreviation gen :: "'s \<Rightarrow> string \<Rightarrow> tversion" where
  "gen s k \<equiv> generation lookup s k"

lemma put_OK_iff: "(snd (put s a) = OK) = (gen s (pa_Key a) = pa_Version a)"
  using put_hit [of s a] put_miss [of s a] by (cases "gen s (pa_Key a) = pa_Version a") auto

lemma put_error: "snd (put s a) \<in> {OK, ErrNoKey, ErrVersion}"
  using put_hit [of s a] put_miss [of s a] by (cases "gen s (pa_Key a) = pa_Version a") auto

lemma put_key_stays: "lookup s k \<noteq> None \<Longrightarrow> lookup (fst (put s a)) k \<noteq> None"
  using put_hit [of s a] put_miss [of s a] by (cases "gen s (pa_Key a) = pa_Version a") auto

lemma gen_put:
  "gen (fst (put s a)) k = gen s k + (if pa_Key a = k \<and> snd (put s a) = OK then 1 else 0)"
proof (cases "gen s (pa_Key a) = pa_Version a")
  case True
  then show ?thesis using put_hit [OF True] by (auto simp: generation_def)
next
  case False
  then show ?thesis using put_miss [OF False] by auto
qed

lemma run_Cons:
  "store_run put s (a # as) =
     (fst (store_run put (fst (put s a)) as), snd (put s a) # snd (store_run put (fst (put s a)) as))"
  by (simp add: case_prod_beta Let_def)

lemma run_key_stays: "lookup s k \<noteq> None \<Longrightarrow> lookup (fst (store_run put s as)) k \<noteq> None"
proof (induction as arbitrary: s)
  case (Cons a as)
  from Cons.prems have "lookup (fst (put s a)) k \<noteq> None" by (rule put_key_stays)
  from Cons.IH [OF this] show ?case by (simp only: run_Cons fst_conv simp_thms)
qed simp

lemma gen_run: "gen (fst (store_run put s as)) k = gen s k + of_nat (wins k as (snd (store_run put s as)))"
proof (induction as arbitrary: s)
  case (Cons a as)
  show ?case
    using Cons.IH [of "fst (put s a)"] gen_put [of s a k]
    by (simp add: run_Cons del: store_run.simps)
qed simp

lemma value_put:
  "map_option fst (lookup (fst (put s a)) k) =
     (if pa_Key a = k \<and> snd (put s a) = OK then Some (pa_Value a) else map_option fst (lookup s k))"
proof (cases "gen s (pa_Key a) = pa_Version a")
  case True
  then show ?thesis using put_hit [OF True] by auto
next
  case False
  then show ?thesis using put_miss [OF False] by auto
qed

lemma value_run:
  "map_option fst (lookup (fst (store_run put s as)) k) =
     last_win k (map_option fst (lookup s k)) as (snd (store_run put s as))"
proof (induction as arbitrary: s)
  case (Cons a as)
  show ?case
    using Cons.IH [of "fst (put s a)"] value_put [of s a k]
    by (simp add: run_Cons del: store_run.simps)
qed simp

lemma wins_le: "wins k as es \<le> length as"
  by (induction k as es rule: wins.induct) auto

text \<open>
  One winner per version: once a Put of a version has succeeded, a second Put of the same
  version to the same key fails, as long as fewer than \<open>2^64\<close> Puts lie between.
\<close>

lemma second_put_fails:
  assumes "snd (put s a) = OK" "pa_Key b = pa_Key a" "pa_Version b = pa_Version a"
    and "length as < 2 ^ 64 - 1"
  shows "snd (put (fst (store_run put (fst (put s a)) as)) b) = ErrVersion"
proof -
  let ?s = "fst (store_run put (fst (put s a)) as)"
  let ?w = "wins (pa_Key a) as (snd (store_run put (fst (put s a)) as))"
  have "gen ?s (pa_Key a) = pa_Version a + of_nat (Suc ?w)"
    using gen_run [of "fst (put s a)" as "pa_Key a"] gen_put [of s a "pa_Key a"] assms(1)
      put_OK_iff [of s a] by simp
  moreover have "of_nat (Suc ?w) \<noteq> (0 :: tversion)"
  proof
    assume "of_nat (Suc ?w) = (0 :: tversion)"
    then have "2 ^ 64 dvd Suc ?w" by (simp only: word_of_nat_eq_0_iff) simp
    moreover have "Suc ?w < 2 ^ 64"
      using wins_le [of "pa_Key a" as "snd (store_run put (fst (put s a)) as)"] assms(4) by simp
    ultimately show False by (metis dvd_imp_le not_less zero_less_Suc)
  qed
  ultimately have "gen ?s (pa_Key b) \<noteq> pa_Version b" using assms(2,3) by simp
  moreover have "lookup (fst (put s a)) (pa_Key a) \<noteq> None"
    using put_hit [of s a] assms(1) put_OK_iff [of s a] by auto
  ultimately show ?thesis
    using put_miss [of ?s b] run_key_stays [of "fst (put s a)" "pa_Key a" as] assms(2) by simp
qed

end

section \<open>The server implements the contract\<close>

lemma kv_put_simps:
  "kv_put kv a =
     (if generation kv_lookup kv (pa_Key a) = pa_Version a
      then (kv\<lparr>KVStore := (KVStore kv)
              (pa_Key a \<mapsto> \<lparr>e_Value = pa_Value a, e_Version = pa_Version a + 1\<rparr>)\<rparr>, OK)
      else (kv, if KVStore kv (pa_Key a) = None then ErrNoKey else ErrVersion))"
  by (auto simp: kv_put_def kv_Put_def generation_def kv_lookup_def zero_put_reply_def split: option.splits)

interpretation kv: versioned_store kv_lookup kv_put
  by unfold_locales (auto simp: kv_put_simps kv_lookup_def fun_eq_iff)

lemma kv_lookup_Make [simp]: "kv_lookup MakeKVServer k = None"
  by (simp add: kv_lookup_def MakeKVServer_def)

lemma kv_Get_lookup:
  "kv_Get kv a zero_get_reply =
     (case kv_lookup kv (ga_Key a) of
        None \<Rightarrow> \<lparr>gr_Value = '''', gr_Version = 0, gr_Err = ErrNoKey\<rparr>
      | Some (v, ver) \<Rightarrow> \<lparr>gr_Value = v, gr_Version = ver, gr_Err = OK\<rparr>)"
  by (simp add: kv_Get_def kv_lookup_def zero_get_reply_def split: option.splits)

lemma kv_put_second:
  assumes "kv_put s a = (s1, OK)"
    and "length as < 2 ^ 64 - 1"
    and "pa_Key b = pa_Key a" "pa_Version b = pa_Version a"
  shows "kv_put (fst (store_run kv_put s1 as)) b = (fst (store_run kv_put s1 as), ErrVersion)"
proof -
  have "snd (kv_put (fst (store_run kv_put s1 as)) b) = ErrVersion"
    using kv.second_put_fails [of s a b as] assms by simp
  then show ?thesis by (auto simp: kv_put_simps split: if_splits)
qed

lemma err_string_inject [simp]: "(err_string a = err_string b) = (a = b)"
  by (cases a; cases b) simp_all

section \<open>Properties of the server\<close>

text \<open>
  After any sequence of Puts on a fresh server, a Get of a key answers \<open>ErrNoKey\<close> if no
  Put to it succeeded; otherwise it returns the value of the last Put that succeeded, and its
  version is the number of Puts to the key that succeeded (modulo \<open>2^64\<close>).
\<close>

theorem kv_Get_after_puts:
  "kv_Get (fst (store_run kv_put MakeKVServer as)) \<lparr>ga_Key = k\<rparr> zero_get_reply =
     (case last_win k None as (snd (store_run kv_put MakeKVServer as)) of
        None \<Rightarrow> \<lparr>gr_Value = '''', gr_Version = 0, gr_Err = ErrNoKey\<rparr>
      | Some v \<Rightarrow> \<lparr>gr_Value = v,
                   gr_Version = of_nat (wins k as (snd (store_run kv_put MakeKVServer as))),
                   gr_Err = OK\<rparr>)"
  using kv.value_run [of MakeKVServer as k, symmetric] kv.gen_run [of MakeKVServer as k]
  by (auto simp: kv_Get_lookup generation_def split: option.splits)

text \<open>
  One winner per version. After a Put has succeeded, and after any fewer than
  \<open>2^64 - 1\<close> further Puts, a Put with the same key and version is refused with
  \<open>ErrVersion\<close> and leaves the store as it is.
\<close>

theorem kv_Put_one_winner:
  assumes "kv_put s a = (s1, OK)"
    and "length as < 2 ^ 64 - 1"
    and "pa_Key b = pa_Key a" "pa_Version b = pa_Version a"
  shows "kv_put (fst (store_run kv_put s1 as)) b = (fst (store_run kv_put s1 as), ErrVersion)"
  using assms by (rule kv_put_second)

theorem kv_Put_one_winner_witness:
  "kv_put (fst (store_run kv_put (fst (kv_put MakeKVServer \<lparr>pa_Key = ''k'', pa_Value = ''a'', pa_Version = 0\<rparr>))
       [\<lparr>pa_Key = ''k'', pa_Value = ''c'', pa_Version = 1\<rparr>])) \<lparr>pa_Key = ''k'', pa_Value = ''b'', pa_Version = 0\<rparr> =
   (fst (store_run kv_put (fst (kv_put MakeKVServer \<lparr>pa_Key = ''k'', pa_Value = ''a'', pa_Version = 0\<rparr>))
       [\<lparr>pa_Key = ''k'', pa_Value = ''c'', pa_Version = 1\<rparr>]), ErrVersion)"
  by (rule kv_Put_one_winner [where s = MakeKVServer and a = "\<lparr>pa_Key = ''k'', pa_Value = ''a'', pa_Version = 0\<rparr>"])
    (simp_all add: kv_put_simps generation_def)

end
