(* ===== verification/Clerk.thy ===== *)
theory Clerk
  imports KvServer
begin

text \<open>
  The clerk of lab 2 (\<open>kvsrv1/client.go\<close>). \<open>ck.clnt.Call\<close> goes through the lab network,
  which delivers a request and its reply, loses the request, or loses the reply; the clerk
  cannot tell the two losses apart. Other clients' Puts reach the server between its
  attempts. A run of the clerk's loop is driven by the list of what happens at each attempt;
  a list that ends before a reply arrives is a loop that is still running (\<open>None\<close>).

  The lemmas show what each answer of \<open>Put\<close> says about the server: OK, ErrVersion and
  ErrNoKey are exact, ErrMaybe means at most once. They rest on the facts of the
  \<open>versioned_store\<close> contract only.
\<close>

section \<open>The network as the clerk sees it\<close>

datatype delivery = LostRequest | LostReply | Delivered

text \<open>
  \<open>Call(server, "KVServer.Put", args, &reply)\<close>: the server afterwards, whether the
  handler ran and what it answered, and whether the caller got that answer.
\<close>

definition call_Put :: "delivery \<Rightarrow> kv_server \<Rightarrow> put_args \<Rightarrow> kv_server \<times> err option \<times> bool" where
  "call_Put d kv a =
     (case d of
        LostRequest \<Rightarrow> (kv, None, False)
      | LostReply \<Rightarrow> (let (kv', e) = kv_put kv a in (kv', Some e, False))
      | Delivered \<Rightarrow> (let (kv', e) = kv_put kv a in (kv', Some e, True)))"

section \<open>Clerk.Put and Clerk.Get\<close>

text \<open>What the loop does after one \<open>Call\<close>: go round again, or return.\<close>

datatype put_outcome = Retry | Return err

definition put_answer :: "bool \<Rightarrow> err \<Rightarrow> err" where
  "put_answer retried e = (if e = ErrVersion \<and> retried then ErrMaybe else e)"

definition put_attempt :: "delivery \<Rightarrow> kv_server \<Rightarrow> put_args \<Rightarrow> bool \<Rightarrow> kv_server \<times> put_outcome" where
  "put_attempt d kv a retried =
     (case call_Put d kv a of
        (kv', Some e, True) \<Rightarrow> (kv', Return (put_answer retried e))
      | (kv', _, _) \<Rightarrow> (kv', Retry))"

text \<open>
  The loop of \<open>Clerk.Put\<close>. Each element of the script is one turn: the Puts of other
  clients that reach the server first, then the fate of this attempt. Besides the server and
  the answer, a run lists what the handler answered to this clerk's requests, seen or not.
\<close>

record clerk_run =
  cr_srv :: kv_server
  cr_execs :: "err list"
  cr_result :: "err option"

fun clerk_Put :: "put_args \<Rightarrow> (put_args list \<times> delivery) list \<Rightarrow> kv_server \<Rightarrow> bool \<Rightarrow> clerk_run" where
  "clerk_Put a [] kv retried = \<lparr>cr_srv = kv, cr_execs = [], cr_result = None\<rparr>"
| "clerk_Put a ((others, d) # script) kv retried =
     (let kv1 = fst (store_run kv_put kv others);
          ex = (case fst (snd (call_Put d kv1 a)) of None \<Rightarrow> [] | Some e \<Rightarrow> [e])
      in (case put_attempt d kv1 a retried of
            (kv2, Return e) \<Rightarrow> \<lparr>cr_srv = kv2, cr_execs = ex, cr_result = Some e\<rparr>
          | (kv2, Retry) \<Rightarrow>
              (let r = clerk_Put a script kv2 True in r\<lparr>cr_execs := ex @ cr_execs r\<rparr>)))"

text \<open>\<open>Clerk.Get\<close> retries until a reply arrives; the handler changes nothing.\<close>

fun clerk_Get :: "get_args \<Rightarrow> (put_args list \<times> delivery) list \<Rightarrow> kv_server \<Rightarrow>
    kv_server \<times> get_reply option" where
  "clerk_Get a [] kv = (kv, None)"
| "clerk_Get a ((others, d) # script) kv =
     (let kv1 = fst (store_run kv_put kv others)
      in if d = Delivered then (kv1, Some (kv_Get kv1 a zero_get_reply))
         else clerk_Get a script kv1)"

text \<open>The Puts of other clients in a script, and those the whole script can make.\<close>

definition script_puts :: "(put_args list \<times> delivery) list \<Rightarrow> nat" where
  "script_puts script = (\<Sum>(others, d) \<leftarrow> script. length others + 1)"

section \<open>Lemmas\<close>

lemma script_puts_simps [simp]:
  "script_puts [] = 0"
  "script_puts ((others, d) # script) = Suc (length others) + script_puts script"
  by (simp_all add: script_puts_def)

lemma put_attempt_cases:
  "put_attempt d kv a retried =
     (case d of LostRequest \<Rightarrow> (kv, Retry) | LostReply \<Rightarrow> (fst (kv_put kv a), Retry)
      | Delivered \<Rightarrow> (fst (kv_put kv a), Return (put_answer retried (snd (kv_put kv a)))))"
  by (cases d) (auto simp: put_attempt_def call_Put_def case_prod_beta Let_def)

lemma clerk_Put_Cons:
  "clerk_Put a ((others, d) # script) kv retried =
     (let kv1 = fst (store_run kv_put kv others)
      in case d of
           LostRequest \<Rightarrow> clerk_Put a script kv1 True
         | LostReply \<Rightarrow> (let r = clerk_Put a script (fst (kv_put kv1 a)) True
              in r\<lparr>cr_execs := snd (kv_put kv1 a) # cr_execs r\<rparr>)
         | Delivered \<Rightarrow> \<lparr>cr_srv = fst (kv_put kv1 a), cr_execs = [snd (kv_put kv1 a)],
              cr_result = Some (put_answer retried (snd (kv_put kv1 a)))\<rparr>)"
  by (cases d) (auto simp: put_attempt_cases call_Put_def case_prod_beta Let_def)

declare clerk_Put.simps(2) [simp del]

text \<open>Once the Put has been applied, every later attempt is answered \<open>ErrVersion\<close>.\<close>

lemma clerk_Put_after_win:
  assumes "kv_put s a = (s1, OK)"
    and "length between + script_puts script < 2 ^ 64 - 1"
  shows "set (cr_execs (clerk_Put a script (fst (store_run kv_put s1 between)) True)) \<subseteq> {ErrVersion} \<and>
    cr_result (clerk_Put a script (fst (store_run kv_put s1 between)) True) \<in> {None, Some ErrMaybe}"
  using assms(2)
proof (induction script arbitrary: between)
  case (Cons t script)
  obtain others d where t: "t = (others, d)" by (cases t)
  let ?kv = "fst (store_run kv_put s1 between)"
  let ?kv1 = "fst (store_run kv_put ?kv others)"
  have run: "?kv1 = fst (store_run kv_put s1 (between @ others))"
    by (induction between arbitrary: s1) (auto simp: case_prod_beta Let_def)
  have "length (between @ others) < 2 ^ 64 - 1" using Cons.prems by (simp add: t)
  then have put: "kv_put ?kv1 a = (?kv1, ErrVersion)"
    unfolding run by (rule kv_put_second [OF assms(1)]) simp_all
  have rest: "set (cr_execs (clerk_Put a script ?kv1 True)) \<subseteq> {ErrVersion} \<and>
    cr_result (clerk_Put a script ?kv1 True) \<in> {None, Some ErrMaybe}"
    unfolding run by (rule Cons.IH) (use Cons.prems t in simp)
  show ?case using rest put by (cases d) (simp_all add: t clerk_Put_Cons Let_def put_answer_def)
qed simp

text \<open>What a run tells about its Put, for a loop that has or has not been retried before.\<close>

definition put_exact :: "bool \<Rightarrow> clerk_run \<Rightarrow> bool" where
  "put_exact retried r \<longleftrightarrow>
     count_list (cr_execs r) OK \<le> 1 \<and>
     (cr_result r = Some OK \<longrightarrow> count_list (cr_execs r) OK = 1) \<and>
     (cr_result r = Some ErrNoKey \<longrightarrow> count_list (cr_execs r) OK = 0) \<and>
     (cr_result r = Some ErrVersion \<longrightarrow> \<not> retried \<and> count_list (cr_execs r) OK = 0) \<and>
     cr_result r \<in> {None, Some OK, Some ErrNoKey, Some ErrVersion, Some ErrMaybe}"

lemma put_exact_Delivered:
  "put_exact retried \<lparr>cr_srv = s, cr_execs = [snd (kv_put kv a)],
     cr_result = Some (put_answer retried (snd (kv_put kv a)))\<rparr>"
  using kv.put_error [of kv a] by (auto simp: put_exact_def put_answer_def)

lemma clerk_Put_exact:
  "script_puts script < 2 ^ 64 - 1 \<Longrightarrow> put_exact retried (clerk_Put a script kv retried)"
proof (induction script arbitrary: kv retried)
  case Nil
  then show ?case by (simp add: put_exact_def)
next
  case (Cons t script)
  obtain others d where t: "t = (others, d)" by (cases t)
  let ?kv1 = "fst (store_run kv_put kv others)"
  from Cons have IH: "put_exact True (clerk_Put a script kv' True)" for kv' by (simp add: t)
  show ?case
  proof (cases d)
    case LostRequest
    then show ?thesis using IH [of ?kv1] by (auto simp: t clerk_Put_Cons put_exact_def)
  next
    case LostReply
    let ?r = "clerk_Put a script (fst (kv_put ?kv1 a)) True"
    show ?thesis
    proof (cases "snd (kv_put ?kv1 a) = OK")
      case True
      then have "kv_put ?kv1 a = (fst (kv_put ?kv1 a), OK)" by (simp add: prod_eq_iff)
      from clerk_Put_after_win [OF this, of "[]" script] Cons.prems
      have "OK \<notin> set (cr_execs ?r)" "cr_result ?r \<in> {None, Some ErrMaybe}"
        by (auto simp: t)
      with True LostReply show ?thesis
        by (auto simp: t clerk_Put_Cons Let_def put_exact_def count_list_0_iff)
    next
      case False
      with LostReply IH [of "fst (kv_put ?kv1 a)"] show ?thesis
        by (auto simp: t clerk_Put_Cons Let_def put_exact_def)
    qed
  next
    case Delivered
    then show ?thesis by (simp add: t clerk_Put_Cons Let_def put_exact_Delivered)
  qed
qed

section \<open>Properties of the clerk\<close>

text \<open>
  C3: the clerk's Put is at most once, and its answers are exact. For every pattern of lost
  requests and replies and every interleaving with other clients' Puts (fewer than \<open>2^64 - 1\<close>
  in all): the Put is applied at most once; OK means exactly once; ErrVersion and ErrNoKey mean
  never; the only other answer is ErrMaybe.
\<close>

theorem clerk_Put_at_most_once:
  assumes "script_puts script < 2 ^ 64 - 1"
    and "clerk_Put a script kv False = r"
  shows "count_list (cr_execs r) OK \<le> 1 \<and>
    (cr_result r = Some OK \<longrightarrow> count_list (cr_execs r) OK = 1) \<and>
    (cr_result r \<in> {Some ErrNoKey, Some ErrVersion} \<longrightarrow> count_list (cr_execs r) OK = 0) \<and>
    cr_result r \<in> {None, Some OK, Some ErrNoKey, Some ErrVersion, Some ErrMaybe}"
  using clerk_Put_exact [OF assms(1), of False a kv] assms(2) by (auto simp: put_exact_def)

text \<open>The request of the examples: create the key, with a value that names its writer.\<close>

abbreviation put_k :: "string \<Rightarrow> put_args" where
  "put_k v \<equiv> \<lparr>pa_Key = ''k'', pa_Value = v, pa_Version = 0\<rparr>"

theorem clerk_Put_at_most_once_witness:
  "cr_execs (clerk_Put (put_k ''a'') [([], LostReply), ([], Delivered)] MakeKVServer False) = [OK, ErrVersion] \<and>
   count_list (cr_execs (clerk_Put (put_k ''a'') [([], LostReply), ([], Delivered)] MakeKVServer False)) OK \<le> 1"
proof -
  have "script_puts [([], LostReply), ([], Delivered)] < 2 ^ 64 - 1" by simp
  from clerk_Put_at_most_once [OF this refl, of "put_k ''a''" MakeKVServer] show ?thesis
    by (simp add: clerk_Put_Cons kv_put_simps generation_def kv_lookup_def MakeKVServer_def)
qed

text \<open>
  ErrMaybe is honest. It is returned both by a run in which the Put was applied and by a run
  in which it never was, so a clerk that has only its own replies cannot do better.
\<close>

theorem clerk_Put_maybe_both:
  "cr_result (clerk_Put (put_k ''a'') [([], LostReply), ([], Delivered)] MakeKVServer False) = Some ErrMaybe \<and>
   OK \<in> set (cr_execs (clerk_Put (put_k ''a'') [([], LostReply), ([], Delivered)] MakeKVServer False)) \<and>
   cr_result (clerk_Put (put_k ''a'') [([], LostRequest), ([put_k ''b''], Delivered)] MakeKVServer False) = Some ErrMaybe \<and>
   OK \<notin> set (cr_execs (clerk_Put (put_k ''a'') [([], LostRequest), ([put_k ''b''], Delivered)] MakeKVServer False))"
  by (simp add: clerk_Put_Cons kv_put_simps generation_def kv_lookup_def MakeKVServer_def put_answer_def)

text \<open>
  C29: the loop of Put returns exactly when some attempt is delivered in both directions, and it
  then leaves the rest of the script unused: the answer comes from the first delivered attempt.
\<close>

theorem clerk_Put_returns:
  "(cr_result (clerk_Put a script kv retried) \<noteq> None) = (Delivered \<in> snd ` set script) \<and>
   (Delivered \<in> snd ` set script \<longrightarrow>
      clerk_Put a (script @ later) kv retried = clerk_Put a script kv retried)"
proof (induction script arbitrary: kv retried)
  case (Cons t script)
  obtain others d where "t = (others, d)" by (cases t)
  with Cons.IH [of _ True] show ?case by (cases d) (auto simp: clerk_Put_Cons Let_def)
qed simp

theorem clerk_Put_returns_witness:
  "clerk_Put (put_k ''a'') ([([], LostRequest), ([], Delivered)] @ [([], LostReply)]) MakeKVServer False =
   clerk_Put (put_k ''a'') [([], LostRequest), ([], Delivered)] MakeKVServer False"
  using clerk_Put_returns [of "put_k ''a''" "[([], LostRequest), ([], Delivered)]" MakeKVServer False
      "[([], LostReply)]"] by simp

end
