(* ===== verification/KvModel.thy ===== *)
theory KvModel
  imports Clerk
begin

text \<open>
  The sequential specification the linearizability checker compares histories with
  (\<open>models1/kv.go\<close>): \<open>Partition\<close> splits a history by key, \<open>Init\<close> and \<open>Step\<close> describe one key.
  The checker itself (the porcupine package) is outside the repository and is not modelled.

  The key/value server refines this specification: the sequential histories it produces are
  accepted key by key, with one exception that \<open>Step\<close> does not know, the answer ErrNoKey to a
  Put of a non-zero version to a missing key.
\<close>

section \<open>models1/kv.go\<close>

record kv_input =
  in_Op :: "8 word"
  in_Key :: string
  in_Value :: string
  in_Version :: "64 word"

record kv_output =
  out_Value :: string
  out_Version :: "64 word"
  out_Err :: string

record kv_state =
  st_Value :: string
  st_Version :: "64 word"

text \<open>An operation of a history: its input and output.\<close>

type_synonym operation = "kv_input \<times> kv_output"

text \<open>
  \<open>Partition\<close>: the operations of each key in history order, the keys in sorted order.
  \<open>m[key] = append(m[key], v)\<close> reads a missing key as the empty slice.
\<close>

definition partition_add :: "operation \<Rightarrow> (string, operation list) gomap \<Rightarrow> (string, operation list) gomap" where
  "partition_add v m =
     (let key = in_Key (fst v)
      in gm_put key ((case map_of m key of None \<Rightarrow> [] | Some ops \<Rightarrow> ops) @ [v]) m)"

definition kv_Partition :: "operation list \<Rightarrow> operation list list" where
  "kv_Partition history =
     (let m = fold partition_add history []; keys = sort (gm_keys m)
      in map (\<lambda>k. case map_of m k of None \<Rightarrow> [] | Some ops \<Rightarrow> ops) keys)"

definition kv_Init :: kv_state where
  "kv_Init = \<lparr>st_Value = '''', st_Version = 0\<rparr>"

text \<open>
  \<open>Step\<close>; the state it returns for an operation that is neither get nor put is the string
  \<open><invalid>\<close>, here \<open>None\<close>.
\<close>

definition kv_Step :: "kv_state \<Rightarrow> kv_input \<Rightarrow> kv_output \<Rightarrow> bool \<times> kv_state option" where
  "kv_Step st inp out =
     (if in_Op inp = 0 then (out_Value out = st_Value st, Some st)
      else if in_Op inp = 1 then
        (if st_Version st = in_Version inp
         then (out_Err out = ''OK'' \<or> out_Err out = ''ErrMaybe'',
               Some \<lparr>st_Value = in_Value inp, st_Version = st_Version st + 1\<rparr>)
         else (out_Err out = ''ErrVersion'' \<or> out_Err out = ''ErrMaybe'', Some st))
      else (False, None))"

definition kv_DescribeOperation :: "kv_input \<Rightarrow> kv_output \<Rightarrow> string" where
  "kv_DescribeOperation inp out =
     (if in_Op inp = 0 then
        ''get('' @ [CHR 0x27] @ in_Key inp @ [CHR 0x27] @ '') -> ('' @ [CHR 0x27] @ out_Value out @
        [CHR 0x27] @ '', '' @ [CHR 0x27] @ itoa (uint (out_Version out)) @ [CHR 0x27] @ '', '' @
        [CHR 0x27] @ out_Err out @ [CHR 0x27] @ '')''
      else if in_Op inp = 1 then
        ''put('' @ [CHR 0x27] @ in_Key inp @ [CHR 0x27] @ '', '' @ [CHR 0x27] @ in_Value inp @
        [CHR 0x27] @ '', '' @ [CHR 0x27] @ itoa (uint (in_Version inp)) @ [CHR 0x27] @ '') -> ('' @
        [CHR 0x27] @ out_Err out @ [CHR 0x27] @ '')''
      else ''<invalid>'')"

text \<open>Whether the specification accepts a sequential history of one key.\<close>

fun kv_accepts :: "kv_state \<Rightarrow> operation list \<Rightarrow> bool" where
  "kv_accepts st [] = True"
| "kv_accepts st ((inp, out) # ops) =
     (case kv_Step st inp out of (True, Some st') \<Rightarrow> kv_accepts st' ops | _ \<Rightarrow> False)"

section \<open>The histories the server produces\<close>

text \<open>
  One operation served by the key/value server, recorded the way \<open>kvtest1/porcupine.go\<close> records
  the clerk's answers: a get with value, version and error, a put with its error only.
\<close>

definition kv_serve :: "kv_server \<Rightarrow> kv_input \<Rightarrow> kv_server \<times> kv_output" where
  "kv_serve kv inp =
     (if in_Op inp = 0
      then (let r = kv_Get kv \<lparr>ga_Key = in_Key inp\<rparr> zero_get_reply
            in (kv, \<lparr>out_Value = gr_Value r, out_Version = gr_Version r, out_Err = err_string (gr_Err r)\<rparr>))
      else (let (kv', e) = kv_put kv \<lparr>pa_Key = in_Key inp, pa_Value = in_Value inp, pa_Version = in_Version inp\<rparr>
            in (kv', \<lparr>out_Value = '''', out_Version = 0, out_Err = err_string e\<rparr>)))"

fun kv_history :: "kv_server \<Rightarrow> kv_input list \<Rightarrow> operation list" where
  "kv_history kv [] = []"
| "kv_history kv (inp # inps) = (let (kv', out) = kv_serve kv inp in (inp, out) # kv_history kv' inps)"

text \<open>What the specification's state of a key is, given the server.\<close>

definition kv_abs :: "kv_server \<Rightarrow> string \<Rightarrow> kv_state" where
  "kv_abs kv k = (case kv_lookup kv k of
      None \<Rightarrow> \<lparr>st_Value = '''', st_Version = 0\<rparr>
    | Some (v, ver) \<Rightarrow> \<lparr>st_Value = v, st_Version = ver\<rparr>)"

text \<open>Inputs that are a get or a put, and the one kind of put \<open>Step\<close> has no answer for.\<close>

definition op_ok :: "kv_input \<Rightarrow> bool" where
  "op_ok inp \<longleftrightarrow> in_Op inp = 0 \<or> in_Op inp = 1"

section \<open>Lemmas\<close>

lemma partition_fold:
  "map_of (fold partition_add history m) k =
     (if k \<in> in_Key ` fst ` set history \<or> map_of m k \<noteq> None
      then Some ((case map_of m k of None \<Rightarrow> [] | Some ops \<Rightarrow> ops) @ filter (\<lambda>v. in_Key (fst v) = k) history)
      else None)"
proof (induction history arbitrary: m)
  case (Cons v history)
  show ?case
    by (simp add: Cons.IH) (auto simp: partition_add_def Let_def split: option.splits)
qed (auto split: option.splits)

lemma partition_keys_distinct: "distinct (map fst m) \<Longrightarrow> distinct (map fst (fold partition_add history m))"
  by (induction history arbitrary: m) (simp_all add: partition_add_def Let_def)

lemma partition_key_set: "set (gm_keys (fold partition_add history [])) = in_Key ` fst ` set history"
  by (auto simp: dom_def partition_fold split: if_splits)

lemma kv_Partition_eq:
  "kv_Partition history =
     map (\<lambda>k. filter (\<lambda>v. in_Key (fst v) = k) history)
       (sorted_list_of_set (in_Key ` fst ` set history))"
proof -
  let ?m = "fold partition_add history []"
  have "distinct (gm_keys ?m)"
    using partition_keys_distinct [of "[]" history] by (simp add: gm_keys_def)
  then have "sort (gm_keys ?m) = sorted_list_of_set (in_Key ` fst ` set history)"
    using partition_key_set [of history]
    by (metis distinct_remdups_id sorted_list_of_set_sort_remdups)
  then show ?thesis
    by (auto simp: kv_Partition_def Let_def partition_fold intro!: map_cong)
qed

lemma kv_serve_key_frame: "in_Key inp \<noteq> k \<Longrightarrow> kv_abs (fst (kv_serve kv inp)) k = kv_abs kv k"
  by (auto simp: kv_serve_def kv_abs_def kv_put_simps kv_lookup_def Let_def case_prod_beta)

lemma kv_serve_step:
  assumes "op_ok inp" "out_Err (snd (kv_serve kv inp)) \<noteq> ''ErrNoKey'' \<or> in_Op inp = 0"
  shows "kv_Step (kv_abs kv (in_Key inp)) inp (snd (kv_serve kv inp)) =
    (True, Some (kv_abs (fst (kv_serve kv inp)) (in_Key inp)))"
proof (cases "in_Op inp = 0")
  case True
  then show ?thesis
    by (auto simp: kv_serve_def kv_Step_def kv_abs_def kv_Get_lookup Let_def split: option.splits)
next
  case False
  with assms show ?thesis
    by (auto simp: op_ok_def kv_serve_def kv_Step_def kv_abs_def kv_put_simps generation_def kv_lookup_def Let_def
        split: option.splits if_splits)
qed

text \<open>No put of the history was answered ErrNoKey.\<close>

definition no_missing_put :: "operation list \<Rightarrow> bool" where
  "no_missing_put ops \<longleftrightarrow> list_all (\<lambda>(inp, out). in_Op inp = 1 \<longrightarrow> out_Err out \<noteq> ''ErrNoKey'') ops"

lemma kv_history_key_accepted:
  "list_all op_ok inps \<Longrightarrow> no_missing_put (kv_history kv inps) \<Longrightarrow>
   kv_accepts (kv_abs kv k) (filter (\<lambda>v. in_Key (fst v) = k) (kv_history kv inps))"
proof (induction inps arbitrary: kv)
  case (Cons inp inps)
  let ?kv = "fst (kv_serve kv inp)" and ?out = "snd (kv_serve kv inp)"
  have IH: "kv_accepts (kv_abs ?kv k) (filter (\<lambda>v. in_Key (fst v) = k) (kv_history ?kv inps))"
    using Cons by (auto simp: no_missing_put_def case_prod_beta Let_def)
  have "kv_Step (kv_abs kv (in_Key inp)) inp ?out = (True, Some (kv_abs ?kv (in_Key inp)))"
    using Cons.prems by (intro kv_serve_step) (auto simp: no_missing_put_def op_ok_def case_prod_beta Let_def)
  with IH kv_serve_key_frame [of inp k kv] show ?case by (auto simp: case_prod_beta Let_def)
qed simp

lemma kv_abs_Make [simp]: "kv_abs MakeKVServer k = kv_Init"
  by (simp add: kv_abs_def kv_Init_def)

section \<open>Properties of the specification and of the server against it\<close>

text \<open>
  C35: the server refines the checker's specification. For every sequence of gets and puts in
  which no put is answered ErrNoKey, every part of the history that \<open>Partition\<close> makes is
  accepted by \<open>Step\<close> from \<open>Init\<close>.
\<close>

theorem kv_history_accepted:
  assumes "list_all op_ok inps" "no_missing_put (kv_history MakeKVServer inps)"
    and "ops \<in> set (kv_Partition (kv_history MakeKVServer inps))"
  shows "kv_accepts kv_Init ops"
  using assms(3) kv_history_key_accepted [OF assms(1,2)] by (auto simp: kv_Partition_eq)

abbreviation "ex_put k v ver \<equiv> \<lparr>in_Op = 1, in_Key = k, in_Value = v, in_Version = ver\<rparr>"
abbreviation "ex_get k \<equiv> \<lparr>in_Op = 0, in_Key = k, in_Value = '''', in_Version = 0\<rparr>"

theorem kv_history_accepted_witness:
  "kv_accepts kv_Init (kv_history MakeKVServer [ex_put ''k'' ''a'' 0, ex_put ''k'' ''b'' 0, ex_get ''k''])"
proof (rule kv_history_accepted [where inps = "[ex_put ''k'' ''a'' 0, ex_put ''k'' ''b'' 0, ex_get ''k'']"])
  let ?h = "kv_history MakeKVServer [ex_put ''k'' ''a'' 0, ex_put ''k'' ''b'' 0, ex_get ''k'']"
  show "list_all op_ok [ex_put ''k'' ''a'' 0, ex_put ''k'' ''b'' 0, ex_get ''k'']"
    by (simp add: op_ok_def)
  show "no_missing_put ?h"
    by (simp add: no_missing_put_def kv_serve_def kv_put_simps generation_def kv_lookup_def MakeKVServer_def
        kv_Get_def zero_get_reply_def)
  show "?h \<in> set (kv_Partition ?h)"
    by (simp add: kv_Partition_eq Let_def case_prod_beta)
qed

text \<open>
  \<open>Partition\<close> loses and reorders nothing. Its parts are the operations of each key in
  history order, the keys in strictly increasing order, and together they are the history.
\<close>

theorem kv_Partition_correct:
  "kv_Partition history =
     map (\<lambda>k. filter (\<lambda>v. in_Key (fst v) = k) history) (sorted_list_of_set (in_Key ` fst ` set history)) \<and>
   mset (concat (kv_Partition history)) = mset history"
proof -
  have "mset (concat (map (\<lambda>k. filter (\<lambda>v. in_Key (fst v) = k) history) ks)) =
      filter_mset (\<lambda>v. in_Key (fst v) \<in> set ks) (mset history)" if "distinct ks" for ks
    using that
    by (induction ks) (auto simp: multiset_eq_iff)
  from this [of "sorted_list_of_set (in_Key ` fst ` set history)"]
  have "mset (concat (kv_Partition history)) =
      filter_mset (\<lambda>v. in_Key (fst v) \<in> in_Key ` fst ` set history) (mset history)"
    by (simp add: kv_Partition_eq)
  also have "\<dots> = mset history"
    by (rule multiset_eqI) (auto simp: not_in_iff image_iff)
  finally show ?thesis by (simp add: kv_Partition_eq)
qed

text \<open>
  The specification has no answer for a put to a missing key. A put of a non-zero version to
  a key that does not exist is answered ErrNoKey by the server, as its comment says, and
  \<open>Step\<close> rejects that answer, so a correct history with such a put is judged not linearizable.
\<close>

theorem kv_Step_rejects_ErrNoKey:
  assumes "kv_lookup kv (in_Key inp) = None" "in_Op inp = 1" "in_Version inp \<noteq> 0"
  shows "out_Err (snd (kv_serve kv inp)) = ''ErrNoKey'' \<and>
    fst (kv_Step (kv_abs kv (in_Key inp)) inp (snd (kv_serve kv inp))) = False"
  using assms
  by (auto simp: kv_serve_def kv_Step_def kv_abs_def kv_put_simps generation_def kv_lookup_def Let_def)

theorem kv_Step_rejects_ErrNoKey_witness:
  "out_Err (snd (kv_serve MakeKVServer (ex_put ''k'' ''a'' 1))) = ''ErrNoKey'' \<and>
   fst (kv_Step (kv_abs MakeKVServer (in_Key (ex_put ''k'' ''a'' 1))) (ex_put ''k'' ''a'' 1)
     (snd (kv_serve MakeKVServer (ex_put ''k'' ''a'' 1)))) = False"
  by (rule kv_Step_rejects_ErrNoKey) simp_all

end
