(* ===== verification/LockService.thy ===== *)
theory LockService
  imports Clerk
begin

text \<open>
  The distributed lock of \<open>kvsrv1/lock/lock.go\<close>: any number of clients, each with its own
  holder id, contend for one lock name on the key/value server. Each client is a program
  counter of \<open>Acquire\<close> and \<open>Release\<close>; a step is one handler run on the server or one
  attempt of a clerk's Put, which the network may lose in either direction, and the steps of
  different clients interleave freely, together with Puts to other keys.

  The invariant relates every client's program counter to the entry under the lock name; it
  holds for as long as fewer than \<open>2^64\<close> steps have been taken, because versions are 64-bit
  and never repeat before that. Mutual exclusion, and the fact that a Release ends in a lock
  that its caller no longer holds, follow from it.
\<close>

section \<open>Lock, MakeLock\<close>

record lock_obj =
  holderID :: string
  lockname :: string

definition MakeLock :: "string \<Rightarrow> string \<Rightarrow> lock_obj" where
  "MakeLock rand name = \<lparr>holderID = rand, lockname = name\<rparr>"

section \<open>Acquire and Release as program counters\<close>

datatype pc =
    Outside
  | AcqGet
  | AcqPut tversion bool
  | Inside
  | RelGet
  | RelPut tversion bool

text \<open>Where \<open>Acquire\<close> goes after its Get, and after its Put has returned.\<close>

definition acquire_after_get :: "lock_obj \<Rightarrow> get_reply \<Rightarrow> pc" where
  "acquire_after_get lk r =
     (if gr_Err r \<noteq> OK then AcqPut 0 False
      else if gr_Value r \<noteq> holderID lk
           then if gr_Value r = '''' then AcqPut (gr_Version r) False else AcqGet
           else Inside)"

definition acquire_after_put :: "err \<Rightarrow> pc" where
  "acquire_after_put e = (if e \<noteq> OK then AcqGet else Inside)"

text \<open>\<open>Release\<close> uses the version its Get returned, whatever the value and the error.\<close>

definition release_after_get :: "get_reply \<Rightarrow> pc" where
  "release_after_get r = RelPut (gr_Version r) False"

definition release_after_put :: "err \<Rightarrow> pc" where
  "release_after_put e = Outside"

definition acquire_args :: "lock_obj \<Rightarrow> tversion \<Rightarrow> put_args" where
  "acquire_args lk ver = \<lparr>pa_Key = lockname lk, pa_Value = holderID lk, pa_Version = ver\<rparr>"

definition release_args :: "lock_obj \<Rightarrow> tversion \<Rightarrow> put_args" where
  "release_args lk ver = \<lparr>pa_Key = lockname lk, pa_Value = '''', pa_Version = ver\<rparr>"

definition get_lock :: "kv_server \<Rightarrow> lock_obj \<Rightarrow> get_reply" where
  "get_lock kv lk = kv_Get kv \<lparr>ga_Key = lockname lk\<rparr> zero_get_reply"

record lock_sys =
  ls_kv :: kv_server
  ls_pc :: "nat \<Rightarrow> pc"

definition set_pc :: "lock_sys \<Rightarrow> nat \<Rightarrow> pc \<Rightarrow> lock_sys" where
  "set_pc s i p = s\<lparr>ls_pc := (ls_pc s)(i := p)\<rparr>"

definition lock_init :: "lock_sys \<Rightarrow> bool" where
  "lock_init s \<longleftrightarrow> ls_kv s = MakeKVServer \<and> (\<forall>i. ls_pc s i = Outside)"

text \<open>
  The steps, for clients whose lock objects are \<open>lks i\<close>, all with the name \<open>name\<close>. A Get
  that is lost is no step: it changes nothing.
\<close>

inductive lock_step :: "string \<Rightarrow> (nat \<Rightarrow> lock_obj) \<Rightarrow> lock_sys \<Rightarrow> lock_sys \<Rightarrow> bool"
  for name :: string and lks :: "nat \<Rightarrow> lock_obj" where
  call_acquire: "ls_pc s i = Outside \<Longrightarrow> lock_step name lks s (set_pc s i AcqGet)"
| acquire_get: "ls_pc s i = AcqGet \<Longrightarrow>
    lock_step name lks s (set_pc s i (acquire_after_get (lks i) (get_lock (ls_kv s) (lks i))))"
| acquire_put: "ls_pc s i = AcqPut ver retried \<Longrightarrow>
    put_attempt d (ls_kv s) (acquire_args (lks i) ver) retried = (kv', out) \<Longrightarrow>
    lock_step name lks s (set_pc (s\<lparr>ls_kv := kv'\<rparr>) i
      (case out of Retry \<Rightarrow> AcqPut ver True | Return e \<Rightarrow> acquire_after_put e))"
| call_release: "ls_pc s i = Inside \<Longrightarrow> lock_step name lks s (set_pc s i RelGet)"
| release_get: "ls_pc s i = RelGet \<Longrightarrow>
    lock_step name lks s (set_pc s i (release_after_get (get_lock (ls_kv s) (lks i))))"
| release_put: "ls_pc s i = RelPut ver retried \<Longrightarrow>
    put_attempt d (ls_kv s) (release_args (lks i) ver) retried = (kv', out) \<Longrightarrow>
    lock_step name lks s (set_pc (s\<lparr>ls_kv := kv'\<rparr>) i
      (case out of Retry \<Rightarrow> RelPut ver True | Return e \<Rightarrow> release_after_put e))"
| other_key: "pa_Key a \<noteq> name \<Longrightarrow>
    lock_step name lks s (s\<lparr>ls_kv := fst (kv_put (ls_kv s) a)\<rparr>)"

text \<open>
  \<open>MakeLock\<close> draws the holder ids at random; the lock relies on their being distinct and
  not empty.
\<close>

definition good_locks :: "string \<Rightarrow> (nat \<Rightarrow> lock_obj) \<Rightarrow> bool" where
  "good_locks name lks \<longleftrightarrow>
     (\<forall>i. lockname (lks i) = name) \<and> inj (\<lambda>i. holderID (lks i)) \<and> (\<forall>i. holderID (lks i) \<noteq> '''')"

section \<open>The invariant\<close>

type_synonym entry = "(string \<times> tversion) option"

definition owned :: "entry \<Rightarrow> string \<Rightarrow> bool" where
  "owned e me \<longleftrightarrow> (\<exists>v. e = Some (me, v))"

definition free :: "entry \<Rightarrow> bool" where
  "free e \<longleftrightarrow> e = None \<or> owned e ''''"

definition entry_gen :: "entry \<Rightarrow> nat" where
  "entry_gen e = (case e of None \<Rightarrow> 0 | Some (v, ver) \<Rightarrow> unat ver)"

fun client_ok :: "entry \<Rightarrow> string \<Rightarrow> pc \<Rightarrow> bool" where
  "client_ok e me Outside = (\<not> owned e me)"
| "client_ok e me AcqGet = True"
| "client_ok e me (AcqPut ver retried) =
     (unat ver \<le> entry_gen e \<and> (unat ver = entry_gen e \<longrightarrow> free e))"
| "client_ok e me Inside = owned e me"
| "client_ok e me RelGet = owned e me"
| "client_ok e me (RelPut ver retried) =
     (if owned e me then unat ver = entry_gen e else unat ver < entry_gen e \<and> retried)"

definition lock_entry :: "string \<Rightarrow> lock_sys \<Rightarrow> entry" where
  "lock_entry name s = kv_lookup (ls_kv s) name"

definition lock_inv :: "string \<Rightarrow> (nat \<Rightarrow> lock_obj) \<Rightarrow> nat \<Rightarrow> lock_sys \<Rightarrow> bool" where
  "lock_inv name lks n s \<longleftrightarrow>
     (n < 2 ^ 64 \<longrightarrow>
        entry_gen (lock_entry name s) \<le> n \<and>
        (\<forall>i. client_ok (lock_entry name s) (holderID (lks i)) (ls_pc s i)))"

section \<open>Every step keeps the invariant\<close>

lemma unat_Suc: "unat v < 2 ^ 64 - 1 \<Longrightarrow> unat (v + 1 :: tversion) = Suc (unat v)"
  by (simp add: unat_word_ariths)

lemma generation_entry: "generation kv_lookup kv k = ver \<longleftrightarrow> entry_gen (kv_lookup kv k) = unat ver"
  by (auto simp: generation_def entry_gen_def word_unat_eq_iff split: option.splits)

lemma put_attempt_entry:
  assumes att: "put_attempt d kv a retried = (kv', out)"
    and bound: "entry_gen (kv_lookup kv (pa_Key a)) < 2 ^ 64 - 1"
  shows "(kv' = kv \<and> (out = Retry \<or>
            entry_gen (kv_lookup kv (pa_Key a)) \<noteq> unat (pa_Version a) \<and> (\<exists>e. out = Return e \<and> e \<noteq> OK))) \<or>
    (entry_gen (kv_lookup kv (pa_Key a)) = unat (pa_Version a) \<and>
     kv_lookup kv' (pa_Key a) = Some (pa_Value a, pa_Version a + 1) \<and>
     unat (pa_Version a + 1) = Suc (unat (pa_Version a)) \<and> (out = Retry \<or> out = Return OK))"
proof (cases "generation kv_lookup kv (pa_Key a) = pa_Version a")
  case True
  from kv.put_hit [OF True] have put: "snd (kv_put kv a) = OK"
    "kv_lookup (fst (kv_put kv a)) (pa_Key a) = Some (pa_Value a, pa_Version a + 1)"
    by auto
  from True bound have "unat (pa_Version a + 1) = Suc (unat (pa_Version a))"
    by (intro unat_Suc) (simp add: generation_entry)
  with att True put show ?thesis
    by (cases d) (auto simp: put_attempt_cases put_answer_def generation_entry)
next
  case False
  define e where "e = put_answer retried (snd (kv_put kv a))"
  have "e \<noteq> OK" "fst (kv_put kv a) = kv"
    using kv.put_miss [OF False] by (auto simp: e_def put_answer_def split: if_splits)
  with att False show ?thesis
    by (cases d) (auto simp: put_attempt_cases generation_entry e_def)
qed

text \<open>The other clients, when one of them takes or frees the lock.\<close>

lemma client_ok_taken:
  "client_ok e me p \<Longrightarrow> free e \<Longrightarrow> me \<noteq> '''' \<Longrightarrow> me \<noteq> you \<Longrightarrow>
   unat ver = Suc (entry_gen e) \<Longrightarrow> client_ok (Some (you, ver)) me p"
  by (cases p) (auto simp: owned_def free_def entry_gen_def)

lemma client_ok_freed:
  "client_ok e me p \<Longrightarrow> owned e you \<Longrightarrow> me \<noteq> '''' \<Longrightarrow> me \<noteq> you \<Longrightarrow>
   unat ver = Suc (entry_gen e) \<Longrightarrow> client_ok (Some ('''', ver)) me p"
  by (cases p) (auto simp: owned_def free_def entry_gen_def)

lemma lock_inv_pc:
  assumes "lock_inv name lks n s" "Suc n < 2 ^ 64 \<Longrightarrow> client_ok (lock_entry name s) (holderID (lks i)) p"
  shows "lock_inv name lks (Suc n) (set_pc s i p)"
  using assms by (auto simp: lock_inv_def set_pc_def lock_entry_def)

lemma get_lock_entry:
  "lockname lk = name \<Longrightarrow>
   get_lock kv lk = (case kv_lookup kv name of
        None \<Rightarrow> \<lparr>gr_Value = '''', gr_Version = 0, gr_Err = ErrNoKey\<rparr>
      | Some (v, ver) \<Rightarrow> \<lparr>gr_Value = v, gr_Version = ver, gr_Err = OK\<rparr>)"
  by (simp add: get_lock_def kv_Get_lookup)

lemma acquire_get_ok:
  "lockname lk = name \<Longrightarrow>
   client_ok (kv_lookup kv name) (holderID lk) (acquire_after_get lk (get_lock kv lk))"
  by (auto simp: get_lock_entry acquire_after_get_def entry_gen_def free_def owned_def split: option.splits)

lemma release_get_ok:
  "lockname lk = name \<Longrightarrow> owned (kv_lookup kv name) (holderID lk) \<Longrightarrow>
   client_ok (kv_lookup kv name) (holderID lk) (release_after_get (get_lock kv lk))"
  by (auto simp: get_lock_entry release_after_get_def entry_gen_def owned_def)

lemma lock_inv_client:
  assumes "lock_inv name lks n s" "n < 2 ^ 64"
  shows "client_ok (lock_entry name s) (holderID (lks i)) (ls_pc s i)"
  using assms by (simp add: lock_inv_def)

lemma lock_inv_update:
  assumes "Suc n < 2 ^ 64 \<Longrightarrow> entry_gen (kv_lookup kv' name) \<le> Suc n"
    and "Suc n < 2 ^ 64 \<Longrightarrow> client_ok (kv_lookup kv' name) (holderID (lks i)) p"
    and "\<And>j. Suc n < 2 ^ 64 \<Longrightarrow> j \<noteq> i \<Longrightarrow> client_ok (kv_lookup kv' name) (holderID (lks j)) (ls_pc s j)"
  shows "lock_inv name lks (Suc n) (set_pc (s\<lparr>ls_kv := kv'\<rparr>) i p)"
  using assms by (auto simp: lock_inv_def set_pc_def lock_entry_def)

lemma good_locksD:
  assumes "good_locks name lks"
  shows "lockname (lks i) = name" "holderID (lks i) \<noteq> ''''" "i \<noteq> j \<Longrightarrow> holderID (lks i) \<noteq> holderID (lks j)"
  using assms by (auto simp: good_locks_def inj_def)

lemma acquire_put_inv:
  assumes inv: "lock_inv name lks n s" and good: "good_locks name lks"
    and pc: "ls_pc s i = AcqPut ver retried"
    and att: "put_attempt d (ls_kv s) (acquire_args (lks i) ver) retried = (kv', out)"
  shows "lock_inv name lks (Suc n) (set_pc (s\<lparr>ls_kv := kv'\<rparr>) i
      (case out of Retry \<Rightarrow> AcqPut ver True | Return e \<Rightarrow> acquire_after_put e))"
proof (cases "Suc n < 2 ^ 64")
  case bound: True
  let ?e = "kv_lookup (ls_kv s) name"
  from inv bound have gen: "entry_gen ?e \<le> n"
    and ok: "client_ok ?e (holderID (lks j)) (ls_pc s j)" for j
    by (auto simp: lock_inv_def lock_entry_def)
  from ok [of i] pc have i: "unat ver \<le> entry_gen ?e" "unat ver = entry_gen ?e \<Longrightarrow> free ?e" by auto
  have key: "pa_Key (acquire_args (lks i) ver) = name" "pa_Version (acquire_args (lks i) ver) = ver"
    "pa_Value (acquire_args (lks i) ver) = holderID (lks i)"
    using good_locksD [OF good] by (simp_all add: acquire_args_def)
  from put_attempt_entry [OF att] gen bound
  consider (same) "kv' = ls_kv s" "out = Retry \<or> (\<exists>e. out = Return e \<and> e \<noteq> OK)"
    | (applied) "entry_gen ?e = unat ver" "kv_lookup kv' name = Some (holderID (lks i), ver + 1)"
        "unat (ver + 1) = Suc (unat ver)" "out = Retry \<or> out = Return OK"
    unfolding key by fastforce
  then show ?thesis
  proof cases
    case same
    then show ?thesis using gen ok i bound
      by (intro lock_inv_update) (auto simp: acquire_after_put_def split: put_outcome.splits)
  next
    case applied
    then show ?thesis using gen i bound good_locksD [OF good]
      by (intro lock_inv_update)
        (auto simp: acquire_after_put_def entry_gen_def owned_def intro!: client_ok_taken [OF ok]
          split: put_outcome.splits option.splits)
  qed
qed (simp add: lock_inv_def)

lemma release_put_inv:
  assumes inv: "lock_inv name lks n s" and good: "good_locks name lks"
    and pc: "ls_pc s i = RelPut ver retried"
    and att: "put_attempt d (ls_kv s) (release_args (lks i) ver) retried = (kv', out)"
  shows "lock_inv name lks (Suc n) (set_pc (s\<lparr>ls_kv := kv'\<rparr>) i
      (case out of Retry \<Rightarrow> RelPut ver True | Return e \<Rightarrow> release_after_put e))"
proof (cases "Suc n < 2 ^ 64")
  case bound: True
  let ?e = "kv_lookup (ls_kv s) name"
  from inv bound have gen: "entry_gen ?e \<le> n"
    and ok: "client_ok ?e (holderID (lks j)) (ls_pc s j)" for j
    by (auto simp: lock_inv_def lock_entry_def)
  from ok [of i] pc have i: "if owned ?e (holderID (lks i)) then unat ver = entry_gen ?e
      else unat ver < entry_gen ?e \<and> retried" by simp
  have key: "pa_Key (release_args (lks i) ver) = name" "pa_Version (release_args (lks i) ver) = ver"
    "pa_Value (release_args (lks i) ver) = ''''"
    using good_locksD [OF good] by (simp_all add: release_args_def)
  from put_attempt_entry [OF att] gen bound
  consider (lost) "kv' = ls_kv s" "out = Retry"
    | (refused) "kv' = ls_kv s" "entry_gen ?e \<noteq> unat ver" "\<exists>e. out = Return e"
    | (applied) "entry_gen ?e = unat ver" "kv_lookup kv' name = Some ('''', ver + 1)"
        "unat (ver + 1) = Suc (unat ver)" "out = Retry \<or> out = Return OK"
    unfolding key by fastforce
  then show ?thesis
  proof cases
    case lost
    then show ?thesis using gen ok i bound
      by (intro lock_inv_update) (auto split: if_splits)
  next
    case refused
    then show ?thesis using gen ok i bound
      by (intro lock_inv_update) (auto simp: release_after_put_def split: if_splits)
  next
    case applied
    with i have "owned ?e (holderID (lks i))" by (auto split: if_splits)
    then show ?thesis using applied gen i bound good_locksD [OF good] good_locksD(2) [OF good, of i, symmetric]
      by (intro lock_inv_update)
        (auto simp: release_after_put_def entry_gen_def owned_def intro!: client_ok_freed [OF ok]
          split: put_outcome.splits option.splits)
  qed
qed (simp add: lock_inv_def)

lemma other_key_entry: "pa_Key a \<noteq> k \<Longrightarrow> kv_lookup (fst (kv_put kv a)) k = kv_lookup kv k"
  by (simp add: kv_put_simps kv_lookup_def)

lemma lock_step_inv:
  assumes "lock_inv name lks n s" "good_locks name lks" "lock_step name lks s t"
  shows "lock_inv name lks (Suc n) t"
  using assms(3)
proof cases
  case (call_acquire i)
  then show ?thesis using assms by (auto intro: lock_inv_pc)
next
  case (acquire_get i)
  then show ?thesis using assms(1) good_locksD(1) [OF assms(2), of i]
    by (auto intro!: lock_inv_pc acquire_get_ok simp: lock_entry_def)
next
  case (acquire_put i ver retried d kv' out)
  then show ?thesis using acquire_put_inv [OF assms(1,2)] by simp
next
  case (call_release i)
  with assms(1) have "Suc n < 2 ^ 64 \<Longrightarrow> owned (lock_entry name s) (holderID (lks i))"
    using lock_inv_client [OF assms(1), of i] by simp
  with call_release show ?thesis using assms(1) by (auto intro: lock_inv_pc)
next
  case (release_get i)
  with assms(1) have "Suc n < 2 ^ 64 \<Longrightarrow> owned (kv_lookup (ls_kv s) name) (holderID (lks i))"
    using lock_inv_client [OF assms(1), of i] by (simp add: lock_entry_def)
  with release_get show ?thesis using assms(1) good_locksD(1) [OF assms(2), of i]
    by (auto intro!: lock_inv_pc release_get_ok simp: lock_entry_def)
next
  case (release_put i ver retried d kv' out)
  then show ?thesis using release_put_inv [OF assms(1,2)] by simp
next
  case (other_key a)
  then show ?thesis using assms(1) by (auto simp: lock_inv_def lock_entry_def other_key_entry)
qed

lemma lock_init_inv: "lock_init s \<Longrightarrow> lock_inv name lks 0 s"
  by (simp add: lock_init_def lock_inv_def lock_entry_def entry_gen_def owned_def)

interpretation lk: counted_machine lock_init "lock_step name lks"
  "\<lambda>n s. good_locks name lks \<longrightarrow> lock_inv name lks n s" for name lks
  by unfold_locales (auto intro: lock_init_inv lock_step_inv)

lemma reach_client_ok:
  assumes "reach lock_init (lock_step name lks) n s" "n < 2 ^ 64" "good_locks name lks"
  shows "client_ok (lock_entry name s) (holderID (lks i)) (ls_pc s i)"
  using lk.reach_counted [OF assms(1)] assms(2,3) by (auto simp: lock_inv_def)

lemma reach_entry_gen:
  assumes "reach lock_init (lock_step name lks) n s" "n < 2 ^ 64" "good_locks name lks"
  shows "entry_gen (lock_entry name s) \<le> n"
  using lk.reach_counted [OF assms(1)] assms(2,3) by (auto simp: lock_inv_def)

section \<open>An example run\<close>

text \<open>Client \<open>i\<close> draws the id \<open>a...a\<close> of length \<open>i + 1\<close>; client 0 takes the lock \<open>l\<close>.\<close>

definition ex_locks :: "nat \<Rightarrow> lock_obj" where
  "ex_locks i = MakeLock (replicate (Suc i) CHR ''a'') ''l''"

definition ex_start :: lock_sys where
  "ex_start = \<lparr>ls_kv = MakeKVServer, ls_pc = (\<lambda>_. Outside)\<rparr>"

definition ex_taken :: lock_sys where
  "ex_taken = \<lparr>ls_kv = fst (kv_put MakeKVServer (acquire_args (ex_locks 0) 0)),
     ls_pc = (\<lambda>_. Outside)(0 := Inside)\<rparr>"

lemma ex_good: "good_locks ''l'' ex_locks"
  by (auto simp: good_locks_def ex_locks_def MakeLock_def inj_def dest: arg_cong [of _ _ length])

lemma ex_step:
  "reach lock_init (lock_step ''l'' ex_locks) n s \<Longrightarrow> lock_step ''l'' ex_locks s t' \<Longrightarrow> t' = t \<Longrightarrow>
   m = Suc n \<Longrightarrow> reach lock_init (lock_step ''l'' ex_locks) m t"
  by (auto intro: reach_step)

lemma ex_reach: "reach lock_init (lock_step ''l'' ex_locks) 3 ex_taken"
proof -
  have 0: "reach lock_init (lock_step ''l'' ex_locks) 0 ex_start"
    by (rule reach_init) (simp add: lock_init_def ex_start_def)
  have 1: "reach lock_init (lock_step ''l'' ex_locks) 1 (set_pc ex_start 0 AcqGet)"
    by (rule ex_step [OF 0 call_acquire]) (simp_all add: ex_start_def)
  have 2: "reach lock_init (lock_step ''l'' ex_locks) 2 (set_pc ex_start 0 (AcqPut 0 False))"
    by (rule ex_step [OF 1 acquire_get [where i = 0]])
      (simp_all add: set_pc_def ex_start_def acquire_after_get_def get_lock_def kv_Get_lookup)
  have put: "put_attempt Delivered (ls_kv (set_pc ex_start 0 (AcqPut 0 False)))
        (acquire_args (ex_locks 0) 0) False =
      (fst (kv_put MakeKVServer (acquire_args (ex_locks 0) 0)), Return OK)"
    by (simp add: put_attempt_cases put_answer_def kv_put_simps acquire_args_def generation_def
        set_pc_def ex_start_def)
  show ?thesis
    by (rule ex_step [OF 2 acquire_put [where i = 0 and lks = ex_locks and s = "set_pc ex_start 0 (AcqPut 0 False)", OF _ put]])
      (auto simp: set_pc_def ex_start_def ex_taken_def acquire_after_put_def)
qed

section \<open>Properties of the lock\<close>

text \<open>
  C1: mutual exclusion. In every state the clients reach in fewer than \<open>2^64\<close> steps, over any
  lossy network and with any interleaving, at most one client is between the return of its
  \<open>Acquire\<close> and its call of \<open>Release\<close>.
\<close>

theorem lock_mutual_exclusion:
  assumes "reach lock_init (lock_step name lks) n s" "n < 2 ^ 64" "good_locks name lks"
    and "ls_pc s i = Inside" "ls_pc s j = Inside"
  shows "i = j"
proof (rule ccontr)
  assume "i \<noteq> j"
  then have "holderID (lks i) \<noteq> holderID (lks j)" by (rule good_locksD(3) [OF assms(3)])
  with reach_client_ok [OF assms(1-3), of i] reach_client_ok [OF assms(1-3), of j] assms(4,5)
  show False by (auto simp: owned_def)
qed

theorem lock_mutual_exclusion_witness:
  "reach lock_init (lock_step ''l'' ex_locks) 3 ex_taken \<and> ls_pc ex_taken 0 = Inside \<and>
   ls_pc ex_taken 1 \<noteq> Inside"
proof (intro conjI notI)
  show inside: "ls_pc ex_taken 0 = Inside" by (simp add: ex_taken_def)
  have few: "3 < (2 :: nat) ^ 64" by simp
  assume "ls_pc ex_taken 1 = Inside"
  then have "0 = (1 :: nat)" by (rule lock_mutual_exclusion [OF ex_reach few ex_good inside])
  then show False by simp
qed (rule ex_reach)

text \<open>
  \<open>Release\<close> ends as \<open>lock.go\<close> and the README say. In every such state, an attempt of a
  Release's Put that gets its reply returns OK or ErrMaybe, never ErrVersion or ErrNoKey, and
  the entry the server then holds no longer names the releasing client.
\<close>

theorem lock_release_outcome:
  assumes "reach lock_init (lock_step name lks) n s" "n < 2 ^ 64 - 1" "good_locks name lks"
    and "ls_pc s i = RelPut ver retried"
    and "put_attempt Delivered (ls_kv s) (release_args (lks i) ver) retried = (kv', Return e)"
  shows "e \<in> {OK, ErrMaybe} \<and> \<not> owned (kv_lookup kv' name) (holderID (lks i))"
proof -
  let ?e = "kv_lookup (ls_kv s) name" and ?a = "release_args (lks i) ver"
  have a: "pa_Key ?a = name" "pa_Version ?a = ver" "pa_Value ?a = ''''"
    using good_locksD [OF assms(3)] by (simp_all add: release_args_def)
  have ok: "if owned ?e (holderID (lks i)) then unat ver = entry_gen ?e
      else unat ver < entry_gen ?e \<and> retried" and gen: "entry_gen ?e \<le> n"
    using reach_client_ok [OF assms(1) _ assms(3), of i] reach_entry_gen [OF assms(1) _ assms(3)]
      assms(2,4) by (auto simp: lock_entry_def)
  show ?thesis
  proof (cases "owned ?e (holderID (lks i))")
    case True
    with ok have "generation kv_lookup (ls_kv s) name = ver" by (simp add: generation_entry)
    with assms(5) kv.put_hit [of "ls_kv s" ?a] good_locksD(2) [OF assms(3), of i]
    show ?thesis by (auto simp: a put_attempt_cases put_answer_def owned_def)
  next
    case False
    with ok have "generation kv_lookup (ls_kv s) name \<noteq> ver" "?e \<noteq> None" retried
      by (auto simp: generation_entry) (auto simp: entry_gen_def split: option.splits)
    with assms(5) kv.put_miss [of "ls_kv s" ?a] False
    show ?thesis by (auto simp: a put_attempt_cases put_answer_def)
  qed
qed

lemma ex_taken_entry: "kv_lookup (ls_kv ex_taken) ''l'' = Some (''a'', 1)"
  by (simp add: ex_taken_def kv_put_simps kv_lookup_def acquire_args_def ex_locks_def MakeLock_def generation_def
      MakeKVServer_def)

lemma ex_reach_release: "reach lock_init (lock_step ''l'' ex_locks) 5 (set_pc ex_taken 0 (RelPut 1 False))"
proof -
  have 4: "reach lock_init (lock_step ''l'' ex_locks) 4 (set_pc ex_taken 0 RelGet)"
    by (rule ex_step [OF ex_reach call_release]) (simp_all add: ex_taken_def)
  have get: "get_lock (ls_kv ex_taken) (ex_locks 0) = \<lparr>gr_Value = ''a'', gr_Version = 1, gr_Err = OK\<rparr>"
    using ex_taken_entry by (simp add: get_lock_entry [of _ "''l''"] ex_locks_def MakeLock_def)
  show ?thesis
    by (rule ex_step [OF 4 release_get [where i = 0]])
      (use get in \<open>simp_all add: set_pc_def release_after_get_def\<close>)
qed

theorem lock_release_outcome_witness:
  "OK \<in> {OK, ErrMaybe} \<and>
   \<not> owned (kv_lookup (fst (kv_put (ls_kv ex_taken) (release_args (ex_locks 0) 1))) ''l'') (holderID (ex_locks 0))"
proof (rule lock_release_outcome [OF ex_reach_release _ ex_good])
  show "ls_pc (set_pc ex_taken 0 (RelPut 1 False)) 0 = RelPut 1 False" by (simp add: set_pc_def)
  have "generation kv_lookup (ls_kv ex_taken) ''l'' = 1" using ex_taken_entry by (simp add: generation_def)
  then show "put_attempt Delivered (ls_kv (set_pc ex_taken 0 (RelPut 1 False))) (release_args (ex_locks 0) 1) False =
     (fst (kv_put (ls_kv ex_taken) (release_args (ex_locks 0) 1)), Return OK)"
    by (simp add: set_pc_def put_attempt_cases put_answer_def kv_put_simps release_args_def ex_locks_def MakeLock_def)
qed simp

text \<open>
  A free lock can be taken. In every state in which the entry is free, a client whose
  \<open>Acquire\<close> is at its Get is two of its own steps away from holding the lock.
\<close>

theorem lock_free_acquire:
  assumes "good_locks name lks" "free (lock_entry name s)" "ls_pc s i = AcqGet"
  shows "\<exists>s1 s2. lock_step name lks s s1 \<and> lock_step name lks s1 s2 \<and> ls_pc s2 i = Inside"
proof -
  define ver where "ver = generation kv_lookup (ls_kv s) name"
  have "acquire_after_get (lks i) (get_lock (ls_kv s) (lks i)) = AcqPut ver False"
    using assms(2) good_locksD [OF assms(1), of i] good_locksD(2) [OF assms(1), of i, symmetric]
    by (auto simp: ver_def generation_def acquire_after_get_def get_lock_entry lock_entry_def free_def owned_def)
  with assms(3) acquire_get [of s i name lks] have s1: "lock_step name lks s (set_pc s i (AcqPut ver False))" by simp
  let ?a = "acquire_args (lks i) ver"
  have put: "put_attempt Delivered (ls_kv s) ?a False = (fst (kv_put (ls_kv s) ?a), Return OK)"
    using good_locksD(1) [OF assms(1), of i]
    by (simp add: put_attempt_cases put_answer_def kv_put_simps acquire_args_def ver_def)
  have "lock_step name lks (set_pc s i (AcqPut ver False))
      (set_pc ((set_pc s i (AcqPut ver False))\<lparr>ls_kv := fst (kv_put (ls_kv s) ?a)\<rparr>) i
        (case Return OK of Retry \<Rightarrow> AcqPut ver True | Return e \<Rightarrow> acquire_after_put e))"
    by (rule acquire_put [where d = Delivered and retried = False]) (simp_all add: set_pc_def put)
  with s1 show ?thesis by (fastforce simp: set_pc_def acquire_after_put_def)
qed

theorem lock_free_acquire_witness:
  "\<exists>s1 s2. lock_step ''l'' ex_locks (set_pc ex_start 0 AcqGet) s1 \<and> lock_step ''l'' ex_locks s1 s2 \<and>
     ls_pc s2 0 = Inside"
  by (rule lock_free_acquire [OF ex_good])
    (simp_all add: set_pc_def ex_start_def lock_entry_def free_def)

text \<open>
  \<open>Release\<close> does not check who holds the lock. Called by a client that does not hold it, it
  frees the lock of the client that does: whatever the entry names, a delivered Release leaves
  the empty value. (The README's diagram has Release leave the lock alone when the value is not
  the caller's id.)
\<close>

theorem release_unguarded:
  assumes "kv_lookup kv (lockname lk) = Some (holder, ver)"
  shows "release_after_get (get_lock kv lk) = RelPut ver False \<and>
    (\<exists>kv'. put_attempt Delivered kv (release_args lk ver) False = (kv', Return OK) \<and>
       kv_lookup kv' (lockname lk) = Some ('''', ver + 1))"
  using assms kv.put_hit [of kv "release_args lk ver"]
  by (auto simp: release_after_get_def get_lock_entry put_attempt_cases put_answer_def release_args_def generation_def)

theorem release_unguarded_witness:
  "release_after_get (get_lock (ls_kv ex_taken) (ex_locks 1)) = RelPut 1 False \<and>
   (\<exists>kv'. put_attempt Delivered (ls_kv ex_taken) (release_args (ex_locks 1) 1) False = (kv', Return OK) \<and>
      kv_lookup kv' (lockname (ex_locks 1)) = Some ('''', 1 + 1))"
  by (rule release_unguarded [where holder = "''a''"])
    (use ex_taken_entry in \<open>simp add: ex_locks_def MakeLock_def\<close>)

end
