(* ===== verification/KvTest.thy ===== *)
theory KvTest
  imports KvModel LockService Json
begin

text \<open>
  The key/value test harness (\<open>kvtest1\<close>): the log of operations handed to the linearizability
  checker, JSON values under a key, and the workloads with their checks. The main result is about
  \<open>OneClientAppend\<close> and \<open>CheckAppends\<close>: any number of clients append to one key through their clerks,
  over a network that loses requests and replies, and the check at the end accepts every such run:
  the harness blames no correct server and no correct clerk.
\<close>

section \<open>porcupine.go: OpLog\<close>

record timed_operation =
  op_io :: operation
  op_Call :: int
  op_Return :: int
  op_ClientId :: int

type_synonym op_log = "timed_operation list"

definition OpLog_Len :: "op_log \<Rightarrow> nat" where "OpLog_Len log = length log"
definition OpLog_Append :: "timed_operation \<Rightarrow> op_log \<Rightarrow> op_log" where "OpLog_Append op log = log @ [op]"
definition OpLog_Read :: "op_log \<Rightarrow> op_log" where
  "OpLog_Read log = take (length log) log"

text \<open>
  The recording wrappers: the clerk's answer is passed on and logged with the times before and after
  the call; a nil log records nothing. \<open>ops\<close> is the tester's operation counter.
\<close>

definition log_Get ::
  "get_reply \<Rightarrow> string \<Rightarrow> int \<Rightarrow> int \<Rightarrow> int \<Rightarrow> op_log option \<times> int \<Rightarrow> get_reply \<times> op_log option \<times> int" where
  "log_Get r key cli start ende st =
     (case st of (log, ops) \<Rightarrow>
        (r, map_option (OpLog_Append
              \<lparr>op_io = (\<lparr>in_Op = 0, in_Key = key, in_Value = '''', in_Version = 0\<rparr>,
                 \<lparr>out_Value = gr_Value r, out_Version = gr_Version r, out_Err = err_string (gr_Err r)\<rparr>),
               op_Call = start, op_Return = ende, op_ClientId = cli\<rparr>) log, ops + 1))"

definition log_Put ::
  "err \<Rightarrow> put_args \<Rightarrow> int \<Rightarrow> int \<Rightarrow> int \<Rightarrow> op_log option \<times> int \<Rightarrow> err \<times> op_log option \<times> int" where
  "log_Put e a cli start ende st =
     (case st of (log, ops) \<Rightarrow>
        (e, map_option (OpLog_Append
              \<lparr>op_io = (\<lparr>in_Op = 1, in_Key = pa_Key a, in_Value = pa_Value a, in_Version = pa_Version a\<rparr>,
                 \<lparr>out_Value = '''', out_Version = 0, out_Err = err_string e\<rparr>),
               op_Call = start, op_Return = ende, op_ClientId = cli\<rparr>) log, ops + 1))"

section \<open>kvtest.go: values and keys\<close>

text \<open>\<open>RandValue\<close>, given the random numbers drawn.\<close>

definition letterBytes :: string where
  "letterBytes = ''abcdefghijklmnopqrstuvwxyzABCDEFGHIJKLMNOPQRSTUVWXYZ''"

definition RandValue :: "int list \<Rightarrow> string" where
  "RandValue rs = map (\<lambda>r. letterBytes ! nat (r mod int (length letterBytes))) rs"

definition MakeKeys :: "nat \<Rightarrow> string list" where
  "MakeKeys n = map (\<lambda>i. CHR ''k'' # itoa (int i)) [0..<n]"

definition CheckGet :: "get_reply \<Rightarrow> string \<Rightarrow> tversion \<Rightarrow> unit result" where
  "CheckGet r val version =
     (if gr_Err r \<noteq> OK then Inl (Fatal ''returns error'')
      else if gr_Value r \<noteq> val \<or> gr_Version r \<noteq> version then Inl (Fatal ''returns a wrong value or version'')
      else Inr ())"

text \<open>
  \<open>PutAtLeastOnce\<close>, driven by the answers the clerk's Put gives to the versions it tries; an exhausted
  list is a loop that is still running.
\<close>

fun PutAtLeastOnce :: "err list \<Rightarrow> tversion \<Rightarrow> tversion option result" where
  "PutAtLeastOnce [] ver = Inr None"
| "PutAtLeastOnce (err # errs) ver =
     (if err = OK then Inr (Some (ver + 1))
      else if err = ErrMaybe \<or> err = ErrVersion then PutAtLeastOnce errs (ver + 1)
      else if ver \<noteq> 0 then Inl (Fatal ''Put'')
      else PutAtLeastOnce errs ver)"

text \<open>The two sides a random bit per server gives in \<open>Partitioner\<close>.\<close>

definition random_sides :: "nat list \<Rightarrow> nat list \<times> nat list" where
  "random_sides a =
     (filter (\<lambda>j. a ! j = 0) [0..<length a], filter (\<lambda>j. a ! j = 1) [0..<length a])"

record clnt_res =
  Nok :: nat
  Nmaybe :: nat

definition CheckPutConcurrent :: "tversion \<Rightarrow> clnt_res list \<Rightarrow> clnt_res \<Rightarrow> bool \<Rightarrow> clnt_res result" where
  "CheckPutConcurrent ver0 rs res reliable =
     (let res' = foldl (\<lambda>s r. \<lparr>Nok = Nok s + Nok r, Nmaybe = Nmaybe s + Nmaybe r\<rparr>) res rs
      in if reliable
         then if ver0 \<noteq> of_nat (Nok res') then Inl (Fatal ''Reliable: wrong number of puts'') else Inr res'
         else if ver0 > of_nat (Nok res' + Nmaybe res') then Inl (Fatal ''Unreliable: wrong number of puts'')
         else Inr res')"

section \<open>JSON values\<close>

text \<open>
  \<open>[]entry\<close> as \<open>encoding/json\<close> writes and reads it. Ids and iteration numbers are never negative; of
  the decoder only what it does on the encoder's output matters, everything else is an error here.
\<close>

record entry =
  eId :: nat
  eN :: nat

definition enc_entry :: "entry \<Rightarrow> string" where
  "enc_entry e =
     CHR ''{'' # json_string ''Id'' @ CHR '':'' # nat_digits (eId e) @
     CHR '','' # json_string ''N'' @ CHR '':'' # nat_digits (eN e) @ [CHR ''}'']"

fun enc_tail :: "entry list \<Rightarrow> string" where
  "enc_tail [] = '']''"
| "enc_tail (e # es) = CHR '','' # enc_entry e @ enc_tail es"

fun entries_Marshal :: "entry list \<Rightarrow> string" where
  "entries_Marshal [] = ''[]''"
| "entries_Marshal (e # es) = CHR ''['' # enc_entry e @ enc_tail es"

definition dec_entry :: "string \<Rightarrow> (entry \<times> string) option" where
  "dec_entry s =
     Option.bind (expect (CHR ''{'' # json_string ''Id'' @ [CHR '':'']) s) (\<lambda>s1.
     Option.bind (dec_nat s1) (\<lambda>(i, s2).
     Option.bind (expect (CHR '','' # json_string ''N'' @ [CHR '':'']) s2) (\<lambda>s3.
     Option.bind (dec_nat s3) (\<lambda>(n, s4).
     Option.bind (expect [CHR ''}''] s4) (\<lambda>s5. Some (\<lparr>eId = i, eN = n\<rparr>, s5))))))"

lemma dec_entry_length: "dec_entry s = Some (e, r) \<Longrightarrow> length r \<le> length s"
  by (auto simp: dec_entry_def bind_eq_Some_conv dest!: expect_Some dec_nat_length)

function dec_tail :: "string \<Rightarrow> entry list option" where
  "dec_tail s =
     (if s = '']'' then Some []
      else if s \<noteq> [] \<and> hd s = CHR '','' then
        (case dec_entry (tl s) of
           Some (e, s') \<Rightarrow> map_option (Cons e) (dec_tail s')
         | None \<Rightarrow> None)
      else None)"
  by pat_completeness auto
termination
  by (relation "measure length") (auto dest!: dec_entry_length simp: neq_Nil_conv)

declare dec_tail.simps [simp del]

definition entries_Unmarshal :: "string \<Rightarrow> entry list option" where
  "entries_Unmarshal s =
     (if s = ''[]'' then Some []
      else if s \<noteq> [] \<and> hd s = CHR ''['' then
        (case dec_entry (tl s) of
           Some (e, s') \<Rightarrow> map_option (Cons e) (dec_tail s')
         | None \<Rightarrow> None)
      else None)"

lemma dec_enc_entry: "dec_entry (enc_entry e @ r) = Some (e, r)"
proof -
  have "expect p (p @ q) = Some q" for p q by (rule expect_append)
  note ex = this [of "CHR ''{'' # json_string ''Id'' @ [CHR '':'']", simplified]
    this [of "CHR '','' # json_string ''N'' @ [CHR '':'']", simplified]
  show ?thesis by (cases e) (simp add: dec_entry_def enc_entry_def ex dec_nat_digits is_digit_def)
qed

lemma dec_enc_tail: "dec_tail (enc_tail es) = Some es"
  by (induction es) (simp_all add: dec_tail.simps dec_enc_entry)

lemma entries_roundtrip [simp]: "entries_Unmarshal (entries_Marshal es) = Some es"
proof (cases es)
  case (Cons e es')
  have "enc_entry e @ enc_tail es' \<noteq> '']''" by (simp add: enc_entry_def)
  with Cons show ?thesis by (simp add: entries_Unmarshal_def dec_enc_entry dec_enc_tail)
qed (simp add: entries_Unmarshal_def)

section \<open>OneClientAppend\<close>

text \<open>
  A client is at the \<open>select\<close> of its loop, about to get the list, about to put the longer list (with
  the clerk's retry flag), or has returned; \<open>AFatal\<close> is a \<open>Fatalf\<close> of \<open>GetJson\<close>.
\<close>

datatype append_pc = ASelect | AGet | APut "entry list" tversion bool | AReturned | AFatal

record append_client =
  a_pc :: append_pc
  a_i :: nat
  a_nok :: nat
  a_nmay :: nat

definition append_start :: append_client where
  "append_start = \<lparr>a_pc = ASelect, a_i = 0, a_nok = 0, a_nmay = 0\<rparr>"

definition append_args :: "entry list \<Rightarrow> tversion \<Rightarrow> put_args" where
  "append_args es ver = \<lparr>pa_Key = ''k'', pa_Value = entries_Marshal es, pa_Version = ver\<rparr>"

text \<open>\<open>GetJson\<close> and the append of the client's next tuple.\<close>

definition append_after_get :: "nat \<Rightarrow> get_reply \<Rightarrow> append_client \<Rightarrow> append_client" where
  "append_after_get me r c =
     (if gr_Err r = OK then
        (case entries_Unmarshal (gr_Value r) of
           Some es \<Rightarrow> c\<lparr>a_pc := APut (es @ [\<lparr>eId = me, eN = a_i c\<rparr>]) (gr_Version r) False\<rparr>
         | None \<Rightarrow> c\<lparr>a_pc := AFatal\<rparr>)
      else c\<lparr>a_pc := AFatal\<rparr>)"

definition append_after_put :: "err \<Rightarrow> append_client \<Rightarrow> append_client" where
  "append_after_put e c =
     (if e = OK then c\<lparr>a_pc := ASelect, a_i := a_i c + 1, a_nok := a_nok c + 1\<rparr>
      else if e = ErrMaybe then c\<lparr>a_pc := ASelect, a_i := a_i c + 1, a_nmay := a_nmay c + 1\<rparr>
      else c\<lparr>a_pc := AGet\<rparr>)"

record append_sys =
  as_kv :: kv_server
  as_cl :: "nat \<Rightarrow> append_client"

definition append_init :: "append_sys \<Rightarrow> bool" where
  "append_init s \<longleftrightarrow> as_kv s = fst (kv_put MakeKVServer (append_args [] 0)) \<and> (\<forall>me. as_cl s me = append_start)"

definition set_client :: "nat \<Rightarrow> append_client \<Rightarrow> append_sys \<Rightarrow> append_sys" where
  "set_client me c s = s\<lparr>as_cl := (as_cl s)(me := c)\<rparr>"

text \<open>The steps of \<open>nclnt\<close> clients; each attempt of a clerk's Put is a step of its own.\<close>

inductive append_step :: "nat \<Rightarrow> append_sys \<Rightarrow> append_sys \<Rightarrow> bool" for nclnt :: nat where
  a_done: "me < nclnt \<Longrightarrow> a_pc (as_cl s me) = ASelect \<Longrightarrow>
    append_step nclnt s (set_client me ((as_cl s me)\<lparr>a_pc := AReturned\<rparr>) s)"
| a_default: "me < nclnt \<Longrightarrow> a_pc (as_cl s me) = ASelect \<Longrightarrow>
    append_step nclnt s (set_client me ((as_cl s me)\<lparr>a_pc := AGet\<rparr>) s)"
| a_get: "me < nclnt \<Longrightarrow> a_pc (as_cl s me) = AGet \<Longrightarrow>
    append_step nclnt s (set_client me
      (append_after_get me (kv_Get (as_kv s) \<lparr>ga_Key = ''k''\<rparr> zero_get_reply) (as_cl s me)) s)"
| a_put: "me < nclnt \<Longrightarrow> a_pc (as_cl s me) = APut es ver retried \<Longrightarrow>
    put_attempt d (as_kv s) (append_args es ver) retried = (kv', out) \<Longrightarrow>
    append_step nclnt s (set_client me
      (case out of Retry \<Rightarrow> (as_cl s me)\<lparr>a_pc := APut es ver True\<rparr> | Return e \<Rightarrow> append_after_put e (as_cl s me))
      (s\<lparr>as_kv := kv'\<rparr>))"

section \<open>CheckAppends\<close>

definition gm_get0 :: "('k, nat) gomap \<Rightarrow> 'k \<Rightarrow> nat" where
  "gm_get0 m k = (case map_of m k of Some v \<Rightarrow> v | None \<Rightarrow> 0)"

definition check_entry :: "entry \<Rightarrow> (nat, nat) gomap \<times> (nat, nat) gomap \<Rightarrow> ((nat, nat) gomap \<times> (nat, nat) gomap) result" where
  "check_entry e st =
     (case st of (ex, sk) \<Rightarrow>
        if gm_get0 ex (eId e) > eN e then Inl (Fatal ''wrong expecting'')
        else if gm_get0 ex (eId e) = eN e then Inr (gm_put (eId e) (gm_get0 ex (eId e) + 1) ex, sk)
        else Inr (gm_put (eId e) (eN e + 1) ex,
                  gm_put (eId e) (gm_get0 sk (eId e) + (eN e - gm_get0 ex (eId e))) sk))"

definition check_entries :: "entry list \<Rightarrow> (nat, nat) gomap \<times> (nat, nat) gomap \<Rightarrow> ((nat, nat) gomap \<times> (nat, nat) gomap) result" where
  "check_entries es st = foldl (\<lambda>acc e. res_bind acc (check_entry e)) (Inr st) es"

text \<open>\<open>rs[c]\<close> panics for an id that is not a client.\<close>

fun check_counts :: "(nat \<times> nat) list \<Rightarrow> (nat, nat) gomap \<Rightarrow> clnt_res list \<Rightarrow> unit result" where
  "check_counts [] sk rs = Inr ()"
| "check_counts ((c, n) # ex) sk rs =
     res_bind (go_index rs (int c)) (\<lambda>r.
       if gm_get0 sk c > Nmaybe r then Inl (Fatal ''skipped puts on server'')
       else if n > Nok r + Nmaybe r then Inl (Fatal ''puts on server > ok + maybe'')
       else check_counts ex sk rs)"

definition CheckAppends :: "entry list \<Rightarrow> nat \<Rightarrow> clnt_res list \<Rightarrow> tversion \<Rightarrow> unit result" where
  "CheckAppends es nclnt rs ver =
     (let zero = map (\<lambda>i. (i, 0)) [0..<nclnt]
      in res_bind (check_entries es (zero, zero)) (\<lambda>(ex, sk).
           if int (length es) + 1 \<noteq> sint ver then Inl (Fatal ''appends in val != puts on server'')
           else check_counts ex sk rs))"

section \<open>What the check needs\<close>

text \<open>The iteration numbers of one client in the list, and the next one \<open>CheckAppends\<close> expects.\<close>

definition Ns :: "nat \<Rightarrow> entry list \<Rightarrow> nat list" where
  "Ns c es = map eN (filter (\<lambda>e. eId e = c) es)"

definition nextN :: "nat list \<Rightarrow> nat" where
  "nextN ns = (if ns = [] then 0 else Suc (last ns))"

lemma Ns_simps [simp]: "Ns c [] = []" "Ns c (es @ [e]) = (if eId e = c then Ns c es @ [eN e] else Ns c es)"
  by (simp_all add: Ns_def)

lemma nextN_snoc [simp]: "nextN (ns @ [n]) = Suc n"
  by (simp add: nextN_def)

lemma nextN_le: "sorted_wrt (<) (ns @ [n]) \<Longrightarrow> nextN ns \<le> n"
  by (cases ns rule: rev_cases) (auto simp: sorted_wrt_append nextN_def)

lemma gm_get0_put [simp]: "gm_get0 (gm_put k v m) j = (if j = k then v else gm_get0 m j)"
  by (simp add: gm_get0_def)

lemma check_entries_passes:
  assumes "\<And>c. sorted_wrt (<) (Ns c es)" and "\<And>c. gm_get0 ex0 c = 0" "\<And>c. gm_get0 sk0 c = 0"
  shows "\<exists>ex sk. check_entries es (ex0, sk0) = Inr (ex, sk) \<and>
    dom (map_of ex) = dom (map_of ex0) \<union> eId ` set es \<and> (distinct (map fst ex0) \<longrightarrow> distinct (map fst ex)) \<and>
    (\<forall>c. gm_get0 ex c = nextN (Ns c es) \<and> gm_get0 sk c + length (Ns c es) = nextN (Ns c es))"
  using assms
proof (induction es rule: rev_induct)
  case Nil
  then show ?case by (simp add: check_entries_def nextN_def)
next
  case (snoc e es)
  have srt: "sorted_wrt (<) (Ns c es)" for c using snoc.prems(1) [of c] by (auto simp: sorted_wrt_append split: if_splits)
  obtain ex sk where IH: "check_entries es (ex0, sk0) = Inr (ex, sk)"
    "dom (map_of ex) = dom (map_of ex0) \<union> eId ` set es" "distinct (map fst ex0) \<longrightarrow> distinct (map fst ex)"
    "\<And>c. gm_get0 ex c = nextN (Ns c es)" "\<And>c. gm_get0 sk c + length (Ns c es) = nextN (Ns c es)"
    using snoc.IH [OF srt snoc.prems(2,3)] by blast
  have le: "nextN (Ns (eId e) es) \<le> eN e" using snoc.prems(1) [of "eId e"] by (simp add: nextN_le)
  have "check_entries (es @ [e]) (ex0, sk0) = check_entry e (ex, sk)" using IH(1) by (simp add: check_entries_def)
  moreover have "gm_get0 sk (eId e) + eN e + length (Ns (eId e) es) - nextN (Ns (eId e) es) = eN e"
    using IH(5) [of "eId e"] by linarith
  ultimately show ?case using le IH(2-5) by (auto simp: check_entry_def)
qed

lemma check_counts_passes:
  assumes "\<forall>(c, n) \<in> set ex. c < length rs \<and> gm_get0 sk c \<le> Nmaybe (rs ! c) \<and> n \<le> Nok (rs ! c) + Nmaybe (rs ! c)"
  shows "check_counts ex sk rs = Inr ()"
  using assms by (induction ex) auto

section \<open>The invariant of the appends\<close>

text \<open>
  The numbers of a client in the list are below its current one, which is there already only if a
  Put whose reply was lost has been applied; then the clerk is retrying with an old version.
\<close>

fun pc_ok :: "entry list \<Rightarrow> tversion \<Rightarrow> nat \<Rightarrow> nat \<Rightarrow> append_pc \<Rightarrow> bool" where
  "pc_ok es ver me i (APut es' v retried) =
     (unat v \<le> unat ver \<and> (\<forall>x \<in> set (Ns me es). x \<le> i) \<and>
      (if i \<in> set (Ns me es) then v \<noteq> ver \<and> retried else v = ver \<longrightarrow> es' = es @ [\<lparr>eId = me, eN = i\<rparr>]))"
| "pc_ok es ver me i AFatal = False"
| "pc_ok es ver me i _ = (\<forall>x \<in> set (Ns me es). x < i)"

definition client_fine :: "entry list \<Rightarrow> tversion \<Rightarrow> nat \<Rightarrow> append_client \<Rightarrow> bool" where
  "client_fine es ver me c \<longleftrightarrow> a_i c = a_nok c + a_nmay c \<and> a_nok c \<le> length (Ns me es) \<and>
     sorted_wrt (<) (Ns me es) \<and> pc_ok es ver me (a_i c) (a_pc c)"

definition append_ok :: "nat \<Rightarrow> append_sys \<Rightarrow> entry list \<Rightarrow> tversion \<Rightarrow> bool" where
  "append_ok nclnt s es ver \<longleftrightarrow> kv_lookup (as_kv s) ''k'' = Some (entries_Marshal es, ver) \<and> unat ver = Suc (length es) \<and>
     (\<forall>e \<in> set es. eId e < nclnt) \<and> (\<forall>me < nclnt. client_fine es ver me (as_cl s me))"

definition append_inv :: "nat \<Rightarrow> nat \<Rightarrow> append_sys \<Rightarrow> bool" where
  "append_inv nclnt n s \<longleftrightarrow> (n < 2 ^ 63 - 1 \<longrightarrow> (\<exists>es ver. length es \<le> n \<and> append_ok nclnt s es ver))"

lemma put_attempt_existing:
  assumes "put_attempt d kv a r = (kv', out)" "kv_lookup kv (pa_Key a) = Some (v, ver)"
  shows "pa_Version a \<noteq> ver \<and> kv' = kv \<and> (out = Retry \<or> out = Return (put_answer r ErrVersion)) \<or>
    pa_Version a = ver \<and> kv' = kv \<and> out = Retry \<or>
    pa_Version a = ver \<and> kv_lookup kv' (pa_Key a) = Some (pa_Value a, ver + 1) \<and> (out = Retry \<or> out = Return OK)"
proof -
  have "generation kv_lookup kv (pa_Key a) = ver" using assms(2) by (simp add: generation_def)
  then show ?thesis using assms kv.put_hit [of kv a] kv.put_miss [of kv a]
    by (cases "pa_Version a = ver"; cases d) (auto simp: put_attempt_cases put_answer_def)
qed

text \<open>A step of a client that leaves the server as it is.\<close>

lemma append_ok_client:
  assumes "append_ok nclnt s es ver" "client_fine es ver me c"
  shows "append_ok nclnt (set_client me c s) es ver"
  using assms by (simp add: append_ok_def set_client_def)

text \<open>A Put of client \<open>me\<close> that is applied.\<close>

lemma client_fine_other:
  assumes "client_fine es ver me c" "me \<noteq> you" "unat ver' = Suc (unat ver)"
  shows "client_fine (es @ [\<lparr>eId = you, eN = n\<rparr>]) ver' me c"
  using assms by (cases "a_pc c") (auto simp: client_fine_def)

lemma append_ok_applied:
  assumes ok: "append_ok nclnt s es ver" and me: "me < nclnt" and n: "length es < 2 ^ 63 - 1"
    and kv: "kv_lookup kv' ''k'' = Some (entries_Marshal (es @ [\<lparr>eId = me, eN = i\<rparr>]), ver + 1)"
    and c: "client_fine (es @ [\<lparr>eId = me, eN = i\<rparr>]) (ver + 1) me c"
  shows "append_ok nclnt (set_client me c (s\<lparr>as_kv := kv'\<rparr>)) (es @ [\<lparr>eId = me, eN = i\<rparr>]) (ver + 1)"
proof -
  have v: "unat (ver + 1) = Suc (unat ver)" using ok n by (intro unat_Suc) (simp add: append_ok_def)
  have "client_fine (es @ [\<lparr>eId = me, eN = i\<rparr>]) (ver + 1) j (as_cl s j)" if "j < nclnt" "j \<noteq> me" for j
    using ok that v by (intro client_fine_other) (auto simp: append_ok_def)
  then show ?thesis using ok me kv c v by (simp add: append_ok_def set_client_def)
qed

lemma append_put_ok:
  assumes ok: "append_ok nclnt s es ver" and me: "me < nclnt" and n: "length es < 2 ^ 63 - 1"
    and pc: "a_pc (as_cl s me) = APut es' v r" and att: "put_attempt d (as_kv s) (append_args es' v) r = (kv', out)"
  defines "c \<equiv> (case out of Retry \<Rightarrow> (as_cl s me)\<lparr>a_pc := APut es' v True\<rparr> | Return e \<Rightarrow> append_after_put e (as_cl s me))"
  shows "\<exists>es1 ver1. length es1 \<le> Suc (length es) \<and> append_ok nclnt (set_client me c (s\<lparr>as_kv := kv'\<rparr>)) es1 ver1"
proof -
  let ?e = "\<lparr>eId = me, eN = a_i (as_cl s me)\<rparr>"
  have fine: "client_fine es ver me (as_cl s me)" using ok me by (simp add: append_ok_def)
  have "kv_lookup (as_kv s) (pa_Key (append_args es' v)) = Some (entries_Marshal es, ver)"
    using ok by (simp add: append_ok_def append_args_def)
  from put_attempt_existing [OF att this]
  consider "v \<noteq> ver" "kv' = as_kv s" "out = Retry \<or> out = Return (put_answer r ErrVersion)"
    | "v = ver" "kv' = as_kv s" "out = Retry"
    | "v = ver" "kv_lookup kv' ''k'' = Some (entries_Marshal es', ver + 1)" "out = Retry \<or> out = Return OK"
    by (auto simp: append_args_def)
  then show ?thesis
  proof cases
    case 1
    then have "client_fine es ver me c" using fine pc
      by (auto simp: c_def client_fine_def append_after_put_def put_answer_def less_Suc_eq_le split: if_splits)
        (metis le_neq_implies_less)
    then have "append_ok nclnt (set_client me c (s\<lparr>as_kv := kv'\<rparr>)) es ver"
      using append_ok_client [OF ok] 1(2) by simp
    then show ?thesis by (intro exI [of _ es] exI [of _ ver]) simp
  next
    case 2
    then have "client_fine es ver me c" using fine pc by (auto simp: c_def client_fine_def)
    then have "append_ok nclnt (set_client me c (s\<lparr>as_kv := kv'\<rparr>)) es ver"
      using append_ok_client [OF ok] 2(2) by simp
    then show ?thesis by (intro exI [of _ es] exI [of _ ver]) simp
  next
    case 3
    have v: "unat (ver + 1) = Suc (unat ver)" using ok n by (intro unat_Suc) (simp add: append_ok_def)
    then have "ver + 1 \<noteq> ver" by auto
    have es': "es' = es @ [?e]" and new: "a_i (as_cl s me) \<notin> set (Ns me es)"
      using fine pc 3(1) by (auto simp: client_fine_def split: if_splits)
    have "\<forall>x \<in> set (Ns me es). x \<le> a_i (as_cl s me)" using fine pc by (auto simp: client_fine_def)
    with new have "\<forall>x \<in> set (Ns me es). x < a_i (as_cl s me)" by (metis le_neq_implies_less)
    then have "client_fine (es @ [?e]) (ver + 1) me c"
      using fine pc 3(1,3) v \<open>ver + 1 \<noteq> ver\<close>
      by (auto simp: c_def client_fine_def append_after_put_def sorted_wrt_append less_Suc_eq_le)
    then have "append_ok nclnt (set_client me c (s\<lparr>as_kv := kv'\<rparr>)) (es @ [?e]) (ver + 1)"
      using append_ok_applied [OF ok me n] 3(2) es' by simp
    then show ?thesis by (intro exI [of _ "es @ [?e]"] exI [of _ "ver + 1"]) simp
  qed
qed

lemma append_inv_step:
  assumes inv: "append_inv nclnt n s" and step: "append_step nclnt s t"
  shows "append_inv nclnt (Suc n) t"
proof -
  have "\<exists>es ver. length es \<le> Suc n \<and> append_ok nclnt t es ver" if n: "Suc n < 2 ^ 63 - 1"
  proof -
    obtain es ver where es: "length es \<le> n" and ok: "append_ok nclnt s es ver" using inv n by (auto simp: append_inv_def)
    have fine: "client_fine es ver me (as_cl s me)" if "me < nclnt" for me using ok that by (simp add: append_ok_def)
    have same: "\<exists>es1 ver1. length es1 \<le> Suc n \<and> append_ok nclnt (set_client me c s) es1 ver1"
      if "client_fine es ver me c" for me c
      using append_ok_client [OF ok that] es by (intro exI [of _ es] exI [of _ ver]) simp
    show ?thesis using step
    proof cases
      case (a_done me)
      then have "client_fine es ver me ((as_cl s me)\<lparr>a_pc := AReturned\<rparr>)" using fine [of me] by (auto simp: client_fine_def)
      from same [OF this] show ?thesis unfolding a_done(1) .
    next
      case (a_default me)
      then have "client_fine es ver me ((as_cl s me)\<lparr>a_pc := AGet\<rparr>)" using fine [of me] by (auto simp: client_fine_def)
      from same [OF this] show ?thesis unfolding a_default(1) .
    next
      case (a_get me)
      have "kv_lookup (as_kv s) ''k'' = Some (entries_Marshal es, ver)" using ok by (simp add: append_ok_def)
      then have "client_fine es ver me (append_after_get me (kv_Get (as_kv s) \<lparr>ga_Key = ''k''\<rparr> zero_get_reply) (as_cl s me))"
        using a_get fine [of me] by (auto simp: client_fine_def append_after_get_def kv_Get_lookup less_imp_le)
      from same [OF this] show ?thesis unfolding a_get(1) .
    next
      case (a_put me es' v r d kv' out)
      have "length es < 2 ^ 63 - 1" using es n by simp
      from append_put_ok [OF ok a_put(2) this a_put(3,4)] obtain es1 ver1
        where "length es1 \<le> Suc (length es)" "append_ok nclnt t es1 ver1" unfolding a_put(1) by blast
      then show ?thesis using es by (intro exI [of _ es1] exI [of _ ver1]) simp
    qed
  qed
  then show ?thesis by (simp add: append_inv_def)
qed

interpretation ap: counted_machine append_init "append_step nclnt" "append_inv nclnt" for nclnt
proof
  show "append_inv nclnt 0 s" if "append_init s" for s
  proof -
    have "generation kv_lookup MakeKVServer ''k'' = 0" by (simp add: generation_def)
    then have "kv_lookup (as_kv s) ''k'' = Some (entries_Marshal [], 1)"
      using that kv.put_hit [of MakeKVServer "append_args [] 0"] by (simp add: append_init_def append_args_def)
    then have "append_ok nclnt s [] 1" using that
      by (simp add: append_ok_def append_init_def client_fine_def append_start_def)
    then show ?thesis by (auto simp: append_inv_def)
  qed
  show "append_inv nclnt (Suc n) t" if "append_inv nclnt n s" "append_step nclnt s t" for n s t
    using that by (rule append_inv_step)
qed

section \<open>The check accepts every run\<close>

definition results :: "nat \<Rightarrow> append_sys \<Rightarrow> clnt_res list" where
  "results nclnt s = map (\<lambda>me. \<lparr>Nok = a_nok (as_cl s me), Nmaybe = a_nmay (as_cl s me)\<rparr>) [0..<nclnt]"

definition final_get :: "append_sys \<Rightarrow> get_reply" where
  "final_get s = kv_Get (as_kv s) \<lparr>ga_Key = ''k''\<rparr> zero_get_reply"

lemma sint_of_nat_small: "n < 2 ^ 63 \<Longrightarrow> sint (word_of_nat n :: tversion) = int n"
  by (simp add: signed_of_nat signed_take_bit_int_eq_self)

lemma sint_small: "unat (v :: tversion) < 2 ^ 63 \<Longrightarrow> sint v = int (unat v)"
  using sint_of_nat_small [of "unat v"] by simp

lemma nextN_bound: "\<forall>x \<in> set ns. x < i \<Longrightarrow> nextN ns \<le> i"
  by (auto simp: nextN_def Suc_le_eq)

lemma CheckAppends_passes:
  assumes ok: "append_ok nclnt s es ver" and small: "length es < 2 ^ 63 - 1"
    and ret: "\<And>me. me < nclnt \<Longrightarrow> a_pc (as_cl s me) = AReturned"
  shows "CheckAppends es nclnt (results nclnt s) ver = Inr ()"
proof -
  let ?zero = "map (\<lambda>i. (i, 0)) [0..<nclnt] :: (nat, nat) gomap"
  have zero: "gm_get0 ?zero c = 0" for c
    by (auto simp: gm_get0_def map_of_map_restrict restrict_map_def split: option.splits dest!: map_of_SomeD)
  have fine: "client_fine es ver me (as_cl s me)" if "me < nclnt" for me using ok that by (simp add: append_ok_def)
  have "sorted_wrt (<) (Ns c es)" for c
  proof (cases "c < nclnt")
    case True
    then show ?thesis using fine [of c] by (simp add: client_fine_def)
  next
    case False
    then have "Ns c es = []" using ok by (auto simp: Ns_def append_ok_def filter_empty_conv)
    then show ?thesis by simp
  qed
  from check_entries_passes [OF this zero zero] obtain ex sk where
    ex: "check_entries es (?zero, ?zero) = Inr (ex, sk)" "dom (map_of ex) = dom (map_of ?zero) \<union> eId ` set es"
    "distinct (map fst ex)" "\<And>c. gm_get0 ex c = nextN (Ns c es)"
    "\<And>c. gm_get0 sk c + length (Ns c es) = nextN (Ns c es)"
    by (auto simp: comp_def)
  have "c < nclnt \<and> n \<le> a_nok (as_cl s c) + a_nmay (as_cl s c) \<and> gm_get0 sk c \<le> a_nmay (as_cl s c)"
    if "(c, n) \<in> set ex" for c n
  proof -
    have "map_of ex c = Some n" using that ex(3) by simp
    then have "c \<in> dom (map_of ex)" "n = nextN (Ns c es)" using ex(4) [of c] by (auto simp: gm_get0_def)
    then have c: "c < nclnt" using ex(2) ok by (auto simp: append_ok_def dom_map_of_conv_image_fst)
    have "nextN (Ns c es) \<le> a_i (as_cl s c)" using fine [OF c] ret [OF c] by (intro nextN_bound) (auto simp: client_fine_def)
    then show ?thesis using fine [OF c] ex(5) [of c] c \<open>n = _\<close> by (simp add: client_fine_def)
  qed
  then have "check_counts ex sk (results nclnt s) = Inr ()"
    by (intro check_counts_passes) (auto simp: results_def)
  moreover have "sint ver = int (length es) + 1" using ok small sint_small [of ver] by (simp add: append_ok_def)
  ultimately show ?thesis using ex(1) by (simp add: CheckAppends_def Let_def)
qed

text \<open>
  C5: any number of clients append their tuples to one key, over a network that loses requests and
  replies in any way. No \<open>GetJson\<close> ever fails, and when all clients have returned, \<open>CheckAppends\<close>
  accepts the list and the version the server holds and the counts the clients report, within
  \<open>2 ^ 63 - 1\<close> steps (versions are compared as signed 64-bit numbers).
\<close>
theorem CheckAppends_accepts:
  assumes "reach append_init (append_step nclnt) n s" and "n < 2 ^ 63 - 1"
  shows "(\<forall>me < nclnt. a_pc (as_cl s me) \<noteq> AFatal) \<and>
    ((\<forall>me < nclnt. a_pc (as_cl s me) = AReturned) \<longrightarrow>
       (\<exists>es. gr_Err (final_get s) = OK \<and> entries_Unmarshal (gr_Value (final_get s)) = Some es \<and>
          CheckAppends es nclnt (results nclnt s) (gr_Version (final_get s)) = Inr ()))"
proof -
  obtain es ver where es: "length es \<le> n" and ok: "append_ok nclnt s es ver"
    using ap.reach_counted [OF assms(1)] assms(2) by (auto simp: append_inv_def)
  have "final_get s = \<lparr>gr_Value = entries_Marshal es, gr_Version = ver, gr_Err = OK\<rparr>"
    using ok by (simp add: final_get_def append_ok_def kv_Get_lookup)
  moreover have "a_pc (as_cl s me) \<noteq> AFatal" if "me < nclnt" for me
    using ok that by (auto simp: append_ok_def client_fine_def)
  ultimately show ?thesis using CheckAppends_passes [OF ok] es assms(2) by auto
qed

text \<open>One client, one append.\<close>

definition ap_sys :: "kv_server \<Rightarrow> append_client \<Rightarrow> append_sys" where
  "ap_sys kv c = \<lparr>as_kv = kv, as_cl = (\<lambda>_. append_start)(0 := c)\<rparr>"

definition ap_kv0 :: kv_server where "ap_kv0 = fst (kv_put MakeKVServer (append_args [] 0))"
definition ap_kv1 :: kv_server where "ap_kv1 = fst (kv_put ap_kv0 (append_args [\<lparr>eId = 0, eN = 0\<rparr>] 1))"

definition ap_end :: append_sys where
  "ap_end = ap_sys ap_kv1 \<lparr>a_pc = AReturned, a_i = 1, a_nok = 1, a_nmay = 0\<rparr>"

lemma ap_kv0_lookup: "kv_lookup ap_kv0 ''k'' = Some (entries_Marshal [], 1)"
  by (simp add: ap_kv0_def kv_put_simps generation_def append_args_def kv_lookup_def MakeKVServer_def)

lemma ap_set_client: "set_client 0 c (ap_sys kv c') = ap_sys kv c" "as_cl (ap_sys kv c) 0 = c" "as_kv (ap_sys kv c) = kv"
  "(ap_sys kv c)\<lparr>as_kv := kv'\<rparr> = ap_sys kv' c"
  by (simp_all add: set_client_def ap_sys_def)

lemma ap_end_reach: "reach append_init (append_step 1) 4 ap_end"
proof -
  let ?c = "\<lambda>p. append_start\<lparr>a_pc := p\<rparr>" and ?put = "APut [\<lparr>eId = 0, eN = 0\<rparr>] 1 False"
  let ?d = "\<lparr>a_pc = ASelect, a_i = 1, a_nok = 1, a_nmay = 0\<rparr>"
  have 0: "reach append_init (append_step 1) 0 (ap_sys ap_kv0 append_start)"
    by (rule reach_init) (simp add: append_init_def ap_sys_def ap_kv0_def)
  have 1: "append_step 1 (ap_sys ap_kv0 append_start) (ap_sys ap_kv0 (?c AGet))"
    using a_default [of 0 1 "ap_sys ap_kv0 append_start"] by (simp add: ap_set_client append_start_def)
  have 2: "append_step 1 (ap_sys ap_kv0 (?c AGet)) (ap_sys ap_kv0 (?c ?put))"
    using a_get [of 0 1 "ap_sys ap_kv0 (?c AGet)"] entries_roundtrip [of "[]"]
    by (simp add: ap_set_client append_start_def append_after_get_def kv_Get_lookup ap_kv0_lookup)
  have "generation kv_lookup ap_kv0 ''k'' = 1" by (simp add: generation_def ap_kv0_lookup)
  then have "put_attempt Delivered ap_kv0 (append_args [\<lparr>eId = 0, eN = 0\<rparr>] 1) False = (ap_kv1, Return OK)"
    by (simp add: put_attempt_cases ap_kv1_def put_answer_def kv_put_simps append_args_def)
  then have 3: "append_step 1 (ap_sys ap_kv0 (?c ?put)) (ap_sys ap_kv1 ?d)"
    using a_put [of 0 1 "ap_sys ap_kv0 (?c ?put)" "[\<lparr>eId = 0, eN = 0\<rparr>]" 1 False Delivered ap_kv1 "Return OK"]
    by (simp add: ap_set_client append_start_def append_after_put_def)
  have 4: "append_step 1 (ap_sys ap_kv1 ?d) ap_end"
    using a_done [of 0 1 "ap_sys ap_kv1 ?d"] by (simp add: ap_set_client ap_end_def)
  show ?thesis
    using reach_step [OF reach_step [OF reach_step [OF reach_step [OF 0 1] 2] 3] 4] by (simp add: numeral_eq_Suc)
qed

lemma CheckAppends_accepts_witness:
  "\<exists>es. entries_Unmarshal (gr_Value (final_get ap_end)) = Some es \<and>
     CheckAppends es 1 (results 1 ap_end) (gr_Version (final_get ap_end)) = Inr ()"
  using CheckAppends_accepts [OF ap_end_reach] by (auto simp: ap_end_def ap_set_client)

end
