(* ===== verification/KvPuts.thy ===== *)
theory KvPuts
  imports KvTest
begin

text \<open>
  The put workloads of \<open>kvtest1/kvtest.go\<close>: \<open>OnePut\<close> and \<open>OneClientPut\<close> run by any number of clients that
  race for the same keys, with the check \<open>CheckPutConcurrent\<close> after them, and \<open>SpreadPutsSize\<close>, which fills
  keys and reads them back. Both are shown to blame no correct server: the first for every interleaving
  and every loss of requests and replies, the second for every script of losses that lets its calls return.
\<close>

section \<open>JSON of EntryV\<close>

record entryV =
  ev_Id :: nat
  ev_V :: tversion

definition entryV_Marshal :: "entryV \<Rightarrow> string" where
  "entryV_Marshal e =
     CHR ''{'' # json_string ''Id'' @ CHR '':'' # nat_digits (ev_Id e) @
     CHR '','' # json_string ''V'' @ CHR '':'' # nat_digits (unat (ev_V e)) @ [CHR ''}'']"

text \<open>A number that does not fit the unsigned 64 bits of \<open>V\<close> is an error.\<close>

definition entryV_Unmarshal :: "string \<Rightarrow> entryV option" where
  "entryV_Unmarshal s =
     Option.bind (expect (CHR ''{'' # json_string ''Id'' @ [CHR '':'']) s) (\<lambda>s1.
     Option.bind (dec_nat s1) (\<lambda>(i, s2).
     Option.bind (expect (CHR '','' # json_string ''V'' @ [CHR '':'']) s2) (\<lambda>s3.
     Option.bind (dec_nat s3) (\<lambda>(v, s4).
       if s4 = ''}'' \<and> v < 2 ^ 64 then Some \<lparr>ev_Id = i, ev_V = of_nat v\<rparr> else None))))"

lemma entryV_roundtrip [simp]: "entryV_Unmarshal (entryV_Marshal e) = Some e"
proof -
  have "expect p (p @ q) = Some q" for p q by (rule expect_append)
  note ex = this [of "CHR ''{'' # json_string ''Id'' @ [CHR '':'']", simplified]
    this [of "CHR '','' # json_string ''V'' @ [CHR '':'']", simplified]
  have "unat (ev_V e) < 2 ^ 64" using unsigned_less [of "ev_V e", where ?'a = nat] by simp
  then show ?thesis by (cases e) (simp add: entryV_Unmarshal_def entryV_Marshal_def ex dec_nat_digits is_digit_def)
qed

section \<open>GetJson, OnePut and OneClientPut\<close>

text \<open>\<open>GetJson\<close> on the server's answer: the value and its version, or the call of \<open>Fatalf\<close>.\<close>

definition GetJson :: "kv_server \<Rightarrow> string \<Rightarrow> (entryV \<times> tversion) result" where
  "GetJson kv key =
     (let r = kv_Get kv \<lparr>ga_Key = key\<rparr> zero_get_reply
      in if gr_Err r = OK then
           (case entryV_Unmarshal (gr_Value r) of
              None \<Rightarrow> Inl (Fatal ''Unmarshal err'')
            | Some e \<Rightarrow> Inr (e, gr_Version r))
         else Inl (Fatal ''Get err''))"

definition PutJson_args :: "string \<Rightarrow> entryV \<Rightarrow> tversion \<Rightarrow> put_args" where
  "PutJson_args key v ver = \<lparr>pa_Key = key, pa_Value = entryV_Marshal v, pa_Version = ver\<rparr>"

text \<open>
  A client is at the \<open>select\<close> of \<open>OneClientPut\<close>, in \<open>OnePut\<close> before or during its Put (with the clerk's
  retry flag), in \<open>OnePut\<close> before its Get (with the answer of the Put), or has returned; \<open>PFatal\<close> is a
  call of \<open>Fatalf\<close> or a panic. The map \<open>verm\<close> reads as 0 where it has no entry.
\<close>

datatype put_pc = PSelect | PPut string tversion bool | PGet string tversion err | PReturned | PFatal

record put_client =
  p_pc :: put_pc
  p_verm :: "string \<Rightarrow> tversion"
  p_res :: clnt_res

definition put_start :: put_client where
  "put_start = \<lparr>p_pc = PSelect, p_verm = (\<lambda>_. 0), p_res = \<lparr>Nok = 0, Nmaybe = 0\<rparr>\<rparr>"

text \<open>The key of the next put: the first one, or with \<open>randomkeys\<close> the one the random number \<open>r\<close> chooses.\<close>

definition next_key :: "bool \<Rightarrow> string list \<Rightarrow> nat \<Rightarrow> string result" where
  "next_key randomkeys ka r =
     res_bind (go_index ka 0) (\<lambda>k. if randomkeys then go_index ka (int (r mod length ka)) else Inr k)"

definition put_default :: "string result \<Rightarrow> put_client \<Rightarrow> put_client" where
  "put_default key c = (case key of Inl _ \<Rightarrow> c\<lparr>p_pc := PFatal\<rparr> | Inr k \<Rightarrow> c\<lparr>p_pc := PPut k (p_verm c k) False\<rparr>)"

definition oneput_after_put :: "string \<Rightarrow> tversion \<Rightarrow> err \<Rightarrow> put_client \<Rightarrow> put_client" where
  "oneput_after_put k ver e c =
     (if \<not> (e = OK \<or> e = ErrVersion \<or> e = ErrMaybe) then c\<lparr>p_pc := PFatal\<rparr> else c\<lparr>p_pc := PGet k ver e\<rparr>)"

text \<open>The rest of the body of \<open>OnePut\<close>, and on its return what \<open>OneClientPut\<close> records.\<close>

definition count_put :: "bool \<Rightarrow> clnt_res \<Rightarrow> clnt_res" where
  "count_put ok r = (if ok then r\<lparr>Nok := Nok r + 1\<rparr> else r\<lparr>Nmaybe := Nmaybe r + 1\<rparr>)"

definition oneput_after_get ::
  "nat \<Rightarrow> string \<Rightarrow> tversion \<Rightarrow> err \<Rightarrow> (entryV \<times> tversion) result \<Rightarrow> put_client \<Rightarrow> put_client" where
  "oneput_after_get me k ver e g c =
     (case g of
        Inl _ \<Rightarrow> c\<lparr>p_pc := PFatal\<rparr>
      | Inr (v, ver0) \<Rightarrow>
          if e = OK \<and> ver0 = ver + 1 \<and> ev_Id v \<noteq> me \<and> ev_V v \<noteq> ver then c\<lparr>p_pc := PFatal\<rparr>
          else if e = OK \<or> e = ErrMaybe
          then c\<lparr>p_pc := PSelect, p_verm := (p_verm c)(k := ver0), p_res := count_put (e = OK) (p_res c)\<rparr>
          else c\<lparr>p_pc := PPut k ver0 False\<rparr>)"

record put_sys =
  ps_kv :: kv_server
  ps_cl :: "nat \<Rightarrow> put_client"

definition puts_init :: "put_sys \<Rightarrow> bool" where
  "puts_init s \<longleftrightarrow> ps_kv s = MakeKVServer \<and> (\<forall>me. ps_cl s me = put_start)"

definition set_putter :: "nat \<Rightarrow> put_client \<Rightarrow> put_sys \<Rightarrow> put_sys" where
  "set_putter me c s = s\<lparr>ps_cl := (ps_cl s)(me := c)\<rparr>"

text \<open>
  The steps of \<open>nclnt\<close> clients that \<open>SpawnClientsAndWait\<close> runs; each attempt of a clerk's Put is a step of its
  own. On a reliable network every attempt is delivered.
\<close>

inductive puts_step :: "bool \<Rightarrow> bool \<Rightarrow> string list \<Rightarrow> nat \<Rightarrow> put_sys \<Rightarrow> put_sys \<Rightarrow> bool"
  for reliable randomkeys :: bool and ka :: "string list" and nclnt :: nat where
  p_done: "me < nclnt \<Longrightarrow> p_pc (ps_cl s me) = PSelect \<Longrightarrow>
    puts_step reliable randomkeys ka nclnt s (set_putter me ((ps_cl s me)\<lparr>p_pc := PReturned\<rparr>) s)"
| p_default: "me < nclnt \<Longrightarrow> p_pc (ps_cl s me) = PSelect \<Longrightarrow>
    puts_step reliable randomkeys ka nclnt s (set_putter me (put_default (next_key randomkeys ka r) (ps_cl s me)) s)"
| p_put: "me < nclnt \<Longrightarrow> p_pc (ps_cl s me) = PPut k ver retried \<Longrightarrow> (reliable \<longrightarrow> d = Delivered) \<Longrightarrow>
    put_attempt d (ps_kv s) (PutJson_args k \<lparr>ev_Id = me, ev_V = ver\<rparr> ver) retried = (kv', out) \<Longrightarrow>
    puts_step reliable randomkeys ka nclnt s (set_putter me
      (case out of Retry \<Rightarrow> (ps_cl s me)\<lparr>p_pc := PPut k ver True\<rparr>
       | Return e \<Rightarrow> oneput_after_put k ver e (ps_cl s me)) (s\<lparr>ps_kv := kv'\<rparr>))"
| p_get: "me < nclnt \<Longrightarrow> p_pc (ps_cl s me) = PGet k ver e \<Longrightarrow>
    puts_step reliable randomkeys ka nclnt s (set_putter me
      (oneput_after_get me k ver e (GetJson (ps_kv s) k) (ps_cl s me)) s)"

definition put_results :: "nat \<Rightarrow> put_sys \<Rightarrow> clnt_res list" where
  "put_results nclnt s = map (\<lambda>me. p_res (ps_cl s me)) [0..<nclnt]"

section \<open>The invariant of the puts\<close>

text \<open>The number of Puts applied to a key, as the version shows it.\<close>

definition puts_at :: "put_sys \<Rightarrow> string \<Rightarrow> nat" where
  "puts_at s k = unat (generation kv_lookup (ps_kv s) k)"

text \<open>
  The puts a client is responsible for at most: those it has counted, the one whose answer it has but
  has not counted yet, and a retried one whose version is already taken.
\<close>

fun pending :: "(string \<Rightarrow> nat) \<Rightarrow> put_pc \<Rightarrow> nat" where
  "pending g (PPut k ver retried) = (if retried \<and> unat ver < g k then 1 else 0)"
| "pending g (PGet k ver e) = (if e = ErrVersion then 0 else 1)"
| "pending g _ = 0"

definition counted :: "put_client \<Rightarrow> nat" where
  "counted c = Nok (p_res c) + Nmaybe (p_res c)"

definition credit :: "(string \<Rightarrow> nat) \<Rightarrow> put_client \<Rightarrow> nat" where
  "credit g c = counted c + pending g (p_pc c)"

fun put_pc_ok :: "(string \<Rightarrow> nat) \<Rightarrow> put_pc \<Rightarrow> bool" where
  "put_pc_ok g (PPut k ver retried) = (unat ver \<le> g k)"
| "put_pc_ok g (PGet k ver e) = (e \<in> {OK, ErrVersion, ErrMaybe} \<and> 0 < g k)"
| "put_pc_ok g PFatal = False"
| "put_pc_ok g _ = True"

definition putter_ok :: "(string \<Rightarrow> nat) \<Rightarrow> put_client \<Rightarrow> bool" where
  "putter_ok g c \<longleftrightarrow> put_pc_ok g (p_pc c) \<and> (\<forall>k. unat (p_verm c k) \<le> g k)"

text \<open>What is stored at a version was put with the version before.\<close>

definition store_ok :: "kv_server \<Rightarrow> string \<Rightarrow> bool" where
  "store_ok kv k \<longleftrightarrow>
     (\<forall>v ver. kv_lookup kv k = Some (v, ver) \<longrightarrow> ver \<noteq> 0 \<and> (\<exists>i. v = entryV_Marshal \<lparr>ev_Id = i, ev_V = ver - 1\<rparr>))"

definition puts_ok :: "nat \<Rightarrow> nat \<Rightarrow> put_sys \<Rightarrow> bool" where
  "puts_ok nclnt n s \<longleftrightarrow>
     (\<forall>k. store_ok (ps_kv s) k \<and> puts_at s k \<le> n \<and> puts_at s k \<le> (\<Sum>me < nclnt. credit (puts_at s) (ps_cl s me))) \<and>
     (\<Sum>me < nclnt. counted (ps_cl s me)) \<le> n \<and> (\<forall>me < nclnt. putter_ok (puts_at s) (ps_cl s me))"

definition puts_inv :: "nat \<Rightarrow> nat \<Rightarrow> put_sys \<Rightarrow> bool" where
  "puts_inv nclnt n s \<longleftrightarrow> (n < 2 ^ 64 - 1 \<longrightarrow> puts_ok nclnt n s)"

section \<open>Lemmas\<close>

lemma unat_small: "n < 2 ^ 64 \<Longrightarrow> unat (of_nat n :: tversion) = n"
  by (simp add: unsigned_of_nat take_bit_nat_eq_self)

lemma sum_putter:
  assumes "me < (n :: nat)"
  shows "(\<Sum>j < n. f ((cl(me := c)) j)) = (\<Sum>j \<in> {..<n} - {me}. f (cl j)) + (f c :: nat)"
proof -
  have "(\<Sum>j < n. f ((cl(me := c)) j)) = f ((cl(me := c)) me) + (\<Sum>j \<in> {..<n} - {me}. f ((cl(me := c)) j))"
    using assms by (intro sum.remove) auto
  then show ?thesis by simp
qed

lemma sum_putter_same: "me < (n :: nat) \<Longrightarrow> (\<Sum>j < n. f (cl j)) = (\<Sum>j \<in> {..<n} - {me}. f (cl j)) + (f (cl me) :: nat)"
  using sum_putter [of me n f cl "cl me"] by simp

lemma credit_mono: "(\<And>k. g k \<le> g' k) \<Longrightarrow> credit g c \<le> credit g' c"
  by (cases "p_pc c") (auto simp: credit_def dest: less_le_trans)

lemma putter_ok_mono:
  assumes "putter_ok g c" and "\<And>k. g k \<le> g' k"
  shows "putter_ok g' c"
proof -
  have "put_pc_ok g' (p_pc c)" using assms by (cases "p_pc c") (auto simp: putter_ok_def intro: order_trans less_le_trans)
  moreover have "unat (p_verm c k) \<le> g' k" for k
    using assms order_trans [of "unat (p_verm c k)" "g k" "g' k"] by (auto simp: putter_ok_def)
  ultimately show ?thesis by (simp add: putter_ok_def)
qed

lemma puts_at_set [simp]: "puts_at (set_putter me c s) = puts_at s" "ps_kv (set_putter me c s) = ps_kv s"
  "ps_cl (set_putter me c s) = (ps_cl s)(me := c)"
  by (simp_all add: puts_at_def set_putter_def fun_eq_iff)

text \<open>
  One client moves and at most one Put is applied: the invariant needs only that the client is
  responsible for what was applied.
\<close>

lemma puts_ok_step:
  assumes ok: "puts_ok nclnt n s" and me: "me < nclnt" and cl: "ps_cl t = (ps_cl s)(me := c)"
    and st: "\<And>k. store_ok (ps_kv t) k" and g: "\<And>k. puts_at s k \<le> puts_at t k \<and> puts_at t k \<le> puts_at s k + d" "d \<le> 1"
    and c: "putter_ok (puts_at t) c" "credit (puts_at s) (ps_cl s me) + d \<le> credit (puts_at t) c"
    "counted c \<le> counted (ps_cl s me) + 1"
  shows "puts_ok nclnt (Suc n) t"
proof -
  have mono: "credit (puts_at s) x \<le> credit (puts_at t) x" for x using g by (intro credit_mono) blast
  have "(\<Sum>j \<in> {..<nclnt} - {me}. credit (puts_at s) (ps_cl s j)) \<le> (\<Sum>j \<in> {..<nclnt} - {me}. credit (puts_at t) (ps_cl s j))"
    by (intro sum_mono mono)
  then have sum: "(\<Sum>j < nclnt. credit (puts_at s) (ps_cl s j)) + d \<le> (\<Sum>j < nclnt. credit (puts_at t) (ps_cl t j))"
    unfolding cl sum_putter [OF me] sum_putter_same [OF me, of "credit (puts_at s)"] using c(2) by linarith
  have "(\<Sum>j < nclnt. counted (ps_cl t j)) \<le> (\<Sum>j < nclnt. counted (ps_cl s j)) + 1"
    unfolding cl sum_putter [OF me] sum_putter_same [OF me, of counted] using c(3) by simp
  moreover have "puts_at t k \<le> Suc n \<and> puts_at t k \<le> (\<Sum>j < nclnt. credit (puts_at t) (ps_cl t j))" for k
  proof -
    have "puts_at s k \<le> n" "puts_at s k \<le> (\<Sum>j < nclnt. credit (puts_at s) (ps_cl s j))" using ok by (auto simp: puts_ok_def)
    then show ?thesis using g(1) [of k] g(2) sum by linarith
  qed
  moreover have "putter_ok (puts_at t) (ps_cl t j)" if "j < nclnt" for j
    using ok that c(1) cl g(1) by (cases "j = me") (auto simp: puts_ok_def intro: putter_ok_mono)
  ultimately show ?thesis using ok st by (simp add: puts_ok_def)
qed

text \<open>What one attempt does, whether or not the key exists.\<close>

lemma put_attempt_any:
  assumes "put_attempt d kv a r = (kv', out)"
  obtains "kv' = kv" "out = Retry" "d \<noteq> Delivered"
    | "kv' = kv" "generation kv_lookup kv (pa_Key a) \<noteq> pa_Version a"
      "out = Return (put_answer r (if kv_lookup kv (pa_Key a) = None then ErrNoKey else ErrVersion))"
    | "generation kv_lookup kv (pa_Key a) = pa_Version a"
      "kv_lookup kv' = (kv_lookup kv)(pa_Key a \<mapsto> (pa_Value a, pa_Version a + 1))"
      "out = Return OK \<or> out = Retry \<and> d \<noteq> Delivered"
proof (cases "generation kv_lookup kv (pa_Key a) = pa_Version a")
  case True
  then show ?thesis using that assms kv.put_hit [OF True] by (cases d) (auto simp: put_attempt_cases put_answer_def)
next
  case False
  then show ?thesis using that assms kv.put_miss [OF False] by (cases d) (auto simp: put_attempt_cases)
qed

lemma GetJson_stored:
  assumes "store_ok kv k" "0 < unat (generation kv_lookup kv k)"
  shows "\<exists>i. GetJson kv k = Inr (\<lparr>ev_Id = i, ev_V = generation kv_lookup kv k - 1\<rparr>, generation kv_lookup kv k)"
  using assms by (auto simp: GetJson_def generation_def store_ok_def kv_Get_lookup split: option.splits)

lemma no_key_no_puts: "store_ok kv k \<Longrightarrow> kv_lookup kv k = None \<longleftrightarrow> unat (generation kv_lookup kv k) = 0"
  by (auto simp: generation_def store_ok_def unat_eq_0 split: option.splits)

lemma puts_put_ok:
  assumes ok: "puts_ok nclnt n s" and me: "me < nclnt" and n: "n < 2 ^ 64 - 1"
    and pc: "p_pc (ps_cl s me) = PPut k ver r"
    and att: "put_attempt d (ps_kv s) (PutJson_args k \<lparr>ev_Id = me, ev_V = ver\<rparr> ver) r = (kv', out)"
  shows "puts_ok nclnt (Suc n) (set_putter me
      (case out of Retry \<Rightarrow> (ps_cl s me)\<lparr>p_pc := PPut k ver True\<rparr>
       | Return e \<Rightarrow> oneput_after_put k ver e (ps_cl s me)) (s\<lparr>ps_kv := kv'\<rparr>))" (is "puts_ok _ _ (set_putter me ?c ?s)")
proof -
  have st: "store_ok (ps_kv s) j" "puts_at s j \<le> n" for j using ok by (auto simp: puts_ok_def)
  have fine: "putter_ok (puts_at s) (ps_cl s me)" using ok me by (simp add: puts_ok_def)
  then have ver: "unat ver \<le> puts_at s k" using pc by (simp add: putter_ok_def)
  have cl: "ps_cl (set_putter me ?c ?s) = (ps_cl s)(me := ?c)" by simp
  from att show ?thesis
  proof (cases rule: put_attempt_any)
    case 1
    have "putter_ok (puts_at s) ?c" "credit (puts_at s) (ps_cl s me) \<le> credit (puts_at s) ?c" "counted ?c \<le> counted (ps_cl s me) + 1"
      using fine pc 1(2) by (auto simp: putter_ok_def credit_def counted_def)
    with 1(1) st show ?thesis by (intro puts_ok_step [OF ok me cl, where d = 0]) (auto simp: puts_at_def)
  next
    case 2
    have g: "generation kv_lookup (ps_kv s) k \<noteq> ver" using 2(2) by (simp add: PutJson_args_def)
    then have "unat ver \<noteq> puts_at s k" by (metis puts_at_def word_unat_eq_iff)
    then have lt: "unat ver < puts_at s k" using ver by simp
    then have out: "out = Return (if r then ErrMaybe else ErrVersion)"
      using 2(3) no_key_no_puts [OF st(1), of k] by (simp add: PutJson_args_def put_answer_def puts_at_def)
    have "putter_ok (puts_at s) ?c" "credit (puts_at s) (ps_cl s me) \<le> credit (puts_at s) ?c" "counted ?c \<le> counted (ps_cl s me) + 1"
      using fine pc lt out by (auto simp: putter_ok_def credit_def counted_def oneput_after_put_def)
    with 2(1) st show ?thesis by (intro puts_ok_step [OF ok me cl, where d = 0]) (auto simp: puts_at_def)
  next
    case 3
    let ?t = "set_putter me ?c ?s"
    have g: "generation kv_lookup (ps_kv s) k = ver" using 3(1) by (simp add: PutJson_args_def)
    then have "unat ver = puts_at s k" by (simp add: puts_at_def)
    moreover have "unat (ver + 1) = Suc (unat ver)" using st(2) [of k] n calculation by (intro unat_Suc) simp
    ultimately have at: "puts_at ?t = (puts_at s)(k := Suc (unat ver))" and eq: "puts_at s k = unat ver" and nz: "ver + 1 \<noteq> 0"
      using 3(2) by (auto simp: puts_at_def fun_eq_iff generation_def PutJson_args_def)
    have "store_ok (ps_kv ?t) j" for j using st(1) [of j] 3(2) nz by (auto simp: store_ok_def PutJson_args_def)
    moreover have "puts_at s j \<le> puts_at ?t j \<and> puts_at ?t j \<le> puts_at s j + 1" for j using at eq by simp
    moreover have "putter_ok (puts_at ?t) ?c"
      using 3(3) fine pc unfolding at
      by (auto simp: putter_ok_def oneput_after_put_def eq le_Suc_eq) (metis eq)+
    moreover have "credit (puts_at s) (ps_cl s me) + 1 \<le> credit (puts_at ?t) ?c" "counted ?c \<le> counted (ps_cl s me) + 1"
      using 3(3) pc unfolding at by (auto simp: credit_def counted_def oneput_after_put_def eq)
    ultimately show ?thesis by (intro puts_ok_step [OF ok me cl, where d = 1]) auto
  qed
qed

lemma puts_get_ok:
  assumes ok: "puts_ok nclnt n s" and me: "me < nclnt" and pc: "p_pc (ps_cl s me) = PGet k ver e"
  shows "puts_ok nclnt (Suc n) (set_putter me (oneput_after_get me k ver e (GetJson (ps_kv s) k) (ps_cl s me)) s)"
    (is "puts_ok _ _ (set_putter me ?c s)")
proof -
  have st: "store_ok (ps_kv s) j" for j using ok by (auto simp: puts_ok_def)
  have fine: "putter_ok (puts_at s) (ps_cl s me)" using ok me by (simp add: puts_ok_def)
  then have e: "e = OK \<or> e = ErrVersion \<or> e = ErrMaybe" and pos: "0 < puts_at s k" using pc by (auto simp: putter_ok_def)
  define v where "v = generation kv_lookup (ps_kv s) k"
  obtain i where get: "GetJson (ps_kv s) k = Inr (\<lparr>ev_Id = i, ev_V = v - 1\<rparr>, v)" "unat v = puts_at s k"
    using GetJson_stored [OF st, of k] pos by (auto simp: puts_at_def v_def)
  have "putter_ok (puts_at s) ?c" "credit (puts_at s) (ps_cl s me) \<le> credit (puts_at s) ?c" "counted ?c \<le> counted (ps_cl s me) + 1"
    using fine pc e get by (auto simp: putter_ok_def credit_def counted_def oneput_after_get_def count_put_def)
  with st show ?thesis by (intro puts_ok_step [OF ok me, where d = 0]) auto
qed

lemma next_key_Inr:
  assumes "ka \<noteq> []"
  obtains k where "next_key randomkeys ka r = Inr k" "k \<in> set ka"
proof -
  have "r mod length ka < length ka" "go_index ka 0 = Inr (ka ! 0)" using assms go_index_nat [of 0 ka] by simp_all
  then show ?thesis using assms that by (cases randomkeys) (simp_all add: next_key_def)
qed

lemma puts_inv_step:
  assumes "puts_inv nclnt n s" and "puts_step reliable randomkeys ka nclnt s t" and "ka \<noteq> []"
  shows "puts_inv nclnt (Suc n) t"
proof -
  have "puts_ok nclnt (Suc n) t" if n: "Suc n < 2 ^ 64 - 1"
  proof -
    have ok: "puts_ok nclnt n s" using assms(1) n by (simp add: puts_inv_def)
    have idle: "puts_ok nclnt (Suc n) (set_putter me c s)"
      if "me < nclnt" "p_pc (ps_cl s me) = PSelect" "c = (ps_cl s me)\<lparr>p_pc := p\<rparr>" "put_pc_ok (puts_at s) p" for me c p
      using ok that by (intro puts_ok_step [OF ok that(1), where d = 0]) (auto simp: puts_ok_def putter_ok_def credit_def counted_def)
    show ?thesis using assms(2)
    proof cases
      case (p_done me)
      then show ?thesis using idle [of me _ PReturned] by simp
    next
      case (p_default me r)
      obtain k where "next_key randomkeys ka r = Inr k" using next_key_Inr [OF assms(3)] .
      moreover have "putter_ok (puts_at s) (ps_cl s me)" using ok p_default(2) by (simp add: puts_ok_def)
      ultimately show ?thesis using p_default idle [of me _ "PPut k (p_verm (ps_cl s me) k) False"]
        by (simp add: putter_ok_def put_default_def)
    next
      case (p_put me k ver r d kv' out)
      then show ?thesis using puts_put_ok [OF ok p_put(2)] n by simp
    next
      case (p_get me k ver e)
      then show ?thesis using puts_get_ok [OF ok p_get(2)] by simp
    qed
  qed
  then show ?thesis by (simp add: puts_inv_def)
qed

lemma puts_inv_init: "puts_init s \<Longrightarrow> puts_inv nclnt 0 s"
  by (auto simp: puts_inv_def puts_init_def puts_ok_def store_ok_def puts_at_def generation_def put_start_def counted_def
      putter_ok_def)

interpretation pt: counted_machine puts_init "puts_step reliable randomkeys ka nclnt" "\<lambda>n s. ka \<noteq> [] \<longrightarrow> puts_inv nclnt n s"
  for reliable randomkeys ka nclnt
  by unfold_locales (auto intro: puts_inv_init puts_inv_step)

section \<open>Reliable networks\<close>

text \<open>Nothing is retried, so every Put applied is counted by its client, or is about to be.\<close>

fun no_retry :: "put_pc \<Rightarrow> bool" where
  "no_retry (PPut k ver retried) = (\<not> retried)"
| "no_retry (PGet k ver e) = (e \<noteq> ErrMaybe)"
| "no_retry _ = True"

definition exact_putter :: "string \<Rightarrow> put_client \<Rightarrow> bool" where
  "exact_putter k c \<longleftrightarrow> Nmaybe (p_res c) = 0 \<and> no_retry (p_pc c) \<and>
     (\<forall>j ver r. p_pc c = PPut j ver r \<longrightarrow> j = k) \<and> (\<forall>j ver e. p_pc c = PGet j ver e \<longrightarrow> j = k)"

definition exact_ok :: "string \<Rightarrow> nat \<Rightarrow> put_sys \<Rightarrow> bool" where
  "exact_ok k nclnt s \<longleftrightarrow> puts_at s k = (\<Sum>me < nclnt. credit (puts_at s) (ps_cl s me)) \<and>
     (\<forall>me < nclnt. exact_putter k (ps_cl s me))"

definition exact_inv :: "string \<Rightarrow> nat \<Rightarrow> nat \<Rightarrow> put_sys \<Rightarrow> bool" where
  "exact_inv k nclnt n s \<longleftrightarrow> puts_inv nclnt n s \<and> (n < 2 ^ 64 - 1 \<longrightarrow> exact_ok k nclnt s)"

lemma exact_credit: "exact_putter k c \<Longrightarrow> credit g c = credit g' c"
  by (cases "p_pc c") (auto simp: credit_def exact_putter_def)

lemma exact_ok_step:
  assumes ok: "exact_ok k nclnt s" and me: "me < nclnt" and cl: "ps_cl t = (ps_cl s)(me := c)"
    and g: "puts_at t k = puts_at s k + d" and c: "exact_putter k c" "credit (puts_at t) c = credit (puts_at s) (ps_cl s me) + d"
  shows "exact_ok k nclnt t"
proof -
  have "(\<Sum>j \<in> {..<nclnt} - {me}. credit (puts_at t) (ps_cl s j)) = (\<Sum>j \<in> {..<nclnt} - {me}. credit (puts_at s) (ps_cl s j))"
    using ok by (intro sum.cong) (auto simp: exact_ok_def intro: exact_credit)
  then have "(\<Sum>j < nclnt. credit (puts_at t) (ps_cl t j)) = (\<Sum>j < nclnt. credit (puts_at s) (ps_cl s j)) + d"
    unfolding cl sum_putter [OF me] sum_putter_same [OF me, of "credit (puts_at s)"] using c(2) by simp
  then show ?thesis using ok g c(1) cl by (auto simp: exact_ok_def)
qed

lemma exact_put_ok:
  assumes ok: "exact_ok k nclnt s" and ok': "puts_ok nclnt n s" and me: "me < nclnt" and n: "n < 2 ^ 64 - 1"
    and pc: "p_pc (ps_cl s me) = PPut j ver r"
    and att: "put_attempt Delivered (ps_kv s) (PutJson_args j \<lparr>ev_Id = me, ev_V = ver\<rparr> ver) r = (kv', out)"
  shows "exact_ok k nclnt (set_putter me
      (case out of Retry \<Rightarrow> (ps_cl s me)\<lparr>p_pc := PPut j ver True\<rparr>
       | Return e \<Rightarrow> oneput_after_put j ver e (ps_cl s me)) (s\<lparr>ps_kv := kv'\<rparr>))" (is "exact_ok _ _ (set_putter me ?c ?s)")
proof -
  have st: "store_ok (ps_kv s) i" "puts_at s i \<le> n" for i using ok' by (auto simp: puts_ok_def)
  have fine: "exact_putter k (ps_cl s me)" "unat ver \<le> puts_at s k"
    using ok ok' me pc by (auto simp: exact_ok_def exact_putter_def puts_ok_def putter_ok_def)
  then have j: "j = k" "r = False" using pc by (auto simp: exact_putter_def)
  have cl: "ps_cl (set_putter me ?c ?s) = (ps_cl s)(me := ?c)" by simp
  from att show ?thesis
  proof (cases rule: put_attempt_any)
    case 2
    have "generation kv_lookup (ps_kv s) k \<noteq> ver" using 2(2) j by (simp add: PutJson_args_def)
    then have "unat ver \<noteq> puts_at s k" by (metis puts_at_def word_unat_eq_iff)
    then have "out = Return ErrVersion" using fine(2) 2(3) no_key_no_puts [OF st(1), of k] j
      by (simp add: PutJson_args_def put_answer_def puts_at_def)
    then have "exact_putter k ?c" "credit (puts_at s) ?c = credit (puts_at s) (ps_cl s me)"
      using fine pc j by (auto simp: exact_putter_def credit_def counted_def oneput_after_put_def)
    with 2(1) show ?thesis by (intro exact_ok_step [OF ok me cl, where d = 0]) (auto simp: puts_at_def)
  next
    case 3
    have g: "generation kv_lookup (ps_kv s) k = ver" using 3(1) j by (simp add: PutJson_args_def)
    then have "unat ver = puts_at s k" by (simp add: puts_at_def)
    moreover have "unat (ver + 1) = Suc (unat ver)" using st(2) [of k] n calculation by (intro unat_Suc) simp
    ultimately have "puts_at (set_putter me ?c ?s) k = puts_at s k + 1"
      using 3(2) j by (simp add: puts_at_def generation_def PutJson_args_def)
    moreover have "exact_putter k ?c" "credit (puts_at (set_putter me ?c ?s)) ?c = credit (puts_at s) (ps_cl s me) + 1"
      using 3(3) fine pc j by (auto simp: exact_putter_def credit_def counted_def oneput_after_put_def)
    ultimately show ?thesis by (intro exact_ok_step [OF ok me cl, where d = 1]) auto
  qed simp
qed

lemma exact_get_ok:
  assumes ok: "exact_ok k nclnt s" and ok': "puts_ok nclnt n s" and me: "me < nclnt" and pc: "p_pc (ps_cl s me) = PGet j ver e"
  shows "exact_ok k nclnt (set_putter me (oneput_after_get me j ver e (GetJson (ps_kv s) j) (ps_cl s me)) s)"
    (is "exact_ok _ _ (set_putter me ?c s)")
proof -
  have fine: "exact_putter k (ps_cl s me)" "putter_ok (puts_at s) (ps_cl s me)" using ok ok' me by (auto simp: exact_ok_def puts_ok_def)
  then have e: "e = OK \<or> e = ErrVersion" and pos: "0 < puts_at s j" using pc by (auto simp: putter_ok_def exact_putter_def)
  have "store_ok (ps_kv s) j" using ok' by (auto simp: puts_ok_def)
  from GetJson_stored [OF this] pos obtain i v where get: "GetJson (ps_kv s) j = Inr (\<lparr>ev_Id = i, ev_V = v - 1\<rparr>, v)"
    by (auto simp: puts_at_def)
  have "exact_putter k ?c" "credit (puts_at s) ?c = credit (puts_at s) (ps_cl s me)"
    using fine pc e get by (auto simp: exact_putter_def credit_def counted_def oneput_after_get_def count_put_def)
  then show ?thesis by (intro exact_ok_step [OF ok me puts_at_set(3), where d = 0]) auto
qed

lemma exact_inv_step:
  assumes "exact_inv k nclnt n s" and step: "puts_step True randomkeys [k] nclnt s t"
  shows "exact_inv k nclnt (Suc n) t"
proof -
  have "exact_ok k nclnt t" if n: "Suc n < 2 ^ 64 - 1"
  proof -
    have ok: "exact_ok k nclnt s" and ok': "puts_ok nclnt n s" using assms(1) n by (simp_all add: exact_inv_def puts_inv_def)
    have idle: "exact_ok k nclnt (set_putter me c s)"
      if "me < nclnt" "p_pc (ps_cl s me) = PSelect" "c = (ps_cl s me)\<lparr>p_pc := p\<rparr>" "p = PReturned \<or> (\<exists>ver. p = PPut k ver False)" for me c p
      using ok that by (intro exact_ok_step [OF ok that(1) puts_at_set(3), where d = 0])
        (auto simp: exact_ok_def exact_putter_def credit_def counted_def)
    show ?thesis using step
    proof cases
      case (p_done me)
      then show ?thesis using idle [of me _ PReturned] by simp
    next
      case (p_default me r)
      have "next_key randomkeys [k] r = Inr k" using next_key_Inr [of "[k]" randomkeys r] by auto
      then show ?thesis using p_default idle [of me _ "PPut k (p_verm (ps_cl s me) k) False"] by (simp add: put_default_def)
    next
      case (p_put me j ver r d kv' out)
      then show ?thesis using exact_put_ok [OF ok ok' p_put(2)] n by simp
    next
      case (p_get me j ver e)
      then show ?thesis using exact_get_ok [OF ok ok' p_get(2)] by simp
    qed
  qed
  then show ?thesis using assms(1) puts_inv_step [OF _ step] by (simp add: exact_inv_def)
qed

interpretation xt: counted_machine puts_init "puts_step True randomkeys [k] nclnt" "exact_inv k nclnt"
  for randomkeys k nclnt
proof
  show "exact_inv k nclnt 0 s" if "puts_init s" for s
    using that puts_inv_init [OF that, of nclnt]
    by (simp add: exact_inv_def exact_ok_def puts_at_def puts_init_def generation_def put_start_def credit_def counted_def exact_putter_def)
  show "exact_inv k nclnt (Suc n) t" if "exact_inv k nclnt n s" "puts_step True randomkeys [k] nclnt s t" for n s t
    using that by (rule exact_inv_step)
qed

section \<open>The check accepts every run\<close>

lemma check_total:
  "foldl (\<lambda>s r. \<lparr>Nok = Nok s + Nok r, Nmaybe = Nmaybe s + Nmaybe r\<rparr>) res (put_results n s) =
     \<lparr>Nok = Nok res + (\<Sum>me < n. Nok (p_res (ps_cl s me))), Nmaybe = Nmaybe res + (\<Sum>me < n. Nmaybe (p_res (ps_cl s me)))\<rparr>"
  by (induction n) (simp_all add: put_results_def)

lemma returned_credit: "p_pc c = PReturned \<Longrightarrow> credit g c = Nok (p_res c) + Nmaybe (p_res c)"
  by (simp add: credit_def counted_def)

text \<open>When all clients have returned, their results account for the version of every key.\<close>

lemma finished_puts_checked:
  assumes ok: "puts_ok nclnt n s" "n < 2 ^ 64 - 1" and exact: "rel \<Longrightarrow> exact_ok k nclnt s"
    and ret: "\<forall>me < nclnt. p_pc (ps_cl s me) = PReturned" and key: "kv_lookup (ps_kv s) k = Some (v, ver)"
  shows "(\<exists>e. GetJson (ps_kv s) k = Inr (e, ver)) \<and>
    (\<exists>res. CheckPutConcurrent ver (put_results nclnt s) \<lparr>Nok = 0, Nmaybe = 0\<rparr> rel = Inr res)"
proof -
  let ?ok = "\<Sum>me < nclnt. Nok (p_res (ps_cl s me))" and ?may = "\<Sum>me < nclnt. Nmaybe (p_res (ps_cl s me))"
  have st: "store_ok (ps_kv s) k" "puts_at s k \<le> (\<Sum>me < nclnt. credit (puts_at s) (ps_cl s me))"
    using ok(1) by (auto simp: puts_ok_def)
  have gen: "generation kv_lookup (ps_kv s) k = ver" using key by (simp add: generation_def)
  have "\<exists>e. GetJson (ps_kv s) k = Inr (e, ver)"
    using GetJson_stored [OF st(1)] no_key_no_puts [OF st(1)] key gen by auto
  moreover have sum: "(\<Sum>me < nclnt. credit (puts_at s) (ps_cl s me)) = ?ok + ?may"
    using ret by (simp add: returned_credit sum.distrib)
  have "?ok + ?may \<le> n" using ok(1) by (simp add: puts_ok_def counted_def sum.distrib)
  then have small: "unat (of_nat (?ok + ?may) :: tversion) = ?ok + ?may" using ok(2) by (intro unat_small) simp
  have "\<not> of_nat (?ok + ?may) < ver" using st(2) small gen sum
    by (simp add: word_less_nat_alt puts_at_def not_less del: of_nat_add)
  moreover have "ver = of_nat ?ok" if rel
  proof -
    have "?may = 0" using exact [OF that] by (simp add: exact_ok_def exact_putter_def)
    moreover have "unat ver = ?ok + ?may" using exact [OF that] sum gen by (simp add: exact_ok_def puts_at_def)
    ultimately show ?thesis by (metis add_0_right of_nat_unat ucast_id)
  qed
  ultimately show ?thesis by (auto simp: CheckPutConcurrent_def check_total Let_def)
qed

lemma finished_puts_stored:
  assumes "puts_ok nclnt n s" "exact_ok k nclnt s" "\<forall>me < nclnt. p_pc (ps_cl s me) = PReturned"
    and "me < nclnt" "Nok (p_res (ps_cl s me)) \<noteq> 0"
  shows "kv_lookup (ps_kv s) k \<noteq> None"
proof -
  have "store_ok (ps_kv s) k" using assms(1) by (auto simp: puts_ok_def)
  moreover have "puts_at s k = (\<Sum>me < nclnt. credit (puts_at s) (ps_cl s me))" using assms(2) by (simp add: exact_ok_def)
  moreover have "credit (puts_at s) (ps_cl s me) \<noteq> 0" using assms(3-5) by (simp add: returned_credit)
  ultimately have "puts_at s k \<noteq> 0" "store_ok (ps_kv s) k" using assms(4) by auto
  then show ?thesis using no_key_no_puts [of "ps_kv s" k] by (simp add: puts_at_def)
qed

text \<open>
  C6: any number of clients race to put to the keys \<open>ka\<close>, over a network that loses requests and replies in
  any way. None of them ever calls \<open>Fatalf\<close>. When all have returned, \<open>CheckPutConcurrent\<close> accepts the
  version of every key that has been put, as a check of an unreliable network; and, when there is
  one key, the network is reliable and something was put, as a check of a reliable one.
\<close>
theorem CheckPutConcurrent_accepts:
  assumes "reach puts_init (puts_step reliable randomkeys ka nclnt) n s" and "n < 2 ^ 64 - 1" and "ka \<noteq> []"
  shows "(\<forall>me < nclnt. p_pc (ps_cl s me) \<noteq> PFatal) \<and>
    ((\<forall>me < nclnt. p_pc (ps_cl s me) = PReturned) \<longrightarrow>
      (\<forall>k v ver. kv_lookup (ps_kv s) k = Some (v, ver) \<longrightarrow> (\<exists>e. GetJson (ps_kv s) k = Inr (e, ver)) \<and>
        (\<exists>res. CheckPutConcurrent ver (put_results nclnt s) \<lparr>Nok = 0, Nmaybe = 0\<rparr> (reliable \<and> ka = [k]) = Inr res)) \<and>
      (reliable \<and> length ka = 1 \<and> (\<exists>me < nclnt. Nok (p_res (ps_cl s me)) \<noteq> 0) \<longrightarrow> kv_lookup (ps_kv s) (hd ka) \<noteq> None))"
proof -
  have ok: "puts_ok nclnt n s" using pt.reach_counted [OF assms(1)] assms(2,3) by (simp add: puts_inv_def)
  have exact: "exact_ok k nclnt s" if "reliable \<and> ka = [k]" for k
  proof -
    have "reach puts_init (puts_step True randomkeys [k] nclnt) n s" using assms(1) that by simp
    from xt.reach_counted [OF this] show ?thesis using assms(2) by (simp add: exact_inv_def)
  qed
  have "p_pc (ps_cl s me) \<noteq> PFatal" if "me < nclnt" for me
    using ok that put_pc_ok.simps(3) by (auto simp: puts_ok_def putter_ok_def)
  moreover note finished_puts_checked [OF ok assms(2) exact]
  moreover have "kv_lookup (ps_kv s) (hd ka) \<noteq> None"
    if ret: "\<forall>me < nclnt. p_pc (ps_cl s me) = PReturned" and r: "reliable" "length ka = 1" and me: "me < nclnt" "Nok (p_res (ps_cl s me)) \<noteq> 0" for me
  proof -
    have "ka = [hd ka]" using r(2) by (cases ka) auto
    then show ?thesis using exact [of "hd ka"] r(1) by (intro finished_puts_stored [OF ok _ ret me]) simp
  qed
  ultimately show ?thesis by auto
qed

text \<open>One client, one put on a reliable network.\<close>

definition pt_sys :: "kv_server \<Rightarrow> put_client \<Rightarrow> put_sys" where
  "pt_sys kv c = \<lparr>ps_kv = kv, ps_cl = (\<lambda>_. put_start)(0 := c)\<rparr>"

definition pt_kv :: kv_server where
  "pt_kv = fst (kv_put MakeKVServer (PutJson_args ''k'' \<lparr>ev_Id = 0, ev_V = 0\<rparr> 0))"

definition pt_done :: put_client where
  "pt_done = \<lparr>p_pc = PSelect, p_verm = (\<lambda>_. 0)(''k'' := 1), p_res = \<lparr>Nok = 1, Nmaybe = 0\<rparr>\<rparr>"

definition pt_end :: put_sys where "pt_end = pt_sys pt_kv (pt_done\<lparr>p_pc := PReturned\<rparr>)"

lemma pt_lookup: "kv_lookup pt_kv ''k'' = Some (entryV_Marshal \<lparr>ev_Id = 0, ev_V = 0\<rparr>, 1)"
  using kv.put_hit [of MakeKVServer "PutJson_args ''k'' \<lparr>ev_Id = 0, ev_V = 0\<rparr> 0"]
  by (simp add: pt_kv_def PutJson_args_def generation_def)

lemma pt_set: "set_putter 0 c (pt_sys kv c') = pt_sys kv c" "ps_cl (pt_sys kv c) 0 = c" "ps_kv (pt_sys kv c) = kv"
  "(pt_sys kv c)\<lparr>ps_kv := kv'\<rparr> = pt_sys kv' c"
  by (simp_all add: set_putter_def pt_sys_def)

lemma pt_end_reach: "reach puts_init (puts_step True False [''k''] 1) 4 pt_end"
proof -
  let ?step = "puts_step True False [''k''] 1" and ?c = "\<lambda>p. put_start\<lparr>p_pc := p\<rparr>"
  let ?put = "PPut ''k'' 0 False" and ?get = "PGet ''k'' 0 OK"
  have 0: "reach puts_init ?step 0 (pt_sys MakeKVServer put_start)"
    by (rule reach_init) (simp add: puts_init_def pt_sys_def)
  have 1: "?step (pt_sys MakeKVServer put_start) (pt_sys MakeKVServer (?c ?put))"
    using p_default [of 0 1 "pt_sys MakeKVServer put_start" True False "[''k'']" 0]
    by (simp add: pt_set put_start_def put_default_def next_key_def go_index_def)
  have "put_attempt Delivered MakeKVServer (PutJson_args ''k'' \<lparr>ev_Id = 0, ev_V = 0\<rparr> 0) False = (pt_kv, Return OK)"
    by (simp add: put_attempt_cases pt_kv_def put_answer_def kv_put_simps PutJson_args_def generation_def)
  then have 2: "?step (pt_sys MakeKVServer (?c ?put)) (pt_sys pt_kv (?c ?get))"
    using p_put [of 0 1 "pt_sys MakeKVServer (?c ?put)" "''k''" 0 False True Delivered pt_kv "Return OK" False "[''k'']"]
    by (simp add: pt_set oneput_after_put_def)
  have "GetJson pt_kv ''k'' = Inr (\<lparr>ev_Id = 0, ev_V = 0\<rparr>, 1)" by (simp add: GetJson_def kv_Get_lookup pt_lookup)
  then have 3: "?step (pt_sys pt_kv (?c ?get)) (pt_sys pt_kv pt_done)"
    using p_get [of 0 1 "pt_sys pt_kv (?c ?get)" "''k''" 0 OK True False "[''k'']"]
    by (simp add: pt_set oneput_after_get_def put_start_def pt_done_def count_put_def)
  have 4: "?step (pt_sys pt_kv pt_done) pt_end"
    using p_done [of 0 1 "pt_sys pt_kv pt_done" True False "[''k'']"] by (simp add: pt_set pt_end_def pt_done_def)
  from 0 1 have "reach puts_init ?step 1 (pt_sys MakeKVServer (?c ?put))" unfolding One_nat_def by (rule reach_step)
  then have "reach puts_init ?step 2 (pt_sys pt_kv (?c ?get))" using 2 unfolding numeral_2_eq_2 One_nat_def by (rule reach_step)
  then have "reach puts_init ?step 3 (pt_sys pt_kv pt_done)" using 3 unfolding numeral_3_eq_3 numeral_2_eq_2 by (rule reach_step)
  then have "reach puts_init ?step (Suc 3) pt_end" using 4 by (rule reach_step)
  then show ?thesis by simp
qed

theorem CheckPutConcurrent_accepts_witness:
  "\<exists>res. CheckPutConcurrent 1 (put_results 1 pt_end) \<lparr>Nok = 0, Nmaybe = 0\<rparr> True = Inr res"
proof -
  have "p_pc (ps_cl pt_end me) = PReturned" if "me < 1" for me using that by (simp add: pt_end_def pt_set)
  moreover have "kv_lookup (ps_kv pt_end) ''k'' = Some (entryV_Marshal \<lparr>ev_Id = 0, ev_V = 0\<rparr>, 1)"
    by (simp add: pt_end_def pt_set pt_lookup)
  ultimately have "\<exists>res. CheckPutConcurrent 1 (put_results 1 pt_end) \<lparr>Nok = 0, Nmaybe = 0\<rparr> (True \<and> [''k''] = [''k'']) = Inr res"
    using CheckPutConcurrent_accepts [OF pt_end_reach] by fastforce
  then show ?thesis by simp
qed

section \<open>SpreadPutsSize\<close>

text \<open>
  One client puts values under fresh keys, ignoring the answers, and then checks every key. Each call has its
  own script of what happens to its attempts; \<open>None\<close> is a call that has not returned when its script ends. The values
  \<open>va\<close> are the random strings drawn.
\<close>

type_synonym script = "(put_args list \<times> delivery) list"

fun spread_puts :: "string list \<Rightarrow> string list \<Rightarrow> script list \<Rightarrow> kv_server \<Rightarrow> kv_server option" where
  "spread_puts (k # ka) (v # va) (sc # scs) kv =
     (let r = clerk_Put \<lparr>pa_Key = k, pa_Value = v, pa_Version = 0\<rparr> sc kv False
      in case cr_result r of None \<Rightarrow> None | Some e \<Rightarrow> spread_puts ka va scs (cr_srv r))"
| "spread_puts [] va scs kv = Some kv"
| "spread_puts (k # ka) va scs kv = None"

fun spread_gets :: "string list \<Rightarrow> string list \<Rightarrow> script list \<Rightarrow> kv_server \<Rightarrow> kv_server option result" where
  "spread_gets (k # ka) (v # va) (sc # scs) kv =
     (case clerk_Get \<lparr>ga_Key = k\<rparr> sc kv of
        (kv', None) \<Rightarrow> Inr None
      | (kv', Some r) \<Rightarrow> res_bind (CheckGet r v 1) (\<lambda>_. spread_gets ka va scs kv'))"
| "spread_gets [] va scs kv = Inr (Some kv)"
| "spread_gets (k # ka) va scs kv = Inr None"

definition SpreadPutsSize ::
  "nat \<Rightarrow> string list \<Rightarrow> script list \<Rightarrow> script list \<Rightarrow> kv_server \<Rightarrow> (string list \<times> string list \<times> kv_server) option result" where
  "SpreadPutsSize n va puts gets kv =
     (let ka = MakeKeys n
      in case spread_puts ka va puts kv of
           None \<Rightarrow> Inr None
         | Some kv' \<Rightarrow> res_bind (spread_gets ka va gets kv') (\<lambda>st. Inr (map_option (\<lambda>kv''. (ka, va, kv'')) st)))"

text \<open>A call returns, and the other clients do not touch the keys meanwhile.\<close>

definition fair_script :: "string set \<Rightarrow> script \<Rightarrow> bool" where
  "fair_script K sc \<longleftrightarrow> Delivered \<in> snd ` set sc \<and> (\<forall>t \<in> set sc. \<forall>a \<in> set (fst t). pa_Key a \<notin> K)"

lemma put_other_key: "pa_Key a \<noteq> k \<Longrightarrow> kv_lookup (fst (kv_put kv a)) k = kv_lookup kv k"
  using kv.put_hit [of kv a] kv.put_miss [of kv a] by (cases "generation kv_lookup kv (pa_Key a) = pa_Version a") auto

lemma run_other_keys: "\<forall>a \<in> set as. pa_Key a \<noteq> k \<Longrightarrow> kv_lookup (fst (store_run kv_put kv as)) k = kv_lookup kv k"
  by (induction as arbitrary: kv) (simp_all add: case_prod_beta Let_def put_other_key)

lemma clerk_Put_other:
  "\<forall>t \<in> set sc. \<forall>a \<in> set (fst t). pa_Key a \<noteq> j \<Longrightarrow> pa_Key a \<noteq> j \<Longrightarrow>
     kv_lookup (cr_srv (clerk_Put a sc kv r)) j = kv_lookup kv j"
proof (induction sc arbitrary: kv r)
  case (Cons t sc)
  obtain others d where t: "t = (others, d)" by (cases t)
  have "kv_lookup (fst (store_run kv_put kv others)) j = kv_lookup kv j" using Cons.prems t by (simp add: run_other_keys)
  then show ?case using Cons t by (cases d) (simp_all add: clerk_Put_Cons Let_def put_other_key)
qed simp

text \<open>A Put of a fresh key is stored with version 1, whatever the clerk answers.\<close>

lemma put_fresh:
  assumes "kv_lookup kv (pa_Key a) \<in> {None, Some (pa_Value a, 1)}" "pa_Version a = 0"
  shows "kv_lookup (fst (kv_put kv a)) (pa_Key a) = Some (pa_Value a, 1)"
  using assms kv.put_hit [of kv a] kv.put_miss [of kv a] by (cases "kv_lookup kv (pa_Key a)") (auto simp: generation_def)

lemma clerk_Put_fresh:
  assumes "fair_script {pa_Key a} sc" "kv_lookup kv (pa_Key a) \<in> {None, Some (pa_Value a, 1)}" "pa_Version a = 0"
  shows "kv_lookup (cr_srv (clerk_Put a sc kv r)) (pa_Key a) = Some (pa_Value a, 1) \<and> cr_result (clerk_Put a sc kv r) \<noteq> None"
  using assms
proof (induction sc arbitrary: kv r)
  case (Cons t sc)
  obtain others d where t: "t = (others, d)" by (cases t)
  let ?kv = "fst (store_run kv_put kv others)"
  have same: "kv_lookup ?kv (pa_Key a) = kv_lookup kv (pa_Key a)"
    using Cons.prems(1) t by (intro run_other_keys) (auto simp: fair_script_def)
  then have put: "kv_lookup (fst (kv_put ?kv a)) (pa_Key a) = Some (pa_Value a, 1)"
    using Cons.prems(2,3) by (intro put_fresh) simp_all
  show ?case
  proof (cases d)
    case Delivered
    then show ?thesis using put t by (simp add: clerk_Put_Cons Let_def)
  next
    case LostRequest
    then have "fair_script {pa_Key a} sc" using Cons.prems(1) t by (auto simp: fair_script_def)
    from Cons.IH [OF this, of ?kv True] show ?thesis using LostRequest Cons.prems(2,3) same t by (simp add: clerk_Put_Cons Let_def)
  next
    case LostReply
    then have "fair_script {pa_Key a} sc" using Cons.prems(1) t by (auto simp: fair_script_def)
    from Cons.IH [OF this, of "fst (kv_put ?kv a)" True] show ?thesis using LostReply Cons.prems(3) put t
      by (simp add: clerk_Put_Cons Let_def)
  qed
qed (simp add: fair_script_def)

lemma clerk_Get_fair:
  assumes "fair_script K sc"
  shows "\<exists>kv'. clerk_Get a sc kv = (kv', Some (kv_Get kv' a zero_get_reply)) \<and> (\<forall>k \<in> K. kv_lookup kv' k = kv_lookup kv k)"
  using assms
proof (induction sc arbitrary: kv)
  case (Cons t sc)
  obtain others d where t: "t = (others, d)" by (cases t)
  let ?kv = "fst (store_run kv_put kv others)"
  have same: "kv_lookup ?kv k = kv_lookup kv k" if "k \<in> K" for k
    using Cons.prems t that by (intro run_other_keys) (auto simp: fair_script_def)
  show ?case
  proof (cases "d = Delivered")
    case True
    then show ?thesis using t same by (simp add: Let_def)
  next
    case False
    then have "fair_script K sc" using Cons.prems t by (auto simp: fair_script_def)
    from Cons.IH [OF this, of ?kv] show ?thesis using False t same by (auto simp: Let_def)
  qed
qed (simp add: fair_script_def)

lemma spread_puts_stored:
  assumes "\<forall>sc \<in> set puts. fair_script K sc" "distinct ka" "set ka \<subseteq> K" "length va = length ka" "length puts = length ka"
    and "\<forall>k \<in> set ka. kv_lookup kv k = None"
  shows "\<exists>kv'. spread_puts ka va puts kv = Some kv' \<and> (\<forall>i < length ka. kv_lookup kv' (ka ! i) = Some (va ! i, 1)) \<and>
    (\<forall>k \<in> K - set ka. kv_lookup kv' k = kv_lookup kv k)"
  using assms
proof (induction ka va puts kv rule: spread_puts.induct)
  case (1 k ka v va sc scs kv)
  let ?a = "\<lparr>pa_Key = k, pa_Value = v, pa_Version = 0\<rparr>"
  let ?kv = "cr_srv (clerk_Put ?a sc kv False)"
  have fair: "fair_script {pa_Key ?a} sc" using "1.prems" by (auto simp: fair_script_def)
  then have k: "kv_lookup ?kv k = Some (v, 1)" and ret: "cr_result (clerk_Put ?a sc kv False) \<noteq> None"
    using clerk_Put_fresh [OF fair, of kv False] "1.prems"(6) by auto
  have other: "kv_lookup ?kv j = kv_lookup kv j" if "j \<in> K" "j \<noteq> k" for j
    using "1.prems"(1) that by (intro clerk_Put_other) (auto simp: fair_script_def)
  obtain e where e: "cr_result (clerk_Put ?a sc kv False) = Some e" using ret by blast
  have "\<forall>j \<in> set ka. kv_lookup ?kv j = None" proof
    fix j assume "j \<in> set ka"
    then show "kv_lookup ?kv j = None" using other [of j] "1.prems"(2,3,6) by auto
  qed
  from "1.IH" [OF refl e _ _ _ _ _ this] obtain kv' where kv': "spread_puts ka va scs ?kv = Some kv'"
    "\<forall>i < length ka. kv_lookup kv' (ka ! i) = Some (va ! i, 1)" "\<forall>j \<in> K - set ka. kv_lookup kv' j = kv_lookup ?kv j"
    using "1.prems"(1-5) by auto
  have "kv_lookup kv' ((k # ka) ! i) = Some ((v # va) ! i, 1)" if "i < length (k # ka)" for i
    using that kv'(2,3) k "1.prems"(2,3) by (cases i) auto
  moreover have "\<forall>j \<in> K - set (k # ka). kv_lookup kv' j = kv_lookup kv j" using kv'(3) other by auto
  ultimately show ?case using kv'(1) e by (auto simp: Let_def)
qed auto

lemma spread_gets_pass:
  assumes "\<forall>sc \<in> set gets. fair_script K sc" "set ka \<subseteq> K" "length va = length ka" "length gets = length ka"
    and "\<forall>i < length ka. kv_lookup kv (ka ! i) = Some (va ! i, 1)"
  shows "\<exists>kv'. spread_gets ka va gets kv = Inr (Some kv') \<and> (\<forall>k \<in> K. kv_lookup kv' k = kv_lookup kv k)"
  using assms
proof (induction ka va gets kv rule: spread_gets.induct)
  case (1 k ka v va sc scs kv)
  have "fair_script K sc" using "1.prems"(1) by simp
  from clerk_Get_fair [OF this, of "\<lparr>ga_Key = k\<rparr>" kv] obtain kv1 where kv1:
    "clerk_Get \<lparr>ga_Key = k\<rparr> sc kv = (kv1, Some (kv_Get kv1 \<lparr>ga_Key = k\<rparr> zero_get_reply))" "\<forall>j \<in> K. kv_lookup kv1 j = kv_lookup kv j"
    by blast
  have stored: "kv_lookup kv1 ((k # ka) ! i) = Some ((v # va) ! i, 1)" if "i < length (k # ka)" for i
  proof -
    have "(k # ka) ! i \<in> K" using that "1.prems"(2) nth_mem [OF that] by blast
    then show ?thesis using that "1.prems"(5) kv1(2) by simp
  qed
  have check: "CheckGet (kv_Get kv1 \<lparr>ga_Key = k\<rparr> zero_get_reply) v 1 = Inr ()"
    using stored [of 0] by (simp add: kv_Get_lookup CheckGet_def)
  have "\<forall>i < length ka. kv_lookup kv1 (ka ! i) = Some (va ! i, 1)" using stored [of "Suc i" for i] by simp
  from "1.IH" [OF kv1(1) [symmetric] refl _ _ _ _ this] obtain kv' where "spread_gets ka va scs kv1 = Inr (Some kv')"
    "\<forall>j \<in> K. kv_lookup kv' j = kv_lookup kv1 j" using "1.prems"(1-4) by auto
  then show ?case using kv1 check by simp
qed auto

lemma MakeKeys_distinct: "distinct (MakeKeys n)"
proof -
  have "inj_on (\<lambda>i. CHR ''k'' # itoa (int i)) (set [0..<n])"
    by (rule inj_onI) (simp add: itoa_def nat_digits_inject)
  then show ?thesis by (simp add: MakeKeys_def distinct_map)
qed

text \<open>
  Filling fresh keys works over every network. Whatever attempts of the calls are lost, as long as
  every call returns and nobody else writes the keys, \<open>SpreadPutsSize\<close> passes all its checks and leaves
  the drawn values under the keys, although it ignores the answers of its Puts.
\<close>
theorem SpreadPutsSize_stores:
  assumes "length va = n" "length puts = n" "length gets = n"
    and "\<forall>sc \<in> set (puts @ gets). fair_script (set (MakeKeys n)) sc" and "\<forall>k \<in> set (MakeKeys n). kv_lookup kv k = None"
  shows "\<exists>kv'. SpreadPutsSize n va puts gets kv = Inr (Some (MakeKeys n, va, kv')) \<and>
    (\<forall>i < n. kv_lookup kv' (MakeKeys n ! i) = Some (va ! i, 1))"
proof -
  let ?K = "set (MakeKeys n)"
  have len: "length (MakeKeys n) = n" by (simp add: MakeKeys_def)
  obtain kv1 where 1: "spread_puts (MakeKeys n) va puts kv = Some kv1"
    "\<forall>i < n. kv_lookup kv1 (MakeKeys n ! i) = Some (va ! i, 1)"
    using spread_puts_stored [of puts ?K "MakeKeys n" va kv] assms MakeKeys_distinct [of n] len by auto
  obtain kv2 where 2: "spread_gets (MakeKeys n) va gets kv1 = Inr (Some kv2)" "\<forall>k \<in> ?K. kv_lookup kv2 k = kv_lookup kv1 k"
    using spread_gets_pass [of gets ?K "MakeKeys n" va kv1] assms(1,3,4) 1(2) len by auto
  have "kv_lookup kv2 (MakeKeys n ! i) = Some (va ! i, 1)" if "i < n" for i using 1(2) 2(2) that len by simp
  then show ?thesis using 1(1) 2(1) by (simp add: SpreadPutsSize_def Let_def)
qed

theorem SpreadPutsSize_stores_witness:
  "\<exists>kv'. SpreadPutsSize 1 [''v''] [[([], LostReply), ([], Delivered)]] [[([], LostRequest), ([], Delivered)]] MakeKVServer =
     Inr (Some ([''k0''], [''v''], kv'))"
proof -
  have keys: "MakeKeys 1 = [''k0'']" by code_simp
  show ?thesis
    using SpreadPutsSize_stores [of "[''v'']" 1 "[[([], LostReply), ([], Delivered)]]" "[[([], LostRequest), ([], Delivered)]]" MakeKVServer]
    unfolding keys by (auto simp: fair_script_def)
qed

end
