(* ===== verification/Annotate.thy ===== *)
theory Annotate
  imports Prelude
begin

text \<open>
  The annotations of a test run (\<open>tester1/annotation.go\<close>) and their collection from server processes
  (\<open>tester1/annotator.go\<close>): point, interval and continuous annotations, the record of failures the
  harness keeps, the checkers' annotations, and what is written for visualization. Timestamps are
  arguments of the operations.

  The result is that a visualization tells the truth about failures: at every moment of a test the
  failure annotation that covers it names exactly the servers that were crashed or cut off then.
\<close>

section \<open>Data\<close>

text \<open>\<open>porcupine.Annotation\<close>; a point has no end, which is the zero value.\<close>

record porc_annotation =
  an_Tag :: string
  an_Start :: int
  an_End :: int
  an_Description :: string
  an_Details :: string
  an_BackgroundColor :: string

record continuous_ann =
  co_start :: int
  co_desp :: string
  co_details :: string
  co_bgcolor :: string

record annotation =
  annotations :: "porc_annotation list"
  continuous :: "(string, continuous_ann) gomap"
  finalized :: bool

record checker_begin =
  ck_ts :: int
  ck_details :: string

record framework_info =
  fi_nservers :: nat
  fi_connected :: "bool list"
  fi_crashed :: "bool list"
  fi_ckbegin :: checker_begin

text \<open>The globals \<open>annotation\<close> and \<open>finfo\<close>; \<open>finfo\<close> is nil until \<open>AnnotateTest\<close>.\<close>

record vis =
  v_annotation :: annotation
  v_finfo :: "framework_info option"

definition COLOR_INFO :: string where "COLOR_INFO = ''#FAFAFA''"
definition COLOR_NEUTRAL :: string where "COLOR_NEUTRAL = ''#FFECB3''"
definition COLOR_SUCCESS :: string where "COLOR_SUCCESS = ''#C8E6C9''"
definition COLOR_FAILURE :: string where "COLOR_FAILURE = ''#FFCDD2''"
definition COLOR_FAULT :: string where "COLOR_FAULT = ''#B3E5FC''"
definition COLOR_USER :: string where "COLOR_USER = ''#FFF176''"

definition TAG_CHECKER :: string where "TAG_CHECKER = ''$ Checker''"
definition TAG_PARTITION :: string where "TAG_PARTITION = ''$ Failure''"
definition TAG_INFO :: string where "TAG_INFO = ''$ Test Info''"

definition mkAnnotation :: annotation where
  "mkAnnotation = \<lparr>annotations = [], continuous = [], finalized = False\<rparr>"

definition mkFrameworkInfo :: "nat \<Rightarrow> framework_info" where
  "mkFrameworkInfo n =
     \<lparr>fi_nservers = n, fi_connected = replicate n True, fi_crashed = replicate n False,
      fi_ckbegin = \<lparr>ck_ts = 0, ck_details = []\<rparr>\<rparr>"

section \<open>The annotation store\<close>

definition annotatePointColor :: "int \<Rightarrow> string \<Rightarrow> string \<Rightarrow> string \<Rightarrow> string \<Rightarrow> annotation \<Rightarrow> annotation" where
  "annotatePointColor t tag desp details bgcolor an =
     an\<lparr>annotations := annotations an @
       [\<lparr>an_Tag = tag, an_Start = t, an_End = 0, an_Description = desp, an_Details = details, an_BackgroundColor = bgcolor\<rparr>]\<rparr>"

definition annotateIntervalColor :: "int \<Rightarrow> string \<Rightarrow> int \<Rightarrow> string \<Rightarrow> string \<Rightarrow> string \<Rightarrow> annotation \<Rightarrow> annotation" where
  "annotateIntervalColor t tag start desp details bgcolor an =
     an\<lparr>annotations := annotations an @
       [\<lparr>an_Tag = tag, an_Start = start, an_End = t, an_Description = desp, an_Details = details, an_BackgroundColor = bgcolor\<rparr>]\<rparr>"

text \<open>A continuous annotation made concrete at its end.\<close>

definition concretize :: "string \<Rightarrow> int \<Rightarrow> continuous_ann \<Rightarrow> porc_annotation" where
  "concretize tag t cont =
     \<lparr>an_Tag = tag, an_Start = co_start cont, an_End = t, an_Description = co_desp cont,
      an_Details = co_details cont, an_BackgroundColor = co_bgcolor cont\<rparr>"

definition annotateContinuousColor :: "int \<Rightarrow> string \<Rightarrow> string \<Rightarrow> string \<Rightarrow> string \<Rightarrow> annotation \<Rightarrow> annotation" where
  "annotateContinuousColor t tag desp details bgcolor an =
     (let new = \<lparr>co_start = t, co_desp = desp, co_details = details, co_bgcolor = bgcolor\<rparr>
      in case map_of (continuous an) tag of
           None \<Rightarrow> an\<lparr>continuous := gm_put tag new (continuous an)\<rparr>
         | Some cont \<Rightarrow> an\<lparr>annotations := annotations an @ [concretize tag t cont],
                          continuous := gm_put tag new (continuous an)\<rparr>)"

text \<open>
  The branch for a tag with nothing under way does not return: the zero value of the map lookup is
  made concrete like any other.
\<close>

definition zero_continuous :: continuous_ann where
  "zero_continuous = \<lparr>co_start = 0, co_desp = [], co_details = [], co_bgcolor = []\<rparr>"

definition annotateContinuousEnd :: "int \<Rightarrow> string \<Rightarrow> annotation \<Rightarrow> annotation" where
  "annotateContinuousEnd t tag an =
     (let cont = (case map_of (continuous an) tag of Some c \<Rightarrow> c | None \<Rightarrow> zero_continuous)
      in an\<lparr>annotations := annotations an @ [concretize tag t cont], continuous := gm_delete tag (continuous an)\<rparr>)"

text \<open>\<open>it\<close> is the order in which the map of continuous annotations is iterated over.\<close>

definition finalize :: "(string \<times> continuous_ann) list \<Rightarrow> int \<Rightarrow> annotation \<Rightarrow> annotation \<times> porc_annotation list" where
  "finalize it t an = (an\<lparr>finalized := True\<rparr>, annotations an @ map (\<lambda>(tag, cont). concretize tag t cont) it)"

definition clear :: "annotation \<Rightarrow> annotation" where
  "clear an = an\<lparr>annotations := [], continuous := [], finalized := False\<rparr>"

definition end_annotation :: "int \<Rightarrow> string \<Rightarrow> porc_annotation" where
  "end_annotation t e =
     \<lparr>an_Tag = TAG_INFO, an_Start = t, an_End = 0, an_Description = e, an_Details = e, an_BackgroundColor = COLOR_INFO\<rparr>"

definition FinalizeAnnotations ::
  "(string \<times> continuous_ann) list \<Rightarrow> int \<Rightarrow> int \<Rightarrow> string \<Rightarrow> vis \<Rightarrow> vis \<times> porc_annotation list" where
  "FinalizeAnnotations it t t' e v =
     (let (an, x) = finalize it t (v_annotation v)
      in (v\<lparr>v_annotation := an\<rparr>, x @ [end_annotation t' e]))"

text \<open>
  \<open>cleanup\<close>, given \<open>VIS_ENABLE\<close> and whether the file for the visualization could be opened; the result is
  what is handed to \<open>porcupine.Visualize\<close>.
\<close>

definition ann_cleanup ::
  "string \<Rightarrow> bool \<Rightarrow> (string \<times> continuous_ann) list \<Rightarrow> int \<Rightarrow> int \<Rightarrow> bool \<Rightarrow> string \<Rightarrow> annotation \<Rightarrow>
   annotation \<times> porc_annotation list option" where
  "ann_cleanup enabled opened it t t' failed e an =
     (if enabled = ''never'' \<or> (\<not> failed \<and> enabled \<noteq> ''always'') \<or> finalized an then (clear an, None)
      else let (an', x) = finalize it t an
           in if x = [] then (an', None)
              else if \<not> opened then (an', None)
              else (an', Some (x @ [end_annotation t' e])))"

section \<open>Annotations of the test framework\<close>

definition on_annotation :: "(annotation \<Rightarrow> annotation) \<Rightarrow> vis \<Rightarrow> vis" where
  "on_annotation f v = v\<lparr>v_annotation := f (v_annotation v)\<rparr>"

definition AnnotatePoint :: "int \<Rightarrow> string \<Rightarrow> string \<Rightarrow> string \<Rightarrow> vis \<Rightarrow> vis" where
  "AnnotatePoint t tag desp details = on_annotation (annotatePointColor t tag desp details COLOR_USER)"

definition AnnotateInterval :: "int \<Rightarrow> string \<Rightarrow> int \<Rightarrow> string \<Rightarrow> string \<Rightarrow> vis \<Rightarrow> vis" where
  "AnnotateInterval t tag start desp details = on_annotation (annotateIntervalColor t tag start desp details COLOR_USER)"

definition AnnotateContinuous :: "int \<Rightarrow> string \<Rightarrow> string \<Rightarrow> string \<Rightarrow> vis \<Rightarrow> vis" where
  "AnnotateContinuous t tag desp details = on_annotation (annotateContinuousColor t tag desp details COLOR_USER)"

definition AnnotateInfo :: "int \<Rightarrow> string \<Rightarrow> string \<Rightarrow> vis \<Rightarrow> vis" where
  "AnnotateInfo t desp details = on_annotation (annotatePointColor t TAG_INFO desp details COLOR_INFO)"

definition AnnotateInfoInterval :: "int \<Rightarrow> int \<Rightarrow> string \<Rightarrow> string \<Rightarrow> vis \<Rightarrow> vis" where
  "AnnotateInfoInterval t start desp details = on_annotation (annotateIntervalColor t TAG_INFO start desp details COLOR_INFO)"

definition AnnotateTest :: "int \<Rightarrow> string \<Rightarrow> nat \<Rightarrow> vis \<Rightarrow> vis" where
  "AnnotateTest t desp n v =
     (let details = desp @ '' ('' @ itoa (int n) @ '' servers)''
      in AnnotateInfo t details details (on_annotation clear (v\<lparr>v_finfo := Some (mkFrameworkInfo n)\<rparr>)))"

text \<open>A use of \<open>finfo\<close> before \<open>AnnotateTest\<close> dereferences nil.\<close>

definition with_finfo :: "(framework_info \<Rightarrow> vis \<Rightarrow> vis result) \<Rightarrow> vis \<Rightarrow> vis result" where
  "with_finfo f v =
     (case v_finfo v of None \<Rightarrow> Inl (Panic ''nil pointer dereference'') | Some fi \<Rightarrow> f fi v)"

definition AnnotateCheckerBegin :: "int \<Rightarrow> string \<Rightarrow> vis \<Rightarrow> vis result" where
  "AnnotateCheckerBegin t details =
     with_finfo (\<lambda>fi v. Inr (v\<lparr>v_finfo := Some (fi\<lparr>fi_ckbegin := \<lparr>ck_ts = t, ck_details = details\<rparr>\<rparr>)\<rparr>))"

text \<open>\<open>ckbegin\<close> is a copy of \<open>finfo.ckbegin\<close>; setting its \<open>ts\<close> to 0 at the end leaves \<open>finfo\<close> as it is.\<close>

definition AnnotateCheckerEnd :: "int \<Rightarrow> string \<Rightarrow> string \<Rightarrow> string \<Rightarrow> vis \<Rightarrow> vis result" where
  "AnnotateCheckerEnd t desp details color =
     with_finfo (\<lambda>fi v.
       let ckbegin = fi_ckbegin fi
       in if ck_ts ckbegin = 0 then Inr (on_annotation (annotatePointColor t TAG_CHECKER desp details color) v)
          else Inr (on_annotation (annotateIntervalColor t TAG_CHECKER (ck_ts ckbegin) desp
                      (ck_details ckbegin @ '': '' @ details) color) v))"

definition AnnotateCheckerSuccess :: "int \<Rightarrow> string \<Rightarrow> string \<Rightarrow> vis \<Rightarrow> vis result" where
  "AnnotateCheckerSuccess t desp details = AnnotateCheckerEnd t desp details COLOR_SUCCESS"

definition AnnotateCheckerFailure :: "int \<Rightarrow> string \<Rightarrow> string \<Rightarrow> vis \<Rightarrow> vis result" where
  "AnnotateCheckerFailure t desp details = AnnotateCheckerEnd t desp details COLOR_FAILURE"

definition AnnotateCheckerNeutral :: "int \<Rightarrow> string \<Rightarrow> string \<Rightarrow> vis \<Rightarrow> vis result" where
  "AnnotateCheckerNeutral t desp details = AnnotateCheckerEnd t desp details COLOR_NEUTRAL"

text \<open>The annotation of a failure and the clean-up before \<open>log.Fatalf\<close>.\<close>

definition AnnotateCheckerFailureBeforeExit ::
  "string \<Rightarrow> bool \<Rightarrow> (string \<times> continuous_ann) list \<Rightarrow> int \<Rightarrow> int \<Rightarrow> int \<Rightarrow> string \<Rightarrow> string \<Rightarrow> vis \<Rightarrow>
   (vis \<times> porc_annotation list option) result" where
  "AnnotateCheckerFailureBeforeExit enabled opened it t t1 t2 desp details v =
     res_bind (AnnotateCheckerFailure t desp details v) (\<lambda>v'.
       let (an, x) = ann_cleanup enabled opened it t1 t2 True ''test failed'' (v_annotation v')
       in Inr (v'\<lparr>v_annotation := an\<rparr>, x))"

definition SetAnnotationFinalized :: "vis \<Rightarrow> vis" where
  "SetAnnotationFinalized = on_annotation (\<lambda>an. an\<lparr>finalized := True\<rparr>)"

definition GetAnnotationFinalized :: "vis \<Rightarrow> bool" where
  "GetAnnotationFinalized v = finalized (v_annotation v)"

section \<open>Failures\<close>

text \<open>\<open>fmt.Sprintf("%v", xs)\<close> of a slice of ints.\<close>

fun join_with :: "string \<Rightarrow> string list \<Rightarrow> string" where
  "join_with sep [] = []"
| "join_with sep [x] = x"
| "join_with sep (x # y # xs) = x @ sep @ join_with sep (y # xs)"

definition fmt_ints :: "int list \<Rightarrow> string" where
  "fmt_ints xs = ''['' @ join_with '' '' (map itoa xs) @ '']''"

text \<open>
  The loop of \<open>annotateFault\<close> over the servers: the text so far, the connected servers and the
  crashed ones. \<open>finfo.crashed[id]\<close> panics when the slice is shorter.
\<close>

fun fault_loop :: "int \<Rightarrow> bool list \<Rightarrow> bool list \<Rightarrow> string \<times> int list \<times> int list \<Rightarrow> (string \<times> int list \<times> int list) result" where
  "fault_loop i [] crashed acc = Inr acc"
| "fault_loop i (conn # conns) crashed (b, cs, ks) =
     res_bind (go_index crashed i) (\<lambda>k.
       if k then fault_loop (i + 1) conns crashed (b, cs, ks @ [i])
       else if conn then fault_loop (i + 1) conns crashed (b, cs @ [i], ks)
       else fault_loop (i + 1) conns crashed (b @ fmt_ints [i] @ '' '', cs, ks))"

definition fault_text :: "bool list \<Rightarrow> bool list \<Rightarrow> string result" where
  "fault_text connected crashed =
     res_bind (fault_loop 0 connected crashed (''partition = '', [], [])) (\<lambda>(b, cs, ks).
       Inr (b @ (if length cs > 0 then fmt_ints cs else []) @
                (if length ks > 0 then '' / crash = '' @ fmt_ints ks else [])))"

definition annotateFault :: "int \<Rightarrow> framework_info \<Rightarrow> vis \<Rightarrow> vis result" where
  "annotateFault t fi v =
     (if replicate (fi_nservers fi) True = fi_connected fi \<and> replicate (fi_nservers fi) False = fi_crashed fi
      then Inr (on_annotation (annotateContinuousEnd t TAG_PARTITION) v)
      else res_bind (fault_text (fi_connected fi) (fi_crashed fi)) (\<lambda>text.
             Inr (on_annotation (annotateContinuousColor t TAG_PARTITION text text COLOR_FAULT) v)))"

text \<open>Go's \<open>copy\<close>: as many elements as both slices have.\<close>

definition go_copy :: "'a list \<Rightarrow> 'a list \<Rightarrow> 'a list" where
  "go_copy dst src = take (length dst) src @ drop (length src) dst"

definition set_finfo :: "framework_info \<Rightarrow> vis \<Rightarrow> vis" where
  "set_finfo fi v = v\<lparr>v_finfo := Some fi\<rparr>"

definition AnnotateConnection :: "int \<Rightarrow> bool list \<Rightarrow> vis \<Rightarrow> vis result" where
  "AnnotateConnection t connection =
     with_finfo (\<lambda>fi v.
       if fi_connected fi = connection then Inr v
       else let fi' = fi\<lparr>fi_connected := go_copy (fi_connected fi) connection\<rparr>
            in annotateFault t fi' (set_finfo fi' v))"

definition AnnotateTwoPartitions :: "int \<Rightarrow> int list \<Rightarrow> int list \<Rightarrow> vis \<Rightarrow> vis" where
  "AnnotateTwoPartitions t p1 p2 =
     (let text = ''partition = '' @ fmt_ints p1 @ '' '' @ fmt_ints p2
      in on_annotation (annotateContinuousColor t TAG_PARTITION text text COLOR_FAULT))"

definition AnnotateClearFailure :: "int \<Rightarrow> vis \<Rightarrow> vis result" where
  "AnnotateClearFailure t =
     with_finfo (\<lambda>fi v.
       let fi' = fi\<lparr>fi_crashed := map (\<lambda>_. False) (fi_crashed fi), fi_connected := map (\<lambda>_. True) (fi_connected fi)\<rparr>
       in Inr (on_annotation (annotateContinuousEnd t TAG_PARTITION) (set_finfo fi' v)))"

text \<open>The loops of \<open>AnnotateShutdown\<close> and \<open>AnnotateRestart\<close>: every listed server's flag becomes \<open>b\<close>.\<close>

fun mark_loop :: "bool \<Rightarrow> int list \<Rightarrow> bool \<Rightarrow> bool list \<Rightarrow> (bool \<times> bool list) result" where
  "mark_loop b [] changed crashed = Inr (changed, crashed)"
| "mark_loop b (i # is) changed crashed =
     res_bind (go_index crashed i) (\<lambda>k.
       mark_loop b is (changed \<or> k \<noteq> b) (crashed[nat i := b]))"

definition mark_crashed :: "bool \<Rightarrow> int \<Rightarrow> int list \<Rightarrow> vis \<Rightarrow> vis result" where
  "mark_crashed b t servers =
     with_finfo (\<lambda>fi v.
       res_bind (mark_loop b servers False (fi_crashed fi)) (\<lambda>(changed, crashed).
         let fi' = fi\<lparr>fi_crashed := crashed\<rparr>
         in if \<not> changed then Inr (set_finfo fi' v) else annotateFault t fi' (set_finfo fi' v)))"

definition AnnotateShutdown :: "int \<Rightarrow> int list \<Rightarrow> vis \<Rightarrow> vis result" where
  "AnnotateShutdown = mark_crashed True"

definition AnnotateRestart :: "int \<Rightarrow> int list \<Rightarrow> vis \<Rightarrow> vis result" where
  "AnnotateRestart = mark_crashed False"

definition AnnotateShutdownAll :: "int \<Rightarrow> vis \<Rightarrow> vis result" where
  "AnnotateShutdownAll t = with_finfo (\<lambda>fi. AnnotateShutdown t (map int [0..<fi_nservers fi]))"

definition AnnotateRestartAll :: "int \<Rightarrow> vis \<Rightarrow> vis result" where
  "AnnotateRestartAll t = with_finfo (\<lambda>fi. AnnotateRestart t (map int [0..<fi_nservers fi]))"

lemmas [go_defs] =
  on_annotation_def with_finfo_def set_finfo_def annotateContinuousEnd_def annotateIntervalColor_def concretize_def
  zero_continuous_def AnnotateCheckerBegin_def AnnotateCheckerEnd_def AnnotateClearFailure_def Let_def

section \<open>Annotations from other processes\<close>

text \<open>
  \<open>annotator.go\<close>: the client functions call the tester over \<open>sockrpc\<close>; the handlers run in the tester.
  \<open>ok\<close> is what \<open>RPCMarshall\<close> returns; the handler has run when it is true.
\<close>

definition PostAnnotatorPoint :: "int \<Rightarrow> string \<times> string \<times> string \<Rightarrow> vis \<Rightarrow> vis" where
  "PostAnnotatorPoint t args = (case args of (tag, desp, details) \<Rightarrow> AnnotatePoint t tag desp details)"

definition GetAnnotatorTimestamp_reply :: "int \<Rightarrow> int" where
  "GetAnnotatorTimestamp_reply t = t"

definition GetAnnotatorTimestamp :: "bool \<Rightarrow> int \<Rightarrow> int" where
  "GetAnnotatorTimestamp ok t = (if \<not> ok then 0 else GetAnnotatorTimestamp_reply t)"

definition PostAnnotatorInfoInterval :: "int \<Rightarrow> int \<times> string \<times> string \<Rightarrow> vis \<Rightarrow> vis" where
  "PostAnnotatorInfoInterval t args =
     (case args of (start, desp, details) \<Rightarrow> AnnotateInfoInterval t start desp details)"

section \<open>What is shown at a moment\<close>

text \<open>
  The descriptions that cover the moment \<open>\<tau>\<close> under a tag, in a list of annotations and in a store,
  where a continuous annotation under way covers everything from its start. Nameless annotations
  do not count.
\<close>

definition covering :: "string \<Rightarrow> int \<Rightarrow> porc_annotation list \<Rightarrow> string set" where
  "covering tag \<tau> as =
     {an_Description a |a. a \<in> set as \<and> an_Tag a = tag \<and> an_Start a \<le> \<tau> \<and> \<tau> < an_End a \<and> an_Description a \<noteq> []}"

definition shown :: "string \<Rightarrow> int \<Rightarrow> annotation \<Rightarrow> string set" where
  "shown tag \<tau> an =
     covering tag \<tau> (annotations an) \<union>
     {co_desp c |c. map_of (continuous an) tag = Some c \<and> co_start c \<le> \<tau>}"

text \<open>Everything under the tag happened up to \<open>t\<close>, and what is under way has a description.\<close>

definition past :: "string \<Rightarrow> int \<Rightarrow> annotation \<Rightarrow> bool" where
  "past tag t an \<longleftrightarrow>
     (\<forall>a \<in> set (annotations an). an_Tag a = tag \<longrightarrow> an_Description a \<noteq> [] \<longrightarrow> an_End a \<le> t) \<and>
     (\<forall>c. map_of (continuous an) tag = Some c \<longrightarrow> co_start c \<le> t \<and> co_desp c \<noteq> [])"

lemma covering_append: "covering tag \<tau> (as @ bs) = covering tag \<tau> as \<union> covering tag \<tau> bs"
  by (auto simp: covering_def)

lemma covering_concretize:
  "covering tag \<tau> [concretize tag t c] = (if co_start c \<le> \<tau> \<and> \<tau> < t \<and> co_desp c \<noteq> [] then {co_desp c} else {})"
  by (auto simp: covering_def concretize_def)

lemma past_covering: "past tag t an \<Longrightarrow> t \<le> \<tau> \<Longrightarrow> covering tag \<tau> (annotations an) = {}"
  by (force simp: past_def covering_def)

lemma past_mono: "past tag t an \<Longrightarrow> t \<le> t' \<Longrightarrow> past tag t' an"
  by (force simp: past_def)

lemma past_shown:
  assumes "past tag t an" "t \<le> \<tau>"
  shows "shown tag \<tau> an = {co_desp c |c. map_of (continuous an) tag = Some c}"
  using assms past_covering [OF assms] by (force simp: shown_def past_def)

lemma past_concretize:
  assumes "past tag t an" "t \<le> t'"
  shows "\<forall>a \<in> set (annotations an @ [concretize tag t' c]). an_Tag a = tag \<longrightarrow> an_Description a \<noteq> [] \<longrightarrow> an_End a \<le> t'"
  using past_mono [OF assms] by (auto simp: past_def concretize_def)

lemma annotateContinuousColor_shown:
  fixes details bgcolor :: string
  assumes "past tag t an" "t \<le> t'" "desp \<noteq> []"
  defines "an' \<equiv> annotateContinuousColor t' tag desp details bgcolor an"
  shows "past tag t' an' \<and> shown tag \<tau> an' = (if \<tau> < t' then shown tag \<tau> an else {desp})"
proof (cases "map_of (continuous an) tag")
  case None
  then have "annotations an' = annotations an" "map_of (continuous an') tag =
      Some \<lparr>co_start = t', co_desp = desp, co_details = details, co_bgcolor = bgcolor\<rparr>"
    by (auto simp: an'_def annotateContinuousColor_def Let_def)
  with None past_mono [OF assms(1,2)] past_covering [OF assms(1), of \<tau>] assms(2,3) show ?thesis
    by (auto simp: past_def shown_def)
next
  case (Some c)
  then have a: "annotations an' = annotations an @ [concretize tag t' c]" "map_of (continuous an') tag =
      Some \<lparr>co_start = t', co_desp = desp, co_details = details, co_bgcolor = bgcolor\<rparr>"
    by (auto simp: an'_def annotateContinuousColor_def Let_def)
  have "co_desp c \<noteq> []" using Some assms(1) by (simp add: past_def)
  with a Some past_covering [OF assms(1), of \<tau>] past_concretize [OF assms(1,2), of c] assms(2,3) show ?thesis
    by (auto simp: past_def shown_def covering_append covering_concretize)
qed

lemma annotateContinuousEnd_shown:
  assumes "past tag t an" "t \<le> t'"
  defines "an' \<equiv> annotateContinuousEnd t' tag an"
  shows "past tag t' an' \<and> shown tag \<tau> an' = (if \<tau> < t' then shown tag \<tau> an else {})"
proof -
  define c where "c = (case map_of (continuous an) tag of Some c \<Rightarrow> c | None \<Rightarrow> zero_continuous)"
  have a: "annotations an' = annotations an @ [concretize tag t' c]" "map_of (continuous an') tag = None"
    by (auto simp: an'_def annotateContinuousEnd_def c_def Let_def)
  show ?thesis
  proof (cases "map_of (continuous an) tag")
    case None
    then have "co_desp c = []" by (simp add: c_def zero_continuous_def)
    with a None past_covering [OF assms(1), of \<tau>] past_concretize [OF assms(1,2), of c] assms(2) show ?thesis
      by (auto simp: past_def shown_def covering_append covering_concretize)
  next
    case (Some c')
    then have "c' = c" "co_desp c \<noteq> []" using assms(1) by (auto simp: c_def past_def)
    with a Some past_covering [OF assms(1), of \<tau>] past_concretize [OF assms(1,2), of c] assms(2) show ?thesis
      by (auto simp: past_def shown_def covering_append covering_concretize)
  qed
qed

lemma finalize_shown:
  assumes "past tag t an" "mset it = mset (continuous an)" "distinct (map fst (continuous an))" "\<tau> < T"
  shows "covering tag \<tau> (snd (finalize it T an)) = shown tag \<tau> an"
proof -
  have s: "set it = set (continuous an)" using assms(2) by (rule mset_eq_setD)
  have "x \<in> covering tag \<tau> (map (\<lambda>(tag, cont). concretize tag T cont) it) \<longleftrightarrow>
      (\<exists>c. (tag, c) \<in> set (continuous an) \<and> co_start c \<le> \<tau> \<and> co_desp c \<noteq> [] \<and> x = co_desp c)" for x
    using assms(4) unfolding covering_def concretize_def s [symmetric] by force
  moreover have "(tag, c) \<in> set (continuous an) \<longleftrightarrow> map_of (continuous an) tag = Some c" for c
    using assms(3) by (simp add: map_of_eq_Some_iff)
  ultimately show ?thesis using assms(1)
    by (auto simp: finalize_def shown_def covering_append past_def)
qed

section \<open>The failures of a test\<close>

text \<open>
  The specification: which servers are connected and which have crashed, what each operation of the
  harness makes of it, and its description. A crashed server is listed as crashed whether it is
  connected or not.
\<close>

type_synonym fault_state = "bool list \<times> bool list"

datatype fault_op =
  Connection "bool list" | Shutdown "int list" | Restart "int list" | ShutdownAll | RestartAll | ClearFailure

fun fault_after :: "fault_op \<Rightarrow> fault_state \<Rightarrow> fault_state" where
  "fault_after (Connection c) (conn, crash) = (c, crash)"
| "fault_after (Shutdown is) (conn, crash) = (conn, map (\<lambda>j. int j \<in> set is \<or> crash ! j) [0..<length crash])"
| "fault_after (Restart is) (conn, crash) = (conn, map (\<lambda>j. int j \<notin> set is \<and> crash ! j) [0..<length crash])"
| "fault_after ShutdownAll (conn, crash) = (conn, replicate (length crash) True)"
| "fault_after RestartAll (conn, crash) = (conn, replicate (length crash) False)"
| "fault_after ClearFailure (conn, crash) = (replicate (length conn) True, replicate (length crash) False)"

definition fault_description :: "bool list \<Rightarrow> bool list \<Rightarrow> string" where
  "fault_description conn crash =
     (let ids = [0..<length conn];
          cut = filter (\<lambda>j. \<not> crash ! j \<and> \<not> conn ! j) ids;
          joined = filter (\<lambda>j. \<not> crash ! j \<and> conn ! j) ids;
          down = filter (\<lambda>j. crash ! j) ids
      in ''partition = '' @ concat (map (\<lambda>j. fmt_ints [int j] @ '' '') cut) @
         (if joined = [] then [] else fmt_ints (map int joined)) @
         (if down = [] then [] else '' / crash = '' @ fmt_ints (map int down)))"

definition fault_label :: "fault_state \<Rightarrow> string set" where
  "fault_label st =
     (if list_all id (fst st) \<and> list_all Not (snd st) then {} else {fault_description (fst st) (snd st)})"

fun annotate_op :: "int \<Rightarrow> fault_op \<Rightarrow> vis \<Rightarrow> vis result" where
  "annotate_op t (Connection c) v = AnnotateConnection t c v"
| "annotate_op t (Shutdown is) v = AnnotateShutdown t is v"
| "annotate_op t (Restart is) v = AnnotateRestart t is v"
| "annotate_op t ShutdownAll v = AnnotateShutdownAll t v"
| "annotate_op t RestartAll v = AnnotateRestartAll t v"
| "annotate_op t ClearFailure v = AnnotateClearFailure t v"

fun annotate_run :: "(int \<times> fault_op) list \<Rightarrow> vis \<Rightarrow> vis result" where
  "annotate_run [] v = Inr v"
| "annotate_run ((t, op) # ops) v = res_bind (annotate_op t op v) (annotate_run ops)"

text \<open>The lists of an operation fit a group of \<open>n\<close> servers.\<close>

fun in_range :: "nat \<Rightarrow> fault_op \<Rightarrow> bool" where
  "in_range n (Connection c) \<longleftrightarrow> length c = n"
| "in_range n (Shutdown is) \<longleftrightarrow> (\<forall>i \<in> set is. 0 \<le> i \<and> i < int n)"
| "in_range n (Restart is) \<longleftrightarrow> (\<forall>i \<in> set is. 0 \<le> i \<and> i < int n)"
| "in_range n op \<longleftrightarrow> True"

text \<open>The text the loop builds is the description.\<close>

lemma fault_loop_spec:
  assumes "length crash = length conn" "i \<le> length conn"
  shows "fault_loop (int i) (drop i conn) crash (b, cs, ks) =
    Inr (b @ concat (map (\<lambda>j. fmt_ints [int j] @ '' '') (filter (\<lambda>j. \<not> crash ! j \<and> \<not> conn ! j) [i..<length conn])),
         cs @ map int (filter (\<lambda>j. \<not> crash ! j \<and> conn ! j) [i..<length conn]),
         ks @ map int (filter (\<lambda>j. crash ! j) [i..<length conn]))"
  using assms(2)
proof (induction "length conn - i" arbitrary: i b cs ks)
  case 0
  then show ?case by simp
next
  case (Suc k)
  then have i: "i < length conn" by simp
  then have d: "drop i conn = conn ! i # drop (Suc i) conn" by (simp add: Cons_nth_drop_Suc)
  have u: "[i..<length conn] = i # [Suc i..<length conn]" using i by (simp add: upt_conv_Cons)
  have IH: "fault_loop (int i + 1) (drop (Suc i) conn) crash (b', cs', ks') =
      Inr (b' @ concat (map (\<lambda>j. fmt_ints [int j] @ '' '') (filter (\<lambda>j. \<not> crash ! j \<and> \<not> conn ! j) [Suc i..<length conn])),
         cs' @ map int (filter (\<lambda>j. \<not> crash ! j \<and> conn ! j) [Suc i..<length conn]),
         ks' @ map int (filter (\<lambda>j. crash ! j) [Suc i..<length conn]))" for b' cs' ks'
    using Suc.hyps(1) [of "Suc i" b' cs' ks'] Suc.hyps(2) i by (simp add: add.commute)
  show ?case using i assms(1) unfolding d u by (simp add: IH)
qed

lemma fault_text_spec: "length crash = length conn \<Longrightarrow> fault_text conn crash = Inr (fault_description conn crash)"
  using fault_loop_spec [of crash conn 0 "''partition = ''" "[]" "[]"]
  by (simp add: fault_text_def fault_description_def Let_def)

lemma fault_description_nonempty: "fault_description conn crash \<noteq> []"
  by (simp add: fault_description_def Let_def)

text \<open>The loop over the listed servers.\<close>

lemma mark_loop_spec:
  assumes "\<forall>i \<in> set is. 0 \<le> i \<and> i < int (length crash)"
  shows "mark_loop b is ch crash =
    Inr (ch \<or> (\<exists>i \<in> set is. crash ! nat i \<noteq> b), map (\<lambda>j. if int j \<in> set is then b else crash ! j) [0..<length crash])"
  using assms
proof (induction "is" arbitrary: ch crash)
  case Nil
  then show ?case by (simp add: map_nth)
next
  case (Cons i "is")
  define n where "n = nat i"
  have i: "i = int n" "n < length crash" using Cons.prems by (auto simp: n_def)
  have "(\<exists>k \<in> set is. crash[n := b] ! nat k \<noteq> b) \<longleftrightarrow> (\<exists>k \<in> set is. nat k \<noteq> n \<and> crash ! nat k \<noteq> b)"
    using i(2) by (metis nth_list_update_eq nth_list_update_neq)
  moreover have "map (\<lambda>j. if int j \<in> set is then b else crash[n := b] ! j) [0..<length crash] =
      map (\<lambda>j. if int j \<in> set (i # is) then b else crash ! j) [0..<length crash]"
    using i by (auto simp: nth_list_update)
  moreover have "mark_loop b is (ch \<or> crash ! n \<noteq> b) (crash[n := b]) =
      Inr ((ch \<or> crash ! n \<noteq> b) \<or> (\<exists>i \<in> set is. crash[n := b] ! nat i \<noteq> b),
        map (\<lambda>j. if int j \<in> set is then b else crash[n := b] ! j) [0..<length crash])"
    using Cons.IH [of "crash[n := b]"] Cons.prems by simp
  ultimately show ?case using i by auto
qed

lemma mark_unchanged:
  assumes "\<not> (\<exists>i \<in> set is. crash ! nat i \<noteq> b)"
  shows "map (\<lambda>j. if int j \<in> set is then b else crash ! j) [0..<length crash] = crash"
  using assms by (intro nth_equalityI) force+

section \<open>The failure annotations follow the failures\<close>

definition fault_inv :: "nat \<Rightarrow> int \<Rightarrow> fault_state \<Rightarrow> vis \<Rightarrow> bool" where
  "fault_inv n t st v \<longleftrightarrow>
     (\<exists>fi. v_finfo v = Some fi \<and> fi_nservers fi = n \<and> fi_connected fi = fst st \<and> fi_crashed fi = snd st) \<and>
     length (fst st) = n \<and> length (snd st) = n \<and>
     past TAG_PARTITION t (v_annotation v) \<and> distinct (map fst (continuous (v_annotation v))) \<and>
     (\<forall>\<tau> \<ge> t. shown TAG_PARTITION \<tau> (v_annotation v) = fault_label st)"

lemma fault_inv_mono: "fault_inv n t st v \<Longrightarrow> t \<le> t' \<Longrightarrow> fault_inv n t' st v"
  by (auto simp: fault_inv_def intro: past_mono)

lemma distinct_continuous:
  assumes "distinct (map fst (continuous an))"
  shows "distinct (map fst (continuous (annotateContinuousColor t tag desp details bgcolor an)))"
    and "distinct (map fst (continuous (annotateContinuousEnd t tag an)))"
  using assms by (auto simp: annotateContinuousColor_def annotateContinuousEnd_def Let_def split: option.split)

text \<open>The effect of an annotation operation at \<open>t\<close>: the past is kept, and from \<open>t\<close> on \<open>l\<close> is shown.\<close>

definition switches :: "int \<Rightarrow> string set \<Rightarrow> vis \<Rightarrow> vis \<Rightarrow> bool" where
  "switches t l v v' \<longleftrightarrow>
     (\<forall>\<tau>. shown TAG_PARTITION \<tau> (v_annotation v') = (if \<tau> < t then shown TAG_PARTITION \<tau> (v_annotation v) else l))"

lemma fault_label_fine:
  "length conn = n \<Longrightarrow> length crash = n \<Longrightarrow>
   replicate n True = conn \<and> replicate n False = crash \<longleftrightarrow> fault_label (conn, crash) = {}"
  by (auto simp: fault_label_def list_all_iff list_eq_iff_nth_eq all_set_conv_all_nth)

lemma end_switches:
  assumes "past TAG_PARTITION t (v_annotation v)" "t \<le> t'" "distinct (map fst (continuous (v_annotation v)))"
    and "v' = on_annotation (annotateContinuousEnd t' TAG_PARTITION) v"
  shows "past TAG_PARTITION t' (v_annotation v') \<and> distinct (map fst (continuous (v_annotation v'))) \<and> switches t' {} v v'"
  using annotateContinuousEnd_shown [OF assms(1,2)] distinct_continuous [OF assms(3)] assms(4)
  by (simp add: on_annotation_def switches_def)

lemma annotateFault_switches:
  assumes "past TAG_PARTITION t (v_annotation v)" "t \<le> t'" "distinct (map fst (continuous (v_annotation v)))"
    and "length (fi_connected fi) = fi_nservers fi" "length (fi_crashed fi) = fi_nservers fi"
  shows "\<exists>v'. annotateFault t' fi v = Inr v' \<and> v_finfo v' = v_finfo v \<and>
    past TAG_PARTITION t' (v_annotation v') \<and> distinct (map fst (continuous (v_annotation v'))) \<and>
    switches t' (fault_label (fi_connected fi, fi_crashed fi)) v v'"
proof (cases "fault_label (fi_connected fi, fi_crashed fi) = {}")
  case True
  with fault_label_fine [OF assms(4,5)] end_switches [OF assms(1-3) refl] show ?thesis
    by (simp add: annotateFault_def on_annotation_def)
next
  case False
  then have "fault_label (fi_connected fi, fi_crashed fi) = {fault_description (fi_connected fi) (fi_crashed fi)}"
    by (auto simp: fault_label_def split: if_splits)
  with False fault_label_fine [OF assms(4,5)] fault_text_spec [of "fi_crashed fi" "fi_connected fi"] assms(4,5)
    annotateContinuousColor_shown [OF assms(1,2) fault_description_nonempty] distinct_continuous [OF assms(3)]
  show ?thesis by (auto simp: annotateFault_def on_annotation_def switches_def)
qed

text \<open>One operation of the harness, whether it changes the failures or not.\<close>

lemma annotateFault_step:
  assumes "fault_inv n t st v" "t \<le> t'" "v_finfo v = Some fi" "fi' = fi\<lparr>fi_connected := fst st', fi_crashed := snd st'\<rparr>"
    and "length (fst st') = n" "length (snd st') = n"
  shows "\<exists>v'. annotateFault t' fi' (set_finfo fi' v) = Inr v' \<and> fault_inv n t' st' v' \<and> switches t' (fault_label st') v v'"
proof -
  have "past TAG_PARTITION t (v_annotation (set_finfo fi' v))" "distinct (map fst (continuous (v_annotation (set_finfo fi' v))))"
    "fi_nservers fi' = n" using assms by (auto simp: fault_inv_def set_finfo_def)
  from annotateFault_switches [OF this(1) assms(2) this(2), of fi'] this(3) assms(4-6) obtain v' where
    v': "annotateFault t' fi' (set_finfo fi' v) = Inr v'" "v_finfo v' = v_finfo (set_finfo fi' v)"
    "past TAG_PARTITION t' (v_annotation v')" "distinct (map fst (continuous (v_annotation v')))"
    "switches t' (fault_label st') (set_finfo fi' v) v'" by auto
  have "fault_inv n t' st' v'" using v'(2-) assms(4-6) \<open>fi_nservers fi' = n\<close>
    by (auto simp: fault_inv_def set_finfo_def switches_def)
  with v' show ?thesis by (auto simp: switches_def set_finfo_def)
qed

lemma unchanged_step:
  assumes "fault_inv n t st v" "t \<le> t'"
  shows "fault_inv n t' st v \<and> switches t' (fault_label st) v v"
  using fault_inv_mono [OF assms] assms by (auto simp: fault_inv_def switches_def)

lemma mark_crashed_step:
  fixes b :: bool
  assumes "fault_inv n t (conn, crash) v" "t \<le> t'" "\<forall>i \<in> set is. 0 \<le> i \<and> i < int n"
  defines "crash' \<equiv> map (\<lambda>j. if int j \<in> set is then b else crash ! j) [0..<length crash]"
  shows "\<exists>v'. mark_crashed b t' is v = Inr v' \<and> fault_inv n t' (conn, crash') v' \<and> switches t' (fault_label (conn, crash')) v v'"
proof -
  obtain fi where fi: "v_finfo v = Some fi" "fi_connected fi = conn" "fi_crashed fi = crash" "length crash = n" "length conn = n"
    using assms(1) by (auto simp: fault_inv_def)
  define fi' where "fi' = fi\<lparr>fi_crashed := crash'\<rparr>"
  have fi'2: "fi' = fi\<lparr>fi_connected := fst (conn, crash'), fi_crashed := snd (conn, crash')\<rparr>" using fi(2) by (simp add: fi'_def)
  have loop: "mark_loop b is False crash = Inr (\<exists>i \<in> set is. crash ! nat i \<noteq> b, crash')"
    using mark_loop_spec [of "is" crash b False] assms(3) fi(4) by (simp add: crash'_def)
  show ?thesis
  proof (cases "\<exists>i \<in> set is. crash ! nat i \<noteq> b")
    case True
    have "length crash' = n" using fi(4) by (simp add: crash'_def)
    with True annotateFault_step [OF assms(1,2) fi(1) fi'2] fi loop show ?thesis
      by (simp add: mark_crashed_def with_finfo_def fi'_def Let_def)
  next
    case False
    then have c: "crash' = crash" unfolding crash'_def by (rule mark_unchanged)
    then have "set_finfo fi' v = v" using fi by (simp add: fi'_def set_finfo_def)
    with c False unchanged_step [OF assms(1,2)] fi loop show ?thesis
      by (auto simp: mark_crashed_def with_finfo_def fi'_def)
  qed
qed

lemma AnnotateConnection_step:
  assumes inv: "fault_inv n t (conn, crash) v" "t \<le> t'" and c: "length c = n"
  shows "\<exists>v'. AnnotateConnection t' c v = Inr v' \<and> fault_inv n t' (c, crash) v' \<and> switches t' (fault_label (c, crash)) v v'"
proof -
  obtain fi where fi: "v_finfo v = Some fi" "fi_connected fi = conn" "fi_crashed fi = crash" "length crash = n" "length conn = n"
    using inv(1) by (auto simp: fault_inv_def)
  show ?thesis
  proof (cases "conn = c")
    case True
    with unchanged_step [OF inv] fi show ?thesis by (simp add: AnnotateConnection_def with_finfo_def)
  next
    case False
    have "go_copy conn c = c" using c fi(5) by (simp add: go_copy_def)
    moreover have "fi\<lparr>fi_connected := c\<rparr> = fi\<lparr>fi_connected := fst (c, crash), fi_crashed := snd (c, crash)\<rparr>" using fi(3) by simp
    ultimately show ?thesis
      using annotateFault_step [OF inv fi(1), of "fi\<lparr>fi_connected := c\<rparr>" "(c, crash)"] False fi c
      by (simp add: AnnotateConnection_def with_finfo_def Let_def)
  qed
qed

lemma AnnotateClearFailure_step:
  assumes inv: "fault_inv n t st v" "t \<le> t'"
  shows "\<exists>v'. AnnotateClearFailure t' v = Inr v' \<and> fault_inv n t' (replicate n True, replicate n False) v' \<and>
    switches t' (fault_label (replicate n True, replicate n False)) v v'"
proof -
  obtain fi where fi: "v_finfo v = Some fi" "fi_nservers fi = n" "length (fi_connected fi) = n" "length (fi_crashed fi) = n"
    using inv(1) by (auto simp: fault_inv_def)
  define fi' where "fi' = fi\<lparr>fi_crashed := replicate n False, fi_connected := replicate n True\<rparr>"
  define v' where "v' = on_annotation (annotateContinuousEnd t' TAG_PARTITION) (set_finfo fi' v)"
  have "past TAG_PARTITION t (v_annotation (set_finfo fi' v))" "distinct (map fst (continuous (v_annotation (set_finfo fi' v))))"
    using inv(1) by (auto simp: fault_inv_def set_finfo_def)
  from end_switches [OF this(1) inv(2) this(2) v'_def] have
    e: "past TAG_PARTITION t' (v_annotation v')" "distinct (map fst (continuous (v_annotation v')))"
      "switches t' {} (set_finfo fi' v) v'" by auto
  have l: "fault_label (replicate n True, replicate n False) = {}" by (simp add: fault_label_def list_all_iff)
  have "v_finfo v' = Some fi'" by (simp add: v'_def on_annotation_def set_finfo_def)
  with e l fi(2) have "fault_inv n t' (replicate n True, replicate n False) v'" "switches t' {} v v'"
    by (auto simp: fault_inv_def switches_def fi'_def set_finfo_def)
  moreover have "AnnotateClearFailure t' v = Inr v'"
    using fi by (simp add: AnnotateClearFailure_def with_finfo_def map_replicate_const fi'_def v'_def)
  ultimately show ?thesis using l by simp
qed

lemma annotate_op_step:
  assumes inv: "fault_inv n t st v" "t \<le> t'" and r: "in_range n op"
  shows "\<exists>v'. annotate_op t' op v = Inr v' \<and> fault_inv n t' (fault_after op st) v' \<and>
    switches t' (fault_label (fault_after op st)) v v'"
proof -
  obtain conn crash where st: "st = (conn, crash)" by (cases st)
  obtain fi where fi: "v_finfo v = Some fi" "fi_nservers fi = n" "length crash = n" "length conn = n"
    using inv(1) by (auto simp: fault_inv_def st)
  note mark = mark_crashed_step [OF inv(1) [unfolded st] inv(2)]
  have all: "\<forall>i \<in> set (map int [0..<n]). 0 \<le> i \<and> i < int n" by auto
  have everyone: "map (\<lambda>j. if int j \<in> set (map int [0..<n]) then b else crash ! j) [0..<length crash] = replicate n b" for b
    using fi(3) by (auto simp: list_eq_iff_nth_eq)
  have flags: "(\<lambda>j. if P j then True else Q j) = (\<lambda>j. P j \<or> Q j)" "(\<lambda>j. if P j then False else Q j) = (\<lambda>j. \<not> P j \<and> Q j)"
    for P Q :: "nat \<Rightarrow> bool" by auto
  show ?thesis
  proof (cases op)
    case (Connection c)
    with AnnotateConnection_step [OF inv(1) [unfolded st] inv(2)] r show ?thesis by (simp add: st)
  next
    case (Shutdown "is")
    with mark [of "is" True] r show ?thesis by (simp add: st AnnotateShutdown_def flags)
  next
    case (Restart "is")
    with mark [of "is" False] r show ?thesis by (simp add: st AnnotateRestart_def flags)
  next
    case ShutdownAll
    with mark [OF all, of True] fi everyone [of True] show ?thesis
      by (simp add: st AnnotateShutdownAll_def with_finfo_def AnnotateShutdown_def del: set_map)
  next
    case RestartAll
    with mark [OF all, of False] fi everyone [of False] show ?thesis
      by (simp add: st AnnotateRestartAll_def with_finfo_def AnnotateRestart_def del: set_map)
  next
    case ClearFailure
    with AnnotateClearFailure_step [OF inv] fi show ?thesis by (simp add: st)
  qed
qed

lemma annotate_run_shown:
  assumes "fault_inv n t st v" "sorted (map fst ops)" "\<forall>(s, op) \<in> set ops. t \<le> s \<and> in_range n op"
  shows "\<exists>v'. annotate_run ops v = Inr v' \<and> past TAG_PARTITION (fold max (map fst ops) t) (v_annotation v') \<and>
    distinct (map fst (continuous (v_annotation v'))) \<and>
    (\<forall>\<tau>. shown TAG_PARTITION \<tau> (v_annotation v') =
      (if \<tau> < t then shown TAG_PARTITION \<tau> (v_annotation v)
       else fault_label (fold (\<lambda>(s, op). fault_after op) (filter (\<lambda>(s, op). s \<le> \<tau>) ops) st)))"
  using assms
proof (induction ops arbitrary: t st v)
  case Nil
  then show ?case by (auto simp: fault_inv_def)
next
  case (Cons p ops)
  obtain s op where p: "p = (s, op)" by (cases p)
  have t: "t \<le> s" "in_range n op" "\<forall>(s', op) \<in> set ops. s \<le> s' \<and> in_range n op" "sorted (map fst ops)"
    using Cons.prems p by auto
  obtain v1 where v1: "annotate_op s op v = Inr v1" "fault_inv n s (fault_after op st) v1"
    "switches s (fault_label (fault_after op st)) v v1"
    using annotate_op_step [OF Cons.prems(1) t(1,2)] by blast
  obtain v' where v': "annotate_run ops v1 = Inr v'" "past TAG_PARTITION (fold max (map fst ops) s) (v_annotation v')"
    "distinct (map fst (continuous (v_annotation v')))"
    "\<And>\<tau>. shown TAG_PARTITION \<tau> (v_annotation v') = (if \<tau> < s then shown TAG_PARTITION \<tau> (v_annotation v1)
       else fault_label (fold (\<lambda>(s, op). fault_after op) (filter (\<lambda>(s, op). s \<le> \<tau>) ops) (fault_after op st)))"
    using Cons.IH [OF v1(2) t(4,3)] by blast
  have "shown TAG_PARTITION \<tau> (v_annotation v') = (if \<tau> < t then shown TAG_PARTITION \<tau> (v_annotation v)
       else fault_label (fold (\<lambda>(s, op). fault_after op) (filter (\<lambda>(s, op). s \<le> \<tau>) (p # ops)) st))" for \<tau>
  proof (cases "\<tau> < s")
    case True
    then have "filter (\<lambda>(s, op). s \<le> \<tau>) (p # ops) = []" using t(3) p by (force simp: filter_empty_conv)
    moreover have "shown TAG_PARTITION \<tau> (v_annotation v') = shown TAG_PARTITION \<tau> (v_annotation v)"
      using v'(4) [of \<tau>] v1(3) True by (simp add: switches_def)
    ultimately show ?thesis using Cons.prems(1) by (simp add: fault_inv_def)
  next
    case False
    with v'(4) [of \<tau>] t(1) show ?thesis by (simp add: p)
  qed
  moreover have "max s t = s" using t(1) by simp
  ultimately show ?case using v1(1) v'(1-3) by (simp add: p)
qed

text \<open>A test begins without failures.\<close>

lemma AnnotateTest_inv: "fault_inv n t (replicate n True, replicate n False) (AnnotateTest t0 desp n v0)"
proof -
  have "TAG_INFO \<noteq> TAG_PARTITION" by (simp add: TAG_INFO_def TAG_PARTITION_def)
  then show ?thesis
    by (auto simp: fault_inv_def AnnotateTest_def AnnotateInfo_def on_annotation_def annotatePointColor_def clear_def
        past_def shown_def covering_def fault_label_def mkFrameworkInfo_def list_all_iff Let_def)
qed

section \<open>Properties of the annotations\<close>


text \<open>
  The end of a checker is annotated as the interval since the last \<open>AnnotateCheckerBegin\<close> even when a
  checker has ended since then: the begin is reset only in a local copy.
\<close>
theorem checker_begin_stays:
  assumes "v_finfo v = Some fi" "t1 \<noteq> 0"
  shows "\<exists>v'. res_bind (AnnotateCheckerBegin t1 d v) (\<lambda>v1. res_bind (AnnotateCheckerEnd t2 a b col v1)
      (AnnotateCheckerEnd t3 a' b' col')) = Inr v' \<and>
    last (annotations (v_annotation v')) =
      \<lparr>an_Tag = TAG_CHECKER, an_Start = t1, an_End = t3, an_Description = a', an_Details = d @ '': '' @ b',
       an_BackgroundColor = col'\<rparr>"
  using assms by (simp add: go_defs)

text \<open>
  Ending a continuous annotation that is not under way records a nameless annotation from time 0
  to now: \<open>AnnotateClearFailure\<close> does so whenever there is no failure to clear.
\<close>
theorem clear_without_failure:
  assumes "v_finfo v = Some fi" "map_of (continuous (v_annotation v)) TAG_PARTITION = None"
  shows "\<exists>v'. AnnotateClearFailure t v = Inr v' \<and>
    annotations (v_annotation v') = annotations (v_annotation v) @
      [\<lparr>an_Tag = TAG_PARTITION, an_Start = 0, an_End = t, an_Description = [], an_Details = [], an_BackgroundColor = []\<rparr>]"
  using assms by (simp add: go_defs)

text \<open>What \<open>cleanup\<close> hands to the visualizer, in terms of the environment and the outcome of the test.\<close>

lemma cleanup_writes_iff:
  "(snd (ann_cleanup enabled opened it t t' failed e an) \<noteq> None) \<longleftrightarrow>
     enabled \<noteq> ''never'' \<and> (failed \<or> enabled = ''always'') \<and> \<not> finalized an \<and> opened \<and> (annotations an \<noteq> [] \<or> it \<noteq> [])"
  by (auto simp: ann_cleanup_def finalize_def Let_def)

section \<open>Witnesses of the annotations\<close>

definition wit_vis :: vis where
  "wit_vis = \<lparr>v_annotation = mkAnnotation, v_finfo = Some (mkFrameworkInfo 2)\<rparr>"

definition wit_ops :: "(int \<times> fault_op) list" where
  "wit_ops = [(2, Connection [False, True]), (4, Shutdown [0]), (6, ClearFailure)]"


theorem checker_begin_stays_witness:
  "\<exists>v'. res_bind (AnnotateCheckerBegin 3 ''d'' wit_vis) (\<lambda>v1. res_bind (AnnotateCheckerEnd 4 ''a'' ''b'' COLOR_SUCCESS v1)
      (AnnotateCheckerEnd 8 ''p'' ''q'' COLOR_FAILURE)) = Inr v' \<and> an_Start (last (annotations (v_annotation v'))) = 3"
  using checker_begin_stays [of wit_vis "mkFrameworkInfo 2" 3 "''d''" 4 "''a''" "''b''" COLOR_SUCCESS 8 "''p''" "''q''" COLOR_FAILURE]
  by (auto simp: wit_vis_def)

theorem clear_without_failure_witness:
  "\<exists>v'. AnnotateClearFailure 7 wit_vis = Inr v' \<and> length (annotations (v_annotation v')) = 1"
  using clear_without_failure [of wit_vis "mkFrameworkInfo 2" 7] by (auto simp: wit_vis_def mkAnnotation_def)

end
