(* ===== verification/Rsm.thy ===== *)
theory Rsm
  imports KvServer Daemon Annotate
begin

text \<open>
  The replicated counter and its tester (\<open>kvraft1/rsm/server.go\<close>, \<open>rsm.go\<close>, \<open>proxy.go\<close>, \<open>test.go\<close>): the state
  machine with its snapshots, the submission of a request to whichever server leads, the check of the
  counters, and the crashes and restarts of servers with their annotations. \<open>RSM.Submit\<close> of the
  repository is a stub that always answers \<open>ErrWrongLeader\<close>; the tester is modelled for any answers.

  The locale \<open>state_machine\<close> is what \<open>rsm.go\<close> asks of a server that wants to be replicated; it is
  interpreted on the counter. Shown: a replica restored from a snapshot behaves like one that applied
  everything; a request is answered by a connected server that accepted it, if there is one; a
  kill and restart leaves the servers and the annotations as they were.
\<close>

section \<open>encoding/gob of an int\<close>

text \<open>
  An unsigned number is one byte below 128, and otherwise its minimal big-endian bytes after their
  negated count; a signed number moves its sign to the lowest bit. A message is its length, the type
  identifier of \<open>int\<close>, the zero that stands before a value that is not a struct, and the value.
\<close>

fun be_bytes :: "nat \<Rightarrow> nat list" where
  "be_bytes n = (if n < 256 then [n] else be_bytes (n div 256) @ [n mod 256])"

declare be_bytes.simps [simp del]

definition gob_uint :: "nat \<Rightarrow> nat list" where
  "gob_uint n = (if n < 128 then [n] else let bs = be_bytes n in (256 - length bs) # bs)"

definition zigzag :: "int \<Rightarrow> nat" where
  "zigzag i = (if i < 0 then 2 * nat (- i - 1) + 1 else 2 * nat i)"

definition gob_int :: "int \<Rightarrow> nat list" where
  "gob_int i = (let p = gob_uint (zigzag 2) @ [0] @ gob_uint (zigzag i) in gob_uint (length p) @ p)"

text \<open>The decoder: a number and the rest, or an error.\<close>

definition be_value :: "nat list \<Rightarrow> nat" where
  "be_value bs = foldl (\<lambda>n b. n * 256 + b) 0 bs"

fun ungob_uint :: "nat list \<Rightarrow> (nat \<times> nat list) option" where
  "ungob_uint [] = None"
| "ungob_uint (b # bs) =
     (if b < 128 then Some (b, bs)
      else let n = 256 - b in if n > 8 \<or> n > length bs then None else Some (be_value (take n bs), drop n bs))"

definition unzigzag :: "nat \<Rightarrow> int" where
  "unzigzag n = (if odd n then - int (n div 2) - 1 else int (n div 2))"

definition ungob_int :: "nat list \<Rightarrow> int option" where
  "ungob_int bs =
     (case ungob_uint bs of
        Some (len, m) \<Rightarrow>
          if len > length m then None
          else case ungob_uint (take len m) of
                 Some (t, 0 # v) \<Rightarrow>
                   if t \<noteq> zigzag 2 then None
                   else (case ungob_uint v of Some (n, _) \<Rightarrow> Some (unzigzag n) | None \<Rightarrow> None)
               | _ \<Rightarrow> None
      | None \<Rightarrow> None)"

section \<open>The counter\<close>

datatype rsm_req = Inc | Null | Dec
datatype rsm_rep = IncRep int | NullRep

record rsm_srv =
  rs_me :: int
  rs_counter :: "64 word"

definition GetCounter :: "rsm_srv \<Rightarrow> int" where
  "GetCounter rs = sint (rs_counter rs)"

text \<open>\<open>DoOp\<close> is called by one goroutine at a time; \<open>rs.counter\<close> is read again after the mutex is released.\<close>

definition DoOp :: "rsm_req \<Rightarrow> rsm_srv \<Rightarrow> (rsm_srv \<times> rsm_rep) result" where
  "DoOp req rs =
     (case req of
        Inc \<Rightarrow> let rs' = rs\<lparr>rs_counter := rs_counter rs + 1\<rparr> in Inr (rs', IncRep (sint (rs_counter rs')))
      | Null \<Rightarrow> Inr (rs, NullRep)
      | Dec \<Rightarrow> Inl (Fatal ''DoOp should execute only Inc''))"

definition Snapshot :: "rsm_srv \<Rightarrow> nat list" where
  "Snapshot rs = gob_int (sint (rs_counter rs))"

definition Restore :: "nat list \<Rightarrow> rsm_srv \<Rightarrow> rsm_srv result" where
  "Restore data rs =
     (case ungob_int data of
        None \<Rightarrow> Inl (Fatal ''couldn't decode counter'')
      | Some n \<Rightarrow> Inr (rs\<lparr>rs_counter := word_of_int n\<rparr>))"

section \<open>RSM and its proxy\<close>

text \<open>\<open>RSM.Submit\<close>, \<open>rsmSrv.Submit\<close> and \<open>SubmitRPC\<close>; nil is \<open>None\<close>.\<close>

definition Submit :: "rsm_req \<Rightarrow> err \<times> rsm_rep option" where
  "Submit req = (ErrWrongLeader, None)"

definition SubmitRPC :: "rsm_req \<Rightarrow> err \<times> rsm_rep option" where
  "SubmitRPC req = Submit req"

text \<open>The proxy in the tester: a call that fails leaves the zero reply.\<close>

definition proxy_Submit :: "(err \<times> rsm_rep option) option \<Rightarrow> err \<times> rsm_rep option" where
  "proxy_Submit answer = (case answer of None \<Rightarrow> (NoErr, None) | Some r \<Rightarrow> r)"

definition proxy_GetCounter :: "int option \<Rightarrow> int" where
  "proxy_GetCounter answer = (case answer of None \<Rightarrow> 0 | Some n \<Rightarrow> n)"

section \<open>The tester\<close>

definition NSRV :: int where "NSRV = 3"

definition inPartition :: "int \<Rightarrow> int list option \<Rightarrow> bool" where
  "inPartition s p = (case p of None \<Rightarrow> True | Some is \<Rightarrow> list_ex (\<lambda>i. s = i) is)"

text \<open>
  One round of \<open>onePartition\<close> over the servers, beginning with \<open>index\<close>: \<open>conn\<close> is the group's \<open>connected\<close> list,
  \<open>live\<close> tells the servers with a proxy, and \<open>submit\<close> gives the answer of each server in this round.
\<close>

fun try_servers ::
  "nat \<Rightarrow> int \<Rightarrow> int list option \<Rightarrow> bool list \<Rightarrow> bool list \<Rightarrow> (int \<Rightarrow> err \<times> 'r) \<Rightarrow> (int \<times> 'r) option result" where
  "try_servers 0 index p conn live submit = Inr None"
| "try_servers (Suc k) index p conn live submit =
     (if index \<ge> NSRV then Inl (Fatal ''index'')
      else let continue = try_servers k ((index + 1) mod int (length live)) p conn live submit
      in if index \<noteq> -1 then
           res_bind (go_index conn index) (\<lambda>c.
             if c then
               res_bind (go_index live index) (\<lambda>l.
                 if l \<and> inPartition index p then
                   (case submit index of (e, rep) \<Rightarrow> if e = OK then Inr (Some (index, rep)) else continue)
                 else continue)
             else continue)
         else continue)"

record rsm_test =
  rt_leader :: int
  rt_ops :: "32 word"

text \<open>
  \<open>onePartition\<close>: one round after the other until the time is over. Each element of \<open>rounds\<close> is what the
  round finds: connections, proxies and answers.
\<close>

fun onePartition ::
  "int list option \<Rightarrow> (bool list \<times> bool list \<times> (int \<Rightarrow> err \<times> 'r)) list \<Rightarrow> rsm_test \<Rightarrow> (rsm_test \<times> 'r option) result" where
  "onePartition p [] ts = Inr (ts, None)"
| "onePartition p ((conn, live, submit) # rounds) ts =
     res_bind (try_servers (length live) (rt_leader ts) p conn live submit) (\<lambda>r.
       case r of
         Some (i, rep) \<Rightarrow> Inr (ts\<lparr>rt_ops := rt_ops ts + 1, rt_leader := i\<rparr>, Some rep)
       | None \<Rightarrow> onePartition p rounds ts)"

definition countValue :: "int \<Rightarrow> int list \<Rightarrow> nat" where
  "countValue v cs = foldl (\<lambda>i c. if c = v then i + 1 else i) 0 cs"

text \<open>
  \<open>checkCounter\<close>: \<open>polls\<close> are the counters each iteration reads; the result is the time slept, in
  milliseconds. The loop makes 30 iterations.
\<close>

fun check_counter_loop :: "nat \<Rightarrow> nat \<Rightarrow> nat \<Rightarrow> int \<Rightarrow> nat \<Rightarrow> int list list \<Rightarrow> nat result" where
  "check_counter_loop iters to slept v nsrv [] = Inl (Fatal ''checkCounter'')"
| "check_counter_loop iters to slept v nsrv (cs # polls) =
     (if iters < 30 then
        if countValue v cs \<ge> nsrv then Inr slept
        else check_counter_loop (iters + 1) (if to < 1000 then to * 2 else to) (slept + to) v nsrv polls
      else Inl (Fatal ''checkCounter''))"

definition checkCounter :: "int \<Rightarrow> nat \<Rightarrow> int list list \<Rightarrow> nat result" where
  "checkCounter v nsrv polls = check_counter_loop 0 10 0 v nsrv polls"

text \<open>\<open>kill\<close> and \<open>restart\<close>: the group, the network and the annotations.\<close>

definition ts_kill :: "int \<Rightarrow> nat list \<Rightarrow> (server_grp \<times> network) \<times> vis \<Rightarrow> ((server_grp \<times> network) \<times> vis) result" where
  "ts_kill t ids = (\<lambda>(st, v).
     res_bind (sg_Kill ids st) (\<lambda>st'.
     res_bind (AnnotateShutdown t (map int ids) v) (\<lambda>v'. Inr (st', v'))))"

definition ts_restart ::
  "int \<Rightarrow> nat list \<Rightarrow> (string list \<times> nat) list \<Rightarrow> (server_grp \<times> network) \<times> vis \<Rightarrow> ((server_grp \<times> network) \<times> vis) result" where
  "ts_restart t ids draws = (\<lambda>(st, v).
     res_bind (StartSrvs (zip ids draws) st) (\<lambda>st1.
     res_bind (sg_ConnectAll st1) (\<lambda>st2.
     res_bind (AnnotateRestart t (map int ids) v) (\<lambda>v'. Inr (st2, v')))))"

section \<open>The codec\<close>

lemma be_value_bytes: "be_value (be_bytes n) = n"
proof (induction n rule: less_induct)
  case (less n)
  then show ?case by (subst be_bytes.simps) (auto simp: be_value_def)
qed

lemma be_bytes_length: "n < 256 ^ Suc k \<Longrightarrow> length (be_bytes n) \<le> Suc k"
proof (induction k arbitrary: n)
  case 0
  then show ?case by (subst be_bytes.simps) simp
next
  case (Suc k)
  have "n div 256 < 256 ^ Suc k" using Suc.prems by (simp add: less_mult_imp_div_less mult.commute)
  with Suc.IH show ?case by (subst be_bytes.simps) auto
qed

lemma be_bytes_nonempty: "0 < length (be_bytes n)"
  by (subst be_bytes.simps) simp

lemma ungob_gob_uint:
  assumes "n < 2 ^ 64"
  shows "ungob_uint (gob_uint n @ rest) = Some (n, rest)"
proof (cases "n < 128")
  case False
  have "length (be_bytes n) \<le> 8" using be_bytes_length [of n 7] assms by simp
  moreover note be_bytes_nonempty [of n]
  ultimately show ?thesis using False by (simp add: gob_uint_def Let_def be_value_bytes)
qed (simp add: gob_uint_def)

lemma gob_uint_length: "n < 2 ^ 64 \<Longrightarrow> length (gob_uint n) \<le> 9"
  using be_bytes_length [of n 7] by (simp add: gob_uint_def Let_def)

lemma unzigzag_zigzag [simp]: "unzigzag (zigzag i) = i"
  by (auto simp: unzigzag_def zigzag_def)

lemma zigzag_bound: "- (2 ^ 63) \<le> i \<Longrightarrow> i < 2 ^ 63 \<Longrightarrow> zigzag i < 2 ^ 64"
  by (auto simp: zigzag_def nat_less_iff)

text \<open>An \<open>int\<close> survives the encoding.\<close>

lemma ungob_gob_int:
  assumes "- (2 ^ 63) \<le> i" "i < 2 ^ 63"
  shows "ungob_int (gob_int i @ rest) = Some i"
proof -
  define p where "p = gob_uint (zigzag 2) @ [0] @ gob_uint (zigzag i)"
  have z: "zigzag i < 2 ^ 64" by (rule zigzag_bound [OF assms])
  have p4: "gob_uint (zigzag 2) = [4]" by (simp add: zigzag_def gob_uint_def)
  have "length p \<le> 11" using gob_uint_length [OF z] by (simp add: p_def p4)
  then have len: "length p < 2 ^ 64" by simp
  have "ungob_uint (gob_int i @ rest) = Some (length p, p @ rest)"
    using ungob_gob_uint [OF len, of "p @ rest"] by (simp add: gob_int_def p_def Let_def)
  moreover have "ungob_uint p = Some (4, 0 # gob_uint (zigzag i))" by (simp add: p_def p4)
  moreover have "ungob_uint (gob_uint (zigzag i)) = Some (zigzag i, [])" using ungob_gob_uint [OF z, of "[]"] by simp
  ultimately show ?thesis by (simp add: ungob_int_def zigzag_def [of 2])
qed

section \<open>What a replicated server promises\<close>

text \<open>The replies to a log of requests, applied in order.\<close>

fun apply_log :: "('q \<Rightarrow> 's \<Rightarrow> ('s \<times> 'r) result) \<Rightarrow> 'q list \<Rightarrow> 's \<Rightarrow> ('s \<times> 'r list) result" where
  "apply_log doop [] s = Inr (s, [])"
| "apply_log doop (q # qs) s =
     res_bind (doop q s) (\<lambda>(s1, r). res_bind (apply_log doop qs s1) (\<lambda>(s2, rs). Inr (s2, r # rs)))"

lemma apply_log_append:
  "apply_log doop (ps @ qs) s = Inr (s', rs) \<longleftrightarrow>
     (\<exists>s1 rs1 rs2. apply_log doop ps s = Inr (s1, rs1) \<and> apply_log doop qs s1 = Inr (s', rs2) \<and> rs = rs1 @ rs2)"
  by (induction ps arbitrary: s rs) (auto 0 4)

text \<open>
  The interface \<open>StateMachine\<close> of \<open>rsm.go\<close>: \<open>obs\<close> is what replicas agree on. The operations depend on
  it only, and restoring a snapshot gives a server that agrees with the one that took it.
\<close>

locale state_machine =
  fixes doop :: "'q \<Rightarrow> 's \<Rightarrow> ('s \<times> 'r) result"
    and snap :: "'s \<Rightarrow> 'd"
    and restore :: "'d \<Rightarrow> 's \<Rightarrow> 's result"
    and obs :: "'s \<Rightarrow> 'o"
  assumes doop_obs: "obs s = obs t \<Longrightarrow> doop q s = Inr (s', r) \<Longrightarrow> \<exists>t'. doop q t = Inr (t', r) \<and> obs s' = obs t'"
    and restore_snap: "\<exists>t'. restore (snap s) t = Inr t' \<and> obs t' = obs s"
begin

lemma apply_log_obs:
  "obs s = obs t \<Longrightarrow> apply_log doop qs s = Inr (s', rs) \<Longrightarrow> \<exists>t'. apply_log doop qs t = Inr (t', rs) \<and> obs s' = obs t'"
proof (induction qs arbitrary: s t rs)
  case (Cons q qs)
  from Cons.prems(2) obtain s1 r rs1 where s: "doop q s = Inr (s1, r)" "apply_log doop qs s1 = Inr (s', rs1)" "rs = r # rs1"
    by auto
  obtain t1 where t1: "doop q t = Inr (t1, r)" "obs s1 = obs t1" using doop_obs [OF Cons.prems(1) s(1)] by blast
  from Cons.IH [OF t1(2) s(2)] t1(1) s(3) show ?case by auto
qed simp

text \<open>
  A replica that restores a snapshot, whatever it held before, and applies the rest of the log agrees
  with one that applied the whole log, and gives the same replies to the rest.
\<close>

lemma restored_replica:
  assumes "apply_log doop (ps @ qs) s = Inr (s', rs)" "apply_log doop ps s = Inr (s1, rs1)"
  shows "\<exists>t1 t'. restore (snap s1) t = Inr t1 \<and> apply_log doop qs t1 = Inr (t', drop (length rs1) rs) \<and> obs t' = obs s'"
proof -
  obtain rs2 where s: "apply_log doop qs s1 = Inr (s', rs2)" "rs = rs1 @ rs2"
    using assms unfolding apply_log_append by auto
  obtain t1 where t1: "restore (snap s1) t = Inr t1" "obs t1 = obs s1" using restore_snap by blast
  from apply_log_obs [OF t1(2) [symmetric] s(1)] t1(1) s(2) show ?thesis by auto
qed

end

lemma Restore_Snapshot: "Restore (Snapshot s) t = Inr (t\<lparr>rs_counter := rs_counter s\<rparr>)"
proof -
  have "- (2 ^ 63) \<le> sint (rs_counter s)" "sint (rs_counter s) < 2 ^ 63"
    using sint_ge [of "rs_counter s"] sint_lt [of "rs_counter s"] by simp_all
  then show ?thesis using ungob_gob_int [of "sint (rs_counter s)" "[]"] by (simp add: Restore_def Snapshot_def)
qed

interpretation counter: state_machine DoOp Snapshot Restore rs_counter
proof
  fix s t s' :: rsm_srv and q r
  assume "rs_counter s = rs_counter t" "DoOp q s = Inr (s', r)"
  then show "\<exists>t'. DoOp q t = Inr (t', r) \<and> rs_counter s' = rs_counter t'"
    by (cases q) (auto simp: DoOp_def Let_def)
qed (simp add: Restore_Snapshot)

lemma DoOp_log:
  "Dec \<notin> set qs \<Longrightarrow> \<exists>s' rs. apply_log DoOp qs s = Inr (s', rs) \<and> length rs = length qs \<and>
     rs_counter s' = rs_counter s + of_nat (count (mset qs) Inc)"
proof (induction qs arbitrary: s)
  case (Cons q qs)
  define s1 where "s1 = (if q = Inc then s\<lparr>rs_counter := rs_counter s + 1\<rparr> else s)"
  have "\<exists>r. DoOp q s = Inr (s1, r)" using Cons.prems by (cases q) (auto simp: DoOp_def s1_def Let_def)
  moreover have "\<exists>s' rs. apply_log DoOp qs s1 = Inr (s', rs) \<and> length rs = length qs \<and>
     rs_counter s' = rs_counter s1 + of_nat (count (mset qs) Inc)" using Cons by simp
  ultimately show ?case by (auto simp: s1_def)
qed simp

section \<open>Looking for the leader\<close>

type_synonym 'r round_info = "bool list \<times> bool list \<times> (int \<Rightarrow> err \<times> 'r)"

text \<open>A server that a round can use and that accepts the request.\<close>

definition accepts :: "int list option \<Rightarrow> 'r round_info \<Rightarrow> int \<Rightarrow> bool" where
  "accepts p rd i = (case rd of (conn, live, submit) \<Rightarrow>
     0 \<le> i \<and> i < NSRV \<and> conn ! nat i \<and> live ! nat i \<and> inPartition i p \<and> fst (submit i) = OK)"

definition round_wf :: "'r round_info \<Rightarrow> bool" where
  "round_wf rd = (case rd of (conn, live, submit) \<Rightarrow> length conn = nat NSRV \<and> length live = nat NSRV)"

lemma try_servers_step:
  assumes "round_wf (conn, live, submit)" "0 \<le> i" "i < NSRV"
  shows "try_servers (Suc k) i p conn live submit =
    (if accepts p (conn, live, submit) i then Inr (Some (i, snd (submit i)))
     else try_servers k ((i + 1) mod NSRV) p conn live submit)"
proof -
  have "int (length live) = NSRV" "go_index conn i = Inr (conn ! nat i)" "go_index live i = Inr (live ! nat i)"
    using assms by (auto simp: round_wf_def go_index_def NSRV_def)
  then show ?thesis using assms(2,3) by (auto simp: accepts_def Let_def split: prod.split)
qed

lemma try_servers_result:
  assumes "round_wf (conn, live, submit)" "0 \<le> i" "i < NSRV"
  shows "if \<exists>j < k. accepts p (conn, live, submit) ((i + int j) mod NSRV)
    then \<exists>m. accepts p (conn, live, submit) m \<and> try_servers k i p conn live submit = Inr (Some (m, snd (submit m)))
    else try_servers k i p conn live submit = Inr None"
  using assms(2,3)
proof (induction k arbitrary: i)
  case (Suc k)
  define i' where "i' = (i + 1) mod NSRV"
  have i': "0 \<le> i'" "i' < NSRV" by (simp_all add: i'_def NSRV_def)
  have shift: "(i' + int j) mod NSRV = (i + int (Suc j)) mod NSRV" for j
    using mod_add_left_eq [of "i + 1" NSRV "int j"] by (simp add: i'_def algebra_simps)
  have ex: "(\<exists>j < Suc k. accepts p (conn, live, submit) ((i + int j) mod NSRV)) \<longleftrightarrow>
      accepts p (conn, live, submit) i \<or> (\<exists>j < k. accepts p (conn, live, submit) ((i' + int j) mod NSRV))"
    unfolding shift using Suc.prems by (auto simp: less_Suc_eq_0_disj)
  show ?case
  proof (cases "accepts p (conn, live, submit) i")
    case True
    then show ?thesis using ex try_servers_step [OF assms(1) Suc.prems] by auto
  next
    case False
    then have ts: "try_servers (Suc k) i p conn live submit = try_servers k i' p conn live submit"
      using try_servers_step [OF assms(1) Suc.prems] by (simp add: i'_def)
    show ?thesis unfolding ex ts using False Suc.IH [OF i'] by simp
  qed
qed simp

lemma round_covers:
  assumes "0 \<le> i" "i < NSRV"
  shows "(\<exists>j < nat NSRV. accepts p rd ((i + int j) mod NSRV)) \<longleftrightarrow> (\<exists>m. accepts p rd m)"
proof
  assume "\<exists>m. accepts p rd m"
  then obtain m where m: "accepts p rd m" by blast
  then have "0 \<le> m" "m < NSRV" by (auto simp: accepts_def split: prod.splits)
  moreover define j where "j = nat ((m - i) mod NSRV)"
  moreover have "(i + (m - i) mod NSRV) mod NSRV = (i + (m - i)) mod NSRV" by (rule mod_add_right_eq)
  ultimately have "j < nat NSRV" "(i + int j) mod NSRV = m" by (simp_all add: NSRV_def)
  with m show "\<exists>j < nat NSRV. accepts p rd ((i + int j) mod NSRV)" by auto
qed auto

section \<open>Waiting for the counters\<close>

text \<open>The time slept after iteration \<open>i\<close>, in milliseconds.\<close>

definition sleep_ms :: "nat \<Rightarrow> nat" where
  "sleep_ms i = 10 * 2 ^ min i 7"

lemma sleep_ms_next: "(if sleep_ms i < 1000 then sleep_ms i * 2 else sleep_ms i) = sleep_ms (Suc i)"
proof (cases "i < 7")
  case True
  then have "(2 :: nat) ^ i \<le> 2 ^ 6" by (intro power_increasing) auto
  with True show ?thesis by (simp add: sleep_ms_def min_def)
qed (simp add: sleep_ms_def min_def)

lemma check_counter_loop_result:
  assumes "30 \<le> iters + length polls"
  shows "check_counter_loop iters (sleep_ms iters) slept v nsrv polls =
    (case find_index (\<lambda>cs. nsrv \<le> countValue v cs) (take (30 - iters) polls) of
       Some j \<Rightarrow> Inr (slept + (\<Sum>i = iters..<iters + j. sleep_ms i))
     | None \<Rightarrow> Inl (Fatal ''checkCounter''))"
  using assms
proof (induction polls arbitrary: iters slept)
  case (Cons cs polls)
  show ?case
  proof (cases "iters < 30")
    case True
    then have t: "take (30 - iters) (cs # polls) = cs # take (30 - Suc iters) polls" by (simp add: take_Cons' )
    have s: "(\<Sum>i = iters..<Suc (iters + j). sleep_ms i) = sleep_ms iters + (\<Sum>i = Suc iters..<Suc (iters + j). sleep_ms i)" for j
      by (rule sum.atLeast_Suc_lessThan) simp
    show ?thesis
    proof (cases "nsrv \<le> countValue v cs")
      case False
      then have "check_counter_loop iters (sleep_ms iters) slept v nsrv (cs # polls) =
          check_counter_loop (Suc iters) (sleep_ms (Suc iters)) (slept + sleep_ms iters) v nsrv polls"
        using True by (simp add: sleep_ms_next)
      with False Cons.prems Cons.IH [of "Suc iters" "slept + sleep_ms iters"] show ?thesis unfolding t
        by (cases "find_index (\<lambda>cs. nsrv \<le> countValue v cs) (take (30 - Suc iters) polls)")
          (simp_all add: s del: find_index_None sum.op_ivl_Suc)
    qed (simp add: t True)
  qed simp
qed simp

section \<open>Properties of the replicated counter and its tester\<close>

text \<open>
  C20: snapshots do not change what a replica does. For every log of the tester's requests and every
  point at which a snapshot is taken, a replica that restores the snapshot, whatever its counter was,
  and applies the rest of the log gives the same replies as the replica that applied everything; both
  counters are the initial one plus the number of increments, with the wrap-around of 64 bits.
\<close>
theorem rsm_snapshot_replica:
  assumes "Dec \<notin> set (ps @ qs)"
  shows "\<exists>s1 rs1 s' rs2 t1 t'. apply_log DoOp ps s = Inr (s1, rs1) \<and> apply_log DoOp qs s1 = Inr (s', rs2) \<and>
    Restore (Snapshot s1) t = Inr t1 \<and> apply_log DoOp qs t1 = Inr (t', rs2) \<and>
    rs_counter t' = rs_counter s' \<and> rs_counter s' = rs_counter s + of_nat (count (mset (ps @ qs)) Inc)"
proof -
  obtain s1 rs1 where 1: "apply_log DoOp ps s = Inr (s1, rs1)" "rs_counter s1 = rs_counter s + of_nat (count (mset ps) Inc)"
    using DoOp_log [of ps s] assms by auto
  obtain s' rs2 where 2: "apply_log DoOp qs s1 = Inr (s', rs2)" "rs_counter s' = rs_counter s1 + of_nat (count (mset qs) Inc)"
    using DoOp_log [of qs s1] assms by auto
  have "apply_log DoOp (ps @ qs) s = Inr (s', rs1 @ rs2)" using 1(1) 2(1) by (auto simp: apply_log_append)
  from counter.restored_replica [OF this 1(1), of t] 1 2 show ?thesis by auto
qed

text \<open>
  \<open>onePartition\<close> finds a leader exactly when there is one to be found. It returns the reply of a server
  that is connected, has a proxy, is in the partition and accepted the request in one of the rounds,
  remembers it as the leader and counts one operation; if no such server exists in any round, it
  returns nil and changes nothing. It never calls \<open>log.Fatalf\<close>.
\<close>
theorem onePartition_finds_leader:
  assumes "\<forall>rd \<in> set rounds. round_wf rd" "0 \<le> rt_leader ts" "rt_leader ts < NSRV"
  shows "if \<exists>rd m. rd \<in> set rounds \<and> accepts p rd m
    then \<exists>rd m. rd \<in> set rounds \<and> accepts p rd m \<and>
           onePartition p rounds ts = Inr (ts\<lparr>rt_ops := rt_ops ts + 1, rt_leader := m\<rparr>, Some (snd (snd (snd rd) m)))
    else onePartition p rounds ts = Inr (ts, None)"
  using assms(1)
proof (induction rounds)
  case (Cons rd rounds)
  obtain conn live submit where rd: "rd = (conn, live, submit)" by (cases rd)
  have wf: "round_wf (conn, live, submit)" and n: "length live = nat NSRV"
    using Cons.prems by (auto simp: rd round_wf_def)
  note r = try_servers_result [OF wf assms(2,3), of "nat NSRV" p, unfolded round_covers [OF assms(2,3)]]
  show ?case
  proof (cases "\<exists>m. accepts p rd m")
    case True
    with r n obtain m where "accepts p rd m"
      "onePartition p (rd # rounds) ts = Inr (ts\<lparr>rt_ops := rt_ops ts + 1, rt_leader := m\<rparr>, Some (snd (submit m)))"
      by (auto simp: rd)
    moreover have "snd (snd rd) = submit" by (simp add: rd)
    ultimately show ?thesis by (metis list.set_intros(1))
  next
    case False
    with r n have "onePartition p (rd # rounds) ts = onePartition p rounds ts" by (simp add: rd)
    moreover have "(\<exists>rd' m. rd' \<in> set (rd # rounds) \<and> accepts p rd' m) \<longleftrightarrow> (\<exists>rd' m. rd' \<in> set rounds \<and> accepts p rd' m)"
      using False by auto
    ultimately show ?thesis using Cons.IH Cons.prems by (auto split: if_splits)
  qed
qed simp

text \<open>
  \<open>checkCounter\<close> returns at the first of its thirty polls in which enough servers have the value, after
  sleeping 10 ms, doubled up to 1280 ms after each poll before, and fails the test if there is none; it
  waits for less than half a minute.
\<close>
theorem checkCounter_outcome:
  assumes "30 \<le> length polls"
  shows "checkCounter v nsrv polls =
    (case find_index (\<lambda>cs. nsrv \<le> countValue v cs) (take 30 polls) of
       Some j \<Rightarrow> Inr (\<Sum>i < j. sleep_ms i)
     | None \<Rightarrow> Inl (Fatal ''checkCounter'')) \<and> (\<forall>w. checkCounter v nsrv polls = Inr w \<longrightarrow> w < 30000)"
proof -
  have eq: "checkCounter v nsrv polls =
    (case find_index (\<lambda>cs. nsrv \<le> countValue v cs) (take 30 polls) of
       Some j \<Rightarrow> Inr (\<Sum>i < j. sleep_ms i) | None \<Rightarrow> Inl (Fatal ''checkCounter''))"
    using check_counter_loop_result [of 0 polls 0 v nsrv] assms
    by (simp add: checkCounter_def sleep_ms_def [of 0] atLeast0LessThan del: find_index_None split: option.split)
  have total: "(\<Sum>i < j. sleep_ms i) \<le> 29430" if "j < 30" for j
  proof -
    have "(\<Sum>i < j. sleep_ms i) \<le> (\<Sum>i < 29. sleep_ms i)" using that by (intro sum_mono2) auto
    also have "\<dots> = 29430" by (simp add: sleep_ms_def lessThan_nat_numeral lessThan_Suc min_def)
    finally show ?thesis .
  qed
  have "w < 30000" if w: "checkCounter v nsrv polls = Inr w" for w
  proof (cases "find_index (\<lambda>cs. nsrv \<le> countValue v cs) (take 30 polls)")
    case (Some j)
    then have "j < 30" by (simp add: find_index_Some)
    with total [of j] w Some eq show ?thesis by simp
  qed (use w eq in \<open>simp del: find_index_None\<close>)
  with eq show ?thesis by blast
qed

lemma shutdown_restart_shown:
  fixes t0 :: int and desp :: string and v0 :: vis
  assumes "\<forall>i \<in> set ids. i < n" "t1 \<le> t2"
  defines "v \<equiv> AnnotateTest t0 desp n v0"
  obtains v1 v2 where "AnnotateShutdown t1 (map int ids) v = Inr v1" "AnnotateRestart t2 (map int ids) v1 = Inr v2"
    "shown TAG_PARTITION t1 (v_annotation v1) = fault_label (replicate n True, map (\<lambda>j. j \<in> set ids) [0..<n])"
    "shown TAG_PARTITION t2 (v_annotation v2) = {}"
proof -
  define down where "down = (replicate n True, map (\<lambda>j. j \<in> set ids) [0..<n])"
  have range: "in_range n (Shutdown (map int ids))" "in_range n (Restart (map int ids))" using assms(1) by auto
  have after: "fault_after (Shutdown (map int ids)) (replicate n True, replicate n False) = down"
    "fault_after (Restart (map int ids)) down = (replicate n True, replicate n False)"
    by (auto simp: down_def list_eq_iff_nth_eq)
  have "fault_inv n t1 (replicate n True, replicate n False) v" unfolding v_def by (rule AnnotateTest_inv)
  from annotate_op_step [OF this order_refl range(1)] obtain v1 where
    v1: "AnnotateShutdown t1 (map int ids) v = Inr v1" "fault_inv n t1 down v1" unfolding after by auto
  from annotate_op_step [OF v1(2) assms(2) range(2)] obtain v2 where
    v2: "AnnotateRestart t2 (map int ids) v1 = Inr v2" "fault_inv n t2 (replicate n True, replicate n False) v2" unfolding after by auto
  have "shown TAG_PARTITION t1 (v_annotation v1) = fault_label down" using v1(2) by (simp add: fault_inv_def)
  moreover have "shown TAG_PARTITION t2 (v_annotation v2) = {}"
    using v2(2) by (simp add: fault_inv_def fault_label_def list_all_iff)
  ultimately show thesis using v1(1) v2(1) by (intro that) (simp_all add: down_def)
qed

text \<open>
  A kill and a restart in the tester are consistent with what is displayed. From a test without
  failures, killing some servers shows exactly these as crashed, and restarting them shows no failure;
  the restarted servers have the persisted state they had, and all servers are connected again.
\<close>
theorem kill_restart_displayed:
  assumes "grp_in sg rn" and "\<forall>i < sg_N sg. dc (srvs sg ! i) \<noteq> None" "t1 \<le> t2"
    and "\<forall>i \<in> set ids. i < sg_N sg" "length draws = length ids" "fresh_draws (sg_N sg) rn draws"
  defines "n \<equiv> sg_N sg"
  shows "\<exists>st1 v1 sg' rn' v2. ts_kill t1 ids ((sg, rn), AnnotateTest t0 desp n v0) = Inr (st1, v1) \<and>
    shown TAG_PARTITION t1 (v_annotation v1) = fault_label (replicate n True, map (\<lambda>j. j \<in> set ids) [0..<n]) \<and>
    ts_restart t2 ids draws (st1, v1) = Inr ((sg', rn'), v2) \<and> shown TAG_PARTITION t2 (v_annotation v2) = {} \<and>
    (\<forall>i < n. dc (srvs sg' ! i) = dc (srvs sg ! i)) \<and> (\<forall>a < n. \<forall>b < n. connected sg' ! a \<and> linked (sg', rn') a b)"
proof -
  obtain sg' rn' where r: "res_bind (sg_Kill ids (sg, rn)) (\<lambda>st. res_bind (StartSrvs (zip ids draws) st) sg_ConnectAll) = Inr (sg', rn')"
    "\<forall>i < n. dc (srvs sg' ! i) = dc (srvs sg ! i)" "\<forall>a < n. \<forall>b < n. connected sg' ! a \<and> linked (sg', rn') a b"
    using kill_start_connect [OF assms(1,2,4-6)] unfolding n_def by blast
  then obtain st1 st2 where st: "sg_Kill ids (sg, rn) = Inr st1" "StartSrvs (zip ids draws) st1 = Inr st2" "sg_ConnectAll st2 = Inr (sg', rn')"
    by auto
  obtain v1 v2 where v: "AnnotateShutdown t1 (map int ids) (AnnotateTest t0 desp n v0) = Inr v1" "AnnotateRestart t2 (map int ids) v1 = Inr v2"
    "shown TAG_PARTITION t1 (v_annotation v1) = fault_label (replicate n True, map (\<lambda>j. j \<in> set ids) [0..<n])"
    "shown TAG_PARTITION t2 (v_annotation v2) = {}"
    using shutdown_restart_shown [of ids n t1 t2] assms(3,4) unfolding n_def by blast
  have "ts_kill t1 ids ((sg, rn), AnnotateTest t0 desp n v0) = Inr (st1, v1)" "ts_restart t2 ids draws (st1, v1) = Inr ((sg', rn'), v2)"
    using st v(1,2) by (simp_all add: ts_kill_def ts_restart_def)
  then show ?thesis using v(3,4) r(2,3) by blast
qed


section \<open>Witnesses of the replicated counter\<close>

theorem rsm_snapshot_replica_witness:
  "\<exists>s1 rs1 s' rs2 t1 t'. apply_log DoOp [Inc, Null] \<lparr>rs_me = 0, rs_counter = 0\<rparr> = Inr (s1, rs1) \<and>
     apply_log DoOp [Inc] s1 = Inr (s', rs2) \<and> Restore (Snapshot s1) \<lparr>rs_me = 1, rs_counter = 9\<rparr> = Inr t1 \<and>
     apply_log DoOp [Inc] t1 = Inr (t', rs2) \<and> rs_counter t' = rs_counter s' \<and>
     rs_counter s' = 0 + of_nat (count (mset ([Inc, Null] @ [Inc])) Inc)"
  using rsm_snapshot_replica [of "[Inc, Null]" "[Inc]" "\<lparr>rs_me = 0, rs_counter = 0\<rparr>" "\<lparr>rs_me = 1, rs_counter = 9\<rparr>"]
  by (simp del: mset_append)

theorem onePartition_finds_leader_witness:
  "\<exists>m. onePartition None [([True, False, True], [True, True, True], \<lambda>i. (if i = 2 then OK else ErrWrongLeader, i))]
      \<lparr>rt_leader = 0, rt_ops = 0\<rparr> = Inr (\<lparr>rt_leader = m, rt_ops = 1\<rparr>, Some m)"
proof -
  let ?rd = "([True, False, True], [True, True, True], \<lambda>i :: int. (if i = 2 then OK else ErrWrongLeader, i))"
  have wf: "\<forall>rd \<in> set [?rd]. round_wf rd" by (simp add: round_wf_def NSRV_def)
  have l: "0 \<le> rt_leader \<lparr>rt_leader = 0, rt_ops = 0\<rparr>" "rt_leader \<lparr>rt_leader = 0, rt_ops = 0\<rparr> < NSRV" by (simp_all add: NSRV_def)
  have "accepts None ?rd 2" by (simp add: accepts_def inPartition_def NSRV_def)
  then have ex: "\<exists>rd m. rd \<in> set [?rd] \<and> accepts None rd m" by auto
  obtain rd m where rd: "rd \<in> set [?rd]" and
    m: "onePartition None [?rd] \<lparr>rt_leader = 0, rt_ops = 0\<rparr> =
       Inr (\<lparr>rt_leader = 0, rt_ops = 0\<rparr>\<lparr>rt_ops := rt_ops \<lparr>rt_leader = 0, rt_ops = 0\<rparr> + 1, rt_leader := m\<rparr>, Some (snd (snd (snd rd) m)))"
    using onePartition_finds_leader [OF wf l, of None] unfolding if_P [OF ex] by blast
  have "snd (snd (snd rd) m) = m" using rd by simp
  with m show ?thesis by (intro exI [of _ m]) (simp del: onePartition.simps)
qed

theorem checkCounter_outcome_witness:
  "checkCounter 5 2 ([5, 0, 4] # [5, 5, 4] # replicate 28 []) = Inr 10"
proof -
  have "find_index (\<lambda>cs. 2 \<le> countValue 5 cs) (take 30 ([5, 0, 4] # [5, 5, 4] # replicate 28 [])) = Some 1"
    by (simp add: countValue_def)
  then show ?thesis using checkCounter_outcome [of "[5, 0, 4] # [5, 5, 4] # replicate 28 []" 5 2]
    by (simp add: sleep_ms_def)
qed

theorem kill_restart_displayed_witness:
  "\<exists>st1 v1 sg' rn' v2. ts_kill 1 [1] ((wit_sg, wit_rn), AnnotateTest 0 ''t'' 2 wit_vis) = Inr (st1, v1) \<and>
     shown TAG_PARTITION 1 (v_annotation v1) = {''partition = [0] / crash = [1]''} \<and>
     ts_restart 2 [1] [([''x'', ''y''], 7)] (st1, v1) = Inr ((sg', rn'), v2) \<and> shown TAG_PARTITION 2 (v_annotation v2) = {}"
proof -
  have s: "\<forall>i < sg_N wit_sg. dc (srvs wit_sg ! i) \<noteq> None" "\<forall>i \<in> set [1]. i < sg_N wit_sg" "sg_N wit_sg = 2"
    by (auto simp: wit_sg_def sg_N_def less_Suc_eq)
  have f: "fresh_draws (sg_N wit_sg) wit_rn [([''x'', ''y''], 7)]"
    by (auto simp: fresh_draws_def fresh_names_def wit_sg_def wit_rn_def sg_N_def)
  have l: "length [([''x'', ''y''], 7 :: nat)] = length [1 :: nat]" by simp
  have d: "fault_label (replicate 2 True, map (\<lambda>j. j \<in> set [1]) [0..<2]) = {''partition = [0] / crash = [1]''}" by code_simp
  have t: "(1 :: int) \<le> 2" by simp
  from kill_restart_displayed [OF wit_sg_in s(1) t s(2) l f, of 0 "''t''" wit_vis] show ?thesis
    unfolding s(3) d by (elim exE conjE) (intro exI conjI, assumption+)
qed

end
