(* ===== verification/KvRaftTest.thy ===== *)
theory KvRaftTest
  imports KvPuts Rsm
begin

text \<open>
  The harness of the replicated key/value tests (\<open>kvraft1/test.go\<close>, and the parts of \<open>kvtest1\<close> it runs: the
  repartitioning goroutine and the report of the linearizability check) and the restarts of the Raft
  tests (\<open>raft1/test.go\<close>). The linearizability checker is not in the repository; its verdict is an argument.

  Shown: while servers are repartitioned, the network and the annotations agree at every moment; killing and
  restarting all servers shows all of them as crashed and then none, with their state kept; a test's
  history is visualized at most once; a Raft test's restart gives back every server's state and proxy.
\<close>

section \<open>kvraft1/test.go\<close>

record kvraft_test =
  kt_part :: string
  kt_nclients :: int
  kt_crash :: bool
  kt_partitions :: bool
  kt_maxraftstate :: int
  kt_randomkeys :: bool

definition makeTitle :: "kvraft_test \<Rightarrow> string" where
  "makeTitle ts =
     ''Test: '' @ (if kt_crash ts then ''restarts, '' else '''') @ (if kt_partitions ts then ''partitions, '' else '''') @
     (if kt_maxraftstate ts \<noteq> -1 then ''snapshots, '' else '''') @ (if kt_randomkeys ts then ''random keys, '' else '''') @
     (if kt_nclients ts > 1 then ''many clients'' else ''one client'') @ '' ('' @ kt_part ts @ '')''"

text \<open>The option of the daemons that \<open>MakeTest\<close> adds.\<close>

definition max_raft_arg :: "kvraft_test \<Rightarrow> string" where
  "max_raft_arg ts = ''--max-raft-state='' @ itoa (kt_maxraftstate ts)"

definition killall :: "int \<Rightarrow> (server_grp \<times> network) \<times> vis \<Rightarrow> ((server_grp \<times> network) \<times> vis) result" where
  "killall t = (\<lambda>(st, v).
     res_bind (sg_Shutdown st) (\<lambda>st'. res_bind (AnnotateShutdownAll t v) (\<lambda>v'. Inr (st', v'))))"

definition restartall ::
  "int \<Rightarrow> (string list \<times> nat) list \<Rightarrow> (server_grp \<times> network) \<times> vis \<Rightarrow> ((server_grp \<times> network) \<times> vis) result" where
  "restartall t draws = (\<lambda>(st, v).
     res_bind (StartServers draws st) (\<lambda>st'. res_bind (AnnotateRestartAll t v) (\<lambda>v'. Inr (st', v'))))"

text \<open>A clerk that can reach only some servers; \<open>cid\<close> is the new client's identity. The clerk knows all names.\<close>

definition MakeClerkTo :: "nat list \<Rightarrow> nat \<Rightarrow> server_grp \<Rightarrow> clnts \<Rightarrow> (string list \<times> clnts) result" where
  "MakeClerkTo to cid sg cs =
     res_bind (SrvNamesTo to sg) (\<lambda>ns. Inr (SrvNames sg, MakeClientTo cid (Some ns) cs))"

section \<open>kvtest.go: Partitioner\<close>

text \<open>
  One turn of the loop at time \<open>t\<close>: server \<open>i\<close> goes to the side its random number chooses. The goroutine
  runs turns until it is told to stop.
\<close>

definition turn_sides :: "nat \<Rightarrow> (nat \<Rightarrow> nat) \<Rightarrow> nat list \<times> nat list" where
  "turn_sides n r = random_sides (map (\<lambda>i. r i mod 2) [0..<n])"

definition partition_turn ::
  "int \<times> (nat \<Rightarrow> nat) \<Rightarrow> (server_grp \<times> network) \<times> vis \<Rightarrow> ((server_grp \<times> network) \<times> vis) result" where
  "partition_turn = (\<lambda>(t, r) (st, v).
     let (p0, p1) = turn_sides (sg_N (fst st)) r
     in res_bind (sg_Partition p0 p1 st) (\<lambda>st'. Inr (st', AnnotateTwoPartitions t (map int p0) (map int p1) v)))"

fun partitioner ::
  "(int \<times> (nat \<Rightarrow> nat)) list \<Rightarrow> (server_grp \<times> network) \<times> vis \<Rightarrow> ((server_grp \<times> network) \<times> vis) result" where
  "partitioner [] s = Inr s"
| "partitioner (x # turns) s = res_bind (partition_turn x s) (partitioner turns)"

section \<open>porcupine.go: checkPorcupine\<close>

text \<open>
  The verdict of \<open>porcupine.CheckOperationsVerbose\<close>, the value of \<open>VIS_ENABLE\<close>, and whether the file could be
  opened. The result is the state of the annotations, what is handed to \<open>porcupine.Visualize\<close>, and
  \<open>t.Fatal\<close> or not.
\<close>

datatype check_result = Legal | Illegal | Unknown

definition checkPorcupine ::
  "check_result \<Rightarrow> string \<Rightarrow> bool \<Rightarrow> (string \<times> continuous_ann) list \<Rightarrow> int \<Rightarrow> int \<Rightarrow> vis \<Rightarrow>
   vis \<times> porc_annotation list option \<times> unit result" where
  "checkPorcupine res ena opened it t t' v =
     (if res = Illegal then
        (if \<not> opened then (v, None, Inl (Fatal ''history is not linearizable''))
         else if ena \<noteq> ''never'' then
           (let (v', as) = FinalizeAnnotations it t t' ''test failed'' v
            in (v', Some as, Inl (Fatal ''history is not linearizable'')))
         else (v, None, Inl (Fatal ''history is not linearizable'')))
      else if ena = ''always'' \<and> GetAnnotationFinalized v then
        (if \<not> opened then (v, None, Inr ())
         else let (v', as) = FinalizeAnnotations it t t' ''test passed'' v in (v', Some as, Inr ()))
      else (v, None, Inr ()))"

section \<open>raft1/test.go: kill and restart\<close>

text \<open>
  \<open>ts.srvs\<close> has a server for every index after \<open>makeTest\<close>, with the proxy of its daemon or nil; a proxy is
  the number of the process it talks to.
\<close>

record raft_test =
  rf_grp :: server_grp
  rf_net :: network
  rf_vis :: vis
  rf_proxies :: "nat option list"

definition set_proxy :: "nat option \<Rightarrow> nat \<Rightarrow> nat option list \<Rightarrow> nat option list result" where
  "set_proxy p i ps = go_update ps (int i) p"

fun drop_proxies :: "nat list \<Rightarrow> nat option list \<Rightarrow> nat option list result" where
  "drop_proxies [] ps = Inr ps"
| "drop_proxies (i # is) ps = res_bind (set_proxy None i ps) (drop_proxies is)"

definition raft_kill :: "int \<Rightarrow> nat list \<Rightarrow> raft_test \<Rightarrow> raft_test result" where
  "raft_kill t ids ts =
     res_bind (sg_Kill ids (rf_grp ts, rf_net ts)) (\<lambda>(sg, rn).
     res_bind (AnnotateShutdown t (map int ids) (rf_vis ts)) (\<lambda>v.
     res_bind (drop_proxies ids (rf_proxies ts)) (\<lambda>ps.
       Inr \<lparr>rf_grp = sg, rf_net = rn, rf_vis = v, rf_proxies = ps\<rparr>)))"

text \<open>The loop of \<open>restart\<close>: \<open>mksrv\<close> with the proxy of the new process, and \<open>ConnectOne\<close>.\<close>

fun reconnect :: "(nat \<times> nat) list \<Rightarrow> (server_grp \<times> network) \<times> nat option list \<Rightarrow> ((server_grp \<times> network) \<times> nat option list) result" where
  "reconnect [] s = Inr s"
| "reconnect ((i, p) # rest) (st, ps) =
     res_bind (set_proxy (Some p) i ps) (\<lambda>ps'.
     res_bind (ConnectOne i st) (\<lambda>st'. reconnect rest (st', ps')))"

definition raft_restart :: "int \<Rightarrow> nat list \<Rightarrow> (string list \<times> nat) list \<Rightarrow> raft_test \<Rightarrow> raft_test result" where
  "raft_restart t ids draws ts =
     res_bind (StartSrvs (zip ids draws) (rf_grp ts, rf_net ts)) (\<lambda>st.
     res_bind (AnnotateRestart t (map int ids) (rf_vis ts)) (\<lambda>v.
     res_bind (reconnect (zip ids (map snd draws)) (st, rf_proxies ts)) (\<lambda>((sg, rn), ps).
       Inr \<lparr>rf_grp = sg, rf_net = rn, rf_vis = v, rf_proxies = ps\<rparr>)))"

section \<open>Lemmas\<close>

text \<open>The sides are a partition of the servers.\<close>

lemma turn_sides_sets:
  "turn_sides n r = (p0, p1) \<Longrightarrow> set p0 = {i. i < n \<and> r i mod 2 = 0} \<and> set p1 = {i. i < n \<and> r i mod 2 = 1}"
  by (auto simp: turn_sides_def random_sides_def)

definition turn_text :: "nat \<Rightarrow> (nat \<Rightarrow> nat) \<Rightarrow> string" where
  "turn_text n r = ''partition = '' @ fmt_ints (map int (fst (turn_sides n r))) @ '' '' @ fmt_ints (map int (snd (turn_sides n r)))"

lemma partition_turn_effect:
  assumes "grp_wf sg" "past TAG_PARTITION t0 (v_annotation v)" "t0 \<le> t"
  shows "\<exists>sg' rn' v'. partition_turn (t, r) ((sg, rn), v) = Inr ((sg', rn'), v') \<and> grp_wf sg' \<and> sg_N sg' = sg_N sg \<and>
    (\<forall>i < sg_N sg. connected sg' ! i) \<and> (\<forall>i < sg_N sg. \<forall>j < sg_N sg. linked (sg', rn') i j = (r i mod 2 = r j mod 2)) \<and>
    past TAG_PARTITION t (v_annotation v') \<and>
    (\<forall>\<tau>. shown TAG_PARTITION \<tau> (v_annotation v') = (if \<tau> < t then shown TAG_PARTITION \<tau> (v_annotation v) else {turn_text (sg_N sg) r}))"
proof -
  obtain p0 p1 where p: "turn_sides (sg_N sg) r = (p0, p1)" by fastforce
  note sets = turn_sides_sets [OF p]
  have two: "r i mod 2 = 0 \<or> r i mod 2 = 1" for i by auto
  have "set p0 \<union> set p1 = {..<sg_N sg}" "set p0 \<inter> set p1 = {}" using sets two by auto
  from Partition_effect [OF assms(1) this, of rn] obtain sg' rn' where 1: "sg_Partition p0 p1 (sg, rn) = Inr (sg', rn')" "grp_like sg sg'"
    "\<forall>i < sg_N sg. connected sg' ! i" "\<forall>i < sg_N sg. \<forall>j < sg_N sg. linked (sg', rn') i j = (i \<in> set p0 \<longleftrightarrow> j \<in> set p0)"
    by blast
  have "linked (sg', rn') i j = (r i mod 2 = r j mod 2)" if "i < sg_N sg" "j < sg_N sg" for i j
    using 1(4) that sets two [of i] two [of j] by auto
  moreover define v' where "v' = AnnotateTwoPartitions t (map int p0) (map int p1) v"
  have lbl: "turn_text (sg_N sg) r = ''partition = '' @ fmt_ints (map int p0) @ '' '' @ fmt_ints (map int p1)"
    by (simp add: turn_text_def p)
  have "turn_text (sg_N sg) r \<noteq> []" by (simp add: lbl)
  from annotateContinuousColor_shown [OF assms(2,3) this]
  have "past TAG_PARTITION t (v_annotation v') \<and>
      shown TAG_PARTITION \<tau> (v_annotation v') = (if \<tau> < t then shown TAG_PARTITION \<tau> (v_annotation v) else {turn_text (sg_N sg) r})" for \<tau>
    unfolding v'_def lbl by (simp add: AnnotateTwoPartitions_def on_annotation_def Let_def)
  moreover have "partition_turn (t, r) ((sg, rn), v) = Inr ((sg', rn'), v')" using 1(1) p by (simp add: partition_turn_def v'_def)
  ultimately show ?thesis using 1(2,3) grp_like_N [OF 1(2)] by (auto simp: grp_like_def)
qed

lemma partitioner_append: "partitioner (xs @ ys) s = res_bind (partitioner xs s) (partitioner ys)"
proof (induction xs arbitrary: s)
  case (Cons x xs)
  then show ?case by (cases "partition_turn x s") simp_all
qed simp

lemma AnnotateTest_past: "past TAG_PARTITION t (v_annotation (AnnotateTest t0 desp n v0))"
  using AnnotateTest_inv [of n t t0 desp v0] by (simp add: fault_inv_def)

text \<open>\<open>connect_list\<close> on any servers of the group.\<close>

lemma ConnectOne_effect:
  assumes "grp_wf sg" "i < sg_N sg"
  shows "\<exists>sg' rn'. ConnectOne i (sg, rn) = Inr (sg', rn') \<and> grp_like sg sg' \<and> connected sg' = (connected sg)[i := True]"
proof -
  have "set (sg_all sg) \<subseteq> {..<sg_N sg}" by (auto simp: sg_all_def sg_N_def)
  from sg_connect_effect [where rn = rn, OF assms this] show ?thesis by (metis ConnectOne_def fst_conv)
qed

lemma drop_proxies_effect:
  "\<forall>i \<in> set is. i < length ps \<Longrightarrow>
     drop_proxies is ps = Inr (map (\<lambda>i. if i \<in> set is then None else ps ! i) [0..<length ps])"
proof (induction "is" arbitrary: ps)
  case Nil
  then show ?case by (simp add: map_nth)
next
  case (Cons i "is")
  then have "set_proxy None i ps = Inr (ps[i := None])" by (simp add: set_proxy_def go_update_def)
  with Cons.IH [of "ps[i := None]"] Cons.prems show ?case by (auto simp: nth_list_update)
qed

lemma reconnect_effect:
  assumes "grp_wf sg" "\<forall>i \<in> set ids. i < sg_N sg" "sg_N sg = length ps" "length ids = length qs"
  shows "\<exists>sg' rn' ps'. reconnect (zip ids qs) ((sg, rn), ps) = Inr ((sg', rn'), ps') \<and> srvs sg' = srvs sg \<and> length ps' = length ps \<and>
    (\<forall>i < length ps. connected sg' ! i = (i \<in> set ids \<or> connected sg ! i) \<and> (ps' ! i = None) = (i \<notin> set ids \<and> ps ! i = None))"
  using assms
proof (induction ids qs arbitrary: sg rn ps rule: list_induct2')
  case (4 i ids q qs)
  have i: "i < sg_N sg" "i < length ps" using "4.prems" by simp_all
  obtain sg1 rn1 where 1: "ConnectOne i (sg, rn) = Inr (sg1, rn1)" "grp_like sg sg1" "connected sg1 = (connected sg)[i := True]"
    using ConnectOne_effect [OF "4.prems"(1) i(1)] by blast
  have len: "length (connected sg) = length ps" using "4.prems"(1,3) by (simp add: grp_wf_def)
  have N: "sg_N sg1 = sg_N sg" "srvs sg1 = srvs sg" "grp_wf sg1" using 1(2) grp_like_N by (auto simp: grp_like_def)
  have "set_proxy (Some q) i ps = Inr (ps[i := Some q])" using i(2) by (simp add: set_proxy_def go_update_def)
  then have step: "reconnect (zip (i # ids) (q # qs)) ((sg, rn), ps) = reconnect (zip ids qs) ((sg1, rn1), ps[i := Some q])"
    using 1(1) by simp
  obtain sg' rn' ps' where 2: "reconnect (zip ids qs) ((sg1, rn1), ps[i := Some q]) = Inr ((sg', rn'), ps')" "srvs sg' = srvs sg1"
    "length ps' = length ps" "\<forall>j < length ps. connected sg' ! j = (j \<in> set ids \<or> connected sg1 ! j) \<and>
       (ps' ! j = None) = (j \<notin> set ids \<and> ps[i := Some q] ! j = None)"
    using "4.IH" [OF N(3), of "ps[i := Some q]" rn1] "4.prems"(2-4) N(1) by auto
  have "connected sg' ! j = (j \<in> set (i # ids) \<or> connected sg ! j) \<and> (ps' ! j = None) = (j \<notin> set (i # ids) \<and> ps ! j = None)"
    if "j < length ps" for j
    using 2(4) that 1(3) len i(2) by (auto simp: nth_list_update)
  then show ?case using step 2(1-3) N(2) by auto
qed auto

text \<open>Any number of turns, from a state in which no failure is shown.\<close>

lemma partitioner_turns:
  assumes "grp_wf sg" "\<And>t. past TAG_PARTITION t (v_annotation V)" "\<And>\<tau>. shown TAG_PARTITION \<tau> (v_annotation V) = {}"
    and "sorted (map fst turns)"
  defines "n \<equiv> sg_N sg"
  shows "\<exists>sg' rn' v. partitioner turns ((sg, rn), V) = Inr ((sg', rn'), v) \<and> grp_wf sg' \<and> sg_N sg' = n \<and>
    (turns \<noteq> [] \<longrightarrow> (\<forall>i < n. connected sg' ! i) \<and>
      (\<forall>i < n. \<forall>j < n. linked (sg', rn') i j = (snd (last turns) i mod 2 = snd (last turns) j mod 2))) \<and>
    (\<forall>t. (\<forall>x \<in> set turns. fst x \<le> t) \<longrightarrow> past TAG_PARTITION t (v_annotation v)) \<and>
    (\<forall>\<tau>. shown TAG_PARTITION \<tau> (v_annotation v) =
      (let done = filter (\<lambda>x. fst x \<le> \<tau>) turns in if done = [] then {} else {turn_text n (snd (last done))}))"
  using assms(4)
proof (induction turns rule: rev_induct)
  case Nil
  then show ?case using assms(1-3) by (simp add: n_def)
next
  case (snoc x xs)
  obtain t r where x: "x = (t, r)" by (cases x)
  have before: "\<forall>y \<in> set xs. fst y \<le> t" "sorted (map fst xs)" using snoc.prems by (auto simp: x sorted_append)
  from snoc.IH [OF before(2)] obtain sg1 rn1 v1 where 1: "partitioner xs ((sg, rn), V) = Inr ((sg1, rn1), v1)" "grp_wf sg1" "sg_N sg1 = n"
    "\<forall>t. (\<forall>x \<in> set xs. fst x \<le> t) \<longrightarrow> past TAG_PARTITION t (v_annotation v1)"
    "\<forall>\<tau>. shown TAG_PARTITION \<tau> (v_annotation v1) =
      (let done = filter (\<lambda>x. fst x \<le> \<tau>) xs in if done = [] then {} else {turn_text n (snd (last done))})"
    by (elim exE conjE) rule
  have p1: "past TAG_PARTITION t (v_annotation v1)" using 1(4) before(1) by blast
  from partition_turn_effect [OF 1(2) p1 order_refl, where rn = rn1 and r = r] obtain sg' rn' v where
    2: "partition_turn (t, r) ((sg1, rn1), v1) = Inr ((sg', rn'), v)" "grp_wf sg'" "sg_N sg' = n"
    "\<forall>i < n. connected sg' ! i" "\<forall>i < n. \<forall>j < n. linked (sg', rn') i j = (r i mod 2 = r j mod 2)" "past TAG_PARTITION t (v_annotation v)"
    "\<forall>\<tau>. shown TAG_PARTITION \<tau> (v_annotation v) = (if \<tau> < t then shown TAG_PARTITION \<tau> (v_annotation v1) else {turn_text n r})"
    using 1(3) by auto
  have "shown TAG_PARTITION \<tau> (v_annotation v) =
    (let done = filter (\<lambda>x. fst x \<le> \<tau>) (xs @ [x]) in if done = [] then {} else {turn_text n (snd (last done))})" for \<tau>
    using 2(7) 1(5) by (simp add: x Let_def)
  moreover have "past TAG_PARTITION t' (v_annotation v)" if "\<forall>y \<in> set (xs @ [x]). fst y \<le> t'" for t'
    using that past_mono [OF 2(6)] by (simp add: x)
  ultimately show ?case using 1(1) 2(1-5) by (intro exI [of _ sg'] exI [of _ rn'] exI [of _ v]) (simp add: x partitioner_append)
qed

section \<open>Properties of the harness\<close>

text \<open>
  C33: repartitioning is displayed as it happens. However often the partitioner cuts the group, at
  increasing times and with any random numbers, it never panics; the annotation that covers a moment
  under the failure tag names the two sides of the last turn before it (and nothing before the
  first), and in the end the servers are linked exactly within the sides of the last turn.
\<close>
theorem partitioner_displayed:
  assumes "grp_wf sg" "sorted (map fst turns)" "turns \<noteq> []"
  defines "n \<equiv> sg_N sg"
  shows "\<exists>sg' rn' v. partitioner turns ((sg, rn), AnnotateTest t0 desp n v0) = Inr ((sg', rn'), v) \<and>
    (\<forall>i < n. connected sg' ! i) \<and>
    (\<forall>i < n. \<forall>j < n. linked (sg', rn') i j = (snd (last turns) i mod 2 = snd (last turns) j mod 2)) \<and>
    (\<forall>\<tau>. shown TAG_PARTITION \<tau> (v_annotation v) =
      (let done = filter (\<lambda>x. fst x \<le> \<tau>) turns in if done = [] then {} else {turn_text n (snd (last done))}))"
proof -
  define V where "V = AnnotateTest t0 desp n v0"
  have base: "shown TAG_PARTITION \<tau> (v_annotation V) = {}" for \<tau>
    using AnnotateTest_inv [of n \<tau> t0 desp v0] by (simp add: V_def fault_inv_def fault_label_def list_all_iff)
  have past: "past TAG_PARTITION t (v_annotation V)" for t unfolding V_def by (rule AnnotateTest_past)
  from partitioner_turns [OF assms(1) past base assms(2), of rn, folded n_def]
  obtain sg' rn' v where r: "partitioner turns ((sg, rn), V) = Inr ((sg', rn'), v)"
    "turns \<noteq> [] \<longrightarrow> (\<forall>i < n. connected sg' ! i) \<and>
      (\<forall>i < n. \<forall>j < n. linked (sg', rn') i j = (snd (last turns) i mod 2 = snd (last turns) j mod 2))"
    "\<forall>\<tau>. shown TAG_PARTITION \<tau> (v_annotation v) =
      (let done = filter (\<lambda>x. fst x \<le> \<tau>) turns in if done = [] then {} else {turn_text n (snd (last done))})"
    by (elim exE conjE) rule
  from r(2) assms(3) have "(\<forall>i < n. connected sg' ! i) \<and>
      (\<forall>i < n. \<forall>j < n. linked (sg', rn') i j = (snd (last turns) i mod 2 = snd (last turns) j mod 2))" by (rule mp)
  with r(1,3) show ?thesis unfolding V_def by blast
qed

text \<open>
  Crashing all servers is displayed, and undone without a trace: \<open>killall\<close> shows every server of the
  group as crashed; \<open>restartall\<close> shows no failure, every server runs with the state it had, and all are connected.
\<close>
theorem killall_restartall:
  assumes "grp_in sg rn" "\<forall>i < sg_N sg. dc (srvs sg ! i) \<noteq> None" "t1 \<le> t2" "length draws = sg_N sg" "fresh_draws (sg_N sg) rn draws"
  defines "n \<equiv> sg_N sg"
  shows "\<exists>st1 v1 sg' rn' v2. killall t1 ((sg, rn), AnnotateTest t0 desp n v0) = Inr (st1, v1) \<and>
    shown TAG_PARTITION t1 (v_annotation v1) = fault_label (replicate n True, replicate n True) \<and>
    (\<forall>i < n. dc (srvs (fst st1) ! i) = None) \<and>
    restartall t2 draws (st1, v1) = Inr ((sg', rn'), v2) \<and> shown TAG_PARTITION t2 (v_annotation v2) = {} \<and>
    (\<forall>i < n. dc (srvs sg' ! i) = dc (srvs sg ! i)) \<and> (\<forall>a < n. \<forall>b < n. connected sg' ! a \<and> linked (sg', rn') a b)"
proof -
  have all: "\<forall>i \<in> set (sg_all sg). i < sg_N sg" "length draws = length (sg_all sg)"
    using assms(4) by (simp_all add: sg_all_def sg_N_def)
  obtain sg1 rn1 where k: "sg_Kill (sg_all sg) (sg, rn) = Inr (sg1, rn1)"
    "srvs sg1 = map (\<lambda>i. if i \<in> set (sg_all sg) then shutdownServer (srvs sg ! i) else srvs sg ! i) [0..<sg_N sg]"
    using Kill_effect [OF assms(1) all(1)] by blast
  have same: "sg_all sg1 = sg_all sg" using k(2) by (simp add: sg_all_def sg_N_def)
  have down: "\<forall>i < n. dc (srvs sg1 ! i) = None"
    using k(2) by (auto simp: n_def sg_all_def sg_N_def shutdownServer_def split: option.split)
  obtain sg' rn' where r: "StartServers draws (sg1, rn1) = Inr (sg', rn')"
    "\<forall>i < n. dc (srvs sg' ! i) = dc (srvs sg ! i)" "\<forall>a < n. \<forall>b < n. connected sg' ! a \<and> linked (sg', rn') a b"
    using kill_start_connect [OF assms(1,2) all assms(5)] k(1) same by (auto simp: n_def StartServers_def)
  define v where "v = AnnotateTest t0 desp n v0"
  have "fault_inv n t1 (replicate n True, replicate n False) v" unfolding v_def by (rule AnnotateTest_inv)
  from annotate_op_step [OF this order_refl, of ShutdownAll] obtain v1 where
    v1: "AnnotateShutdownAll t1 v = Inr v1" "fault_inv n t1 (replicate n True, replicate n True) v1" by auto
  from annotate_op_step [OF v1(2) assms(3), of RestartAll] obtain v2 where
    v2: "AnnotateRestartAll t2 v1 = Inr v2" "fault_inv n t2 (replicate n True, replicate n False) v2" by auto
  have "shown TAG_PARTITION t2 (v_annotation v2) = {}" using v2(2) by (simp add: fault_inv_def fault_label_def list_all_iff)
  moreover have "shown TAG_PARTITION t1 (v_annotation v1) = fault_label (replicate n True, replicate n True)"
    using v1(2) by (simp add: fault_inv_def)
  moreover have "killall t1 ((sg, rn), v) = Inr ((sg1, rn1), v1)" "restartall t2 draws ((sg1, rn1), v1) = Inr ((sg', rn'), v2)"
    using k(1) v1(1) r(1) v2(1) by (simp_all add: killall_def restartall_def sg_Shutdown_def)
  ultimately show ?thesis using down r(2,3) unfolding v_def
    by (intro exI [of _ "(sg1, rn1)"] exI [of _ v1] exI [of _ sg'] exI [of _ rn'] exI [of _ v2]) simp
qed

text \<open>
  A history is blamed exactly when the checker found it illegal, and it is visualized at most once:
  when \<open>checkPorcupine\<close> has handed it to the visualizer, which it does for an illegal history unless that is
  disabled or the file cannot be opened, the clean-up at the end of the test writes nothing.
\<close>
theorem visualized_once:
  assumes "checkPorcupine res ena opened it t t' v = (v', written, outcome)"
  shows "(outcome = Inr () \<longleftrightarrow> res \<noteq> Illegal) \<and>
    (written \<noteq> None \<longleftrightarrow> opened \<and> (if res = Illegal then ena \<noteq> ''never'' else ena = ''always'' \<and> finalized (v_annotation v))) \<and>
    (written \<noteq> None \<longrightarrow> snd (ann_cleanup ena opened' it' s s' bad e (v_annotation v')) = None) \<and>
    (written = None \<longrightarrow> v' = v)"
  using assms by (auto simp: checkPorcupine_def FinalizeAnnotations_def finalize_def GetAnnotationFinalized_def ann_cleanup_def
      Let_def split: if_splits)

text \<open>
  In a Raft test, killed servers lose their proxy and are shown as crashed; restarting them gives every
  server of the group its state back, and the restarted ones a proxy and a connection, with no failure shown.
\<close>
theorem raft_kill_restart:
  assumes "grp_in (rf_grp ts) (rf_net ts)" "sg_N (rf_grp ts) = n" "length (rf_proxies ts) = n" "rf_vis ts = AnnotateTest t0 desp n v0"
    and "\<forall>i < n. dc (srvs (rf_grp ts) ! i) \<noteq> None" "t1 \<le> t2"
    and "\<forall>i \<in> set ids. i < n" "length draws = length ids" "fresh_draws n (rf_net ts) draws"
  shows "\<exists>ts1 ts2. raft_kill t1 ids ts = Inr ts1 \<and> raft_restart t2 ids draws ts1 = Inr ts2 \<and>
    (\<forall>i < n. rf_proxies ts1 ! i = (if i \<in> set ids then None else rf_proxies ts ! i)) \<and>
    shown TAG_PARTITION t1 (v_annotation (rf_vis ts1)) = fault_label (replicate n True, map (\<lambda>j. j \<in> set ids) [0..<n]) \<and>
    (\<forall>i < n. dc (srvs (rf_grp ts2) ! i) = dc (srvs (rf_grp ts) ! i)) \<and>
    (\<forall>i \<in> set ids. connected (rf_grp ts2) ! i \<and> rf_proxies ts2 ! i \<noteq> None) \<and>
    shown TAG_PARTITION t2 (v_annotation (rf_vis ts2)) = {}"
proof -
  let ?sg = "rf_grp ts" and ?rn = "rf_net ts"
  have ids: "\<forall>i \<in> set ids. i < sg_N ?sg" using assms(2,7) by simp
  obtain sg1 rn1 where k: "sg_Kill ids (?sg, ?rn) = Inr (sg1, rn1)" "grp_in sg1 rn1"
    "srvs sg1 = map (\<lambda>i. if i \<in> set ids then shutdownServer (srvs ?sg ! i) else srvs ?sg ! i) [0..<n]" "ends rn1 = ends ?rn"
    using Kill_effect [OF assms(1) ids] assms(2) by blast
  have N1: "sg_N sg1 = n" using k(3) by (simp add: sg_N_def)
  have "fresh_draws (sg_N sg1) rn1 draws" using assms(9) k(4) N1 by (simp add: fresh_draws_def fresh_names_def)
  from StartSrvs_effect [OF k(2) _ assms(8) this] assms(7) N1 obtain sg2 rn2 where
    s: "StartSrvs (zip ids draws) (sg1, rn1) = Inr (sg2, rn2)" "grp_in sg2 rn2" "sg_N sg2 = n"
    "\<forall>i < n. dc (srvs sg2 ! i) = (if i \<in> set ids then Some (restored (srvs sg1 ! i)) else dc (srvs sg1 ! i))" by auto
  have state: "dc (srvs sg2 ! i) = dc (srvs ?sg ! i)" if "i < n" for i
    using s(4) that k(3) assms(5) by (auto simp: restored_def shutdownServer_def)
  define ps where "ps = map (\<lambda>i. if i \<in> set ids then None else rf_proxies ts ! i) [0..<n]"
  have ps: "drop_proxies ids (rf_proxies ts) = Inr ps" using drop_proxies_effect [of ids "rf_proxies ts"] assms(3,7) by (simp add: ps_def)
  have wf2: "grp_wf sg2" "\<forall>i \<in> set ids. i < sg_N sg2" "sg_N sg2 = length ps" "length ids = length (map snd draws)"
    using s(2,3) assms(7,8) by (simp_all add: grp_in_def ps_def)
  obtain sg3 rn3 ps3 where c: "reconnect (zip ids (map snd draws)) ((sg2, rn2), ps) = Inr ((sg3, rn3), ps3)" "srvs sg3 = srvs sg2"
    "\<forall>i < length ps. connected sg3 ! i = (i \<in> set ids \<or> connected sg2 ! i) \<and> (ps3 ! i = None) = (i \<notin> set ids \<and> ps ! i = None)"
    using reconnect_effect [OF wf2, of rn2] by blast
  obtain v1 v2 where v: "AnnotateShutdown t1 (map int ids) (rf_vis ts) = Inr v1" "AnnotateRestart t2 (map int ids) v1 = Inr v2"
    "shown TAG_PARTITION t1 (v_annotation v1) = fault_label (replicate n True, map (\<lambda>j. j \<in> set ids) [0..<n])"
    "shown TAG_PARTITION t2 (v_annotation v2) = {}"
    using shutdown_restart_shown [OF assms(7,6)] unfolding assms(4) by blast
  define ts1 where "ts1 = \<lparr>rf_grp = sg1, rf_net = rn1, rf_vis = v1, rf_proxies = ps\<rparr>"
  define ts2 where "ts2 = \<lparr>rf_grp = sg3, rf_net = rn3, rf_vis = v2, rf_proxies = ps3\<rparr>"
  have "raft_kill t1 ids ts = Inr ts1" using k(1) v(1) ps by (simp add: raft_kill_def ts1_def)
  moreover have "raft_restart t2 ids draws ts1 = Inr ts2" using s(1) v(2) c(1) by (simp add: raft_restart_def ts1_def ts2_def)
  moreover have "connected sg3 ! i \<and> ps3 ! i \<noteq> None" if "i \<in> set ids" for i using c(3) that assms(7) by (simp add: ps_def)
  ultimately show ?thesis using state c(2) v(3,4)
    by (intro exI [of _ ts1] exI [of _ ts2]) (simp add: ts1_def ts2_def ps_def)
qed

text \<open>The titles of the tests tell their configurations apart.\<close>

theorem makeTitle_distinguishes:
  assumes "makeTitle a = makeTitle b" "kt_part a = kt_part b"
  shows "kt_crash a = kt_crash b \<and> kt_partitions a = kt_partitions b \<and> (kt_maxraftstate a = -1 \<longleftrightarrow> kt_maxraftstate b = -1) \<and>
    kt_randomkeys a = kt_randomkeys b \<and> (kt_nclients a > 1 \<longleftrightarrow> kt_nclients b > 1)"
  using assms by (simp add: makeTitle_def split: if_splits)

section \<open>Witnesses of the harness\<close>

theorem partitioner_displayed_witness:
  "\<exists>sg' rn' v. partitioner [(1, \<lambda>i. 0), (3, \<lambda>i. i)] ((wit_sg, wit_rn), AnnotateTest 0 ''t'' 2 wit_vis) = Inr ((sg', rn'), v) \<and>
     linked (sg', rn') 0 1 = False \<and> shown TAG_PARTITION 5 (v_annotation v) = {''partition = [0] [1]''}"
proof -
  have wf: "grp_wf wit_sg" and N: "sg_N wit_sg = 2" using wit_sg_in by (simp_all add: grp_in_def wit_sg_def sg_N_def)
  have lbl: "turn_text 2 (\<lambda>i. i) = ''partition = [0] [1]''" by code_simp
  let ?ts = "[(1 :: int, \<lambda>i. 0), (3, \<lambda>i. i :: nat)]"
  have "sorted (map fst ?ts)" "?ts \<noteq> []" by simp_all
  from partitioner_displayed [OF wf this, of wit_rn 0 "''t''" wit_vis] obtain sg' rn' v where
    r: "partitioner ?ts ((wit_sg, wit_rn), AnnotateTest 0 ''t'' (sg_N wit_sg) wit_vis) = Inr ((sg', rn'), v)"
    "\<forall>i < sg_N wit_sg. \<forall>j < sg_N wit_sg. linked (sg', rn') i j = (snd (last ?ts) i mod 2 = snd (last ?ts) j mod 2)"
    "\<forall>\<tau>. shown TAG_PARTITION \<tau> (v_annotation v) =
      (let done = filter (\<lambda>x. fst x \<le> \<tau>) ?ts in if done = [] then {} else {turn_text (sg_N wit_sg) (snd (last done))})"
    by (elim exE conjE) rule
  have "linked (sg', rn') 0 1 = False" using r(2) N by simp
  moreover have "shown TAG_PARTITION 5 (v_annotation v) = {''partition = [0] [1]''}" using r(3) N lbl by simp
  ultimately show ?thesis using r(1) unfolding N by blast
qed

lemma wit_sg_up: "\<forall>i < sg_N wit_sg. dc (srvs wit_sg ! i) \<noteq> None" "sg_N wit_sg = 2"
  by (auto simp: wit_sg_def sg_N_def less_Suc_eq)

theorem killall_restartall_witness:
  "\<exists>st1 v1 sg' rn' v2. killall 1 ((wit_sg, wit_rn), AnnotateTest 0 ''t'' 2 wit_vis) = Inr (st1, v1) \<and>
     shown TAG_PARTITION 1 (v_annotation v1) = {''partition =  / crash = [0 1]''} \<and>
     restartall 2 [([''e'', ''f''], 0), ([''g'', ''h''], 1)] (st1, v1) = Inr ((sg', rn'), v2) \<and> linked (sg', rn') 0 1"
proof -
  let ?ds = "[([''e'', ''f''], 0 :: nat), ([''g'', ''h''], 1)]"
  have d: "length ?ds = sg_N wit_sg" "fresh_draws (sg_N wit_sg) wit_rn ?ds" "(1 :: int) \<le> 2"
    unfolding wit_sg_up(2) by (auto simp: fresh_draws_def fresh_names_def wit_rn_def)
  have l: "fault_label (replicate 2 True, replicate 2 True) = {''partition =  / crash = [0 1]''}" by code_simp
  from killall_restartall [OF wit_sg_in wit_sg_up(1) d(3,1,2), of 0 "''t''" wit_vis] obtain st1 v1 sg' rn' v2 where
    "killall 1 ((wit_sg, wit_rn), AnnotateTest 0 ''t'' 2 wit_vis) = Inr (st1, v1)"
    "shown TAG_PARTITION 1 (v_annotation v1) = fault_label (replicate 2 True, replicate 2 True)"
    "restartall 2 ?ds (st1, v1) = Inr ((sg', rn'), v2)" "\<forall>a < 2. \<forall>b < 2. connected sg' ! a \<and> linked (sg', rn') a b"
    unfolding wit_sg_up(2) by (elim exE conjE) rule
  then show ?thesis unfolding l by (intro exI [of _ st1] exI [of _ v1] exI [of _ sg'] exI [of _ rn'] exI [of _ v2]) simp
qed

theorem visualized_once_witness:
  "\<exists>v' as. checkPorcupine Illegal ''always'' True [] 1 2 wit_vis = (v', Some as, Inl (Fatal ''history is not linearizable'')) \<and>
     snd (ann_cleanup ''always'' True [] 3 4 True ''end'' (v_annotation v')) = None"
proof -
  obtain v' as where c: "checkPorcupine Illegal ''always'' True [] 1 2 wit_vis = (v', Some as, Inl (Fatal ''history is not linearizable''))"
    by (simp add: checkPorcupine_def case_prod_beta Let_def)
  from visualized_once [OF c] c show ?thesis by blast
qed

theorem raft_kill_restart_witness:
  "\<exists>ts1 ts2. raft_kill 1 [1] \<lparr>rf_grp = wit_sg, rf_net = wit_rn, rf_vis = AnnotateTest 0 ''t'' 2 wit_vis, rf_proxies = [Some 5, Some 6]\<rparr> = Inr ts1 \<and>
     raft_restart 2 [1] [([''x'', ''y''], 7)] ts1 = Inr ts2 \<and> rf_proxies ts1 ! 1 = None \<and> rf_proxies ts2 ! 1 \<noteq> None"
proof -
  let ?ts = "\<lparr>rf_grp = wit_sg, rf_net = wit_rn, rf_vis = AnnotateTest 0 ''t'' 2 wit_vis, rf_proxies = [Some 5, Some 6]\<rparr>"
  have g: "grp_in (rf_grp ?ts) (rf_net ?ts)" "sg_N (rf_grp ?ts) = 2" "length (rf_proxies ?ts) = 2"
    "rf_vis ?ts = AnnotateTest 0 ''t'' 2 wit_vis" "\<forall>i < 2. dc (srvs (rf_grp ?ts) ! i) \<noteq> None"
    using wit_sg_in wit_sg_up by simp_all
  have d: "(1 :: int) \<le> 2" "\<forall>i \<in> set [1 :: nat]. i < 2" "length [([''x'', ''y''], 7 :: nat)] = length [1 :: nat]"
    "fresh_draws 2 (rf_net ?ts) [([''x'', ''y''], 7)]"
    by (auto simp: fresh_draws_def fresh_names_def wit_rn_def)
  from raft_kill_restart [OF g d] obtain ts1 ts2 where "raft_kill 1 [1] ?ts = Inr ts1" "raft_restart 2 [1] [([''x'', ''y''], 7)] ts1 = Inr ts2"
    "\<forall>i < 2. rf_proxies ts1 ! i = (if i \<in> set [1] then None else rf_proxies ?ts ! i)"
    "\<forall>i \<in> set [1]. connected (rf_grp ts2) ! i \<and> rf_proxies ts2 ! i \<noteq> None" by (elim exE conjE) rule
  then show ?thesis by (intro exI [of _ ts1] exI [of _ ts2]) simp
qed

end
