(* ===== verification/TestSetup.thy ===== *)
theory TestSetup
  imports KvRaftTest ShardTest
begin

text \<open>
  How the labs' tests begin and end: the \<open>MakeTest\<close> functions of \<open>kvsrv1/test.go\<close>, \<open>kvtest1/kvtest.go\<close>,
  \<open>kvraft1/test.go\<close>, \<open>kvraft1/rsm/test.go\<close>, \<open>raft1/test.go\<close> and \<open>shardkv1/test.go\<close>, the settings of \<open>tester1/config.go\<close>
  they make, the clerks the tests hand out, and the counting of operations.

  Shown: every lab's set-up succeeds with fresh end names, with all servers running, connected and, where
  the test talks to them, each with the proxy of its own process; making and deleting a clerk gives the
  clients back; what the counter of operations counts; \<open>PutAtLeastOnceJson\<close> does not store anything under a
  key that exists.
\<close>

section \<open>tester1/config.go: settings\<close>

definition SetReliable :: "bool \<Rightarrow> config \<Rightarrow> config" where
  "SetReliable r cfg = cfg\<lparr>cfg_net := Reliable r (cfg_net cfg)\<rparr>"

definition cfg_IsReliable :: "config \<Rightarrow> bool" where "cfg_IsReliable cfg = IsReliable (cfg_net cfg)"

definition SetLongReordering :: "bool \<Rightarrow> config \<Rightarrow> config" where
  "SetLongReordering r cfg = cfg\<lparr>cfg_net := LongReordering r (cfg_net cfg)\<rparr>"

definition SetLongDelays :: "bool \<Rightarrow> config \<Rightarrow> config" where
  "SetLongDelays d cfg = cfg\<lparr>cfg_net := LongDelays d (cfg_net cfg)\<rparr>"

definition cfg_Group :: "int \<Rightarrow> config \<Rightarrow> server_grp result" where
  "cfg_Group gid cfg =
     (case lookupGroup gid (cfg_groups cfg) of None \<Rightarrow> Inl (Panic ''nil pointer dereference'') | Some sg \<Rightarrow> Inr sg)"

section \<open>kvtest1/kvtest.go: the test of a key/value service\<close>

record kv_test =
  kv_config :: config
  kv_oplog :: "op_log option"
  kv_randomkeys :: bool

definition kvtest_MakeTest :: "config \<Rightarrow> bool \<Rightarrow> kv_test" where
  "kvtest_MakeTest cfg rk = \<lparr>kv_config = cfg, kv_oplog = Some [], kv_randomkeys = rk\<rparr>"

text \<open>\<open>Cleanup\<close>: the statistics, and the configuration taken apart.\<close>

definition kvtest_Cleanup :: "bool \<Rightarrow> int \<Rightarrow> kv_test \<Rightarrow> ((nat \<times> int \<times> int) option \<times> config) result" where
  "kvtest_Cleanup bad seconds ts =
     res_bind (cfg_End bad seconds (kv_config ts)) (\<lambda>stats.
     res_bind (cfg_Cleanup (kv_config ts)) (\<lambda>cfg. Inr (stats, cfg)))"

fun ConnectClnts :: "clnt list \<Rightarrow> network \<Rightarrow> clnt list \<times> network" where
  "ConnectClnts [] rn = ([], rn)"
| "ConnectClnts (c # cs) rn =
     (let (c', rn1) = clnt_ConnectAll (c, rn); (cs', rn2) = ConnectClnts cs rn1 in (c' # cs', rn2))"

text \<open>
  A clerk of a test: the names of the servers it talks to and its client, which is the number \<open>cid\<close>. \<open>TestClerk\<close>
  counts an operation before it passes it on.
\<close>

record test_clerk =
  tck_names :: "string list"
  tck_clnt :: nat

definition make_clerk :: "string list \<Rightarrow> nat \<Rightarrow> config \<Rightarrow> test_clerk \<times> config" where
  "make_clerk ns cid cfg = (\<lparr>tck_names = ns, tck_clnt = cid\<rparr>, cfg\<lparr>cfg_clnts := MakeClient cid (cfg_clnts cfg)\<rparr>)"

definition delete_clerk :: "test_clerk \<Rightarrow> config \<Rightarrow> config result" where
  "delete_clerk ck cfg =
     res_bind (DeleteClient (tck_clnt ck) (cfg_clnts cfg, cfg_net cfg)) (\<lambda>(cs, rn).
       Inr (cfg\<lparr>cfg_clnts := cs, cfg_net := rn\<rparr>))"

text \<open>
  One operation through a \<open>TestClerk\<close> and one of the recording functions of \<open>porcupine.go\<close>, on the log and the
  operation counter; \<open>r\<close> and \<open>e\<close> are the answers. \<open>Test.Get\<close> and \<open>Test.Put\<close> are what \<open>PutAtLeastOnce\<close> and
  \<open>CheckGet\<close> use, \<open>Get\<close> and \<open>Put\<close> what the JSON functions use; \<open>Test.Put\<close> does not count.
\<close>

definition tck_count :: "op_log option \<times> int \<Rightarrow> op_log option \<times> int" where
  "tck_count st = (case st of (log, ops) \<Rightarrow> (log, ops + 1))"

definition ts_Get ::
  "get_reply \<Rightarrow> string \<Rightarrow> int \<Rightarrow> int \<Rightarrow> int \<Rightarrow> op_log option \<times> int \<Rightarrow> get_reply \<times> op_log option \<times> int" where
  "ts_Get r key cli start ende st =
     (case st of (log, ops) \<Rightarrow>
        (r, map_option (OpLog_Append
              \<lparr>op_io = (\<lparr>in_Op = 0, in_Key = key, in_Value = '''', in_Version = 0\<rparr>,
                 \<lparr>out_Value = gr_Value r, out_Version = gr_Version r, out_Err = err_string (gr_Err r)\<rparr>),
               op_Call = start, op_Return = ende, op_ClientId = cli\<rparr>) log, ops + 1))"

definition ts_Put ::
  "err \<Rightarrow> put_args \<Rightarrow> int \<Rightarrow> int \<Rightarrow> int \<Rightarrow> op_log option \<times> int \<Rightarrow> err \<times> op_log option \<times> int" where
  "ts_Put e a cli start ende st =
     (case st of (log, ops) \<Rightarrow>
        (e, map_option (OpLog_Append
              \<lparr>op_io = (\<lparr>in_Op = 1, in_Key = pa_Key a, in_Value = pa_Value a, in_Version = pa_Version a\<rparr>,
                 \<lparr>out_Value = '''', out_Version = 0, out_Err = err_string e\<rparr>),
               op_Call = start, op_Return = ende, op_ClientId = cli\<rparr>) log, ops))"

text \<open>
  \<open>PutAtLeastOnceJson\<close> over the clerk: every call puts version 0; each call has its script, \<open>None\<close> is a run that
  has not ended.
\<close>

fun PutAtLeastOnceJson :: "string \<Rightarrow> entryV \<Rightarrow> script list \<Rightarrow> tversion \<Rightarrow> kv_server \<Rightarrow> kv_server \<times> tversion option" where
  "PutAtLeastOnceJson key v [] ver kv = (kv, None)"
| "PutAtLeastOnceJson key v (sc # scs) ver kv =
     (let r = clerk_Put (PutJson_args key v 0) sc kv False
      in case cr_result r of
           None \<Rightarrow> (cr_srv r, None)
         | Some e \<Rightarrow> if e \<noteq> ErrMaybe then (cr_srv r, Some ver) else PutAtLeastOnceJson key v scs (ver + 1) (cr_srv r))"

section \<open>The labs' set-ups\<close>

text \<open>\<open>b\<close>, \<open>names\<close> and \<open>draws\<close> are the random bytes and end names that \<open>MakeConfig\<close> draws.\<close>

definition MakeTestKV :: "nat list \<Rightarrow> string list list \<Rightarrow> (string list \<times> nat) list \<Rightarrow> bool \<Rightarrow> kv_test result" where
  "MakeTestKV b names draws rel = res_bind (MakeConfig b names draws rel) (\<lambda>cfg. Inr (kvtest_MakeTest cfg False))"

definition TestKV_MakeClerk :: "nat \<Rightarrow> config \<Rightarrow> test_clerk \<times> config" where
  "TestKV_MakeClerk cid cfg = make_clerk [ServerName GRP0 0] cid cfg"

definition kvraft_MakeTest ::
  "kvraft_test \<Rightarrow> nat list \<Rightarrow> string list list \<Rightarrow> (string list \<times> nat) list \<Rightarrow> bool \<Rightarrow> (kv_test \<times> string \<times> string list) result" where
  "kvraft_MakeTest ts b names draws rel =
     res_bind (MakeConfig b names draws rel) (\<lambda>cfg.
       Inr (kvtest_MakeTest (cfg_Begin cfg) (kt_randomkeys ts), makeTitle ts, [max_raft_arg ts]))"

definition kvraft_MakeClerk :: "nat \<Rightarrow> config \<Rightarrow> (test_clerk \<times> config) result" where
  "kvraft_MakeClerk cid cfg = res_bind (cfg_Group GRP0 cfg) (\<lambda>sg. Inr (make_clerk (SrvNames sg) cid cfg))"

text \<open>The loop over \<open>mksrv\<close>: server \<open>i\<close> gets the proxy of its own process.\<close>

fun mk_proxies :: "(nat \<times> nat) list \<Rightarrow> nat option list \<Rightarrow> nat option list result" where
  "mk_proxies [] ps = Inr ps"
| "mk_proxies ((i, p) # rest) ps = res_bind (set_proxy (Some p) i ps) (mk_proxies rest)"

definition proxies_of :: "nat \<Rightarrow> (string list \<times> nat) list \<Rightarrow> nat option list result" where
  "proxies_of n draws = mk_proxies (zip [0..<n] (map snd draws)) (replicate n None)"

definition raft_makeTest ::
  "nat list \<Rightarrow> string list list \<Rightarrow> (string list \<times> nat) list \<Rightarrow> bool \<Rightarrow> vis \<Rightarrow> (config \<times> raft_test) result" where
  "raft_makeTest b names draws rel v =
     res_bind (MakeConfig b names draws rel) (\<lambda>cfg0.
     let cfg = SetLongDelays True cfg0
     in res_bind (cfg_Group GRP0 cfg) (\<lambda>sg.
        res_bind (proxies_of (length names) draws) (\<lambda>ps.
          Inr (cfg, \<lparr>rf_grp = sg, rf_net = cfg_net cfg, rf_vis = v, rf_proxies = ps\<rparr>))))"

definition rsm_makeTest ::
  "nat list \<Rightarrow> string list list \<Rightarrow> (string list \<times> nat) list \<Rightarrow> (config \<times> server_grp \<times> nat option list \<times> rsm_test) result" where
  "rsm_makeTest b names draws =
     res_bind (MakeConfig b names draws True) (\<lambda>cfg.
     res_bind (cfg_Group GRP0 cfg) (\<lambda>sg.
     res_bind (proxies_of (nat NSRV) draws) (\<lambda>ps. Inr (cfg, sg, ps, \<lparr>rt_leader = 0, rt_ops = 0\<rparr>))))"

text \<open>\<open>MakeTestMaxRaft\<close>: one server for the controller; \<open>sck\<close> is nil at first.\<close>

definition MakeTestMaxRaft ::
  "string \<Rightarrow> nat list \<Rightarrow> string list list \<Rightarrow> (string list \<times> nat) list \<Rightarrow> bool \<Rightarrow> int \<Rightarrow> 'c \<Rightarrow> vis \<Rightarrow> ('c shard_test \<times> vis) result" where
  "MakeTestMaxRaft part b names draws rel t sck0 v =
     res_bind (MakeConfig b names draws rel) (\<lambda>cfg.
       Inr (\<lparr>ts_sck = sck0, ts_config = cfg_Begin cfg, ts_ngid = Gid1 + 1\<rparr>, AnnotateTest t part 1 v))"

text \<open>
  The clerks of \<open>shardkv1/test.go\<close>: a controller has a client of its own, and so has the controller inside a clerk; \<open>DeleteClerk\<close> has only
  the clerk's.
\<close>

definition makeShardCtrlerClnt :: "nat \<Rightarrow> config \<Rightarrow> test_clerk \<times> config" where
  "makeShardCtrlerClnt cid cfg = make_clerk [ServerName GRP0 0] cid cfg"

definition makeKVClerk :: "nat \<Rightarrow> config \<Rightarrow> test_clerk \<times> config" where
  "makeKVClerk cid cfg = make_clerk [ServerName GRP0 0] cid cfg"

definition shard_MakeClerk :: "nat \<Rightarrow> nat \<Rightarrow> config \<Rightarrow> test_clerk \<times> config" where
  "shard_MakeClerk cid sid cfg =
     (let (ck, cfg1) = make_clerk [] cid cfg;
          (sck, cfg2) = makeShardCtrlerClnt sid cfg1
      in (ck, cfg2))"

text \<open>The end of \<open>partitionCtrler\<close> and \<open>concurCtrler\<close>: every key has its value, put once; \<open>rs\<close> are the answers of the clerk.\<close>

fun check_values :: "get_reply list \<Rightarrow> string list \<Rightarrow> unit result" where
  "check_values (r # rs) (v # vs) = res_bind (CheckGet r v 1) (\<lambda>_. check_values rs vs)"
| "check_values [] _ = Inr ()"
| "check_values (r # rs) [] = Inl (Panic ''index out of range'')"

section \<open>kvraft1/rsm/test.go: the rest of the tester\<close>

text \<open>\<open>oneInc\<close> and \<open>oneNull\<close> on the reply of \<open>onePartition\<close>: no reply gives the zero value, and a reply of another type panics.\<close>

definition oneInc :: "rsm_rep option \<Rightarrow> int result" where
  "oneInc rep = (case rep of None \<Rightarrow> Inr 0 | Some (IncRep n) \<Rightarrow> Inr n | Some NullRep \<Rightarrow> Inl (Panic ''interface conversion''))"

definition oneNull :: "rsm_rep option \<Rightarrow> unit result" where
  "oneNull rep = (case rep of None \<Rightarrow> Inr () | Some NullRep \<Rightarrow> Inr () | Some (IncRep n) \<Rightarrow> Inl (Panic ''interface conversion''))"

definition disconnectLeader :: "rsm_test \<Rightarrow> server_grp \<times> network \<Rightarrow> (int \<times> server_grp \<times> network) result" where
  "disconnectLeader ts st =
     (if rt_leader ts < 0 then Inl (Panic ''index out of range'')
      else res_bind (sg_DisconnectAll (nat (rt_leader ts)) st) (\<lambda>st'. Inr (rt_leader ts, st')))"

definition rsm_connect :: "nat \<Rightarrow> server_grp \<times> network \<Rightarrow> (server_grp \<times> network) result" where
  "rsm_connect i st = ConnectOne i st"

section \<open>Set-ups\<close>

lemma mk_proxies_all:
  "length b = length ps \<Longrightarrow> mk_proxies (zip [length a..<length a + length ps] ps) (a @ b) = Inr (a @ map Some ps)"
proof (induction ps arbitrary: a b)
  case (Cons p ps)
  then obtain x b' where b: "b = x # b'" by (cases b) auto
  have "zip [length a..<length a + length (p # ps)] (p # ps) = (length a, p) # zip [length (a @ [Some p])..<length (a @ [Some p]) + length ps] ps"
    by (simp add: upt_rec)
  moreover have "set_proxy (Some p) (length a) (a @ b) = Inr ((a @ [Some p]) @ b')"
    by (simp add: set_proxy_def go_update_def b)
  ultimately show ?case using Cons.IH [of b' "a @ [Some p]"] Cons.prems b by (simp only: mk_proxies.simps res_bind.simps) simp
qed simp

lemma proxies_of_all: "length draws = n \<Longrightarrow> proxies_of n draws = Inr (map (\<lambda>d. Some (snd d)) draws)"
  using mk_proxies_all [of "replicate n None" "map snd draws" "[]"] by (simp add: proxies_of_def comp_def)

text \<open>
  A Raft test begins with a complete group: with fresh end names \<open>makeTest\<close> succeeds, every server runs with an
  empty persister and is connected with every other, the tester has for every server the proxy of its own
  process, and calls of disconnected servers are delayed for long.
\<close>
theorem raft_makeTest_ready:
  assumes "length b = 40" and "length draws = length names"
    and "fresh_draws (length names) MakeNetwork (map (\<lambda>x. (x, 0)) names @ draws)"
  shows "\<exists>cfg ts. raft_makeTest b names draws rel v = Inr (cfg, ts) \<and> rf_proxies ts = map (\<lambda>d. Some (snd d)) draws \<and>
    IsLongDelays (rf_net ts) \<and> cfg_IsReliable cfg = rel \<and> sg_N (rf_grp ts) = length names \<and>
    (\<forall>i < length names. dc (srvs (rf_grp ts) ! i) = Some MakePersister) \<and>
    (\<forall>i < length names. \<forall>j < length names. connected (rf_grp ts) ! i \<and> linked (rf_grp ts, rf_net ts) i j)"
proof -
  obtain cfg sg where 1: "MakeConfig b names draws rel = Inr cfg" "lookupGroup GRP0 (cfg_groups cfg) = Some sg"
    "sg_N sg = length names" "IsReliable (cfg_net cfg) = rel" "\<forall>i < length names. dc (srvs sg ! i) = Some MakePersister"
    "\<forall>i < length names. \<forall>j < length names. connected sg ! i \<and> linked (sg, cfg_net cfg) i j"
    using MakeConfig_ready [OF assms, of rel] by blast
  have "linked (sg, LongDelays True (cfg_net cfg)) i j = linked (sg, cfg_net cfg) i j" for i j
    by (simp add: linked_def LongDelays_def get_enabled_def)
  moreover have "raft_makeTest b names draws rel v = Inr (SetLongDelays True cfg,
      \<lparr>rf_grp = sg, rf_net = LongDelays True (cfg_net cfg), rf_vis = v, rf_proxies = map (\<lambda>d. Some (snd d)) draws\<rparr>)"
    using 1(1,2) proxies_of_all [OF assms(2)] by (simp add: raft_makeTest_def SetLongDelays_def cfg_Group_def Let_def)
  moreover have "cfg_IsReliable (SetLongDelays True cfg) = rel" "IsLongDelays (LongDelays True (cfg_net cfg))"
    using 1(4) by (simp_all add: cfg_IsReliable_def SetLongDelays_def LongDelays_def IsReliable_def IsLongDelays_def)
  ultimately show ?thesis using 1(3,5,6) by simp
qed

section \<open>Counting operations\<close>

text \<open>
  An operation of a test's clerk counts once in \<open>TestClerk\<close>. \<open>Test.Get\<close>, \<open>Get\<close> and \<open>Put\<close> count it again, \<open>Test.Put\<close> does not.
\<close>

lemma operations_counted:
  "snd (snd (ts_Get r key cli s t (tck_count (log, ops)))) = ops + 2"
  "snd (snd (log_Get r key cli s t (tck_count (log, ops)))) = ops + 2"
  "snd (snd (log_Put e a cli s t (tck_count (log, ops)))) = ops + 2"
  "snd (snd (ts_Put e a cli s t (tck_count (log, ops)))) = ops + 1"
  by (simp_all add: ts_Get_def ts_Put_def log_Get_def log_Put_def tck_count_def)

text \<open>Both kinds of recording functions record the same operation.\<close>

lemma recorded_alike:
  "fst (snd (ts_Get r key cli s t st)) = fst (snd (log_Get r key cli s t st))"
  "fst (snd (ts_Put e a cli s t st)) = fst (snd (log_Put e a cli s t st))"
  by (simp_all add: ts_Get_def ts_Put_def log_Get_def log_Put_def case_prod_beta)

section \<open>PutAtLeastOnceJson\<close>

lemma clerk_Put_stale:
  assumes "\<forall>t \<in> set sc. \<forall>x \<in> set (fst t). pa_Key x \<noteq> pa_Key a" "kv_lookup kv (pa_Key a) = Some (val, ver)" "ver \<noteq> pa_Version a"
  shows "kv_lookup (cr_srv (clerk_Put a sc kv r)) (pa_Key a) = Some (val, ver) \<and> cr_result (clerk_Put a sc kv r) \<in> {None, Some ErrVersion, Some ErrMaybe}"
  using assms(1,2)
proof (induction sc arbitrary: kv r)
  case (Cons t sc)
  obtain others d where t: "t = (others, d)" by (cases t)
  let ?kv = "fst (store_run kv_put kv others)"
  have same: "kv_lookup ?kv (pa_Key a) = Some (val, ver)"
    using Cons.prems t run_other_keys [of others "pa_Key a" kv] by simp
  then have put: "kv_put ?kv a = (?kv, ErrVersion)"
    using kv.put_miss [of ?kv a] assms(3) by (simp add: generation_def)
  show ?case using Cons.IH [of ?kv True] Cons.prems(1) same put t
    by (cases d) (auto simp: clerk_Put_Cons Let_def put_answer_def)
qed simp

text \<open>
  \<open>PutAtLeastOnceJson\<close> never stores its value under a key that exists, not even if it is given the key's
  current version: over any losses it leaves the key as it was, and when the first attempt is delivered it
  returns the version it was given as if it had succeeded.
\<close>
theorem PutAtLeastOnceJson_stale:
  assumes "kv_lookup kv key = Some (val, n)" and "n \<noteq> 0"
    and "\<forall>sc \<in> set scs. \<forall>t \<in> set sc. \<forall>x \<in> set (fst t). pa_Key x \<noteq> key"
  shows "kv_lookup (fst (PutAtLeastOnceJson key v scs ver kv)) key = Some (val, n) \<and>
    snd (PutAtLeastOnceJson key v ([([], Delivered)] # scs) n kv) = Some n"
proof -
  have stale: "kv_lookup (cr_srv (clerk_Put (PutJson_args key v 0) sc s False)) key = Some (val, n)"
    if "sc \<in> set scs" "kv_lookup s key = Some (val, n)" for sc s
    using clerk_Put_stale [of sc "PutJson_args key v 0" s val n False] assms(2,3) that by (simp add: PutJson_args_def)
  have "kv_lookup (fst (PutAtLeastOnceJson key v ss ver kv)) key = Some (val, n)" if "set ss \<subseteq> set scs" for ss
    using that assms(1)
  proof (induction ss arbitrary: ver kv)
    case (Cons sc ss)
    then show ?case using stale [of sc kv] by (auto simp: Let_def split: option.split)
  qed simp
  moreover have "kv_put kv (PutJson_args key v 0) = (kv, ErrVersion)"
    using kv.put_miss [of kv "PutJson_args key v 0"] assms(1,2) by (simp add: generation_def PutJson_args_def)
  then have "snd (PutAtLeastOnceJson key v ([([], Delivered)] # scs) n kv) = Some n"
    by (simp add: clerk_Put_Cons put_answer_def Let_def)
  ultimately show ?thesis by blast
qed

section \<open>The life of a clerk\<close>

text \<open>A clerk calls servers, each time with a name drawn for an end it may have to make.\<close>

fun open_ends :: "(string \<times> string) list \<Rightarrow> clnt \<times> network \<Rightarrow> (clnt \<times> network) result" where
  "open_ends [] st = Inr st"
| "open_ends ((name, server) # calls) st = res_bind (clnt_makeEnd name server st) (\<lambda>(e, st'). open_ends calls st')"

definition unused :: "network \<Rightarrow> string \<Rightarrow> bool" where
  "unused rn e \<longleftrightarrow> map_of (ends rn) e = None \<and> map_of (enabled rn) e = None \<and> map_of (connections rn) e = None"

text \<open>Two networks that differ only in the ends \<open>E\<close>.\<close>

definition same_off :: "string set \<Rightarrow> network \<Rightarrow> network \<Rightarrow> bool" where
  "same_off E rn rn0 \<longleftrightarrow> servers rn = servers rn0 \<and> (\<forall>x. x \<notin> E \<longrightarrow> map_of (ends rn) x = map_of (ends rn0) x \<and>
     map_of (enabled rn) x = map_of (enabled rn0) x \<and> map_of (connections rn) x = map_of (connections rn0) x)"

definition clerk_ends :: "network \<Rightarrow> clnt \<times> network \<Rightarrow> bool" where
  "clerk_ends rn0 st \<longleftrightarrow> (case st of (c, rn) \<Rightarrow> clnt_srvs c = None \<and> distinct (map fst (clnt_ends c)) \<and> distinct (map snd (clnt_ends c)) \<and>
     (\<forall>e \<in> snd ` set (clnt_ends c). unused rn0 e \<and> map_of (ends rn) e \<noteq> None) \<and>
     (\<forall>(s, e) \<in> set (clnt_ends c). get_enabled rn e \<and> get_connection rn e = Some s) \<and> same_off (snd ` set (clnt_ends c)) rn rn0)"

lemma makeEnd_clerk_ends:
  assumes "clerk_ends rn0 (c, rn)" "unused rn0 name" "name \<notin> snd ` set (clnt_ends c)"
  shows "\<exists>e c' rn'. clnt_makeEnd name server (c, rn) = Inr (e, c', rn') \<and> clerk_ends rn0 (c', rn') \<and>
    server \<in> fst ` set (clnt_ends c') \<and> fst ` set (clnt_ends c) \<subseteq> fst ` set (clnt_ends c') \<and>
    snd ` set (clnt_ends c') \<subseteq> insert name (snd ` set (clnt_ends c))"
proof (cases "map_of (clnt_ends c) server")
  case (Some e)
  then have "server \<in> fst ` set (clnt_ends c)" using map_of_SomeD by force
  then show ?thesis using Some assms(1) by (auto simp: clnt_makeEnd_def)
next
  case None
  then have s: "server \<notin> fst ` set (clnt_ends c)" by (simp add: map_of_eq_None_iff)
  have n: "map_of (ends rn) name = None" using assms by (auto simp: clerk_ends_def same_off_def unused_def)
  define rn1 where "rn1 = Enable name True (Connect name server (rn\<lparr>ends := gm_put name () (ends rn),
      enabled := gm_put name False (enabled rn), connections := gm_put name None (connections rn)\<rparr>))"
  define c1 where "c1 = c\<lparr>clnt_ends := clnt_ends c @ [(server, name)]\<rparr>"
  have "clnt_makeEnd name server (c, rn) = Inr (name, c1, rn1)"
    using None n s assms(1) by (simp add: clnt_makeEnd_def MakeEnd_def rn1_def c1_def gm_put_new allowedL_def clerk_ends_def Let_def)
  moreover have "same_off (insert name (snd ` set (clnt_ends c))) rn1 rn0"
    using assms(1) by (auto simp: clerk_ends_def same_off_def rn1_def Enable_def Connect_def)
  moreover have old: "e \<noteq> name" if "(s, e) \<in> set (clnt_ends c)" for s e using that assms(3) by force
  have "\<forall>(s, e) \<in> set (clnt_ends c). get_enabled rn1 e \<and> get_connection rn1 e = Some s \<and> map_of (ends rn1) e \<noteq> None"
    using assms(1) old by (fastforce simp: clerk_ends_def rn1_def get_enabled_def get_connection_def Enable_def Connect_def)
  moreover have "get_enabled rn1 name" "get_connection rn1 name = Some server" "map_of (ends rn1) name \<noteq> None"
    by (simp_all add: rn1_def get_enabled_def get_connection_def Enable_def Connect_def)
  ultimately have "clerk_ends rn0 (c1, rn1)" using assms s by (auto simp: clerk_ends_def c1_def)
  then show ?thesis using \<open>clnt_makeEnd name server (c, rn) = Inr (name, c1, rn1)\<close> by (auto simp: c1_def)
qed

lemma open_ends_clerk_ends:
  assumes "clerk_ends rn0 (c, rn)" "\<forall>x \<in> set calls. unused rn0 (fst x)" "distinct (map fst calls)"
    and "fst ` set calls \<inter> snd ` set (clnt_ends c) = {}"
  shows "\<exists>c' rn'. open_ends calls (c, rn) = Inr (c', rn') \<and> clerk_ends rn0 (c', rn') \<and>
    snd ` set calls \<union> fst ` set (clnt_ends c) \<subseteq> fst ` set (clnt_ends c')"
  using assms
proof (induction calls arbitrary: c rn)
  case (Cons x calls)
  obtain name server where x: "x = (name, server)" by (cases x)
  have "unused rn0 name" "name \<notin> snd ` set (clnt_ends c)" using Cons.prems x by auto
  then obtain e c1 rn1 where 1: "clnt_makeEnd name server (c, rn) = Inr (e, c1, rn1)" "clerk_ends rn0 (c1, rn1)"
    "server \<in> fst ` set (clnt_ends c1)" "fst ` set (clnt_ends c) \<subseteq> fst ` set (clnt_ends c1)"
    "snd ` set (clnt_ends c1) \<subseteq> insert name (snd ` set (clnt_ends c))"
    using makeEnd_clerk_ends [OF Cons.prems(1), of name server] by blast
  have "fst ` set calls \<inter> snd ` set (clnt_ends c1) = {}"
  proof -
    have "name \<notin> fst ` set calls" "fst ` set calls \<inter> snd ` set (clnt_ends c) = {}" using Cons.prems(3,4) x by auto
    then show ?thesis using 1(5) by blast
  qed
  then obtain c' rn' where 2: "open_ends calls (c1, rn1) = Inr (c', rn')" "clerk_ends rn0 (c', rn')"
    "snd ` set calls \<union> fst ` set (clnt_ends c1) \<subseteq> fst ` set (clnt_ends c')"
    using Cons.IH [OF 1(2)] Cons.prems(2,3) by auto
  have "snd ` set (x # calls) \<union> fst ` set (clnt_ends c) \<subseteq> fst ` set (clnt_ends c')"
  proof -
    from 2(3) have a: "snd ` set calls \<subseteq> fst ` set (clnt_ends c')" and b: "fst ` set (clnt_ends c1) \<subseteq> fst ` set (clnt_ends c')"
      by (auto simp only: Un_subset_iff)
    show ?thesis unfolding x using a subsetD [OF b 1(3)] subset_trans [OF 1(4) b] by simp
  qed
  with 1(1) 2(1,2) x show ?case by simp
qed simp

lemma delete_ends_effect:
  assumes "distinct (map snd es)" "\<forall>e \<in> snd ` set es. map_of (ends rn) e \<noteq> None"
  shows "\<exists>rn'. delete_ends es rn = Inr rn' \<and> servers rn' = servers rn \<and>
    (\<forall>x. map_of (ends rn') x = (if x \<in> snd ` set es then None else map_of (ends rn) x) \<and>
         map_of (enabled rn') x = (if x \<in> snd ` set es then None else map_of (enabled rn) x) \<and>
         map_of (connections rn') x = (if x \<in> snd ` set es then None else map_of (connections rn) x))"
  using assms
proof (induction es arbitrary: rn)
  case (Cons p es)
  obtain s e where p: "p = (s, e)" by (cases p)
  define rn1 where "rn1 = rn\<lparr>ends := gm_delete e (ends rn), enabled := gm_delete e (enabled rn), connections := gm_delete e (connections rn)\<rparr>"
  have "DeleteEnd e rn = Inr rn1" using Cons.prems(2) p by (simp add: DeleteEnd_def rn1_def)
  moreover have "e \<notin> snd ` set es" using Cons.prems(1) p by simp
  then have "\<forall>x \<in> snd ` set es. map_of (ends rn1) x \<noteq> None" using Cons.prems(2) p by (auto simp: rn1_def)
  then obtain rn' where 1: "delete_ends es rn1 = Inr rn'" "servers rn' = servers rn1"
    "\<forall>x. map_of (ends rn') x = (if x \<in> snd ` set es then None else map_of (ends rn1) x) \<and>
         map_of (enabled rn') x = (if x \<in> snd ` set es then None else map_of (enabled rn1) x) \<and>
         map_of (connections rn') x = (if x \<in> snd ` set es then None else map_of (connections rn1) x)"
    using Cons.IH [of rn1] Cons.prems(1) by auto
  then show ?case using \<open>DeleteEnd e rn = Inr rn1\<close> p by (intro exI [of _ rn']) (simp add: rn1_def)
qed simp

text \<open>
  C34: a clerk leaves no trace. A new client that calls any servers in any order gets, for names not used before, one
  enabled end per server, connected to that server; deleting it succeeds, and all ends, their flags and
  connections, the servers and the other clients are as before.
\<close>
theorem clerk_leaves_no_trace:
  assumes "map_of (clerks cs) p = None" and "\<forall>x \<in> set calls. unused rn (fst x)" and "distinct (map fst calls)"
  shows "\<exists>c rn1 cs' rn'. open_ends calls (makeClntTo None, rn) = Inr (c, rn1) \<and>
    (\<forall>x \<in> set calls. \<exists>e. map_of (clnt_ends c) (snd x) = Some e \<and> get_enabled rn1 e \<and> get_connection rn1 e = Some (snd x)) \<and>
    DeleteClient p (cs\<lparr>clerks := gm_put p c (clerks cs)\<rparr>, rn1) = Inr (cs', rn') \<and>
    map_of (clerks cs') = map_of (clerks cs) \<and> map_of (ends rn') = map_of (ends rn) \<and> map_of (enabled rn') = map_of (enabled rn) \<and>
    map_of (connections rn') = map_of (connections rn) \<and> servers rn' = servers rn"
proof -
  have "clerk_ends rn (makeClntTo None, rn)" by (simp add: clerk_ends_def makeClntTo_def same_off_def)
  from open_ends_clerk_ends [OF this assms(2,3)] obtain c rn1 where 1: "open_ends calls (makeClntTo None, rn) = Inr (c, rn1)"
    "clerk_ends rn (c, rn1)" "snd ` set calls \<subseteq> fst ` set (clnt_ends c)"
    by (auto simp: makeClntTo_def)
  have "\<exists>e. map_of (clnt_ends c) (snd x) = Some e \<and> get_enabled rn1 e \<and> get_connection rn1 e = Some (snd x)" if "x \<in> set calls" for x
  proof -
    have "snd x \<in> fst ` set (clnt_ends c)" using 1(3) that by (meson imageI subsetD)
    then obtain y where "snd x = fst y" "y \<in> set (clnt_ends c)" by (rule imageE)
    then obtain e where "(snd x, e) \<in> set (clnt_ends c)" by (cases y) simp
    moreover from 1(2) have "distinct (map fst (clnt_ends c))" "\<forall>(s, e) \<in> set (clnt_ends c). get_enabled rn1 e \<and> get_connection rn1 e = Some s"
      by (simp_all add: clerk_ends_def)
    ultimately show ?thesis by (intro exI [of _ e]) (auto simp: map_of_is_SomeI)
  qed
  moreover obtain rn' where 2: "delete_ends (clnt_ends c) rn1 = Inr rn'" "servers rn' = servers rn1"
    "\<forall>x. map_of (ends rn') x = (if x \<in> snd ` set (clnt_ends c) then None else map_of (ends rn1) x) \<and>
         map_of (enabled rn') x = (if x \<in> snd ` set (clnt_ends c) then None else map_of (enabled rn1) x) \<and>
         map_of (connections rn') x = (if x \<in> snd ` set (clnt_ends c) then None else map_of (connections rn1) x)"
    using delete_ends_effect [of "clnt_ends c" rn1] 1(2) by (auto simp: clerk_ends_def)
  have "map_of (ends rn') x = map_of (ends rn) x \<and> map_of (enabled rn') x = map_of (enabled rn) x \<and>
      map_of (connections rn') x = map_of (connections rn) x" for x
  proof -
    have "unused rn x" if "x \<in> snd ` set (clnt_ends c)" using 1(2) that by (auto simp: clerk_ends_def)
    moreover have "same_off (snd ` set (clnt_ends c)) rn1 rn" using 1(2) by (simp add: clerk_ends_def)
    ultimately show ?thesis using 2(3) [rule_format, of x] by (cases "x \<in> snd ` set (clnt_ends c)") (simp_all add: same_off_def unused_def)
  qed
  moreover have "servers rn' = servers rn" using 1(2) 2(2) by (simp add: clerk_ends_def same_off_def)
  moreover have "DeleteClient p (cs\<lparr>clerks := gm_put p c (clerks cs)\<rparr>, rn1) = Inr (cs\<lparr>clerks := gm_delete p (gm_put p c (clerks cs))\<rparr>, rn')"
    using 2(1) by (simp add: DeleteClient_def clnt_remove_def)
  moreover have "map_of (gm_delete p (gm_put p c (clerks cs))) = map_of (clerks cs)" using assms(1) by (auto simp: fun_eq_iff)
  ultimately show ?thesis using 1(1)
    by (intro exI [of _ c] exI [of _ rn1] exI [of _ "cs\<lparr>clerks := gm_delete p (gm_put p c (clerks cs))\<rparr>"] exI [of _ rn']) (auto simp: fun_eq_iff)
qed

text \<open>
  A clerk of the sharded store leaves a trace: after \<open>MakeClerk\<close> and \<open>DeleteClerk\<close> the client of the controller inside it is still there, and
  nothing has a handle on it any more.
\<close>
theorem shard_clerk_leaks:
  assumes "map_of (clerks (cfg_clnts cfg)) cid = None" "map_of (clerks (cfg_clnts cfg)) sid = None" "cid \<noteq> sid"
    and "shard_MakeClerk cid sid cfg = (ck, cfg1)"
  shows "\<exists>cfg2. delete_clerk ck cfg1 = Inr cfg2 \<and> cfg_net cfg2 = cfg_net cfg \<and>
    map_of (clerks (cfg_clnts cfg2)) = (map_of (clerks (cfg_clnts cfg)))(sid \<mapsto> makeClntTo None)"
proof -
  have "ck = \<lparr>tck_names = [], tck_clnt = cid\<rparr>" "cfg1 = cfg\<lparr>cfg_clnts := MakeClient sid (MakeClient cid (cfg_clnts cfg))\<rparr>"
    using assms(4) by (auto simp: shard_MakeClerk_def makeShardCtrlerClnt_def make_clerk_def)
  moreover have "clnt_remove (makeClntTo None) rn = Inr rn" for rn by (simp add: clnt_remove_def makeClntTo_def)
  ultimately show ?thesis using assms(1-3)
    by (auto simp: delete_clerk_def DeleteClient_def MakeClient_def MakeClientTo_def fun_eq_iff)
qed

section \<open>Witnesses of the set-ups\<close>

theorem raft_makeTest_ready_witness:
  "\<exists>cfg ts. raft_makeTest (replicate 40 0) [[''a'', ''b''], [''c'', ''d'']] [([''e'', ''f''], 4), ([''g'', ''h''], 5)] False wit_vis = Inr (cfg, ts) \<and>
     rf_proxies ts = [Some 4, Some 5] \<and> linked (rf_grp ts, rf_net ts) 1 0"
proof -
  have "fresh_draws (length [[''a'', ''b''], [''c'', ''d'']]) MakeNetwork
      (map (\<lambda>x. (x, 0)) [[''a'', ''b''], [''c'', ''d'']] @ [([''e'', ''f''], 4), ([''g'', ''h''], 5)])"
    by (auto simp: fresh_draws_def fresh_names_def MakeNetwork_def)
  from raft_makeTest_ready [OF _ _ this, of "replicate 40 0" False wit_vis] show ?thesis by fastforce
qed

theorem PutAtLeastOnceJson_stale_witness:
  "kv_lookup (fst (PutAtLeastOnceJson ''x'' \<lparr>ev_Id = 1, ev_V = 1\<rparr> [[([], LostReply), ([], Delivered)], [([], Delivered)]] 1
     (fst (kv_put MakeKVServer \<lparr>pa_Key = ''x'', pa_Value = ''old'', pa_Version = 0\<rparr>)))) ''x'' = Some (''old'', 1)"
proof -
  have "kv_lookup (fst (kv_put MakeKVServer \<lparr>pa_Key = ''x'', pa_Value = ''old'', pa_Version = 0\<rparr>)) ''x'' = Some (''old'', 1)"
    by code_simp
  from PutAtLeastOnceJson_stale [OF this, of "[[([], LostReply), ([], Delivered)], [([], Delivered)]]" "\<lparr>ev_Id = 1, ev_V = 1\<rparr>" 1]
  show ?thesis by simp
qed

theorem clerk_leaves_no_trace_witness:
  "\<exists>c rn1 cs' rn'. open_ends [(''e1'', ''s''), (''e2'', ''t''), (''e3'', ''s'')] (makeClntTo None, MakeNetwork) = Inr (c, rn1) \<and>
    DeleteClient 9 (\<lparr>clerks = [(9, c)]\<rparr>, rn1) = Inr (cs', rn') \<and> map_of (clerks cs') 9 = None \<and> map_of (ends rn') ''e1'' = None"
proof -
  have 1: "map_of (clerks \<lparr>clerks = []\<rparr>) 9 = None" by simp
  have 2: "\<forall>x \<in> set [(''e1'', ''s''), (''e2'', ''t''), (''e3'', ''s'')]. unused MakeNetwork (fst x)" by (simp add: unused_def MakeNetwork_def)
  have 3: "distinct (map fst [(''e1'', ''s''), (''e2'', ''t''), (''e3'', ''s'')])" by simp
  have 4: "map_of (ends MakeNetwork) ''e1'' = None" by (simp add: MakeNetwork_def)
  obtain c rn1 cs' rn' where w: "open_ends [(''e1'', ''s''), (''e2'', ''t''), (''e3'', ''s'')] (makeClntTo None, MakeNetwork) = Inr (c, rn1)"
    "DeleteClient 9 (\<lparr>clerks = []\<rparr>\<lparr>clerks := gm_put 9 c (clerks \<lparr>clerks = []\<rparr>)\<rparr>, rn1) = Inr (cs', rn')"
    "map_of (clerks cs') = map_of (clerks \<lparr>clerks = []\<rparr>)" "map_of (ends rn') = map_of (ends MakeNetwork)"
    using clerk_leaves_no_trace [OF 1 2 3] by (elim exE conjE) rule
  have "map_of (clerks cs') 9 = None" "map_of (ends rn') ''e1'' = None" using w(3,4) 4 by simp_all
  moreover have "DeleteClient 9 (\<lparr>clerks = [(9, c)]\<rparr>, rn1) = Inr (cs', rn')" using w(2) by simp
  ultimately show ?thesis using w(1) by (intro exI conjI)
qed

end
