(* ===== verification/RaftTester.thy ===== *)
theory RaftTester
  imports Prelude
begin

text \<open>
  The Raft lab's server and tester (\<open>raft1/server.go\<close>, \<open>raft1/test.go\<close>, the messages of
  \<open>raftapi/raftapi.go\<close>): the server that reads committed commands and snapshots from the apply
  channel and takes a snapshot every ten commands, and the tester's record of what every server
  has applied, on which its checks are built. The Raft library itself is the students' task and
  has no implementation in the sources.

  Shown: as long as the tester reports no error the servers' logs agree entry by entry and have
  no gaps; \<open>nCommitted\<close> counts what it says; the leader \<open>checkOneLeader\<close> returns is the only one of
  the highest term; a snapshot restores exactly the log it was taken from.
\<close>

section \<open>Messages\<close>

text \<open>
  A command is an \<open>any\<close>, \<open>None\<close> for nil. A snapshot is nil, bytes that do not decode, or the
  encoding of an index and a list of commands.
\<close>

datatype 'c snap = NilSnap | Garbage | Encoded int "'c option list"

record 'c apply_msg =
  CommandValid :: bool
  Command :: "'c option"
  CommandIndex :: int
  SnapshotValid :: bool
  Snapshot :: "'c snap"
  SnapshotTerm :: int
  SnapshotIndex :: int

type_synonym 'c rlog = "(int, 'c option) gomap"

text \<open>The error texts, by what they say.\<close>

datatype apply_error =
    NoError
  | CommitDiffers int int int
  | ApplyOutOfOrder int int
  | ExpectedIndex int int int
  | NilSnapshot
  | UndecodableSnapshot
  | SnapshotIndexDiffers int
  | ErrRPC

section \<open>test.go: what the tester records\<close>

record 'c raft_server =
  applyErr :: apply_error
  logs :: "'c rlog"

definition newRaftServer :: "'c raft_server" where
  "newRaftServer = \<lparr>applyErr = NoError, logs = []\<rparr>"

definition rs_entry :: "int \<Rightarrow> 'c raft_server \<Rightarrow> 'c option option" where
  "rs_entry i rs = map_of (logs rs) i"

record 'c rtest =
  tsrvs :: "'c raft_server list"
  maxIndex :: int

text \<open>The loop of \<open>CheckLogs\<close>: the last server that has another command at the index.\<close>

fun check_loop :: "int \<Rightarrow> 'c apply_msg \<Rightarrow> nat \<Rightarrow> 'c raft_server list \<Rightarrow> apply_error \<Rightarrow> apply_error" where
  "check_loop i m j [] err = err"
| "check_loop i m j (rs # rss) err =
     check_loop i m (j + 1) rss
       (case rs_entry (CommandIndex m) rs of
          Some old \<Rightarrow> if old \<noteq> Command m then CommitDiffers (CommandIndex m) i (int j) else err
        | None \<Rightarrow> err)"

definition CheckLogs :: "nat \<Rightarrow> 'c apply_msg \<Rightarrow> 'c rtest \<Rightarrow> 'c rtest \<times> apply_error \<times> bool" where
  "CheckLogs i m ts =
     (let err_msg = check_loop (int i) m 0 (tsrvs ts) NoError;
          me = tsrvs ts ! i;
          prevok = (rs_entry (CommandIndex m - 1) me \<noteq> None);
          me' = me\<lparr>logs := gm_put (CommandIndex m) (Command m) (logs me)\<rparr>
      in (ts\<lparr>tsrvs := (tsrvs ts)[i := me'],
             maxIndex := (if CommandIndex m > maxIndex ts then CommandIndex m else maxIndex ts)\<rparr>,
          err_msg, prevok))"

definition IngestLog :: "nat \<Rightarrow> 'c rlog \<Rightarrow> 'c rtest \<Rightarrow> 'c rtest" where
  "IngestLog i xlog ts =
     ts\<lparr>tsrvs := (tsrvs ts)[i := (tsrvs ts ! i)\<lparr>logs := foldl (\<lambda>l (k, v). gm_put k v l) [] xlog\<rparr>]\<rparr>"

definition ApplyErr :: "nat \<Rightarrow> apply_error \<Rightarrow> 'c rtest \<Rightarrow> 'c rtest" where
  "ApplyErr i err ts = ts\<lparr>tsrvs := (tsrvs ts)[i := (tsrvs ts ! i)\<lparr>applyErr := err\<rparr>]\<rparr>"

text \<open>\<open>nCommitted\<close> ends the test on an apply error and on two different commands.\<close>

fun committed_loop :: "int \<Rightarrow> 'c raft_server list \<Rightarrow> int \<times> 'c option \<Rightarrow> (int \<times> 'c option) result" where
  "committed_loop index [] acc = Inr acc"
| "committed_loop index (rs # rss) (cnt, cmd) =
     (if applyErr rs \<noteq> NoError then Inl (Fatal ''apply error'')
      else case rs_entry index rs of
             Some cmd1 \<Rightarrow>
               if cnt > 0 \<and> cmd \<noteq> cmd1 then Inl (Fatal ''committed values do not match'')
               else committed_loop index rss (cnt + 1, cmd1)
           | None \<Rightarrow> committed_loop index rss (cnt, cmd))"

definition nCommitted :: "int \<Rightarrow> 'c rtest \<Rightarrow> (int \<times> 'c option) result" where
  "nCommitted index ts = committed_loop index (tsrvs ts) (0, None)"

definition checkNoAgreement :: "int \<Rightarrow> 'c rtest \<Rightarrow> unit result" where
  "checkNoAgreement index ts =
     res_bind (nCommitted index ts) (\<lambda>(n, cmd). if n > 0 then Inl (Fatal ''committed but no majority'') else Inr ())"

subsection \<open>Leaders and terms\<close>

text \<open>What a server answers to the tester: connected or not, its term, and whether it leads.\<close>

record srv_state =
  st_connected :: bool
  st_term :: int
  st_leader :: bool

definition append_at :: "int \<Rightarrow> nat \<Rightarrow> (int, nat list) gomap \<Rightarrow> (int, nat list) gomap" where
  "append_at t i m = gm_put t ((case map_of m t of Some is \<Rightarrow> is | None \<Rightarrow> []) @ [i]) m"

fun collect_leaders :: "nat \<Rightarrow> srv_state list \<Rightarrow> (int, nat list) gomap \<Rightarrow> (int, nat list) gomap" where
  "collect_leaders i [] m = m"
| "collect_leaders i (s # ss) m =
     collect_leaders (i + 1) ss (if st_connected s \<and> st_leader s then append_at (st_term s) i m else m)"

text \<open>The scan over the leaders map, in any order of iteration.\<close>

fun last_term_loop :: "(int \<times> nat list) list \<Rightarrow> int \<Rightarrow> int result" where
  "last_term_loop [] lastTerm = Inr lastTerm"
| "last_term_loop ((term, ls) # rest) lastTerm =
     (if length ls > 1 then Inl (Fatal ''more than one leader'')
      else last_term_loop rest (if term > lastTerm then term else lastTerm))"

definition leader_round :: "srv_state list \<Rightarrow> nat option result" where
  "leader_round ss =
     (let leaders = collect_leaders 0 ss []
      in res_bind (last_term_loop leaders (-1)) (\<lambda>lastTerm.
           if leaders \<noteq> [] then
             (case map_of leaders lastTerm of
                Some (l # ls) \<Rightarrow> Inr (Some l)
              | _ \<Rightarrow> Inl (Panic ''index out of range''))
           else Inr None))"

text \<open>The ten attempts; the answers of the servers in each round are given.\<close>

fun leader_rounds :: "srv_state list list \<Rightarrow> nat result" where
  "leader_rounds [] = Inl (Fatal ''expected one leader, got none'')"
| "leader_rounds (ss # rounds) =
     res_bind (leader_round ss) (\<lambda>r. case r of Some l \<Rightarrow> Inr l | None \<Rightarrow> leader_rounds rounds)"

definition checkOneLeader :: "srv_state list list \<Rightarrow> nat result" where
  "checkOneLeader rounds = leader_rounds (take 10 rounds)"

fun checkTerms_loop :: "srv_state list \<Rightarrow> int \<Rightarrow> int result" where
  "checkTerms_loop [] term = Inr term"
| "checkTerms_loop (s # ss) term =
     (if st_connected s then
        if term = -1 then checkTerms_loop ss (st_term s)
        else if term \<noteq> st_term s then Inl (Fatal ''servers disagree on term'')
        else checkTerms_loop ss term
      else checkTerms_loop ss term)"

definition checkTerms :: "srv_state list \<Rightarrow> int result" where
  "checkTerms ss = checkTerms_loop ss (-1)"

fun checkNoLeader :: "srv_state list \<Rightarrow> unit result" where
  "checkNoLeader [] = Inr ()"
| "checkNoLeader (s # ss) = (if st_connected s \<and> st_leader s then Inl (Fatal ''leader'') else checkNoLeader ss)"

subsection \<open>one\<close>

text \<open>
  \<open>one\<close> submits a command and waits for agreement. A round asks the servers in turn to start the
  command (\<open>ans\<close>: no answer from a disconnected server, or an index and whether it leads) and then
  polls the record; the rounds are those that fit into ten seconds, \<open>polls\<close> those into two.
\<close>

fun try_start :: "nat \<Rightarrow> nat \<Rightarrow> nat \<Rightarrow> (nat \<Rightarrow> (int \<times> bool) option) \<Rightarrow> nat \<times> int" where
  "try_start n starts 0 ans = (starts, -1)"
| "try_start n starts (Suc k) ans =
     (let s = (starts + 1) mod n
      in case ans s of
           Some (index1, True) \<Rightarrow> (s, index1)
         | _ \<Rightarrow> try_start n s k ans)"

fun agree_polls :: "int \<Rightarrow> 'c option \<Rightarrow> int \<Rightarrow> 'c rtest list \<Rightarrow> bool result" where
  "agree_polls index cmd expectedServers [] = Inr False"
| "agree_polls index cmd expectedServers (ts # polls) =
     res_bind (nCommitted index ts) (\<lambda>(nd, cmd1).
       if nd > 0 \<and> nd \<ge> expectedServers \<and> cmd1 = cmd then Inr True
       else agree_polls index cmd expectedServers polls)"

fun one_loop :: "nat \<Rightarrow> nat \<Rightarrow> 'c option \<Rightarrow> int \<Rightarrow> bool \<Rightarrow> bool \<Rightarrow> ((nat \<Rightarrow> (int \<times> bool) option) \<times> 'c rtest list) list \<Rightarrow> int result" where
  "one_loop n starts cmd expectedServers retry finished [] =
     (if \<not> finished then Inl (Fatal ''failed to reach agreement'') else Inr (-1))"
| "one_loop n starts cmd expectedServers retry finished ((ans, polls) # rounds) =
     (let (s, index) = try_start n starts n ans
      in if index \<noteq> -1 then
           res_bind (agree_polls index cmd expectedServers polls) (\<lambda>agreed.
             if agreed then Inr index
             else if \<not> retry then Inl (Fatal ''failed to reach agreement'')
             else one_loop n s cmd expectedServers retry finished rounds)
         else one_loop n s cmd expectedServers retry finished rounds)"

definition one :: "nat \<Rightarrow> 'c option \<Rightarrow> int \<Rightarrow> bool \<Rightarrow> bool \<Rightarrow> ((nat \<Rightarrow> (int \<times> bool) option) \<times> 'c rtest list) list \<Rightarrow> int result" where
  "one n cmd expectedServers retry finished rounds = one_loop n 0 cmd expectedServers retry finished rounds"

subsection \<open>wait\<close>

text \<open>
  \<open>wait\<close>: at most thirty polls; each poll has the tester's record at that moment and the terms
  of the servers. The last component is the record at the end. \<open>None\<close> stands for the answer \<open>-1\<close>.
\<close>

fun wait_loop :: "int \<Rightarrow> int \<Rightarrow> int \<Rightarrow> ('c rtest \<times> int list) list \<Rightarrow> bool result" where
  "wait_loop index n startTerm [] = Inr True"
| "wait_loop index n startTerm ((ts, terms) # polls) =
     res_bind (nCommitted index ts) (\<lambda>(nd, cmd).
       if nd \<ge> n then Inr True
       else if startTerm > -1 \<and> list_ex (\<lambda>t. t > startTerm) terms then Inr False
       else wait_loop index n startTerm polls)"

definition wait :: "int \<Rightarrow> int \<Rightarrow> int \<Rightarrow> ('c rtest \<times> int list) list \<Rightarrow> 'c rtest \<Rightarrow> 'c option option result" where
  "wait index n startTerm polls final =
     res_bind (wait_loop index n startTerm (take 30 polls)) (\<lambda>go.
       if \<not> go then Inr None
       else res_bind (nCommitted index final) (\<lambda>(nd, cmd).
              if nd < n then Inl (Fatal ''too few decided'') else Inr (Some cmd)))"

section \<open>server.go\<close>

definition SnapShotInterval :: int where "SnapShotInterval = 10"

record 'c rfsrv =
  me :: nat
  lastApplied :: int
  rf_log :: "'c rlog"
  taken :: "(int \<times> 'c snap) list"

text \<open>\<open>taken\<close> lists the snapshots handed to the Raft library, the newest first.\<close>

text \<open>
  The server calls the tester by RPC (\<open>TesterProxy\<close>): the request or the reply may be lost. A server whose \<open>CheckLogs\<close> fails gets
  the error \<open>ErrRPC\<close>; that \<open>IngestLog\<close> or \<open>ApplyErr\<close> has failed is not looked at.
\<close>

datatype fate = RequestLost | ReplyLost | Arrived

definition tp_IngestLog :: "fate \<Rightarrow> nat \<Rightarrow> 'c rlog \<Rightarrow> 'c rtest \<Rightarrow> 'c rtest" where
  "tp_IngestLog f i xlog ts = (if f = RequestLost then ts else IngestLog i xlog ts)"

definition tp_ApplyErr :: "fate \<Rightarrow> nat \<Rightarrow> apply_error \<Rightarrow> 'c rtest \<Rightarrow> 'c rtest" where
  "tp_ApplyErr f i err ts = (if f = RequestLost then ts else ApplyErr i err ts)"

definition report_err :: "fate \<Rightarrow> nat \<Rightarrow> apply_error \<Rightarrow> 'c rtest \<Rightarrow> 'c rtest" where
  "report_err f i err ts = (if err \<noteq> NoError then tp_ApplyErr f i err ts else ts)"

definition tp_CheckLogs :: "fate \<Rightarrow> nat \<Rightarrow> 'c apply_msg \<Rightarrow> 'c rtest \<Rightarrow> 'c rtest \<times> apply_error \<times> bool" where
  "tp_CheckLogs f i m ts =
     (case f of
        RequestLost \<Rightarrow> (ts, ErrRPC, False)
      | ReplyLost \<Rightarrow> (fst (CheckLogs i m ts), ErrRPC, False)
      | Arrived \<Rightarrow> CheckLogs i m ts)"

text \<open>
  \<open>applier\<close>: one message of the apply channel, without snapshots. \<open>f\<close> is what becomes of its two calls, the first to \<open>CheckLogs\<close> (below
  also to \<open>IngestLog\<close>), the second to \<open>ApplyErr\<close>.
\<close>

definition applier :: "fate \<times> fate \<Rightarrow> nat \<Rightarrow> 'c apply_msg \<Rightarrow> 'c rtest \<Rightarrow> 'c rtest" where
  "applier f i m ts =
     (if \<not> CommandValid m then ts
      else let (ts1, err, prevok) = tp_CheckLogs (fst f) i m ts;
               err' = (if CommandIndex m > 1 \<and> \<not> prevok then ApplyOutOfOrder (int i) (CommandIndex m) else err)
           in report_err (snd f) i err' ts1)"

definition ingestSnap :: "'c snap \<Rightarrow> int \<Rightarrow> 'c rfsrv \<Rightarrow> 'c rfsrv \<times> apply_error" where
  "ingestSnap sn index rs =
     (case sn of
        NilSnap \<Rightarrow> (rs, NilSnapshot)
      | Garbage \<Rightarrow> (rs, UndecodableSnapshot)
      | Encoded lastIncludedIndex xlog \<Rightarrow>
          if index \<noteq> -1 \<and> index \<noteq> lastIncludedIndex then (rs, SnapshotIndexDiffers (int (me rs)))
          else (rs\<lparr>rf_log := foldl (\<lambda>l (j, v). gm_put (int j) v l) [] (enumerate 0 xlog),
                   lastApplied := lastIncludedIndex\<rparr>, NoError))"

text \<open>The log as it goes into a snapshot: entries \<open>0\<close> to \<open>index\<close>, nil where there is none.\<close>

definition snap_log :: "int \<Rightarrow> 'c rlog \<Rightarrow> 'c option list" where
  "snap_log index l =
     map (\<lambda>j. case map_of l (int j) of Some v \<Rightarrow> v | None \<Rightarrow> None) [0..<nat (index + 1)]"

definition applierSnap :: "fate \<times> fate \<Rightarrow> 'c apply_msg \<Rightarrow> 'c rfsrv \<times> 'c rtest \<Rightarrow> 'c rfsrv \<times> 'c rtest" where
  "applierSnap f m = (\<lambda>(rs, ts).
     if SnapshotValid m then
       let (rs1, err) = ingestSnap (Snapshot m) (SnapshotIndex m) rs
       in (rs1, report_err (snd f) (me rs) err (tp_IngestLog (fst f) (me rs) (rf_log rs1) ts))
     else if CommandValid m then
       let err0 = (if CommandIndex m \<noteq> lastApplied rs + 1
                   then ExpectedIndex (int (me rs)) (lastApplied rs + 1) (CommandIndex m) else NoError);
           (ts1, err) = (if err0 = NoError then
                           let (ts1, e, prevok) = tp_CheckLogs (fst f) (me rs) m ts
                           in (ts1, if e \<noteq> ErrRPC \<and> CommandIndex m > 1 \<and> \<not> prevok
                                    then ApplyOutOfOrder (int (me rs)) (CommandIndex m) else e)
                         else (ts, err0));
           rs1 = rs\<lparr>rf_log := gm_put (CommandIndex m) (Command m) (rf_log rs), lastApplied := CommandIndex m\<rparr>;
           rs2 = (if (CommandIndex m + 1) mod SnapShotInterval = 0
                  then rs1\<lparr>taken := (CommandIndex m, Encoded (CommandIndex m) (snap_log (CommandIndex m) (rf_log rs1))) # taken rs1\<rparr>
                  else rs1)
       in (rs2, report_err (snd f) (me rs) err ts1)
     else (rs, ts))"

text \<open>
  \<open>newRfsrv\<close> with snapshots: a snapshot found in the persister is taken in and sent to the tester;
  an error there ends the process.
\<close>

definition newRfsrv :: "fate \<Rightarrow> nat \<Rightarrow> bool \<Rightarrow> 'c snap option \<Rightarrow> 'c rtest \<Rightarrow> ('c rfsrv \<times> 'c rtest) result" where
  "newRfsrv f srv use_snapshot sn ts =
     (let s = \<lparr>me = srv, lastApplied = 0, rf_log = [], taken = []\<rparr>
      in case (use_snapshot, sn) of
           (True, Some x) \<Rightarrow>
             let (s1, err) = ingestSnap x (-1) s
             in if err \<noteq> NoError then Inl (Fatal ''ingestSnap err'') else Inr (s1, tp_IngestLog f srv (rf_log s1) ts)
         | _ \<Rightarrow> Inr (s, ts))"

section \<open>Agreement\<close>

definition no_errors :: "'c rtest \<Rightarrow> bool" where
  "no_errors ts \<longleftrightarrow> (\<forall>rs \<in> set (tsrvs ts). applyErr rs = NoError)"

text \<open>Any two logs agree where both have an entry, and no log has a gap above index 1.\<close>

definition logs_agree :: "'c rtest \<Rightarrow> bool" where
  "logs_agree ts \<longleftrightarrow> (\<forall>a \<in> set (tsrvs ts). \<forall>b \<in> set (tsrvs ts). \<forall>i v w.
     rs_entry i a = Some v \<longrightarrow> rs_entry i b = Some w \<longrightarrow> v = w)"

definition no_gaps :: "'c rtest \<Rightarrow> bool" where
  "no_gaps ts \<longleftrightarrow> (\<forall>a \<in> set (tsrvs ts). \<forall>i > 1. rs_entry i a \<noteq> None \<longrightarrow> rs_entry (i - 1) a \<noteq> None)"

definition apply_run :: "((fate \<times> fate) \<times> nat \<times> 'c apply_msg) list \<Rightarrow> 'c rtest \<Rightarrow> 'c rtest" where
  "apply_run evs ts = foldl (\<lambda>ts (f, i, m). applier f i m ts) ts evs"

lemma check_loop_NoError:
  "check_loop i m j rss err = NoError \<longleftrightarrow>
     err = NoError \<and> (\<forall>rs \<in> set rss. \<forall>v. rs_entry (CommandIndex m) rs = Some v \<longrightarrow> v = Command m)"
  by (induction rss arbitrary: j err) (auto split: option.splits)

lemma rs_entry_put [simp]:
  "rs_entry i (rs\<lparr>logs := gm_put k v (logs rs)\<rparr>) = (if i = k then Some v else rs_entry i rs)"
  by (simp add: rs_entry_def)

lemma rs_entry_applyErr [simp]: "rs_entry i (rs\<lparr>applyErr := e\<rparr>) = rs_entry i rs"
  by (simp add: rs_entry_def)

lemma applier_length [simp]: "length (tsrvs (applier f i m ts)) = length (tsrvs ts)"
  by (auto simp: applier_def tp_CheckLogs_def CheckLogs_def report_err_def tp_ApplyErr_def ApplyErr_def Let_def split: fate.splits)

text \<open>A message that leaves the record without errors was checked and found in order.\<close>

lemma applier_no_errors:
  assumes "no_errors (applier f i m ts)" "i < length (tsrvs ts)" "CommandValid m" "snd f \<noteq> RequestLost"
  shows "fst f = Arrived \<and> no_errors ts \<and> applier f i m ts = fst (CheckLogs i m ts) \<and>
    (\<forall>rs \<in> set (tsrvs ts). \<forall>v. rs_entry (CommandIndex m) rs = Some v \<longrightarrow> v = Command m) \<and>
    (CommandIndex m > 1 \<longrightarrow> rs_entry (CommandIndex m - 1) (tsrvs ts ! i) \<noteq> None)"
proof -
  obtain ts1 e k where c: "tp_CheckLogs (fst f) i m ts = (ts1, e, k)" by (cases "tp_CheckLogs (fst f) i m ts")
  define e' where "e' = (if CommandIndex m > 1 \<and> \<not> k then ApplyOutOfOrder (int i) (CommandIndex m) else e)"
  have a: "applier f i m ts = report_err (snd f) i e' ts1" using assms(3) c by (simp add: applier_def e'_def Let_def)
  have len: "length (tsrvs ts1) = length (tsrvs ts)"
    using c by (auto simp: tp_CheckLogs_def CheckLogs_def Let_def split: fate.splits)
  have "e' = NoError"
  proof (rule ccontr)
    assume "e' \<noteq> NoError"
    moreover from this a have "(tsrvs ts1 ! i)\<lparr>applyErr := e'\<rparr> \<in> set (tsrvs (applier f i m ts))"
      using assms(2,4) len by (simp add: report_err_def tp_ApplyErr_def ApplyErr_def set_update_memI)
    ultimately show False using assms(1) by (auto simp: no_errors_def)
  qed
  then have e: "e = NoError" "CommandIndex m > 1 \<longrightarrow> k" by (auto simp: e'_def split: if_splits)
  then have f: "fst f = Arrived" and c': "CheckLogs i m ts = (ts1, NoError, k)"
    using c by (auto simp: tp_CheckLogs_def split: fate.splits)
  have t1: "applier f i m ts = ts1" using a \<open>e' = NoError\<close> by (simp add: report_err_def)
  have "no_errors ts"
  proof -
    have "applyErr (tsrvs ts ! j) = NoError" if "j < length (tsrvs ts)" for j
    proof -
      have "applyErr (tsrvs ts1 ! j) = NoError" using assms(1) t1 that len by (simp add: no_errors_def)
      moreover have "applyErr (tsrvs ts1 ! j) = applyErr (tsrvs ts ! j)"
        using c' that assms(2) by (cases "j = i") (auto simp: CheckLogs_def Let_def)
      ultimately show ?thesis by simp
    qed
    then show ?thesis by (auto simp: no_errors_def in_set_conv_nth)
  qed
  then show ?thesis using f t1 c' e check_loop_NoError [of "int i" m 0 "tsrvs ts" NoError]
    by (auto simp: CheckLogs_def Let_def)
qed

lemma CheckLogs_agree:
  assumes "logs_agree ts" "\<forall>rs \<in> set (tsrvs ts). \<forall>v. rs_entry (CommandIndex m) rs = Some v \<longrightarrow> v = Command m"
    and i: "i < length (tsrvs ts)"
  shows "logs_agree (fst (CheckLogs i m ts))"
proof -
  let ?me = "(tsrvs ts ! i)\<lparr>logs := gm_put (CommandIndex m) (Command m) (logs (tsrvs ts ! i))\<rparr>"
  have mi: "tsrvs ts ! i \<in> set (tsrvs ts)" using i by simp
  have entry: "\<exists>b \<in> set (tsrvs ts). \<forall>k. rs_entry k a = (if a = ?me \<and> k = CommandIndex m then Some (Command m) else rs_entry k b)"
    if "a \<in> set ((tsrvs ts)[i := ?me])" for a
    using that set_update_subset_insert [of "tsrvs ts" i ?me] mi by (cases "a = ?me") auto
  have "v = w" if "a \<in> set ((tsrvs ts)[i := ?me])" "b \<in> set ((tsrvs ts)[i := ?me])"
    "rs_entry k a = Some v" "rs_entry k b = Some w" for a b k v w
    using entry [OF that(1)] entry [OF that(2)] that(3,4) assms(1,2)
    unfolding logs_agree_def by (metis option.inject)
  then show ?thesis by (auto simp: logs_agree_def CheckLogs_def Let_def)
qed

lemma CheckLogs_no_gaps:
  assumes "no_gaps ts" "CommandIndex m > 1 \<longrightarrow> rs_entry (CommandIndex m - 1) (tsrvs ts ! i) \<noteq> None"
    and i: "i < length (tsrvs ts)"
  shows "no_gaps (fst (CheckLogs i m ts))"
proof -
  let ?me = "(tsrvs ts ! i)\<lparr>logs := gm_put (CommandIndex m) (Command m) (logs (tsrvs ts ! i))\<rparr>"
  have mi: "tsrvs ts ! i \<in> set (tsrvs ts)" using i by simp
  have "rs_entry (k - 1) a \<noteq> None" if "a \<in> set ((tsrvs ts)[i := ?me])" "k > 1" "rs_entry k a \<noteq> None" for a k
  proof (cases "a = ?me")
    case True
    then show ?thesis using that(2,3) assms(1,2) mi by (auto simp: no_gaps_def split: if_splits)
  next
    case False
    then have "a \<in> set (tsrvs ts)" using that(1) set_update_subset_insert [of "tsrvs ts" i ?me] by auto
    then show ?thesis using that(2,3) assms(1) by (auto simp: no_gaps_def)
  qed
  then show ?thesis by (auto simp: no_gaps_def CheckLogs_def Let_def)
qed

lemma apply_run_agrees:
  assumes "\<forall>(f, i, m) \<in> set evs. i < length (tsrvs ts) \<and> snd f \<noteq> RequestLost" "logs_agree ts" "no_gaps ts" "no_errors (apply_run evs ts)"
  shows "logs_agree (apply_run evs ts) \<and> no_gaps (apply_run evs ts) \<and> no_errors ts"
  using assms
proof (induction evs arbitrary: ts)
  case Nil
  then show ?case by (simp add: apply_run_def)
next
  case (Cons ev evs)
  obtain f i m where ev: "ev = (f, i, m)" by (cases ev)
  let ?t = "applier f i m ts"
  have i: "i < length (tsrvs ts)" and sent: "snd f \<noteq> RequestLost" using Cons.prems(1) ev by auto
  have run: "apply_run (ev # evs) ts = apply_run evs ?t" by (simp add: apply_run_def ev)
  show ?case
  proof (cases "CommandValid m")
    case False
    then have "?t = ts" by (simp add: applier_def)
    then show ?thesis using Cons run by auto
  next
    case True
    have ok: "no_errors ?t"
    proof (rule ccontr)
      assume bad: "\<not> no_errors ?t"
      have keep: "\<not> no_errors (applier f' i' m' t)" if "\<not> no_errors t" "i' < length (tsrvs t)" "snd f' \<noteq> RequestLost" for f' i' m' and t :: "'c rtest"
        using applier_no_errors [of f' i' m' t] that by (cases "CommandValid m'") (auto simp: applier_def)
      have "\<not> no_errors (apply_run es t)" if "\<not> no_errors t" "\<forall>(f, i, m) \<in> set es. i < length (tsrvs t) \<and> snd f \<noteq> RequestLost" for es and t :: "'c rtest"
        using that
      proof (induction es arbitrary: t)
        case (Cons e es)
        obtain f' i' m' where e: "e = (f', i', m')" by (cases e)
        have "\<not> no_errors (apply_run es (applier f' i' m' t))"
          using Cons.IH [of "applier f' i' m' t"] keep [of t i' f' m'] Cons.prems e by auto
        then show ?case by (simp add: apply_run_def e)
      qed (simp add: apply_run_def)
      from this [OF bad, of evs] show False using Cons.prems(1,4) run by auto
    qed
    note good = applier_no_errors [OF ok i True sent]
    have "logs_agree ?t" "no_gaps ?t"
      using good CheckLogs_agree [OF Cons.prems(2) _ i] CheckLogs_no_gaps [OF Cons.prems(3) _ i] by auto
    moreover have "\<forall>(f, i, m) \<in> set evs. i < length (tsrvs ?t) \<and> snd f \<noteq> RequestLost" using Cons.prems(1) by simp
    ultimately show ?thesis using Cons.IH [of ?t] Cons.prems(4) run good by simp
  qed
qed

section \<open>Counting, leaders, snapshots\<close>

lemma committed_loop_counts:
  assumes "committed_loop index rss (n, cmd) = Inr (n', cmd')" "n \<ge> 0"
  shows "(\<forall>rs \<in> set rss. applyErr rs = NoError) \<and>
    n' = n + int (length (filter (\<lambda>rs. rs_entry index rs \<noteq> None) rss)) \<and>
    (\<forall>rs \<in> set rss. \<forall>v. rs_entry index rs = Some v \<longrightarrow> v = cmd') \<and> (n > 0 \<longrightarrow> cmd' = cmd)"
  using assms
proof (induction rss arbitrary: n cmd)
  case (Cons rs rss)
  show ?case
  proof (cases "rs_entry index rs")
    case None
    then show ?thesis using Cons.IH [of n cmd] Cons.prems by (auto split: if_splits)
  next
    case (Some v)
    then show ?thesis using Cons.IH [of "n + 1" v] Cons.prems by (auto split: if_splits)
  qed
qed simp

text \<open>The leaders map: per term, the connected leaders, in the order of their numbers.\<close>

definition leaders_of :: "nat \<Rightarrow> srv_state list \<Rightarrow> int \<Rightarrow> nat list" where
  "leaders_of i0 ss t = map (\<lambda>i. i0 + i) (filter (\<lambda>i. st_connected (ss ! i) \<and> st_leader (ss ! i) \<and> st_term (ss ! i) = t) [0..<length ss])"

lemma leaders_of_Cons:
  "leaders_of i0 (s # ss) t =
     (if st_connected s \<and> st_leader s \<and> st_term s = t then i0 # leaders_of (i0 + 1) ss t else leaders_of (i0 + 1) ss t)"
proof -
  have "[0..<length (s # ss)] = 0 # map Suc [0..<length ss]"
    using upt_conv_Cons [of 0 "length (s # ss)"] by (simp add: map_Suc_upt)
  then show ?thesis unfolding leaders_of_def by (simp add: filter_map comp_def del: upt_Suc)
qed

definition lookup_nil :: "(int, nat list) gomap \<Rightarrow> int \<Rightarrow> nat list" where
  "lookup_nil m t = (case map_of m t of Some ls \<Rightarrow> ls | None \<Rightarrow> [])"

lemma collect_leaders_lookup:
  "lookup_nil (collect_leaders i ss m) t = lookup_nil m t @ leaders_of i ss t"
proof (induction ss arbitrary: i m)
  case Nil
  then show ?case by (simp add: leaders_of_def)
next
  case (Cons s ss)
  then show ?case by (auto simp: leaders_of_Cons lookup_nil_def append_at_def split: option.splits)
qed

lemma collect_leaders_keys:
  "\<forall>ls \<in> ran (map_of m). ls \<noteq> [] \<Longrightarrow> \<forall>ls \<in> ran (map_of (collect_leaders i ss m)). ls \<noteq> []"
proof (induction ss arbitrary: i m)
  case (Cons s ss)
  have "\<forall>ls \<in> ran (map_of (if st_connected s \<and> st_leader s then append_at (st_term s) i m else m)). ls \<noteq> []"
    using Cons.prems by (auto simp: append_at_def ran_def split: if_splits option.splits)
  from Cons.IH [OF this] show ?case by simp
qed simp

lemma collect_leaders_distinct:
  "distinct (map fst m) \<Longrightarrow> distinct (map fst (collect_leaders i ss m))"
proof (induction ss arbitrary: i m)
  case (Cons s ss)
  then show ?case by (simp add: append_at_def)
qed simp

lemma last_term_loop_max:
  "last_term_loop ps t0 = Inr t \<Longrightarrow> (\<forall>(u, ls) \<in> set ps. u \<le> t \<and> length ls \<le> 1) \<and> t0 \<le> t \<and> (t = t0 \<or> t \<in> fst ` set ps)"
proof (induction ps arbitrary: t0)
  case (Cons p ps)
  obtain u ls where p: "p = (u, ls)" by (cases p)
  from Cons.prems have "last_term_loop ps (if u > t0 then u else t0) = Inr t" "length ls \<le> 1"
    by (auto simp: p split: if_splits)
  from Cons.IH [OF this(1)] this(2) show ?case by (auto simp: p split: if_splits)
qed simp

lemma leader_round_unique:
  assumes "leader_round ss = Inr (Some l)" "\<forall>s \<in> set ss. st_term s \<ge> 0"
  shows "\<exists>t. leaders_of 0 ss t = [l] \<and> (\<forall>u > t. leaders_of 0 ss u = [])"
proof -
  let ?m = "collect_leaders 0 ss []"
  obtain t ls where t: "last_term_loop ?m (-1) = Inr t" "map_of ?m t = Some (l # ls)"
    using assms(1) by (auto simp: leader_round_def Let_def split: if_splits option.splits list.splits)
  have look: "lookup_nil ?m u = leaders_of 0 ss u" for u
    using collect_leaders_lookup [of 0 ss "[]" u] by (simp add: lookup_nil_def)
  have "(t, l # ls) \<in> set ?m" using t(2) by (rule map_of_SomeD)
  with last_term_loop_max [OF t(1)] have "ls = []" by auto
  then have "leaders_of 0 ss t = [l]" using look [of t] t(2) by (simp add: lookup_nil_def)
  moreover have "leaders_of 0 ss u = []" if "u > t" for u
  proof -
    have "map_of ?m u = None"
    proof (rule ccontr)
      assume "map_of ?m u \<noteq> None"
      then obtain us where "(u, us) \<in> set ?m" by (auto dest: map_of_SomeD)
      with last_term_loop_max [OF t(1)] that show False by auto
    qed
    then show ?thesis using look [of u] by (simp add: lookup_nil_def)
  qed
  ultimately show ?thesis by blast
qed

lemma leader_rounds_round:
  "leader_rounds rounds = Inr l \<Longrightarrow> \<exists>ss \<in> set rounds. leader_round ss = Inr (Some l)"
  by (induction rounds) (auto split: option.splits)

lemma checkOneLeader_round:
  "checkOneLeader rounds = Inr l \<Longrightarrow> \<exists>ss \<in> set rounds. leader_round ss = Inr (Some l)"
  using leader_rounds_round [of "take 10 rounds" l] by (auto simp: checkOneLeader_def dest: in_set_takeD)

text \<open>In-order commands: the log and the snapshots after them.\<close>

definition cmd_msg :: "nat \<Rightarrow> 'c option \<Rightarrow> 'c apply_msg" where
  "cmd_msg i c = \<lparr>CommandValid = True, Command = c, CommandIndex = int i, SnapshotValid = False,
     Snapshot = NilSnap, SnapshotTerm = 0, SnapshotIndex = 0\<rparr>"

definition feed :: "'c option list \<Rightarrow> 'c rfsrv \<times> 'c rtest \<Rightarrow> 'c rfsrv \<times> 'c rtest" where
  "feed cs st = foldl (\<lambda>st (i, c). applierSnap (Arrived, Arrived) (cmd_msg i c) st) st (enumerate 1 cs)"

definition fresh_srv :: "nat \<Rightarrow> 'c rfsrv" where
  "fresh_srv i = \<lparr>me = i, lastApplied = 0, rf_log = [], taken = []\<rparr>"

lemma feed_snoc: "feed (cs @ [c]) st = applierSnap (Arrived, Arrived) (cmd_msg (length cs + 1) c) (feed cs st)"
  by (simp add: feed_def enumerate_append_eq)

lemma applierSnap_cmd:
  assumes "lastApplied rs = int k"
  shows "\<exists>ts'. applierSnap (Arrived, Arrived) (cmd_msg (k + 1) c) (rs, ts) =
    (rs\<lparr>rf_log := gm_put (int (k + 1)) c (rf_log rs), lastApplied := int (k + 1),
        taken := (if (int (k + 1) + 1) mod 10 = 0
          then [(int (k + 1), Encoded (int (k + 1)) (snap_log (int (k + 1)) (gm_put (int (k + 1)) c (rf_log rs))))] else []) @ taken rs\<rparr>, ts')"
  using assms by (auto simp: applierSnap_def cmd_msg_def SnapShotInterval_def Let_def split: prod.splits)

lemma snap_log_prefix:
  assumes "\<And>j. map_of l (int j) = (if 1 \<le> j \<and> j \<le> length cs then Some (cs ! (j - 1)) else None)"
  shows "snap_log (int (length cs)) l = None # cs"
proof (rule nth_equalityI)
  fix j assume "j < length (snap_log (int (length cs)) l)"
  then show "snap_log (int (length cs)) l ! j = (None # cs) ! j"
    by (cases j) (auto simp: snap_log_def assms nat_add_distrib simp del: upt_Suc)
qed (simp add: snap_log_def nat_add_distrib)

lemma feed_state:
  "\<exists>rs ts'. feed cs (fresh_srv i, ts) = (rs, ts') \<and> lastApplied rs = int (length cs) \<and>
    (\<forall>j. map_of (rf_log rs) (int j) = (if 1 \<le> j \<and> j \<le> length cs then Some (cs ! (j - 1)) else None)) \<and>
    set (taken rs) = (\<lambda>k. (int k, Encoded (int k) (None # take k cs))) ` {k. 1 \<le> k \<and> k \<le> length cs \<and> (k + 1) mod 10 = 0}"
proof (induction cs rule: rev_induct)
  case Nil
  then show ?case by (auto simp: feed_def fresh_srv_def)
next
  case (snoc c cs)
  then obtain rs ts' where f: "feed cs (fresh_srv i, ts) = (rs, ts')" "lastApplied rs = int (length cs)"
    and lg: "\<And>j. map_of (rf_log rs) (int j) = (if 1 \<le> j \<and> j \<le> length cs then Some (cs ! (j - 1)) else None)"
    and tk: "set (taken rs) = (\<lambda>k. (int k, Encoded (int k) (None # take k cs))) ` {k. 1 \<le> k \<and> k \<le> length cs \<and> (k + 1) mod 10 = 0}"
    by blast
  let ?k = "length cs + 1" and ?l = "gm_put (int (length cs + 1)) c (rf_log rs)"
  obtain ts'' where s: "applierSnap (Arrived, Arrived) (cmd_msg ?k c) (rs, ts') =
    (rs\<lparr>rf_log := ?l, lastApplied := int ?k,
        taken := (if (int ?k + 1) mod 10 = 0 then [(int ?k, Encoded (int ?k) (snap_log (int ?k) ?l))] else []) @ taken rs\<rparr>, ts'')"
    using applierSnap_cmd [OF f(2), of c ts'] by auto
  have l': "map_of ?l (int j) = (if 1 \<le> j \<and> j \<le> length (cs @ [c]) then Some ((cs @ [c]) ! (j - 1)) else None)" for j
    using lg [of j] by (auto simp: nth_append)
  have snap: "snap_log (int ?k) ?l = None # cs @ [c]" using snap_log_prefix [of ?l "cs @ [c]", OF l'] by simp
  have m: "(int ?k + 1) mod 10 = 0 \<longleftrightarrow> (?k + 1) mod 10 = 0" by presburger
  have old: "(\<lambda>k. (int k, Encoded (int k) (None # take k cs))) ` {k. 1 \<le> k \<and> k \<le> length cs \<and> (k + 1) mod 10 = 0} =
      (\<lambda>k. (int k, Encoded (int k) (None # take k (cs @ [c])))) ` {k. 1 \<le> k \<and> k \<le> length cs \<and> (k + 1) mod 10 = 0}"
    by (rule image_cong) auto
  have ks: "{k. 1 \<le> k \<and> k \<le> length (cs @ [c]) \<and> (k + 1) mod 10 = 0} =
      (if (?k + 1) mod 10 = 0 then {?k} else {}) \<union> {k. 1 \<le> k \<and> k \<le> length cs \<and> (k + 1) mod 10 = 0}"
    by (auto simp: le_Suc_eq)
  show ?case
  proof (intro exI conjI)
    show "feed (cs @ [c]) (fresh_srv i, ts) = (rs\<lparr>rf_log := ?l, lastApplied := int ?k,
        taken := (if (int ?k + 1) mod 10 = 0 then [(int ?k, Encoded (int ?k) (snap_log (int ?k) ?l))] else []) @ taken rs\<rparr>, ts'')"
      using s f by (simp add: feed_snoc)
  qed (use l' tk snap m old ks in \<open>auto simp: image_Un\<close>)
qed

lemma foldl_put_enumerate:
  "map_of (foldl (\<lambda>l (j, v). gm_put (int j) v l) l0 (enumerate n xs)) (int k) =
     (if n \<le> k \<and> k < n + length xs then Some (xs ! (k - n)) else map_of l0 (int k))"
proof (induction xs arbitrary: n l0)
  case (Cons x xs)
  have "map_of (foldl (\<lambda>l (j, v). gm_put (int j) v l) l0 (enumerate n (x # xs))) (int k) =
      map_of (foldl (\<lambda>l (j, v). gm_put (int j) v l) (gm_put (int n) x l0) (enumerate (Suc n) xs)) (int k)" by simp
  also have "\<dots> = (if Suc n \<le> k \<and> k < Suc n + length xs then Some (xs ! (k - Suc n)) else map_of (gm_put (int n) x l0) (int k))"
    by (rule Cons.IH)
  finally show ?case by (auto simp: nth_Cons' Suc_le_eq le_less)
qed auto

section \<open>Properties of the Raft tester\<close>

text \<open>
  The tester is a sound judge of agreement. If, after any sequence of apply messages from any
  servers, with calls to the tester or replies lost but the requests that report an error, no server has an apply error recorded, then any two
  servers' logs agree at every index both have, and no log has a gap.
\<close>
theorem tester_detects_disagreement:
  assumes "\<forall>(f, i, m) \<in> set evs. i < n \<and> snd f \<noteq> RequestLost"
    and "no_errors (apply_run evs \<lparr>tsrvs = replicate n newRaftServer, maxIndex = 0\<rparr>)"
  shows "logs_agree (apply_run evs \<lparr>tsrvs = replicate n newRaftServer, maxIndex = 0\<rparr>) \<and>
    no_gaps (apply_run evs \<lparr>tsrvs = replicate n newRaftServer, maxIndex = 0\<rparr>)"
proof -
  have "logs_agree \<lparr>tsrvs = replicate n newRaftServer, maxIndex = 0\<rparr>"
    "no_gaps \<lparr>tsrvs = replicate n newRaftServer, maxIndex = 0\<rparr>"
    by (auto simp: logs_agree_def no_gaps_def newRaftServer_def rs_entry_def)
  with apply_run_agrees [of evs "\<lparr>tsrvs = replicate n newRaftServer, maxIndex = 0\<rparr>"] assms show ?thesis by auto
qed

text \<open>
  A disagreement can stay unrecorded: the server has been told of it by the tester, and its report is lost.
\<close>

lemma lost_report_hides_disagreement:
  "\<exists>evs. no_errors (apply_run evs \<lparr>tsrvs = replicate 2 newRaftServer, maxIndex = 0\<rparr>) \<and>
     \<not> logs_agree (apply_run evs \<lparr>tsrvs = replicate 2 newRaftServer, maxIndex = 0\<rparr> :: nat rtest)"
proof -
  let ?evs = "[((Arrived, Arrived), 0, cmd_msg 1 (Some (7 :: nat))), ((Arrived, RequestLost), 1, cmd_msg 1 (Some 8))]"
  have "apply_run ?evs \<lparr>tsrvs = replicate 2 newRaftServer, maxIndex = 0\<rparr> =
      \<lparr>tsrvs = [\<lparr>applyErr = NoError, logs = [(1, Some 7)]\<rparr>, \<lparr>applyErr = NoError, logs = [(1, Some 8)]\<rparr>], maxIndex = 1\<rparr>"
    by (simp add: apply_run_def applier_def tp_CheckLogs_def CheckLogs_def report_err_def tp_ApplyErr_def cmd_msg_def Let_def
        newRaftServer_def rs_entry_def numeral_2_eq_2)
  then show ?thesis by (intro exI [of _ ?evs]) (simp add: no_errors_def logs_agree_def rs_entry_def)
qed

text \<open>
  When \<open>nCommitted\<close> returns, its count is the number of servers that have applied an entry at the
  index, all of them have the returned command there, and no server has an apply error.
\<close>

lemma nCommitted_counts:
  assumes "nCommitted index ts = Inr (n, cmd)"
  shows "no_errors ts \<and> n = int (length (filter (\<lambda>rs. rs_entry index rs \<noteq> None) (tsrvs ts))) \<and>
    (\<forall>rs v. rs \<in> set (tsrvs ts) \<and> rs_entry index rs = Some v \<longrightarrow> v = cmd)"
  using committed_loop_counts [of index "tsrvs ts" 0 None n cmd] assms
  by (auto simp: nCommitted_def no_errors_def)

lemma nCommitted_holders:
  assumes "nCommitted index ts = Inr (n, cmd)"
  shows "no_errors ts \<and> n = int (length (filter (\<lambda>rs. rs_entry index rs = Some cmd) (tsrvs ts)))"
proof -
  have "filter (\<lambda>rs. rs_entry index rs \<noteq> None) (tsrvs ts) = filter (\<lambda>rs. rs_entry index rs = Some cmd) (tsrvs ts)"
    using nCommitted_counts [OF assms] by (auto intro!: filter_cong)
  then show ?thesis using nCommitted_counts [OF assms] by simp
qed

lemma try_start_leader:
  "try_start n starts k ans = (s, index) \<Longrightarrow> index \<noteq> -1 \<Longrightarrow> ans s = Some (index, True)"
  by (induction k arbitrary: starts) (auto simp: Let_def split: option.splits prod.splits bool.splits)

lemma agree_polls_True:
  "agree_polls index cmd k polls = Inr True \<Longrightarrow>
     \<exists>ts \<in> set polls. \<exists>n. nCommitted index ts = Inr (n, cmd) \<and> n > 0 \<and> n \<ge> k"
  by (induction polls) (auto split: if_splits)

lemma one_loop_agreed:
  assumes "one_loop n starts cmd k retry finished rounds = Inr index" "index \<noteq> -1"
  shows "\<exists>ans polls ts s. (ans, polls) \<in> set rounds \<and> ts \<in> set polls \<and> ans s = Some (index, True) \<and>
    (\<exists>m. nCommitted index ts = Inr (m, cmd) \<and> m > 0 \<and> m \<ge> k)"
  using assms
proof (induction rounds arbitrary: starts)
  case (Cons round rounds)
  obtain ans polls where r: "round = (ans, polls)" by (cases round)
  obtain s i where t: "try_start n starts n ans = (s, i)" by fastforce
  consider "one_loop n s cmd k retry finished rounds = Inr index" | "i = index" "agree_polls index cmd k polls = Inr True"
    using Cons.prems r t by (auto split: if_splits)
  then show ?case
  proof cases
    case 1
    then show ?thesis using Cons.IH [of s] Cons.prems(2) by auto
  next
    case 2
    then show ?thesis using agree_polls_True [OF 2(2)] try_start_leader [OF t] Cons.prems(2) r by fastforce
  qed
qed (auto split: if_splits)

text \<open>
  When \<open>one\<close> returns an index, some server claimed to lead and to have submitted the command there,
  and in one of the polls at least \<open>expectedServers\<close> servers, and at least one, had applied exactly this
  command at this index and no server had an apply error.
\<close>
theorem one_agreement:
  assumes "one n cmd expectedServers retry finished rounds = Inr index" and "index \<noteq> -1"
  shows "\<exists>ans polls ts s. (ans, polls) \<in> set rounds \<and> ts \<in> set polls \<and> ans s = Some (index, True) \<and> no_errors ts \<and>
    1 \<le> length (filter (\<lambda>rs. rs_entry index rs = Some cmd) (tsrvs ts)) \<and>
    expectedServers \<le> int (length (filter (\<lambda>rs. rs_entry index rs = Some cmd) (tsrvs ts)))"
proof -
  obtain ans polls ts s m where "(ans, polls) \<in> set rounds" "ts \<in> set polls" "ans s = Some (index, True)"
    "nCommitted index ts = Inr (m, cmd)" "m > 0" "m \<ge> expectedServers"
    using one_loop_agreed [of n 0 cmd expectedServers retry finished rounds index] assms by (auto simp: one_def)
  then show ?thesis using nCommitted_holders [of index ts m cmd]
    by (intro exI [of _ ans] exI [of _ polls] exI [of _ ts] exI [of _ s]) (auto simp: Suc_le_eq)
qed

text \<open>
  The server \<open>checkOneLeader\<close> returns was, in one of its rounds, the only connected leader of its
  term, and no connected server led a higher term.
\<close>
theorem checkOneLeader_unique:
  assumes "checkOneLeader rounds = Inr l" and "\<forall>ss \<in> set rounds. \<forall>s \<in> set ss. st_term s \<ge> 0"
  shows "\<exists>ss t. ss \<in> set rounds \<and>
    filter (\<lambda>i. st_connected (ss ! i) \<and> st_leader (ss ! i) \<and> st_term (ss ! i) = t) [0..<length ss] = [l] \<and>
    filter (\<lambda>i. st_connected (ss ! i) \<and> st_leader (ss ! i) \<and> st_term (ss ! i) > t) [0..<length ss] = []"
proof -
  obtain ss where ss: "ss \<in> set rounds" "leader_round ss = Inr (Some l)"
    using checkOneLeader_round [OF assms(1)] by blast
  obtain t where t: "leaders_of 0 ss t = [l]" "\<forall>u > t. leaders_of 0 ss u = []"
    using leader_round_unique [OF ss(2)] assms(2) ss(1) by blast
  have "filter (\<lambda>i. st_connected (ss ! i) \<and> st_leader (ss ! i) \<and> st_term (ss ! i) > t) [0..<length ss] = []"
    using t(2) by (auto simp: leaders_of_def filter_empty_conv)
  with t(1) ss(1) show ?thesis by (auto simp: leaders_of_def)
qed

text \<open>
  Snapshots restore. A server that applies the commands \<open>cs\<close> in order takes a snapshot at each
  index that ends a block of ten, and a server that takes such a snapshot in has exactly the
  commands up to that index in its log.
\<close>
theorem snapshot_restores:
  assumes "1 \<le> k" "k \<le> length cs" "(k + 1) mod 10 = 0"
  shows "\<exists>rs ts' sn r. feed cs (fresh_srv i, ts) = (rs, ts') \<and> (int k, sn) \<in> set (taken rs) \<and>
    ingestSnap sn (int k) rs' = (r, NoError) \<and> lastApplied r = int k \<and>
    (\<forall>j. 1 \<le> j \<and> j \<le> k \<longrightarrow> map_of (rf_log r) (int j) = Some (cs ! (j - 1)))"
proof -
  obtain rs ts' where f: "feed cs (fresh_srv i, ts) = (rs, ts')"
    "set (taken rs) = (\<lambda>k. (int k, Encoded (int k) (None # take k cs))) ` {k. 1 \<le> k \<and> k \<le> length cs \<and> (k + 1) mod 10 = 0}"
    using feed_state [of cs i ts] by blast
  let ?r = "rs'\<lparr>rf_log := foldl (\<lambda>l (j, v). gm_put (int j) v l) [] (enumerate 0 (None # take k cs)), lastApplied := int k\<rparr>"
  have "(int k, Encoded (int k) (None # take k cs)) \<in> set (taken rs)" using assms by (auto simp: f(2))
  moreover have "ingestSnap (Encoded (int k) (None # take k cs)) (int k) rs' = (?r, NoError)"
    by (simp add: ingestSnap_def)
  moreover have "map_of (rf_log ?r) (int j) = Some (cs ! (j - 1))" if "1 \<le> j \<and> j \<le> k" for j
    using that assms foldl_put_enumerate [of "[]" 0 "None # take k cs" j] by (auto simp: nth_Cons')
  ultimately show ?thesis using f(1) by fastforce
qed

section \<open>Witnesses\<close>

lemma tester_detects_disagreement_witness:
  "logs_agree (apply_run [((Arrived, Arrived), 0, cmd_msg 1 (Some (7 :: nat))), ((Arrived, ReplyLost), 1, cmd_msg 1 (Some 7))]
     \<lparr>tsrvs = replicate 2 newRaftServer, maxIndex = 0\<rparr>)"
  using tester_detects_disagreement [of "[((Arrived, Arrived), 0, cmd_msg 1 (Some (7 :: nat))), ((Arrived, ReplyLost), 1, cmd_msg 1 (Some 7))]" 2]
  by (simp add: no_errors_def apply_run_def applier_def tp_CheckLogs_def CheckLogs_def report_err_def cmd_msg_def Let_def
      newRaftServer_def rs_entry_def numeral_2_eq_2)

definition ex_record :: "nat rtest" where
  "ex_record = \<lparr>tsrvs = [\<lparr>applyErr = NoError, logs = [(1, Some 7)]\<rparr>, \<lparr>applyErr = NoError, logs = [(1, Some 7)]\<rparr>, newRaftServer], maxIndex = 1\<rparr>"

lemma ex_record_committed: "nCommitted 1 ex_record = Inr (2, Some 7)"
  by (simp add: ex_record_def nCommitted_def newRaftServer_def rs_entry_def)

lemma ex_start: "try_start 3 0 3 (\<lambda>s. if s = 1 then Some (1, True) else None) = (1, 1)"
  using try_start.simps(2) [of 3 0 2] by (simp add: Let_def)

lemma one_agreement_witness:
  "\<exists>ans polls ts s. (ans, polls) \<in> set [(\<lambda>s :: nat. if s = 1 then Some (1 :: int, True) else None, [ex_record])] \<and> ts \<in> set polls \<and>
    ans s = Some (1, True) \<and> no_errors ts \<and> 1 \<le> length (filter (\<lambda>rs. rs_entry 1 rs = Some (Some 7)) (tsrvs ts)) \<and>
    2 \<le> int (length (filter (\<lambda>rs. rs_entry 1 rs = Some (Some 7)) (tsrvs ts)))"
proof -
  have run: "one 3 (Some 7) 2 False False [(\<lambda>s. if s = 1 then Some (1, True) else None, [ex_record])] = Inr 1"
    by (simp add: one_def ex_record_committed ex_start [simplified])
  have "(1 :: int) \<noteq> -1" by simp
  from one_agreement [OF run this] show ?thesis .
qed

lemma checkOneLeader_unique_witness:
  "\<exists>ss t. ss \<in> set [[\<lparr>st_connected = True, st_term = 3, st_leader = False\<rparr>, \<lparr>st_connected = True, st_term = 3, st_leader = True\<rparr>]] \<and>
    filter (\<lambda>i. st_connected (ss ! i) \<and> st_leader (ss ! i) \<and> st_term (ss ! i) = t) [0..<length ss] = [1]"
proof -
  let ?rounds = "[[\<lparr>st_connected = True, st_term = 3, st_leader = False\<rparr>, \<lparr>st_connected = True, st_term = 3, st_leader = True\<rparr>]]"
  have "checkOneLeader ?rounds = Inr 1" by (simp add: checkOneLeader_def leader_round_def append_at_def Let_def)
  from checkOneLeader_unique [OF this] show ?thesis by auto
qed

lemma snapshot_restores_witness:
  "\<exists>rs ts' sn r. feed (replicate 9 (Some ''x'')) (fresh_srv 0, \<lparr>tsrvs = [newRaftServer], maxIndex = 0\<rparr>) = (rs, ts') \<and>
     (9, sn) \<in> set (taken rs) \<and> ingestSnap sn 9 (fresh_srv 1) = (r, NoError) \<and> lastApplied r = 9"
  using snapshot_restores [of 9 "replicate 9 (Some ''x'')" 0 "\<lparr>tsrvs = [newRaftServer], maxIndex = 0\<rparr>" "fresh_srv 1"] by auto

end
