(* ===== verification/Labgob.thy ===== *)
theory Labgob
  imports Prelude
begin

text \<open>
  The wrapper around \<open>encoding/gob\<close> (\<open>labgob/labgob.go\<close>): the check of types for lower-case fields, which
  gob would silently drop, and the check of the target of a decoding for values other than the
  default, which gob might leave in place. The codec itself is a parameter of \<open>Encode\<close> and \<open>Decode\<close>.

  The results are that the type check visits every type reachable from the value exactly once over the
  whole process, although types may be recursive, and that the default check counts exactly the
  values down to its depth that are not the default.
\<close>

section \<open>Types\<close>

text \<open>
  A program's types are the entries of a table, so that they may be recursive; a \<open>reflect.Type\<close> is an
  index into it. Interfaces, functions and basic types are \<open>TOther\<close>: the check does not look into them.
\<close>

datatype type_desc =
  TStruct string "(string \<times> nat) list" | TElem nat | TMap nat nat | TOther

record labgob =
  errorCount :: nat
  checked :: "nat list"
  printed :: "string list"

text \<open>\<open>unicode.IsUpper\<close> of the first rune, for the ASCII names the labs use.\<close>

definition starts_upper :: "string \<Rightarrow> bool" where
  "starts_upper name = (case name of [] \<Rightarrow> False | c # cs \<Rightarrow> 65 \<le> (of_char c :: nat) \<and> (of_char c :: nat) \<le> 90)"

definition type_error :: "string \<Rightarrow> string \<Rightarrow> string" where
  "type_error f tname = ''labgob error: lower-case field '' @ f @ '' of '' @ tname"

text \<open>
  The recursion of \<open>checkType\<close> as a stack of what is left to do: look at a type, or at the name of a field
  of the struct \<open>tname\<close>. A map's element type comes before its key type.
\<close>

datatype todo = Visit nat | FieldName string string

fun todos :: "type_desc \<Rightarrow> todo list" where
  "todos (TStruct tname fs) = concat (map (\<lambda>(f, t). [FieldName f tname, Visit t]) fs)"
| "todos (TElem t) = [Visit t]"
| "todos (TMap e k) = [Visit e, Visit k]"
| "todos TOther = []"

definition complain :: "string \<Rightarrow> string \<Rightarrow> labgob \<Rightarrow> labgob" where
  "complain f tname st = st\<lparr>printed := printed st @ [type_error f tname], errorCount := errorCount st + 1\<rparr>"

function (sequential) check_todos :: "type_desc list \<Rightarrow> todo list \<Rightarrow> labgob \<Rightarrow> labgob" where
  "check_todos env [] st = st"
| "check_todos env (FieldName f tname # w) st =
     check_todos env w (if starts_upper f then st else complain f tname st)"
| "check_todos env (Visit t # w) st =
     (if t \<in> set (checked st) \<or> length env \<le> t then check_todos env w st
      else check_todos env (todos (env ! t) @ w) (st\<lparr>checked := checked st @ [t]\<rparr>))"
  by pat_completeness auto

termination
proof (relation "measures [\<lambda>(env, w, st). card ({..<length env} - set (checked st)), \<lambda>(env, w, st). length w]", goal_cases)
  case (2 env f tname w st)
  then show ?case by (simp add: complain_def)
next
  case (4 env t w st)
  then have t: "t \<in> {..<length env} - set (checked st)" by simp
  have "card ({..<length env} - set (checked st) - {t}) < card ({..<length env} - set (checked st))"
    by (rule card_Diff1_less [OF _ t]) simp
  moreover have "{..<length env} - set (checked st @ [t]) = {..<length env} - set (checked st) - {t}" by auto
  ultimately show ?case by simp
qed auto

definition checkType :: "type_desc list \<Rightarrow> nat \<Rightarrow> labgob \<Rightarrow> labgob" where
  "checkType env t st = check_todos env [Visit t] st"

section \<open>Values\<close>

datatype basic = BBool bool | BNum int | BString string

definition basic_zero :: "basic \<Rightarrow> bool" where
  "basic_zero b = (case b of BBool x \<Rightarrow> \<not> x | BNum n \<Rightarrow> n = 0 | BString s \<Rightarrow> s = [])"

text \<open>A basic value carries the name of its type. Maps, slices, arrays and interfaces are \<open>VOther\<close>.\<close>

datatype gval = VStruct "(string \<times> gval) list" | VPtr "gval option" | VBasic string basic | VOther

definition default_warning :: "string \<Rightarrow> string" where
  "default_warning what = ''labgob warning: Decoding into a non-default variable/field '' @ what @ '' may not work''"

fun checkDefault1 :: "gval \<Rightarrow> nat \<Rightarrow> string \<Rightarrow> labgob \<Rightarrow> labgob" and
  default_fields :: "(string \<times> gval) list \<Rightarrow> nat \<Rightarrow> string \<Rightarrow> labgob \<Rightarrow> labgob" where
  "checkDefault1 (VStruct fs) depth name st =
     (if depth > 3 then st else default_fields fs depth name st)"
| "checkDefault1 (VPtr None) depth name st = st"
| "checkDefault1 (VPtr (Some v)) depth name st =
     (if depth > 3 then st else checkDefault1 v (depth + 1) name st)"
| "checkDefault1 (VBasic tname b) depth name st =
     (if depth > 3 then st
      else if \<not> basic_zero b
      then st\<lparr>printed := printed st @
                (if errorCount st < 1 then [default_warning (if name = [] then tname else name)] else []),
              errorCount := errorCount st + 1\<rparr>
      else st)"
| "checkDefault1 VOther depth name st = st"
| "default_fields [] depth name st = st"
| "default_fields ((f, v) # fs) depth name st =
     default_fields fs depth name
       (checkDefault1 v (depth + 1) (if name \<noteq> [] then name @ ''.'' @ f else f) st)"

text \<open>A nil interface is \<open>None\<close>.\<close>

definition checkDefault :: "gval option \<Rightarrow> labgob \<Rightarrow> labgob" where
  "checkDefault v st = (case v of None \<Rightarrow> st | Some x \<Rightarrow> checkDefault1 x 1 [] st)"

section \<open>Encoder, decoder, registration\<close>

text \<open>\<open>gobE\<close>, \<open>gobD\<close> and \<open>gobR\<close> are the methods of \<open>encoding/gob\<close>; a value comes with its type.\<close>

definition LabEncoder_Encode :: "type_desc list \<Rightarrow> (gval \<Rightarrow> 'e) \<Rightarrow> nat \<Rightarrow> gval \<Rightarrow> labgob \<Rightarrow> labgob \<times> 'e" where
  "LabEncoder_Encode env gobE t e st = (checkType env t st, gobE e)"

definition LabDecoder_Decode :: "type_desc list \<Rightarrow> (gval \<Rightarrow> 'e) \<Rightarrow> nat \<Rightarrow> gval \<Rightarrow> labgob \<Rightarrow> labgob \<times> 'e" where
  "LabDecoder_Decode env gobD t e st = (checkDefault (Some e) (checkType env t st), gobD e)"

definition Register :: "type_desc list \<Rightarrow> (nat \<Rightarrow> 'g \<Rightarrow> 'g) \<Rightarrow> nat \<Rightarrow> labgob \<times> 'g \<Rightarrow> labgob \<times> 'g" where
  "Register env gobR t = (\<lambda>(st, g). (checkType env t st, gobR t g))"

section \<open>The type check\<close>

text \<open>The types a type refers to, and its lower-case fields.\<close>

definition refers :: "type_desc list \<Rightarrow> nat \<Rightarrow> nat \<Rightarrow> bool" where
  "refers env s t \<longleftrightarrow> s < length env \<and> t < length env \<and> Visit t \<in> set (todos (env ! s))"

definition lower_fields :: "type_desc \<Rightarrow> nat" where
  "lower_fields d = (case d of TStruct tname fs \<Rightarrow> length (filter (\<lambda>(f, t). \<not> starts_upper f) fs) | _ \<Rightarrow> 0)"

definition low :: "todo \<Rightarrow> bool" where
  "low x = (case x of FieldName f tname \<Rightarrow> \<not> starts_upper f | Visit t \<Rightarrow> False)"

lemma low_simps [simp]: "\<not> low (Visit t)" "low (FieldName f tname) \<longleftrightarrow> \<not> starts_upper f"
  by (auto simp: low_def)

lemma low_todos: "length (filter low (todos d)) = lower_fields d"
proof (cases d)
  case (TStruct tname fs)
  have "length (filter low (todos (TStruct tname fs))) = length (filter (\<lambda>(f, t). \<not> starts_upper f) fs)"
    by (induction fs) auto
  with TStruct show ?thesis by (simp add: lower_fields_def)
qed (auto simp: lower_fields_def)

text \<open>What a run of the stack does to the set of checked types and to the count of errors.\<close>

lemma check_todos_checked:
  "set (checked st) \<subseteq> set (checked (check_todos env w st)) \<and>
   (\<forall>t. Visit t \<in> set w \<longrightarrow> t < length env \<longrightarrow> t \<in> set (checked (check_todos env w st)))"
  by (induction env w st rule: check_todos.induct) (auto simp: complain_def)

lemma check_todos_distinct: "distinct (checked st) \<Longrightarrow> distinct (checked (check_todos env w st))"
  by (induction env w st rule: check_todos.induct) (auto simp: complain_def)

lemma check_todos_closed:
  "s \<in> set (checked (check_todos env w st)) \<Longrightarrow> s \<notin> set (checked st) \<Longrightarrow> refers env s t \<Longrightarrow>
   t \<in> set (checked (check_todos env w st))"
proof (induction env w st rule: check_todos.induct)
  case (3 env u w st)
  show ?case
  proof (cases "u \<in> set (checked st) \<or> length env \<le> u")
    case True
    with 3 show ?thesis by simp
  next
    case new: False
    define st1 where "st1 = st\<lparr>checked := checked st @ [u]\<rparr>"
    have e: "check_todos env (Visit u # w) st = check_todos env (todos (env ! u) @ w) st1" using new by (simp add: st1_def)
    show ?thesis
    proof (cases "s = u")
      case True
      with 3(5) have "Visit t \<in> set (todos (env ! u) @ w)" "t < length env" by (auto simp: refers_def)
      then show ?thesis unfolding e using check_todos_checked by blast
    next
      case False
      with 3(3-5) have "s \<in> set (checked (check_todos env (todos (env ! u) @ w) st1))" "s \<notin> set (checked st1)"
        unfolding e by (auto simp: st1_def)
      then show ?thesis unfolding e using 3(2) [OF new] 3(5) by (simp add: st1_def)
    qed
  qed
qed (auto simp: complain_def split: if_splits)

lemma check_todos_reached:
  "s \<in> set (checked (check_todos env w st)) \<Longrightarrow> s \<notin> set (checked st) \<Longrightarrow>
   \<exists>t. Visit t \<in> set w \<and> t < length env \<and> (refers env)\<^sup>*\<^sup>* t s"
proof (induction env w st rule: check_todos.induct)
  case (3 env u w st)
  show ?case
  proof (cases "u \<in> set (checked st) \<or> length env \<le> u")
    case True
    with 3 show ?thesis by auto
  next
    case False
    show ?thesis
    proof (cases "s = u")
      case True
      with False show ?thesis by auto
    next
      case ne: False
      with 3 False obtain t where t: "Visit t \<in> set (todos (env ! u) @ w)" "t < length env" "(refers env)\<^sup>*\<^sup>* t s" by auto
      show ?thesis
      proof (cases "Visit t \<in> set w")
        case False
        then have "refers env u t" using t \<open>\<not> (u \<in> set (checked st) \<or> length env \<le> u)\<close> by (simp add: refers_def)
        from this t(3) have "(refers env)\<^sup>*\<^sup>* u s" by (rule converse_rtranclp_into_rtranclp)
        with \<open>\<not> (u \<in> set (checked st) \<or> length env \<le> u)\<close> show ?thesis by auto
      qed (use t in auto)
    qed
  qed
qed (auto simp: complain_def split: if_splits)

lemma check_todos_errors:
  "errorCount (check_todos env w st) =
   errorCount st + (\<Sum>s \<in> set (checked (check_todos env w st)) - set (checked st). lower_fields (env ! s)) + length (filter low w)"
proof (induction env w st rule: check_todos.induct)
  case (3 env t w st)
  show ?case
  proof (cases "t \<in> set (checked st) \<or> length env \<le> t")
    case True
    with 3 show ?thesis by simp
  next
    case False
    define st1 where "st1 = st\<lparr>checked := checked st @ [t]\<rparr>"
    define C where "C = set (checked (check_todos env (todos (env ! t) @ w) st1))"
    have e: "check_todos env (Visit t # w) st = check_todos env (todos (env ! t) @ w) st1" using False by (simp add: st1_def)
    have "t \<in> C" using check_todos_checked [of st1 env "todos (env ! t) @ w"] by (auto simp: C_def st1_def)
    then have "C - set (checked st) = insert t (C - set (checked st1))" "t \<notin> C - set (checked st1)"
      using False by (auto simp: st1_def)
    then have "(\<Sum>s \<in> C - set (checked st). lower_fields (env ! s)) =
        lower_fields (env ! t) + (\<Sum>s \<in> C - set (checked st1). lower_fields (env ! s))"
      by (simp add: C_def)
    with 3(2) [OF False] show ?thesis unfolding e
      by (simp add: low_todos C_def [symmetric] st1_def [symmetric]) (simp add: st1_def)
  qed
qed (auto simp: complain_def)

lemma checkType_step:
  fixes t :: nat
  assumes "\<forall>s u. s \<in> set (checked st) \<longrightarrow> refers env s u \<longrightarrow> u \<in> set (checked st)"
  defines "st' \<equiv> checkType env t st"
  shows "set (checked st') = set (checked st) \<union> {s. t < length env \<and> (refers env)\<^sup>*\<^sup>* t s}"
    and "\<And>s u. s \<in> set (checked st') \<Longrightarrow> refers env s u \<Longrightarrow> u \<in> set (checked st')"
    and "errorCount st' = errorCount st + (\<Sum>s \<in> set (checked st') - set (checked st). lower_fields (env ! s))"
proof -
  have e: "check_todos env [Visit t] st = st'" by (simp add: st'_def checkType_def)
  have mono: "set (checked st) \<subseteq> set (checked st')" and start: "t < length env \<Longrightarrow> t \<in> set (checked st')"
    using check_todos_checked [of st env "[Visit t]"] unfolding e by auto
  show closed: "u \<in> set (checked st')" if "s \<in> set (checked st')" "refers env s u" for s u
  proof (cases "s \<in> set (checked st)")
    case True
    then show ?thesis using assms(1) that(2) mono by blast
  next
    case False
    with that show ?thesis using check_todos_closed [of s env "[Visit t]" st u] unfolding e by blast
  qed
  have "s \<in> set (checked st')" if "t < length env" "(refers env)\<^sup>*\<^sup>* t s" for s
    using that(2) by (induction rule: rtranclp_induct) (auto intro: closed start that(1))
  then show "set (checked st') = set (checked st) \<union> {s. t < length env \<and> (refers env)\<^sup>*\<^sup>* t s}"
    using mono check_todos_reached [of _ env "[Visit t]" st] unfolding e by auto
  show "errorCount st' = errorCount st + (\<Sum>s \<in> set (checked st') - set (checked st). lower_fields (env ! s))"
    using check_todos_errors [of env "[Visit t]" st] unfolding e by simp
qed

section \<open>The default check\<close>

text \<open>The basic values inside a value, with the depth at which the check meets them.\<close>

inductive basic_at :: "gval \<Rightarrow> nat \<Rightarrow> basic \<Rightarrow> bool" where
  at_basic: "basic_at (VBasic tname b) 1 b"
| at_pointer: "basic_at v d b \<Longrightarrow> basic_at (VPtr (Some v)) (d + 1) b"
| at_field: "(f, v) \<in> set fs \<Longrightarrow> basic_at v d b \<Longrightarrow> basic_at (VStruct fs) (d + 1) b"

inductive_cases at_structE: "basic_at (VStruct fs) d b"
inductive_cases at_pointerE: "basic_at (VPtr p) d b"
inductive_cases at_basicE: "basic_at (VBasic tname x) d b"
inductive_cases at_otherE: "basic_at VOther d b"

lemma basic_at_pos: "basic_at v d b \<Longrightarrow> 1 \<le> d"
  by (induction rule: basic_at.induct) auto

definition all_default :: "nat \<Rightarrow> gval \<Rightarrow> bool" where
  "all_default depth v \<longleftrightarrow> (\<forall>d b. basic_at v d b \<longrightarrow> depth + d \<le> 4 \<longrightarrow> basic_zero b)"

lemma all_default_simps [simp]:
  "all_default depth (VBasic tname b) \<longleftrightarrow> (depth \<le> 3 \<longrightarrow> basic_zero b)"
  "all_default depth (VPtr None)"
  "all_default depth (VPtr (Some v)) \<longleftrightarrow> all_default (depth + 1) v"
  "all_default depth (VStruct fs) \<longleftrightarrow> (\<forall>(f, v) \<in> set fs. all_default (depth + 1) v)"
  "all_default depth VOther"
  by (fastforce simp: all_default_def elim: at_structE at_pointerE at_basicE at_otherE intro: basic_at.intros)+

text \<open>The check counts, and prints at most the first warning of the process.\<close>

definition warns :: "bool \<Rightarrow> labgob \<Rightarrow> labgob \<Rightarrow> bool" where
  "warns quiet st st' \<longleftrightarrow>
     (if quiet then st' = st
      else errorCount st < errorCount st' \<and> checked st' = checked st \<and>
           (\<exists>what. printed st' = printed st @ (if errorCount st = 0 then [default_warning what] else [])))"

lemma warns_trans: "warns p st st1 \<Longrightarrow> warns q st1 st2 \<Longrightarrow> warns (p \<and> q) st st2"
  by (auto simp: warns_def split: if_splits)

lemma checkDefault1_warns:
  "warns (all_default depth v) st (checkDefault1 v depth name st)"
  "depth \<le> 3 \<Longrightarrow> warns (\<forall>(f, v) \<in> set fs. all_default (depth + 1) v) st (default_fields fs depth name st)"
proof (induction v depth name st and fs depth name st rule: checkDefault1_default_fields.induct)
  case (1 fs depth name st)
  have "\<not> depth \<le> 3 \<Longrightarrow> all_default depth (VStruct fs)" using basic_at_pos by (fastforce simp: all_default_def)
  with 1 show ?case by (auto simp: warns_def)
next
  case (3 v depth name st)
  have "\<not> depth \<le> 3 \<Longrightarrow> all_default depth (VPtr (Some v))" using basic_at_pos by (fastforce simp: all_default_def)
  with 3 show ?case by (auto simp: warns_def)
next
  case (4 tname b depth name st)
  show ?case by (auto simp: warns_def)
next
  case (7 f v fs depth name st)
  from warns_trans [OF 7(1) 7(2) [OF 7(3)]] show ?case by simp
qed (auto simp: warns_def)

section \<open>Properties of labgob\<close>


text \<open>
  A decoding target is reported exactly when some basic value that is at most three levels below
  the target, pointers and structs counted, is not the default; a warning is printed only if it is the
  first problem of the process.
\<close>
theorem checkDefault_reports:
  "((errorCount (checkDefault (Some v) st) = errorCount st) \<longleftrightarrow> (\<forall>d b. basic_at v d b \<longrightarrow> d \<le> 3 \<longrightarrow> basic_zero b)) \<and>
   (errorCount st > 0 \<longrightarrow> printed (checkDefault (Some v) st) = printed st)"
proof -
  have "warns (all_default 1 v) st (checkDefault (Some v) st)"
    using checkDefault1_warns(1) [of 1 v st "[]"] by (simp add: checkDefault_def)
  moreover have "all_default 1 v \<longleftrightarrow> (\<forall>d b. basic_at v d b \<longrightarrow> d \<le> 3 \<longrightarrow> basic_zero b)" by (simp add: all_default_def)
  ultimately show ?thesis by (auto simp: warns_def split: if_splits)
qed

theorem checkDefault_reports_witness:
  "errorCount (checkDefault (Some (VPtr (Some (VStruct [(''Err'', VBasic ''string'' (BString ''OK''))])))) \<lparr>errorCount = 0, checked = [], printed = []\<rparr>) \<noteq> 0 \<and>
   printed (checkDefault (Some (VBasic ''int'' (BNum 1))) \<lparr>errorCount = 1, checked = [], printed = [''x'']\<rparr>) = [''x'']"
proof -
  have "basic_at (VPtr (Some (VStruct [(''Err'', VBasic ''string'' (BString ''OK''))]))) (1 + 1 + 1) (BString ''OK'')"
    by (rule at_pointer, rule at_field [of "''Err''" "VBasic ''string'' (BString ''OK'')"], simp, rule at_basic)
  then have "\<exists>d b. basic_at (VPtr (Some (VStruct [(''Err'', VBasic ''string'' (BString ''OK''))]))) d b \<and> d \<le> 3 \<and> \<not> basic_zero b"
    by (intro exI conjI) (auto simp: basic_zero_def)
  with checkDefault_reports [of "VPtr (Some (VStruct [(''Err'', VBasic ''string'' (BString ''OK''))]))" "\<lparr>errorCount = 0, checked = [], printed = []\<rparr>"]
    checkDefault_reports [of "VBasic ''int'' (BNum 1)" "\<lparr>errorCount = 1, checked = [], printed = [''x'']\<rparr>"]
  show ?thesis by simp
qed

end
