(* ===== verification/Skeletons.thy ===== *)
theory Skeletons
  imports ShardTest KvRaftTest RaftTester Labgob
begin

text \<open>
  The packages of the repository whose handlers are not written yet, as they are: the Raft library
  (\<open>raft1/raft.go\<close>) behind the server and the proxy of \<open>raft1/server.go\<close> and \<open>raft1/proxy.go\<close>, \<open>kvraft1/rsm/rsm.go\<close>,
  and the servers and clerks of \<open>kvraft1\<close> and \<open>shardkv1\<close>. Together with the testers of the other theories they
  make complete programs, about which there is something to show: the testers accept none of them.

  Shown: with this Raft library the tests find no leader and no agreement, whatever calls fail; with this
  \<open>RSM\<close> no command is ever accepted; the clerks' answers are rejected by the checks and by the
  specification given to the linearizability checker; the shard controller ends every test that joins
  or leaves a group.
\<close>

section \<open>raft1/raft.go\<close>

record raft =
  raft_peers :: "string list"
  raft_persister :: persister
  raft_me :: int

definition raft_GetState :: "raft \<Rightarrow> int \<times> bool" where
  "raft_GetState rf = (0, False)"

definition raft_persist :: "raft \<Rightarrow> raft" where "raft_persist rf = rf"

definition raft_readPersist :: "bytes \<Rightarrow> raft \<Rightarrow> raft" where
  "raft_readPersist data rf = (if length data < 1 then rf else rf)"

definition PersistBytes :: "raft \<Rightarrow> int" where
  "PersistBytes rf = RaftStateSize (raft_persister rf)"

definition raft_Snapshot :: "int \<Rightarrow> bytes \<Rightarrow> raft \<Rightarrow> raft" where
  "raft_Snapshot index snap rf = rf"

text \<open>Arguments and reply of \<open>RequestVote\<close> are structs without fields; \<open>call\<close> is \<open>ClientEnd.Call\<close>.\<close>

definition RequestVote :: "unit \<Rightarrow> unit \<Rightarrow> raft \<Rightarrow> raft \<times> unit" where
  "RequestVote a r rf = (rf, r)"

definition sendRequestVote :: "(string \<Rightarrow> string \<Rightarrow> bool) \<Rightarrow> int \<Rightarrow> raft \<Rightarrow> bool result" where
  "sendRequestVote call server rf =
     res_bind (go_index (raft_peers rf) server) (\<lambda>e. Inr (call e ''Raft.RequestVote''))"

definition raft_Start :: "'c option \<Rightarrow> raft \<Rightarrow> int \<times> int \<times> bool" where
  "raft_Start command rf = (-1, -1, True)"

text \<open>The milliseconds a turn of \<open>ticker\<close> sleeps, given what \<open>rand.Int63\<close> returns.\<close>

definition ticker_ms :: "int \<Rightarrow> int" where
  "ticker_ms r = 50 + r mod 300"

definition raft_Make :: "string list \<Rightarrow> int \<Rightarrow> persister \<Rightarrow> raft" where
  "raft_Make peers i p =
     raft_readPersist (ReadRaftState p) \<lparr>raft_peers = peers, raft_persister = p, raft_me = i\<rparr>"

section \<open>raft1/server.go and raft1/proxy.go\<close>

text \<open>The library of a server, which is nil with \<open>UseRaftStateMachine\<close>.\<close>

definition rfsrv_raft :: "bool \<Rightarrow> string list \<Rightarrow> int \<Rightarrow> persister \<Rightarrow> raft option" where
  "rfsrv_raft useRSM ns i p = (if \<not> useRSM then Some (raft_Make ns i p) else None)"

definition rfsrv_Start :: "'c option \<Rightarrow> raft option \<Rightarrow> int \<times> int \<times> bool" where
  "rfsrv_Start command rf = (case rf of None \<Rightarrow> (0, 0, False) | Some r \<Rightarrow> raft_Start command r)"

definition rfsrv_GetState :: "raft option \<Rightarrow> (int \<times> bool) result" where
  "rfsrv_GetState rf = (case rf of None \<Rightarrow> Inl (Panic ''nil pointer dereference'') | Some r \<Rightarrow> Inr (raft_GetState r))"

record get_state_reply =
  gs_Term :: int
  gs_Leader :: bool

record start_reply =
  sr_Index :: int
  sr_Term :: int
  sr_Leader :: bool

definition GetStateRPC :: "raft option \<Rightarrow> get_state_reply result" where
  "GetStateRPC rf = res_bind (rfsrv_GetState rf) (\<lambda>(t, l). Inr \<lparr>gs_Term = t, gs_Leader = l\<rparr>)"

definition StartRPC :: "'c option \<Rightarrow> raft option \<Rightarrow> start_reply" where
  "StartRPC command rf = (case rfsrv_Start command rf of (i, t, l) \<Rightarrow> \<lparr>sr_Index = i, sr_Term = t, sr_Leader = l\<rparr>)"

text \<open>The tester's proxy; the call fails (\<open>None\<close>) and leaves the zero reply, or brings the answer.\<close>

definition rfp_GetState :: "get_state_reply option \<Rightarrow> int \<times> bool" where
  "rfp_GetState answer = (let rep = (case answer of None \<Rightarrow> \<lparr>gs_Term = 0, gs_Leader = False\<rparr> | Some r \<Rightarrow> r)
     in (gs_Term rep, gs_Leader rep))"

definition rfp_Start :: "start_reply option \<Rightarrow> int \<times> int \<times> bool" where
  "rfp_Start answer = (let rep = (case answer of None \<Rightarrow> \<lparr>sr_Index = 0, sr_Term = 0, sr_Leader = False\<rparr> | Some r \<Rightarrow> r)
     in (sr_Index rep, sr_Term rep, sr_Leader rep))"

section \<open>kvraft1/rsm/rsm.go\<close>

record rsm =
  rsm_me :: int
  rsm_rf :: "raft option"
  rsm_maxraftstate :: int

definition MakeRSM :: "bool \<Rightarrow> string list \<Rightarrow> int \<Rightarrow> persister \<Rightarrow> int \<Rightarrow> rsm" where
  "MakeRSM useRSM ns i p maxraftstate =
     \<lparr>rsm_me = i, rsm_rf = (if \<not> useRSM then Some (raft_Make ns i p) else None), rsm_maxraftstate = maxraftstate\<rparr>"

definition RSM_Raft :: "rsm \<Rightarrow> raft option" where "RSM_Raft r = rsm_rf r"

section \<open>Servers\<close>

text \<open>
  \<open>kvraft1/server.go\<close> and \<open>shardkv1/shardgrp/server.go\<close>: the handlers leave the reply they are given. The types
  the servers register with labgob are entries of a table; \<open>gobR\<close> is \<open>gob.Register\<close>.
\<close>

record kvraft_server =
  kvr_me :: int
  kvr_rsm :: rsm

definition kvr_DoOp :: "'q \<Rightarrow> kvraft_server \<Rightarrow> kvraft_server \<times> 'r option" where "kvr_DoOp req kv = (kv, None)"
definition kvr_Snapshot :: "kvraft_server \<Rightarrow> bytes" where "kvr_Snapshot kv = []"
definition kvr_Restore :: "bytes \<Rightarrow> kvraft_server \<Rightarrow> kvraft_server" where "kvr_Restore data kv = kv"

definition kvr_Get :: "get_args \<Rightarrow> get_reply \<Rightarrow> kvraft_server \<Rightarrow> kvraft_server \<times> get_reply" where "kvr_Get a r kv = (kv, r)"
definition kvr_Put :: "put_args \<Rightarrow> put_reply \<Rightarrow> kvraft_server \<Rightarrow> kvraft_server \<times> put_reply" where "kvr_Put a r kv = (kv, r)"

text \<open>The types: string, number and bytes, \<open>Op\<close>, the arguments of the store and those of shard transfers.\<close>

definition rpc_types :: "type_desc list" where
  "rpc_types = [TOther, TOther, TElem 1, TStruct ''Op'' [],
     TStruct ''PutArgs'' [(''Key'', 0), (''Value'', 0), (''Version'', 1)], TStruct ''GetArgs'' [(''Key'', 0)],
     TStruct ''FreezeShardArgs'' [(''Shard'', 1), (''Num'', 1)],
     TStruct ''InstallShardArgs'' [(''Shard'', 1), (''State'', 2), (''Num'', 1)],
     TStruct ''DeleteShardArgs'' [(''Shard'', 1), (''Num'', 1)]]"

definition StartKVServer ::
  "bool \<Rightarrow> (nat \<Rightarrow> 'g \<Rightarrow> 'g) \<Rightarrow> string list \<Rightarrow> int \<Rightarrow> persister \<Rightarrow> int \<Rightarrow> labgob \<times> 'g \<Rightarrow> (labgob \<times> 'g) \<times> kvraft_server \<times> raft option" where
  "StartKVServer useRSM gobR ns i p maxraftstate lg =
     (let lg' = Register rpc_types gobR 5 (Register rpc_types gobR 4 (Register rpc_types gobR 3 lg));
          kv = \<lparr>kvr_me = i, kvr_rsm = MakeRSM useRSM ns i p maxraftstate\<rparr>
      in (lg', kv, RSM_Raft (kvr_rsm kv)))"

record freeze_reply =
  fr_State :: bytes
  fr_Num :: int
  fr_Err :: err

record shardgrp_server =
  sgs_me :: int
  sgs_rsm :: rsm
  sgs_gid :: int

definition sgs_DoOp :: "'q \<Rightarrow> shardgrp_server \<Rightarrow> shardgrp_server \<times> 'r option" where "sgs_DoOp req kv = (kv, None)"
definition sgs_Snapshot :: "shardgrp_server \<Rightarrow> bytes" where "sgs_Snapshot kv = []"
definition sgs_Restore :: "bytes \<Rightarrow> shardgrp_server \<Rightarrow> shardgrp_server" where "sgs_Restore data kv = kv"
definition sgs_Get :: "get_args \<Rightarrow> get_reply \<Rightarrow> shardgrp_server \<Rightarrow> shardgrp_server \<times> get_reply" where "sgs_Get a r kv = (kv, r)"
definition sgs_Put :: "put_args \<Rightarrow> put_reply \<Rightarrow> shardgrp_server \<Rightarrow> shardgrp_server \<times> put_reply" where "sgs_Put a r kv = (kv, r)"

text \<open>The arguments name the shard and the configuration, and the state to install; two replies hold an error only.\<close>

definition sgs_FreezeShard :: "nat \<times> int \<Rightarrow> freeze_reply \<Rightarrow> shardgrp_server \<Rightarrow> shardgrp_server \<times> freeze_reply" where
  "sgs_FreezeShard a r kv = (kv, r)"
definition sgs_InstallShard :: "nat \<times> bytes \<times> int \<Rightarrow> err \<Rightarrow> shardgrp_server \<Rightarrow> shardgrp_server \<times> err" where
  "sgs_InstallShard a r kv = (kv, r)"
definition sgs_DeleteShard :: "nat \<times> int \<Rightarrow> err \<Rightarrow> shardgrp_server \<Rightarrow> shardgrp_server \<times> err" where
  "sgs_DeleteShard a r kv = (kv, r)"

definition StartServerShardGrp ::
  "bool \<Rightarrow> (nat \<Rightarrow> 'g \<Rightarrow> 'g) \<Rightarrow> string list \<Rightarrow> int \<Rightarrow> int \<Rightarrow> persister \<Rightarrow> int \<Rightarrow> labgob \<times> 'g \<Rightarrow> (labgob \<times> 'g) \<times> shardgrp_server \<times> raft option" where
  "StartServerShardGrp useRSM gobR ns gid i p maxraftstate lg =
     (let lg' = fold (Register rpc_types gobR) [4, 5, 6, 7, 8, 3] lg;
          kv = \<lparr>sgs_me = i, sgs_rsm = MakeRSM useRSM ns i p maxraftstate, sgs_gid = gid\<rparr>
      in (lg', kv, RSM_Raft (sgs_rsm kv)))"

section \<open>Clerks\<close>

text \<open>\<open>kvraft1/client.go\<close>, \<open>shardkv1/shardgrp/client.go\<close> and \<open>shardkv1/client.go\<close>.\<close>

record raft_clerk =
  rck_clnt :: nat
  rck_servers :: "string list"
  rck_leader :: nat

definition rck_MakeClerk :: "nat \<Rightarrow> string list \<Rightarrow> raft_clerk" where
  "rck_MakeClerk c ns = \<lparr>rck_clnt = c, rck_servers = ns, rck_leader = 0\<rparr>"

definition rck_Leader :: "raft_clerk \<Rightarrow> nat" where "rck_Leader ck = rck_leader ck"
definition rck_Get :: "string \<Rightarrow> raft_clerk \<Rightarrow> get_reply" where
  "rck_Get key ck = \<lparr>gr_Value = '''', gr_Version = 0, gr_Err = NoErr\<rparr>"
definition rck_Put :: "put_args \<Rightarrow> raft_clerk \<Rightarrow> err" where "rck_Put a ck = NoErr"

definition sgc_MakeClerk :: "nat \<Rightarrow> string list \<Rightarrow> raft_clerk" where
  "sgc_MakeClerk c ns = \<lparr>rck_clnt = c, rck_servers = ns, rck_leader = 0\<rparr>"
definition sgc_Get :: "string \<Rightarrow> raft_clerk \<Rightarrow> get_reply" where
  "sgc_Get key ck = \<lparr>gr_Value = '''', gr_Version = 0, gr_Err = NoErr\<rparr>"
definition sgc_Put :: "put_args \<Rightarrow> raft_clerk \<Rightarrow> err" where "sgc_Put a ck = NoErr"
definition sgc_FreezeShard :: "nat \<Rightarrow> int \<Rightarrow> raft_clerk \<Rightarrow> bytes \<times> err" where "sgc_FreezeShard s num ck = ([], NoErr)"
definition sgc_InstallShard :: "nat \<Rightarrow> bytes \<Rightarrow> int \<Rightarrow> raft_clerk \<Rightarrow> err" where "sgc_InstallShard s state num ck = NoErr"
definition sgc_DeleteShard :: "nat \<Rightarrow> int \<Rightarrow> raft_clerk \<Rightarrow> err" where "sgc_DeleteShard s num ck = NoErr"

record shard_clerk =
  sck_clnt :: nat
  sck_rcks :: "(int, raft_clerk) gomap"

definition sck_MakeClerk :: "nat \<Rightarrow> shard_clerk" where "sck_MakeClerk c = \<lparr>sck_clnt = c, sck_rcks = []\<rparr>"
definition GetClerk :: "int \<Rightarrow> shard_clerk \<Rightarrow> raft_clerk option" where "GetClerk gid ck = map_of (sck_rcks ck) gid"
definition sck_Get :: "string \<Rightarrow> shard_clerk \<Rightarrow> get_reply" where
  "sck_Get key ck = \<lparr>gr_Value = '''', gr_Version = 0, gr_Err = NoErr\<rparr>"
definition sck_Put :: "put_args \<Rightarrow> shard_clerk \<Rightarrow> err" where "sck_Put a ck = NoErr"

section \<open>The testers on these packages\<close>

text \<open>
  What the Raft tester learns from a server: whether it is connected, and the state its proxy returns when
  the call arrives (\<open>ok\<close>) or fails. A process whose library is nil dies in \<open>GetState\<close>, so the call fails.
\<close>

definition proxy_state :: "bool \<times> bool \<times> raft option \<Rightarrow> srv_state" where
  "proxy_state = (\<lambda>(c, ok, rf).
     let (t, l) = rfp_GetState (if ok then (case GetStateRPC rf of Inr r \<Rightarrow> Some r | Inl e \<Rightarrow> None) else None)
     in \<lparr>st_connected = c, st_term = t, st_leader = l\<rparr>)"

definition proxy_start :: "'c option \<Rightarrow> bool \<times> bool \<times> raft option \<Rightarrow> (int \<times> bool) option" where
  "proxy_start cmd = (\<lambda>(c, ok, rf).
     if c then (case rfp_Start (if ok then Some (StartRPC cmd rf) else None) of (i, t, l) \<Rightarrow> Some (i, l)) else None)"

lemma proxy_state_zero: "proxy_state x = \<lparr>st_connected = fst x, st_term = 0, st_leader = False\<rparr>"
  by (cases x) (auto simp: proxy_state_def rfp_GetState_def GetStateRPC_def rfsrv_GetState_def raft_GetState_def split: option.split)

lemma proxy_start_cases: "proxy_start cmd x \<in> {None, Some (0, False), Some (-1, True)}"
  by (cases x) (auto simp: proxy_start_def rfp_Start_def StartRPC_def rfsrv_Start_def raft_Start_def split: option.split)

lemma skeleton_round: "leader_round (map proxy_state xs) = Inr None"
proof -
  have "collect_leaders i (map proxy_state xs) m = m" for i m
    by (induction xs arbitrary: i) (auto simp: proxy_state_zero)
  then show ?thesis by (simp add: leader_round_def)
qed

lemma skeleton_rounds: "leader_rounds (map (map proxy_state) rounds) = Inl (Fatal ''expected one leader, got none'')"
  by (induction rounds) (auto simp: skeleton_round)

lemma zero_term: "checkTerms_loop (proxy_state x # ss) t = (if fst x then if t = -1 \<or> t = 0 then checkTerms_loop ss 0 else Inl (Fatal ''servers disagree on term'') else checkTerms_loop ss t)"
  by (simp add: proxy_state_zero)

lemma skeleton_terms_zero: "checkTerms_loop (map proxy_state xs) 0 = Inr 0"
  by (induction xs) (simp_all add: zero_term del: checkTerms_loop.simps(2))

lemma skeleton_terms: "checkTerms_loop (map proxy_state xs) (-1) = Inr (if list_ex fst xs then 0 else -1)"
  by (induction xs) (simp_all add: zero_term skeleton_terms_zero del: checkTerms_loop.simps(2))

lemma skeleton_try_start: "snd (try_start n starts k (\<lambda>s. proxy_start cmd (xs s))) = -1"
proof (induction k arbitrary: starts)
  case (Suc k)
  show ?case using proxy_start_cases [of cmd "xs ((starts + 1) mod n)"] Suc.IH by (auto simp: Let_def)
qed simp

lemma skeleton_one:
  "one_loop n starts cmd k retry False (map (\<lambda>(xs, polls). (\<lambda>s. proxy_start cmd (xs s), polls)) rounds) =
     Inl (Fatal ''failed to reach agreement'')"
proof (induction rounds arbitrary: starts)
  case (Cons r rounds)
  obtain xs polls where r: "r = (xs, polls)" by fastforce
  obtain s where "try_start n starts n (\<lambda>s. proxy_start cmd (xs s)) = (s, -1)"
    using skeleton_try_start [of n starts n cmd xs] by (metis prod.collapse)
  then show ?case by (simp add: r Cons.IH)
qed simp

text \<open>
  The Raft tests reject the unfinished library, whatever calls of the tester fail and whatever servers are
  connected: \<open>checkOneLeader\<close> ends with "expected one leader, got none", \<open>checkNoLeader\<close> passes, \<open>checkTerms\<close>
  returns term 0, or -1 if no server is connected, and \<open>one\<close> fails to reach agreement although the
  library's \<open>Start\<close> claims to be the leader, because the index it returns is -1.
\<close>
theorem raft_skeleton_rejected:
  "checkOneLeader (map (map proxy_state) rounds) = Inl (Fatal ''expected one leader, got none'') \<and>
   checkNoLeader (map proxy_state xs) = Inr () \<and>
   checkTerms (map proxy_state xs) = Inr (if list_ex fst xs then 0 else -1) \<and>
   one n cmd k retry False (map (\<lambda>(ys, polls). (\<lambda>s. proxy_start cmd (ys s), polls)) orounds) =
     Inl (Fatal ''failed to reach agreement'')"
proof -
  have "checkNoLeader (map proxy_state xs) = Inr ()" by (induction xs) (auto simp: proxy_state_zero)
  then show ?thesis
    by (simp add: checkOneLeader_def take_map skeleton_rounds checkTerms_def skeleton_terms one_def skeleton_one)
qed

text \<open>
  With this \<open>RSM\<close> no server ever accepts a command: the search for a leader runs over all rounds, with any calls
  failing, and returns nothing.
\<close>

definition rsm_round :: "rsm_req \<Rightarrow> bool list \<times> bool list \<times> (int \<Rightarrow> bool) \<Rightarrow> bool list \<times> bool list \<times> (int \<Rightarrow> err \<times> rsm_rep option)" where
  "rsm_round req = (\<lambda>(conn, live, ok). (conn, live, \<lambda>i. proxy_Submit (if ok i then Some (SubmitRPC req) else None)))"

lemma rsm_round_refuses: "\<not> accepts p (rsm_round req x) i"
  by (cases x) (auto simp: rsm_round_def accepts_def proxy_Submit_def SubmitRPC_def Submit_def)

theorem rsm_skeleton_refuses:
  assumes "\<forall>x \<in> set rounds. round_wf (rsm_round req x)" and "0 \<le> rt_leader ts" "rt_leader ts < NSRV"
  shows "onePartition p (map (rsm_round req) rounds) ts = Inr (ts, None)"
  using assms(1)
proof (induction rounds)
  case (Cons x rounds)
  obtain conn live submit where x: "rsm_round req x = (conn, live, submit)" by (cases "rsm_round req x") auto
  have "round_wf (conn, live, submit)" using Cons.prems by (simp flip: x)
  from try_servers_result [OF this assms(2,3), of "length live" p] show ?case
    using rsm_round_refuses [of p req x] Cons by (simp add: x)
qed simp

text \<open>
  The clerks of the unfinished key/value services are rejected: \<open>CheckGet\<close> fails on every value,
  \<open>PutAtLeastOnce\<close> never returns, and no history with one of their Puts is accepted by the specification
  of the linearizability checker, whatever happens before and after.
\<close>
theorem kv_skeleton_rejected:
  "CheckGet (rck_Get key ck) val ver = Inl (Fatal ''returns error'') \<and>
   PutAtLeastOnce (map (\<lambda>a. rck_Put a ck) as) 0 = Inr None \<and>
   \<not> kv_accepts st (before @ (inp\<lparr>in_Op := 1\<rparr>, \<lparr>out_Value = '''', out_Version = 0, out_Err = err_string (rck_Put a ck)\<rparr>) # after)"
proof -
  have "PutAtLeastOnce (map (\<lambda>a. rck_Put a ck) as) 0 = Inr None" by (induction as) (auto simp: rck_Put_def)
  moreover have "\<not> kv_accepts st (before @ (inp\<lparr>in_Op := 1\<rparr>, \<lparr>out_Value = '''', out_Version = 0, out_Err = []\<rparr>) # after)"
    by (induction before arbitrary: st) (auto simp: kv_Step_def split: bool.splits option.splits)
  ultimately show ?thesis by (simp add: CheckGet_def rck_Get_def rck_Put_def)
qed

text \<open>
  With the unfinished shard controller a test that joins or leaves a group panics on the nil configuration
  its \<open>Query\<close> returns, for whatever group and in whatever state of the test.
\<close>
theorem ctrler_skeleton_panics:
  "leaveGroups ShardCtrler (gid # gids) (c, cfg) = Inl (Panic ''nil pointer dereference'') \<and>
   join ShardCtrler gid names c = Inl (Panic ''nil pointer dereference'') \<and>
   (\<nexists>r. joinGroups ShardCtrler (g # gs) (c, cfg) = Inr r)"
proof -
  have q: "query ShardCtrler c = Inl (Panic ''nil pointer dereference'')" for c by (simp add: query_def ShardCtrler_def)
  show ?thesis by (auto simp: q leave_def join_def)
qed

text \<open>
  The servers register only types whose fields are exported, so that labgob finds nothing to complain about,
  and restarting with a saved state leaves that state in the persister.
\<close>

lemma start_registers_cleanly:
  "errorCount (fst (fst (StartKVServer useRSM gobR ns i p m (\<lparr>errorCount = 0, checked = [], printed = []\<rparr>, g)))) = 0"
  "errorCount (fst (fst (StartServerShardGrp useRSM gobR ns gid i p m (\<lparr>errorCount = 0, checked = [], printed = []\<rparr>, g)))) = 0"
  by (simp_all add: StartKVServer_def StartServerShardGrp_def Register_def Let_def checkType_def rpc_types_def starts_upper_def case_prod_beta)

lemma raft_Make_persister: "raft_persister (raft_Make ns i p) = p \<and> PersistBytes (raft_Make ns i p) = RaftStateSize p"
  by (simp add: raft_Make_def raft_readPersist_def PersistBytes_def)

lemma ticker_ms_range: "0 \<le> r \<Longrightarrow> 50 \<le> ticker_ms r \<and> ticker_ms r < 350"
  by (simp add: ticker_ms_def)

end
