(* ===== verification/DaemonStart.thy ===== *)
theory DaemonStart
  imports Daemon
begin

text \<open>
  The start of a server process (\<open>InitDaemon\<close>, \<open>Init\<close> and \<open>InitWait\<close> of \<open>tester1/daemonsrv.go\<close>; \<open>init\<close> and \<open>waitInit\<close> of
  \<open>tester1/daemonclnt.go\<close>; \<open>StartServer\<close> of \<open>tester1/group.go\<close>). Three goroutines of the daemon meet on one
  unbuffered channel: the main one takes the persister that the \<open>Init\<close> handler sends, registers the
  services of the server and then sends nil, which the \<open>InitWait\<close> handler takes. The tester makes the two
  calls one after the other and then adds the server to the network.

  Shown: when the calls return, the server is in the network only after all its services are registered
  and with the state the tester saved, and the start cannot hang. The tester only logs a call that
  fails, and then the server may be added although it never starts.
\<close>

section \<open>The goroutines\<close>

datatype main_pc = M_wait_init | M_services | M_signal | M_forever | M_exit

datatype tester_pc = T_init | T_in_init | T_wait | T_in_wait | T_started

text \<open>
  \<open>su_sending\<close> is the persister an \<open>Init\<close> handler is blocked with, \<open>su_receiving\<close> says that an \<open>InitWait\<close> handler is
  blocked; \<open>su_sent\<close> and \<open>su_received\<close> that they have returned.
\<close>

record startup =
  su_main :: main_pc
  su_persister :: "persister option"
  su_services :: nat
  su_sending :: "persister option"
  su_sent :: bool
  su_receiving :: bool
  su_received :: bool
  su_tester :: tester_pc

definition startup_init :: "startup \<Rightarrow> bool" where
  "startup_init s \<longleftrightarrow> s = \<lparr>su_main = M_wait_init, su_persister = None, su_services = 0, su_sending = None, su_sent = False,
     su_receiving = False, su_received = False, su_tester = T_init\<rparr>"

text \<open>
  \<open>sv\<close> is the saved state the tester has for the server, \<open>n\<close> the number of services \<open>mks\<close> returns, \<open>lossy\<close> says that calls
  may fail. A send and a receive on the channel are one step.
\<close>

inductive startup_step :: "bool \<Rightarrow> persister \<Rightarrow> nat \<Rightarrow> startup \<Rightarrow> startup \<Rightarrow> bool"
  for lossy :: bool and sv :: persister and n :: nat where
  call_init: "su_tester s = T_init \<Longrightarrow>
    startup_step lossy sv n s (s\<lparr>su_tester := T_in_init, su_sending := Some (ds_Init (dc_init sv))\<rparr>)"
| init_main: "su_sending s = Some p \<Longrightarrow> su_main s = M_wait_init \<Longrightarrow>
    startup_step lossy sv n s (s\<lparr>su_sending := None, su_sent := True, su_persister := Some p, su_main := M_services\<rparr>)"
| init_taken: "su_sending s = Some p \<Longrightarrow> su_receiving s \<Longrightarrow>
    startup_step lossy sv n s (s\<lparr>su_sending := None, su_sent := True, su_receiving := False, su_received := True\<rparr>)"
| init_exit: "su_sending s = Some p \<Longrightarrow> su_main s = M_forever \<Longrightarrow>
    startup_step lossy sv n s (s\<lparr>su_sending := None, su_sent := True, su_main := M_exit\<rparr>)"
| init_returns: "su_tester s = T_in_init \<Longrightarrow> su_sent s \<Longrightarrow> startup_step lossy sv n s (s\<lparr>su_tester := T_wait\<rparr>)"
| add_service: "su_main s = M_services \<Longrightarrow> su_services s < n \<Longrightarrow>
    startup_step lossy sv n s (s\<lparr>su_services := su_services s + 1\<rparr>)"
| services_done: "su_main s = M_services \<Longrightarrow> su_services s = n \<Longrightarrow> startup_step lossy sv n s (s\<lparr>su_main := M_signal\<rparr>)"
| call_wait: "su_tester s = T_wait \<Longrightarrow>
    startup_step lossy sv n s (s\<lparr>su_tester := T_in_wait, su_receiving := True\<rparr>)"
| signal: "su_main s = M_signal \<Longrightarrow> su_receiving s \<Longrightarrow>
    startup_step lossy sv n s (s\<lparr>su_main := M_forever, su_receiving := False, su_received := True\<rparr>)"
| wait_returns: "su_tester s = T_in_wait \<Longrightarrow> su_received s \<Longrightarrow> startup_step lossy sv n s (s\<lparr>su_tester := T_started\<rparr>)"
| init_fails: "lossy \<Longrightarrow> su_tester s = T_in_init \<Longrightarrow> startup_step lossy sv n s (s\<lparr>su_tester := T_wait\<rparr>)"
| wait_fails: "lossy \<Longrightarrow> su_tester s = T_in_wait \<Longrightarrow> startup_step lossy sv n s (s\<lparr>su_tester := T_started\<rparr>)"

inductive_cases startup_stepE: "startup_step lossy sv n s t"

section \<open>When the calls return\<close>

text \<open>Where each goroutine can be for each position of the tester.\<close>

fun startup_phase :: "persister \<Rightarrow> nat \<Rightarrow> startup \<Rightarrow> tester_pc \<Rightarrow> bool" where
  "startup_phase p n s T_init \<longleftrightarrow> su_main s = M_wait_init \<and> su_sending s = None \<and> \<not> su_sent s \<and> \<not> su_receiving s \<and> \<not> su_received s"
| "startup_phase p n s T_in_init \<longleftrightarrow> \<not> su_receiving s \<and> \<not> su_received s \<and>
     (if su_sent s then su_sending s = None \<and> su_main s \<in> {M_services, M_signal} else su_sending s = Some p \<and> su_main s = M_wait_init)"
| "startup_phase p n s T_wait \<longleftrightarrow> su_sending s = None \<and> su_sent s \<and> \<not> su_receiving s \<and> \<not> su_received s \<and> su_main s \<in> {M_services, M_signal}"
| "startup_phase p n s T_in_wait \<longleftrightarrow> su_sending s = None \<and> su_sent s \<and>
     (if su_received s then \<not> su_receiving s \<and> su_main s = M_forever else su_receiving s \<and> su_main s \<in> {M_services, M_signal})"
| "startup_phase p n s T_started \<longleftrightarrow> su_sending s = None \<and> \<not> su_receiving s \<and> su_received s \<and> su_main s = M_forever"

definition startup_inv :: "persister \<Rightarrow> nat \<Rightarrow> startup \<Rightarrow> bool" where
  "startup_inv p n s \<longleftrightarrow> startup_phase p n s (su_tester s) \<and>
     (su_main s \<noteq> M_wait_init \<longrightarrow> su_persister s = Some p) \<and>
     (su_main s = M_wait_init \<longrightarrow> su_services s = 0) \<and> su_services s \<le> n \<and> (su_main s \<in> {M_signal, M_forever} \<longrightarrow> su_services s = n)"

lemma startup_inv_step:
  assumes "startup_inv p n s" "startup_step False sv n s t" "p = ds_Init (dc_init sv)"
  shows "startup_inv p n t"
  using assms(2,1,3)
  by (cases rule: startup_stepE) (cases "su_tester s"; auto simp: startup_inv_def split: if_splits)+

interpretation su: invariant_machine startup_init "startup_step False sv n" "startup_inv (ds_Init (dc_init sv)) n"
  for sv n
proof
  show "startup_inv (ds_Init (dc_init sv)) n s" if "startup_init s" for s using that by (simp add: startup_init_def startup_inv_def)
  show "startup_inv (ds_Init (dc_init sv)) n t" if "startup_inv (ds_Init (dc_init sv)) n s" "startup_step False sv n s t" for s t
    using that refl by (rule startup_inv_step)
qed

text \<open>Every step is progress, so the start takes a bounded number of steps.\<close>

fun main_left :: "nat \<Rightarrow> main_pc \<Rightarrow> nat" where
  "main_left m M_wait_init = 4 + m"
| "main_left m M_services = 3 + m"
| "main_left m M_signal = 2"
| "main_left m M_forever = 1"
| "main_left m M_exit = 0"

fun tester_left :: "tester_pc \<Rightarrow> nat" where
  "tester_left T_init = 4"
| "tester_left T_in_init = 3"
| "tester_left T_wait = 2"
| "tester_left T_in_wait = 1"
| "tester_left T_started = 0"

definition startup_left :: "nat \<Rightarrow> startup \<Rightarrow> nat" where
  "startup_left n s = main_left (n - su_services s) (su_main s) + tester_left (su_tester s)"

lemma startup_progress:
  assumes "startup_inv p n s" "startup_step False sv n s t"
  shows "startup_left n t < startup_left n s"
  using assms(2,1)
  by (cases rule: startup_stepE) (cases "su_tester s"; auto simp: startup_inv_def startup_left_def split: if_splits)+

lemma startup_not_stuck:
  assumes "startup_inv p n s" "su_tester s \<noteq> T_started"
  shows "\<exists>t. startup_step lossy sv n s t"
proof -
  have main: "su_main s = M_services \<Longrightarrow> \<exists>t. startup_step lossy sv n s t"
    using assms(1) add_service [of s n lossy sv] services_done [of s n lossy sv]
    by (cases "su_services s = n") (auto simp: startup_inv_def)
  show ?thesis
  proof (cases "su_tester s")
    case T_init
    then show ?thesis using call_init by blast
  next
    case T_in_init
    then show ?thesis using assms(1) init_main [of s p] init_returns [of s] by (cases "su_sent s") (auto simp: startup_inv_def)
  next
    case T_wait
    then show ?thesis using call_wait by blast
  next
    case T_in_wait
    then show ?thesis using assms(1) main signal [of s] wait_returns [of s] by (cases "su_received s") (auto simp: startup_inv_def)
  qed (use assms in simp)
qed

section \<open>Properties of the start\<close>

text \<open>
  C32: a server process is added to the network only when it is ready. When the calls return, in every state in which the
  tester has added the server, all its services are registered, it holds exactly the state the tester
  saved, and its main goroutine waits for the end of the process.
\<close>
theorem daemon_start_safe:
  assumes "reachable startup_init (startup_step False sv n) s" "su_tester s = T_started"
  shows "su_services s = n \<and> su_persister s = Some sv \<and> su_main s = M_forever"
  using su.reachable_inv [OF assms(1)] assms(2) daemon_persister by (auto simp: startup_inv_def)



section \<open>Witnesses of the start\<close>

text \<open>A start with one service, to its end.\<close>

definition su_end :: "persister \<Rightarrow> startup" where
  "su_end p = \<lparr>su_main = M_forever, su_persister = Some p, su_services = 1, su_sending = None, su_sent = True,
     su_receiving = False, su_received = True, su_tester = T_started\<rparr>"

lemma su_end_reachable: "reachable startup_init (startup_step False p 1) (su_end p)"
proof -
  let ?S = "startup_step False p 1"
  let ?s0 = "\<lparr>su_main = M_wait_init, su_persister = None, su_services = 0, su_sending = None, su_sent = False,
     su_receiving = False, su_received = False, su_tester = T_init\<rparr>"
  let ?s1 = "?s0\<lparr>su_tester := T_in_init, su_sending := Some p\<rparr>"
  let ?s2 = "?s1\<lparr>su_sending := None, su_sent := True, su_persister := Some p, su_main := M_services\<rparr>"
  let ?s3 = "?s2\<lparr>su_services := su_services ?s2 + 1\<rparr>"
  let ?s4 = "?s3\<lparr>su_main := M_signal\<rparr>"
  let ?s5 = "?s4\<lparr>su_tester := T_wait\<rparr>"
  let ?s6 = "?s5\<lparr>su_tester := T_in_wait, su_receiving := True\<rparr>"
  let ?s7 = "?s6\<lparr>su_main := M_forever, su_receiving := False, su_received := True\<rparr>"
  have 0: "reachable startup_init ?S ?s0" by (rule reachable_start) (simp add: startup_init_def)
  have 1: "?S ?s0 ?s1" using call_init [of ?s0 False p 1] daemon_persister(1) [of p] by simp
  have 2: "?S ?s1 ?s2" by (rule init_main) simp_all
  have 3: "?S ?s2 ?s3" by (rule add_service) simp_all
  have 4: "?S ?s3 ?s4" by (rule services_done) simp_all
  have 5: "?S ?s4 ?s5" by (rule init_returns) simp_all
  have 6: "?S ?s5 ?s6" by (rule call_wait) simp
  have 7: "?S ?s6 ?s7" by (rule signal) simp_all
  have 8: "?S ?s7 (su_end p)" using wait_returns [of ?s7 False p 1] by (simp add: su_end_def)
  have "reachable startup_init ?S ?s2" using reachable_next [OF 0 1] 2 by (rule reachable_next)
  then have "reachable startup_init ?S ?s3" using 3 by (rule reachable_next)
  then have "reachable startup_init ?S ?s4" using 4 by (rule reachable_next)
  then have "reachable startup_init ?S ?s5" using 5 by (rule reachable_next)
  then have "reachable startup_init ?S ?s6" using 6 by (rule reachable_next)
  then have "reachable startup_init ?S ?s7" using 7 by (rule reachable_next)
  then show ?thesis using 8 by (rule reachable_next)
qed

theorem daemon_start_safe_witness: "su_services (su_end MakePersister) = 1 \<and> su_persister (su_end MakePersister) = Some MakePersister"
  using daemon_start_safe [OF su_end_reachable, of MakePersister] by (simp add: su_end_def)


end
