(* ===== verification/Demux.thy ===== *)
theory Demux
  imports LabRpc
begin

text \<open>
  The RPC transport between the tester and its server daemons (\<open>tester1/demux\<close>): calls of many
  goroutines are multiplexed over one connection, and replies are matched with calls by a 32-bit tag.
  \<open>transport.go\<close> frames messages with a length prefix, \<open>callmap.go\<close> keeps the outstanding calls,
  \<open>dmxclnt.go\<close> and \<open>dmxsrv.go\<close> are the two ends.

  Shown: framing is lossless; however the goroutines of both ends interleave, a call that returns
  without an error returns what the server computed for that very call, a request is served at most
  once, the client never meets a reply without a call, and when the connection ends every outstanding
  call is answered.
\<close>

section \<open>transport.go\<close>

type_synonym tag = "32 word"

record msg =
  Tag :: tag
  Data :: bytes
  Ok :: bool

text \<open>
  \<open>Marshall\<close> and \<open>Unmarshall\<close> encode with \<open>encoding/gob\<close>; they are the parameters \<open>marshal\<close> and
  \<open>unmarshal\<close>. The length is written with \<open>binary.LittleEndian\<close>.
\<close>

definition le_bytes :: "32 word \<Rightarrow> bytes" where
  "le_bytes w = map (\<lambda>k. char_of (unat (drop_bit (8 * k) w) mod 256)) [0, 1, 2, 3]"

fun le_value :: "bytes \<Rightarrow> nat" where
  "le_value [] = 0"
| "le_value (c # cs) = of_char c + 256 * le_value cs"

datatype read_error = IoEOF | UnexpectedEOF

text \<open>\<open>io.ReadFull\<close> on what is left of a closed stream: the bytes and the rest.\<close>

definition ReadFull :: "nat \<Rightarrow> bytes \<Rightarrow> read_error + bytes \<times> bytes" where
  "ReadFull n stream =
     (if n \<le> length stream then Inr (take n stream, drop n stream)
      else if stream = [] then Inl IoEOF else Inl UnexpectedEOF)"

definition WriteCall :: "(msg \<Rightarrow> bytes) \<Rightarrow> tag \<Rightarrow> bytes \<Rightarrow> bool \<Rightarrow> bytes \<Rightarrow> bytes" where
  "WriteCall marshal tag d k stream =
     (let b = marshal \<lparr>Tag = tag, Data = d, Ok = k\<rparr> in stream @ le_bytes (of_nat (length b)) @ b)"

text \<open>The outer result is \<open>log.Fatalf\<close> in \<open>Unmarshall\<close>, the inner one the error that is returned.\<close>

definition ReadCall :: "(bytes \<Rightarrow> msg result) \<Rightarrow> bytes \<Rightarrow> (read_error + msg \<times> bytes) result" where
  "ReadCall unmarshal stream =
     (case ReadFull 4 stream of
        Inl e \<Rightarrow> Inr (Inl e)
      | Inr (h, rest) \<Rightarrow>
          (case ReadFull (le_value h) rest of
             Inl e \<Rightarrow> Inr (Inl e)
           | Inr (b, rest') \<Rightarrow> res_bind (unmarshal b) (\<lambda>m. Inr (Inr (m, rest')))))"

section \<open>callmap.go\<close>

text \<open>A channel is named by the call that made it.\<close>

record call_map =
  closed :: bool
  calls :: "(tag, nat) gomap"

definition newCallMap :: call_map where "newCallMap = \<lparr>closed = False, calls = []\<rparr>"

definition cm_close :: "call_map \<Rightarrow> call_map" where "cm_close cm = cm\<lparr>closed := True\<rparr>"

definition isClosed :: "call_map \<Rightarrow> bool" where "isClosed cm = closed cm"

definition cm_put :: "tag \<Rightarrow> nat \<Rightarrow> call_map \<Rightarrow> call_map option" where
  "cm_put tag ch cm = (if closed cm then None else Some (cm\<lparr>calls := gm_put tag ch (calls cm)\<rparr>))"

definition cm_remove :: "tag \<Rightarrow> call_map \<Rightarrow> call_map \<times> nat option" where
  "cm_remove tag cm =
     (case map_of (calls cm) tag of
        Some ch \<Rightarrow> (cm\<lparr>calls := gm_delete tag (calls cm)\<rparr>, Some ch)
      | None \<Rightarrow> (cm, None))"

definition outstanding :: "call_map \<Rightarrow> tag list" where "outstanding cm = gm_keys (calls cm)"

section \<open>dmxclnt.go and dmxsrv.go\<close>

text \<open>
  A goroutine inside \<open>SendReceive\<close>: it has its tag, is registered in the call map, has written its
  request and waits on its channel, or has returned (refused by a closed map, with the server's
  reply, or with the error the reader gives when the connection ends).
\<close>

datatype call_pc = Tagged | Registered | Waiting | Refused | Answered bytes bool | ConnFailed

record call_state =
  c_tag :: tag
  c_req :: bytes
  c_pc :: call_pc

text \<open>The client's reader: reading replies, answering the outstanding calls with an error, or gone.\<close>

datatype reader_state = Reading | Draining "tag list" | Stopped

text \<open>
  Both ends and the connection: \<open>toSrv\<close> and \<open>toClnt\<close> are the messages under way, \<open>pending\<close> and
  \<open>finished\<close> the server's goroutines before and after \<open>ServeRequest\<close>, \<open>sstate\<close> the server's state,
  \<open>fatal\<close> a \<open>log.Fatalf\<close> of the client. The history variables \<open>served\<close> and \<open>gone\<close> record each run of
  \<open>ServeRequest\<close> and the tags of replies that were delivered or lost.
\<close>

record 's dmx =
  callmap :: call_map
  nextTag :: tag
  goroutines :: "call_state list"
  reader :: reader_state
  conn :: bool
  toSrv :: "(tag \<times> bytes) list"
  pending :: "(tag \<times> bytes) list"
  finished :: "(tag \<times> bytes \<times> bool) list"
  toClnt :: "(tag \<times> bytes \<times> bool) list"
  sstate :: 's
  fatal :: bool
  served :: "(tag \<times> bytes \<times> bytes \<times> bool) list"
  gone :: "tag list"

definition dmx_tag :: "'s dmx \<Rightarrow> tag \<times> 's dmx" where
  "dmx_tag d = (nextTag d, d\<lparr>nextTag := nextTag d + 1\<rparr>)"

text \<open>
  \<open>NewDemuxClnt\<close> sends the client's name under the first tag; \<open>NewDemuxSrv\<close> reads it. What is left
  is an idle connection whose next tag is 1.
\<close>

definition NewDemux :: "'s \<Rightarrow> 's dmx" where
  "NewDemux a = snd (dmx_tag \<lparr>callmap = newCallMap, nextTag = 0, goroutines = [], reader = Reading, conn = True,
     toSrv = [], pending = [], finished = [], toClnt = [], sstate = a, fatal = False, served = [], gone = []\<rparr>)"

definition set_pc :: "nat \<Rightarrow> call_pc \<Rightarrow> 's dmx \<Rightarrow> 's dmx" where
  "set_pc c p d = d\<lparr>goroutines := (goroutines d)[c := (goroutines d ! c)\<lparr>c_pc := p\<rparr>]\<rparr>"

text \<open>\<open>SendReceive\<close>: taking a tag, registering, writing.\<close>

definition send_tag :: "bytes \<Rightarrow> 's dmx \<Rightarrow> 's dmx" where
  "send_tag b d = (let (t, d') = dmx_tag d
     in d'\<lparr>goroutines := goroutines d' @ [\<lparr>c_tag = t, c_req = b, c_pc = Tagged\<rparr>]\<rparr>)"

definition send_put :: "nat \<Rightarrow> 's dmx \<Rightarrow> 's dmx" where
  "send_put c d =
     (case cm_put (c_tag (goroutines d ! c)) c (callmap d) of
        None \<Rightarrow> set_pc c Refused d
      | Some cm \<Rightarrow> set_pc c Registered (d\<lparr>callmap := cm\<rparr>))"

definition send_write :: "nat \<Rightarrow> 's dmx \<Rightarrow> 's dmx" where
  "send_write c d =
     (let g = goroutines d ! c
      in set_pc c Waiting (if conn d then d\<lparr>toSrv := toSrv d @ [(c_tag g, c_req g)]\<rparr> else d))"

text \<open>
  \<open>DemuxClnt.reply\<close>: the result is sent on the channel of the call with this tag; without such a
  call the client ends. The send completes when the goroutine waits on its channel.
\<close>

definition dmx_reply :: "tag \<Rightarrow> call_pc \<Rightarrow> 's dmx \<Rightarrow> 's dmx" where
  "dmx_reply t answer d =
     (case cm_remove t (callmap d) of
        (cm, Some c) \<Rightarrow> set_pc c answer (d\<lparr>callmap := cm\<rparr>)
      | (cm, None) \<Rightarrow> d\<lparr>fatal := True\<rparr>)"

definition receives :: "tag \<Rightarrow> 's dmx \<Rightarrow> bool" where
  "receives t d =
     (case map_of (calls (callmap d)) t of
        Some c \<Rightarrow> c_pc (goroutines d ! c) = Waiting
      | None \<Rightarrow> True)"

inductive dmx_step :: "(bytes \<Rightarrow> 's \<Rightarrow> 's \<times> bytes \<times> bool) \<Rightarrow> 's dmx \<Rightarrow> 's dmx \<Rightarrow> bool"
  for ServeRequest :: "bytes \<Rightarrow> 's \<Rightarrow> 's \<times> bytes \<times> bool" where
  d_tag: "dmx_step ServeRequest d (send_tag b d)"
| d_put: "c < length (goroutines d) \<Longrightarrow> c_pc (goroutines d ! c) = Tagged \<Longrightarrow> dmx_step ServeRequest d (send_put c d)"
| d_write: "c < length (goroutines d) \<Longrightarrow> c_pc (goroutines d ! c) = Registered \<Longrightarrow> dmx_step ServeRequest d (send_write c d)"
| d_read: "reader d = Reading \<Longrightarrow> toClnt d = (t, r, k) # rest \<Longrightarrow> receives t d \<Longrightarrow>
    dmx_step ServeRequest d (dmx_reply t (Answered r k) (d\<lparr>toClnt := rest, gone := t # gone d\<rparr>))"
| d_read_error: "reader d = Reading \<Longrightarrow> \<not> conn d \<Longrightarrow> mset ts = mset (outstanding (callmap d)) \<Longrightarrow>
    dmx_step ServeRequest d (d\<lparr>callmap := cm_close (callmap d), reader := Draining ts\<rparr>)"
| d_drain: "reader d = Draining (t # ts) \<Longrightarrow> receives t d \<Longrightarrow>
    dmx_step ServeRequest d (dmx_reply t ConnFailed (d\<lparr>reader := Draining ts\<rparr>))"
| d_stop: "reader d = Draining [] \<Longrightarrow> dmx_step ServeRequest d (d\<lparr>reader := Stopped\<rparr>)"
| d_srv_read: "toSrv d = (t, b) # rest \<Longrightarrow>
    dmx_step ServeRequest d (d\<lparr>toSrv := rest, pending := pending d @ [(t, b)]\<rparr>)"
| d_srv_serve: "pending d = xs @ (t, b) # ys \<Longrightarrow> ServeRequest b (sstate d) = (a, r, k) \<Longrightarrow>
    dmx_step ServeRequest d (d\<lparr>pending := xs @ ys, finished := finished d @ [(t, r, k)], sstate := a,
      served := served d @ [(t, b, r, k)]\<rparr>)"
| d_srv_write: "finished d = xs @ (t, r, k) # ys \<Longrightarrow> conn d \<Longrightarrow>
    dmx_step ServeRequest d (d\<lparr>finished := xs @ ys, toClnt := toClnt d @ [(t, r, k)]\<rparr>)"
| d_srv_write_error: "finished d = xs @ (t, r, k) # ys \<Longrightarrow> \<not> conn d \<Longrightarrow>
    dmx_step ServeRequest d (d\<lparr>finished := xs @ ys, gone := t # gone d\<rparr>)"
| d_conn_down: "dmx_step ServeRequest d (d\<lparr>conn := False\<rparr>)"
| d_close: "\<not> conn d \<Longrightarrow> dmx_step ServeRequest d (d\<lparr>callmap := cm_close (callmap d)\<rparr>)"

definition dmx_init :: "'s dmx \<Rightarrow> bool" where "dmx_init d \<longleftrightarrow> (\<exists>a. d = NewDemux a)"

section \<open>The invariant\<close>

definition tags_ok :: "call_state list \<Rightarrow> tag \<Rightarrow> bool" where
  "tags_ok G nt \<longleftrightarrow> nt = of_nat (Suc (length G)) \<and> (\<forall>c < length G. c_tag (G ! c) = of_nat (Suc c))"

definition calls_ok :: "call_state list \<Rightarrow> (tag, nat) gomap \<Rightarrow> bool" where
  "calls_ok G cs \<longleftrightarrow> distinct (map fst cs) \<and>
     (\<forall>t c. map_of cs t = Some c \<longleftrightarrow>
        c < length G \<and> c_tag (G ! c) = t \<and> (c_pc (G ! c) = Registered \<or> c_pc (G ! c) = Waiting))"

definition owner :: "call_state list \<Rightarrow> tag \<Rightarrow> (call_state \<Rightarrow> bool) \<Rightarrow> bool" where
  "owner G t P \<longleftrightarrow> (\<exists>c < length G. c_tag (G ! c) = t \<and> P (G ! c))"

definition written :: "call_state \<Rightarrow> bool" where
  "written g \<longleftrightarrow> c_pc g \<noteq> Tagged \<and> c_pc g \<noteq> Registered \<and> c_pc g \<noteq> Refused"

text \<open>The tags under way, and those of replies that have arrived or are lost, are all different.\<close>

definition under_way :: "'s dmx \<Rightarrow> tag list" where
  "under_way d = map fst (toSrv d) @ map fst (pending d) @ map fst (finished d) @ map fst (toClnt d)"

definition flow_ok :: "'s dmx \<Rightarrow> bool" where
  "flow_ok d \<longleftrightarrow> distinct (under_way d @ gone d) \<and>
     (\<forall>t \<in> set (under_way d). owner (goroutines d) t (\<lambda>g. written g \<and> (reader d = Reading \<longrightarrow> c_pc g = Waiting))) \<and>
     (\<forall>t \<in> set (gone d). owner (goroutines d) t written) \<and>
     (\<forall>t b. (t, b) \<in> set (toSrv d) \<union> set (pending d) \<longrightarrow> owner (goroutines d) t (\<lambda>g. c_req g = b))"

definition served_ok :: "'s dmx \<Rightarrow> bool" where
  "served_ok d \<longleftrightarrow> distinct (map fst (served d)) \<and>
     fst ` set (served d) \<subseteq> fst ` set (finished d) \<union> fst ` set (toClnt d) \<union> set (gone d) \<and>
     set (finished d) \<union> set (toClnt d) \<subseteq> (\<lambda>(t, b, r, k). (t, r, k)) ` set (served d) \<and>
     (\<forall>t b r k. (t, b, r, k) \<in> set (served d) \<longrightarrow> owner (goroutines d) t (\<lambda>g. c_req g = b)) \<and>
     (\<forall>g \<in> set (goroutines d). \<forall>r k. c_pc g = Answered r k \<longrightarrow> (c_tag g, c_req g, r, k) \<in> set (served d))"

definition reader_ok :: "'s dmx \<Rightarrow> bool" where
  "reader_ok d \<longleftrightarrow>
     (\<forall>ts. reader d = Draining ts \<longrightarrow>
        closed (callmap d) \<and> distinct ts \<and> set ts = dom (map_of (calls (callmap d)))) \<and>
     (reader d = Stopped \<longrightarrow> closed (callmap d) \<and> dom (map_of (calls (callmap d))) = {})"

definition dmx_ok :: "'s dmx \<Rightarrow> bool" where
  "dmx_ok d \<longleftrightarrow> tags_ok (goroutines d) (nextTag d) \<and> calls_ok (goroutines d) (calls (callmap d)) \<and>
     flow_ok d \<and> served_ok d \<and> reader_ok d \<and> \<not> fatal d"

text \<open>Tags stay different as long as there have been fewer calls than tags.\<close>

definition max_calls :: nat where "max_calls = 2 ^ 32 - 1"

lemma word_of_nat_inj_bound:
  "(of_nat m :: 32 word) = of_nat n \<Longrightarrow> m < 2 ^ 32 \<Longrightarrow> n < 2 ^ 32 \<Longrightarrow> m = n"
  by (drule arg_cong [of _ _ unat]) (simp add: unat_of_nat take_bit_nat_eq_self)

lemma tag_inj:
  assumes "tags_ok G nt" "length G < max_calls" "c < length G" "e < length G" "c_tag (G ! c) = c_tag (G ! e)"
  shows "c = e"
proof -
  have "(of_nat (Suc c) :: 32 word) = of_nat (Suc e)" using assms by (simp add: tags_ok_def)
  moreover have "Suc c < 2 ^ 32" "Suc e < 2 ^ 32" using assms by (auto simp: max_calls_def)
  ultimately have "Suc c = Suc e" by (metis word_of_nat_inj_bound)
  then show ?thesis by simp
qed

lemma owner_mono: "owner G t P \<Longrightarrow> (\<And>g. P g \<Longrightarrow> Q g) \<Longrightarrow> owner G t Q"
  by (auto simp: owner_def)

lemma owner_append: "owner G t P \<Longrightarrow> owner (G @ [g]) t P"
  unfolding owner_def by (metis length_append_singleton less_SucI nth_append)

lemma owner_set_pc:
  assumes "owner G t P" and c: "c < length G" and "\<And>g. g \<in> set G \<Longrightarrow> c_tag g = t \<Longrightarrow> P g \<Longrightarrow> Q g"
    and "c_tag (G ! c) = t \<Longrightarrow> P (G ! c) \<Longrightarrow> Q ((G ! c)\<lparr>c_pc := p\<rparr>)"
  shows "owner (G[c := (G ! c)\<lparr>c_pc := p\<rparr>]) t Q"
proof -
  obtain e where e: "e < length G" "c_tag (G ! e) = t" "P (G ! e)" using assms(1) by (auto simp: owner_def)
  then have "e < length (G[c := (G ! c)\<lparr>c_pc := p\<rparr>])" and "c_tag (G[c := (G ! c)\<lparr>c_pc := p\<rparr>] ! e) = t"
    and "Q (G[c := (G ! c)\<lparr>c_pc := p\<rparr>] ! e)"
    using assms(2-4) by (auto simp: nth_list_update)
  then show ?thesis unfolding owner_def by blast
qed

text \<open>What changing the state of one goroutine keeps.\<close>

lemma set_pc_sel [simp]:
  "callmap (set_pc c p d) = callmap d" "nextTag (set_pc c p d) = nextTag d" "reader (set_pc c p d) = reader d"
  "conn (set_pc c p d) = conn d" "toSrv (set_pc c p d) = toSrv d" "pending (set_pc c p d) = pending d"
  "finished (set_pc c p d) = finished d" "toClnt (set_pc c p d) = toClnt d" "fatal (set_pc c p d) = fatal d"
  "served (set_pc c p d) = served d" "gone (set_pc c p d) = gone d"
  "goroutines (set_pc c p d) = (goroutines d)[c := (goroutines d ! c)\<lparr>c_pc := p\<rparr>]"
  "length (goroutines (set_pc c p d)) = length (goroutines d)"
  "under_way (set_pc c p d) = under_way d"
  by (simp_all add: set_pc_def under_way_def)

lemma tags_ok_set_pc: "tags_ok G nt \<Longrightarrow> tags_ok (G[c := (G ! c)\<lparr>c_pc := p\<rparr>]) nt"
  by (cases "c < length G") (auto simp: tags_ok_def nth_list_update)

lemma calls_ok_same_pc:
  assumes "calls_ok G cs" "c < length G"
    and "(c_pc (G ! c) \<in> {Registered, Waiting}) = (p \<in> {Registered, Waiting})"
  shows "calls_ok (G[c := (G ! c)\<lparr>c_pc := p\<rparr>]) cs"
  using assms by (auto simp: calls_ok_def nth_list_update)

lemma calls_ok_put:
  assumes "calls_ok G cs" "tags_ok G nt" "length G < max_calls" "c < length G" "c_pc (G ! c) = Tagged"
  shows "calls_ok (G[c := (G ! c)\<lparr>c_pc := Registered\<rparr>]) (gm_put (c_tag (G ! c)) c cs)"
  using assms tag_inj [OF assms(2,3) assms(4)]
  by (auto simp: calls_ok_def nth_list_update)

lemma calls_ok_remove:
  assumes "calls_ok G cs" "tags_ok G nt" "length G < max_calls" "map_of cs t = Some c"
    and "p \<noteq> Registered" "p \<noteq> Waiting"
  shows "calls_ok (G[c := (G ! c)\<lparr>c_pc := p\<rparr>]) (gm_delete t cs)"
proof -
  have "c < length G" "c_tag (G ! c) = t" using assms(1,4) by (auto simp: calls_ok_def)
  then show ?thesis using assms tag_inj [OF assms(2,3)]
    by (auto simp: calls_ok_def nth_list_update)
qed

lemma owner_unique:
  assumes "tags_ok G nt" "length G < max_calls" "c < length G" "owner G (c_tag (G ! c)) P"
  shows "P (G ! c)"
  using assms tag_inj [OF assms(1,2)] by (auto simp: owner_def)

lemma owner_req_set_pc:
  "owner G t (\<lambda>g. c_req g = b) \<Longrightarrow> c < length G \<Longrightarrow> owner (G[c := (G ! c)\<lparr>c_pc := p\<rparr>]) t (\<lambda>g. c_req g = b)"
  by (rule owner_set_pc) auto

lemma flow_ok_set_pc:
  assumes flow: "flow_ok d" and c: "c < length (goroutines d)"
    and "written (goroutines d ! c) \<Longrightarrow> p \<notin> {Tagged, Registered, Refused}"
    and "c_tag (goroutines d ! c) \<in> set (under_way d) \<Longrightarrow> reader d = Reading \<Longrightarrow> p = Waiting"
  shows "flow_ok (set_pc c p d)"
proof -
  let ?G = "goroutines d"
  let ?W = "\<lambda>g. written g \<and> (reader d = Reading \<longrightarrow> c_pc g = Waiting)"
  have "owner (?G[c := (?G ! c)\<lparr>c_pc := p\<rparr>]) t ?W" if t: "t \<in> set (under_way d)" for t
  proof -
    have "owner ?G t ?W" using t flow by (simp add: flow_ok_def)
    then show ?thesis by (rule owner_set_pc [OF _ c]) (use t assms(3,4) in \<open>auto simp: written_def\<close>)
  qed
  moreover have "owner (?G[c := (?G ! c)\<lparr>c_pc := p\<rparr>]) t written" if t: "t \<in> set (gone d)" for t
  proof -
    have "owner ?G t written" using t flow by (simp add: flow_ok_def)
    then show ?thesis by (rule owner_set_pc [OF _ c]) (use assms(3) in \<open>auto simp: written_def\<close>)
  qed
  ultimately show ?thesis using flow c
    by (simp add: flow_ok_def owner_req_set_pc)
qed

lemma served_ok_set_pc:
  assumes "served_ok d" "c < length (goroutines d)"
    and "\<And>r k. p = Answered r k \<Longrightarrow> (c_tag (goroutines d ! c), c_req (goroutines d ! c), r, k) \<in> set (served d)"
  shows "served_ok (set_pc c p d)"
proof -
  have "(c_tag g, c_req g, r, k) \<in> set (served d)"
    if "g \<in> set (goroutines (set_pc c p d))" "c_pc g = Answered r k" for g r k
  proof -
    have "g = (goroutines d ! c)\<lparr>c_pc := p\<rparr> \<or> g \<in> set (goroutines d)"
      using that(1) set_update_subset_insert [of "goroutines d" c] by auto
    then show ?thesis using that(2) assms(1,3) by (auto simp: served_ok_def)
  qed
  then show ?thesis using assms(1,2) by (simp add: served_ok_def owner_req_set_pc)
qed

text \<open>The client's steps.\<close>

lemma send_tag_ok:
  assumes "dmx_ok d" shows "dmx_ok (send_tag b d)"
proof -
  have "calls_ok (goroutines d @ [\<lparr>c_tag = nextTag d, c_req = b, c_pc = Tagged\<rparr>]) (calls (callmap d))"
    using assms by (auto simp: dmx_ok_def calls_ok_def nth_append)
  moreover have "tags_ok (goroutines d @ [\<lparr>c_tag = nextTag d, c_req = b, c_pc = Tagged\<rparr>]) (nextTag d + 1)"
    using assms by (auto simp: dmx_ok_def tags_ok_def nth_append less_Suc_eq)
  ultimately show ?thesis using assms
    by (simp add: dmx_ok_def send_tag_def dmx_tag_def flow_ok_def served_ok_def reader_ok_def under_way_def owner_append ball_Un)
qed

lemma send_put_ok:
  assumes ok: "dmx_ok d" and n: "length (goroutines d) < max_calls" and c: "c < length (goroutines d)"
    and pc: "c_pc (goroutines d ! c) = Tagged"
  shows "dmx_ok (send_put c d)"
proof -
  let ?t = "c_tag (goroutines d ! c)"
  have tags: "tags_ok (goroutines d) (nextTag d)" using ok by (simp add: dmx_ok_def)
  have nw: "\<not> written (goroutines d ! c)" using pc by (simp add: written_def)
  have out: "?t \<notin> set (under_way d)"
    using ok nw owner_unique [OF tags n c, of "\<lambda>g. written g \<and> (reader d = Reading \<longrightarrow> c_pc g = Waiting)"]
    by (auto simp: dmx_ok_def flow_ok_def)
  show ?thesis
  proof (cases "closed (callmap d)")
    case True
    have "flow_ok (set_pc c Refused d)" "served_ok (set_pc c Refused d)"
      using ok out nw c by (auto intro!: flow_ok_set_pc served_ok_set_pc simp: dmx_ok_def)
    then show ?thesis using ok True c pc calls_ok_same_pc [of "goroutines d" "calls (callmap d)" c Refused]
      by (simp add: dmx_ok_def send_put_def cm_put_def reader_ok_def tags_ok_set_pc)
  next
    case False
    let ?d = "d\<lparr>callmap := (callmap d)\<lparr>calls := gm_put ?t c (calls (callmap d))\<rparr>\<rparr>"
    have "flow_ok ?d" "served_ok ?d" using ok by (simp_all add: dmx_ok_def flow_ok_def served_ok_def under_way_def)
    then have "flow_ok (set_pc c Registered ?d)" "served_ok (set_pc c Registered ?d)"
      using out nw c by (auto intro!: flow_ok_set_pc served_ok_set_pc simp: under_way_def)
    then show ?thesis using ok False calls_ok_put [OF _ tags n c pc]
      by (simp add: dmx_ok_def send_put_def cm_put_def reader_ok_def tags_ok_set_pc)
  qed
qed

lemma set_pc_toSrv: "set_pc c p (d\<lparr>toSrv := q\<rparr>) = (set_pc c p d)\<lparr>toSrv := q\<rparr>"
  by (cases d) (simp add: set_pc_def)

lemma send_write_ok:
  assumes ok: "dmx_ok d" and n: "length (goroutines d) < max_calls" and c: "c < length (goroutines d)"
    and pc: "c_pc (goroutines d ! c) = Registered"
  shows "dmx_ok (send_write c d)"
proof -
  let ?g = "goroutines d ! c" and ?d = "set_pc c Waiting d"
  have tags: "tags_ok (goroutines d) (nextTag d)" using ok by (simp add: dmx_ok_def)
  have nw: "\<not> written ?g" using pc by (simp add: written_def)
  have out: "c_tag ?g \<notin> set (under_way d) \<union> set (gone d)"
    using ok nw owner_unique [OF tags n c, of written]
      owner_unique [OF tags n c, of "\<lambda>g. written g \<and> (reader d = Reading \<longrightarrow> c_pc g = Waiting)"]
    by (auto simp: dmx_ok_def flow_ok_def)
  have "flow_ok ?d" "served_ok ?d" using ok nw c by (auto intro!: flow_ok_set_pc served_ok_set_pc simp: dmx_ok_def)
  then have ok': "dmx_ok ?d"
    using ok c pc calls_ok_same_pc [of "goroutines d" "calls (callmap d)" c Waiting]
    by (simp add: dmx_ok_def reader_ok_def tags_ok_set_pc)
  have own: "owner (goroutines ?d) (c_tag ?g) P" if "P (?g\<lparr>c_pc := Waiting\<rparr>)" for P
    using that c by (auto simp: owner_def intro!: exI [of _ c])
  have wr: "owner (goroutines ?d) (c_tag ?g) (\<lambda>g. written g \<and> (reader d = Reading \<longrightarrow> c_pc g = Waiting))"
    by (rule own) (simp add: written_def)
  have "flow_ok (?d\<lparr>toSrv := toSrv d @ [(c_tag ?g, c_req ?g)]\<rparr>)"
    using \<open>flow_ok ?d\<close> out wr own [of "\<lambda>g. c_req g = c_req ?g"]
    by (auto simp: flow_ok_def under_way_def)
  then have "dmx_ok (?d\<lparr>toSrv := toSrv d @ [(c_tag ?g, c_req ?g)]\<rparr>)"
    using ok' by (simp add: dmx_ok_def served_ok_def reader_ok_def)
  then show ?thesis using ok' by (simp add: send_write_def set_pc_toSrv Let_def)
qed

text \<open>Delivering a reply, apart from the state of the reader.\<close>

definition core_ok :: "'s dmx \<Rightarrow> bool" where
  "core_ok d \<longleftrightarrow> tags_ok (goroutines d) (nextTag d) \<and> calls_ok (goroutines d) (calls (callmap d)) \<and>
     flow_ok d \<and> served_ok d \<and> \<not> fatal d"

lemma reply_ok:
  assumes ok: "core_ok d" and n: "length (goroutines d) < max_calls"
    and m: "map_of (calls (callmap d)) t = Some c"
    and a: "a = ConnFailed \<and> reader d \<noteq> Reading \<or>
      (\<exists>r k. a = Answered r k \<and> t \<notin> set (under_way d) \<and> (t, c_req (goroutines d ! c), r, k) \<in> set (served d))"
  shows "core_ok (dmx_reply t a d) \<and> calls (callmap (dmx_reply t a d)) = gm_delete t (calls (callmap d)) \<and>
    closed (callmap (dmx_reply t a d)) = closed (callmap d) \<and> reader (dmx_reply t a d) = reader d"
proof -
  let ?d = "d\<lparr>callmap := (callmap d)\<lparr>calls := gm_delete t (calls (callmap d))\<rparr>\<rparr>"
  have tags: "tags_ok (goroutines d) (nextTag d)" using ok by (simp add: core_ok_def)
  have c: "c < length (goroutines d)" "c_tag (goroutines d ! c) = t" using ok m by (auto simp: core_ok_def calls_ok_def)
  have "flow_ok ?d" "served_ok ?d" using ok by (simp_all add: core_ok_def flow_ok_def served_ok_def under_way_def)
  moreover have "under_way ?d = under_way d" by (simp add: under_way_def)
  ultimately have "flow_ok (set_pc c a ?d)" "served_ok (set_pc c a ?d)"
    using c a by (auto intro!: flow_ok_set_pc served_ok_set_pc)
  then show ?thesis using ok m a calls_ok_remove [OF _ tags n m, of a]
    by (auto simp: core_ok_def dmx_reply_def cm_remove_def tags_ok_set_pc)
qed

lemma read_ok:
  assumes ok: "dmx_ok d" and n: "length (goroutines d) < max_calls" and r: "reader d = Reading"
    and q: "toClnt d = (t, rep, k) # rest"
  shows "dmx_ok (dmx_reply t (Answered rep k) (d\<lparr>toClnt := rest, gone := t # gone d\<rparr>))"
proof -
  let ?d = "d\<lparr>toClnt := rest, gone := t # gone d\<rparr>"
  have tags: "tags_ok (goroutines d) (nextTag d)" using ok by (simp add: dmx_ok_def)
  have "owner (goroutines d) t (\<lambda>g. written g \<and> c_pc g = Waiting)"
    using ok r q by (simp add: dmx_ok_def flow_ok_def under_way_def)
  then obtain c where c: "c < length (goroutines d)" "c_tag (goroutines d ! c) = t" "c_pc (goroutines d ! c) = Waiting"
    "written (goroutines d ! c)" by (auto simp: owner_def)
  then have m: "map_of (calls (callmap d)) t = Some c" using ok by (simp add: dmx_ok_def calls_ok_def)
  have "(t, rep, k) \<in> (\<lambda>(t, b, r, k). (t, r, k)) ` set (served d)"
    using ok q by (simp add: dmx_ok_def served_ok_def)
  then obtain b where b: "(t, b, rep, k) \<in> set (served d)" by auto
  then have "owner (goroutines d) t (\<lambda>g. c_req g = b)" using ok unfolding dmx_ok_def served_ok_def by blast
  then have "c_req (goroutines d ! c) = b" using owner_unique [OF tags n c(1), of "\<lambda>g. c_req g = b"] c(2) by simp
  moreover have "owner (goroutines d) t written" using c by (auto simp: owner_def)
  then have "flow_ok ?d" "t \<notin> set (under_way ?d)" using ok q by (auto simp: dmx_ok_def flow_ok_def under_way_def)
  moreover have "served_ok ?d" using ok q by (auto simp: dmx_ok_def served_ok_def)
  ultimately have "core_ok ?d" "(t, c_req (goroutines ?d ! c), rep, k) \<in> set (served ?d)" "t \<notin> set (under_way ?d)"
    using ok b by (simp_all add: dmx_ok_def core_ok_def)
  with reply_ok [of ?d t c "Answered rep k"] n m r
  have "core_ok (dmx_reply t (Answered rep k) ?d)" "reader (dmx_reply t (Answered rep k) ?d) = Reading" by auto
  then show ?thesis by (simp add: dmx_ok_def core_ok_def reader_ok_def)
qed

lemma drain_ok:
  assumes ok: "dmx_ok d" and n: "length (goroutines d) < max_calls" and r: "reader d = Draining (t # ts)"
  shows "dmx_ok (dmx_reply t ConnFailed (d\<lparr>reader := Draining ts\<rparr>))"
proof -
  let ?d = "d\<lparr>reader := Draining ts\<rparr>"
  obtain c where m: "map_of (calls (callmap d)) t = Some c" using ok r by (auto simp: dmx_ok_def reader_ok_def)
  have "core_ok ?d" using ok r by (auto simp: dmx_ok_def core_ok_def flow_ok_def served_ok_def under_way_def)
  with reply_ok [of ?d t c ConnFailed] n m
  have "core_ok (dmx_reply t ConnFailed ?d)" "calls (callmap (dmx_reply t ConnFailed ?d)) = gm_delete t (calls (callmap d))"
    "closed (callmap (dmx_reply t ConnFailed ?d)) = closed (callmap d)" "reader (dmx_reply t ConnFailed ?d) = Draining ts"
    by auto
  then show ?thesis using ok r by (auto simp: dmx_ok_def core_ok_def reader_ok_def)
qed

text \<open>The server's steps move a tag along.\<close>

lemma srv_read_ok:
  assumes "dmx_ok d" "toSrv d = (t, b) # rest"
  shows "dmx_ok (d\<lparr>toSrv := rest, pending := pending d @ [(t, b)]\<rparr>)"
proof -
  have "flow_ok (d\<lparr>toSrv := rest, pending := pending d @ [(t, b)]\<rparr>)"
    using assms by (auto simp: dmx_ok_def flow_ok_def under_way_def)
  then show ?thesis using assms by (simp add: dmx_ok_def served_ok_def reader_ok_def)
qed

lemma srv_serve_ok:
  assumes ok: "dmx_ok d" and p: "pending d = xs @ (t, b) # ys"
  shows "dmx_ok (d\<lparr>pending := xs @ ys, finished := finished d @ [(t, r, k)], sstate := a, served := served d @ [(t, b, r, k)]\<rparr>)"
    (is "dmx_ok ?d")
proof -
  have "flow_ok ?d" using ok p by (auto simp: dmx_ok_def flow_ok_def under_way_def)
  moreover have "t \<notin> fst ` set (served d)" using ok p by (auto simp: dmx_ok_def served_ok_def flow_ok_def under_way_def)
  moreover have "owner (goroutines d) t (\<lambda>g. c_req g = b)" using ok p by (simp add: dmx_ok_def flow_ok_def)
  moreover have "served_ok d" using ok by (simp add: dmx_ok_def)
  ultimately have "served_ok ?d" by (auto simp: served_ok_def)
  with \<open>flow_ok ?d\<close> ok show ?thesis by (simp add: dmx_ok_def reader_ok_def)
qed

lemma srv_write_ok:
  assumes "dmx_ok d" "finished d = xs @ (t, r, k) # ys"
  shows "dmx_ok (d\<lparr>finished := xs @ ys, toClnt := toClnt d @ [(t, r, k)]\<rparr>)" (is "dmx_ok ?d")
proof -
  have "flow_ok ?d" using assms by (auto simp: dmx_ok_def flow_ok_def under_way_def)
  moreover have "served_ok ?d" using assms by (simp add: dmx_ok_def served_ok_def insert_commute Un_commute Un_left_commute)
  ultimately show ?thesis using assms by (simp add: dmx_ok_def reader_ok_def)
qed

lemma srv_write_error_ok:
  assumes "dmx_ok d" "finished d = xs @ (t, r, k) # ys"
  shows "dmx_ok (d\<lparr>finished := xs @ ys, gone := t # gone d\<rparr>)" (is "dmx_ok ?d")
proof -
  have "owner (goroutines d) t (\<lambda>g. written g \<and> (reader d = Reading \<longrightarrow> c_pc g = Waiting))"
    using assms by (simp add: dmx_ok_def flow_ok_def under_way_def)
  then have "owner (goroutines d) t written" by (rule owner_mono) simp
  then have "flow_ok ?d" using assms by (auto simp: dmx_ok_def flow_ok_def under_way_def)
  moreover have "served_ok ?d" using assms by (simp add: dmx_ok_def served_ok_def insert_commute Un_commute Un_left_commute)
  ultimately show ?thesis using assms by (simp add: dmx_ok_def reader_ok_def)
qed

text \<open>Closing and the end of the reader.\<close>

lemma read_error_ok:
  assumes "dmx_ok d" "reader d = Reading" "mset ts = mset (outstanding (callmap d))"
  shows "dmx_ok (d\<lparr>callmap := cm_close (callmap d), reader := Draining ts\<rparr>)" (is "dmx_ok ?d")
proof -
  have "distinct ts" "set ts = dom (map_of (calls (callmap d)))"
    using assms mset_eq_imp_distinct_iff [OF assms(3)] mset_eq_setD [OF assms(3)]
    by (auto simp: outstanding_def dmx_ok_def calls_ok_def gm_keys_def dom_map_of_conv_image_fst)
  then have "reader_ok ?d" by (simp add: reader_ok_def cm_close_def)
  moreover have "flow_ok ?d" using assms by (auto simp: dmx_ok_def flow_ok_def under_way_def elim!: owner_mono)
  ultimately show ?thesis using assms by (simp add: dmx_ok_def served_ok_def cm_close_def)
qed

definition dmx_inv :: "'s dmx \<Rightarrow> bool" where
  "dmx_inv d \<longleftrightarrow> (length (goroutines d) < max_calls \<longrightarrow> dmx_ok d)"

lemma dmx_reply_length [simp]: "length (goroutines (dmx_reply t a d)) = length (goroutines d)"
  by (simp add: dmx_reply_def split: prod.splits option.splits)

lemma send_length [simp]:
  "length (goroutines (send_put c d)) = length (goroutines d)"
  "length (goroutines (send_write c d)) = length (goroutines d)"
  "length (goroutines (send_tag b d)) = Suc (length (goroutines d))"
  by (simp_all add: send_put_def send_write_def send_tag_def dmx_tag_def Let_def split: option.splits)

lemma dmx_inv_step:
  assumes inv: "dmx_inv d" and step: "dmx_step f d e"
  shows "dmx_inv e"
proof -
  have "length (goroutines d) \<le> length (goroutines e)"
    using step by cases simp_all
  moreover have "dmx_ok e" if ok: "dmx_ok d" and n: "length (goroutines d) < max_calls"
    using step
  proof cases
    case (d_conn_down)
    then show ?thesis using ok by (simp add: dmx_ok_def flow_ok_def served_ok_def reader_ok_def under_way_def)
  next
    case (d_close)
    then show ?thesis using ok by (simp add: dmx_ok_def flow_ok_def served_ok_def reader_ok_def under_way_def cm_close_def)
  next
    case (d_stop)
    then show ?thesis using ok by (auto simp: dmx_ok_def flow_ok_def served_ok_def reader_ok_def under_way_def)
  qed (simp_all add: ok n send_tag_ok send_put_ok send_write_ok read_ok drain_ok srv_read_ok srv_serve_ok
      srv_write_ok srv_write_error_ok read_error_ok)
  ultimately show ?thesis using inv by (auto simp: dmx_inv_def)
qed

interpretation dm: invariant_machine dmx_init "dmx_step f" dmx_inv for f :: "bytes \<Rightarrow> 's \<Rightarrow> 's \<times> bytes \<times> bool"
proof
  show "dmx_inv d" if "dmx_init d" for d :: "'s dmx"
    using that by (auto simp: dmx_init_def NewDemux_def dmx_tag_def newCallMap_def dmx_inv_def dmx_ok_def tags_ok_def
        calls_ok_def flow_ok_def served_ok_def reader_ok_def under_way_def)
  show "dmx_inv e" if "dmx_inv d" "dmx_step f d e" for d e
    using that by (rule dmx_inv_step)
qed

text \<open>Once the connection has failed, the reader answers every outstanding call and stops.\<close>

lemma drain_completes:
  assumes "dmx_ok d" "length (goroutines d) < max_calls" "reader d = Draining ts"
  shows "\<exists>e. (dmx_step f)\<^sup>*\<^sup>* d e \<and> reader e = Stopped \<and> length (goroutines e) = length (goroutines d)"
  using assms
proof (induction ts arbitrary: d)
  case Nil
  then show ?case by (intro exI [of _ "d\<lparr>reader := Stopped\<rparr>"]) (simp add: d_stop r_into_rtranclp)
next
  case (Cons t ts)
  obtain c where m: "map_of (calls (callmap d)) t = Some c"
    using Cons.prems by (auto simp: dmx_ok_def reader_ok_def)
  then have c: "c < length (goroutines d)" "c_pc (goroutines d ! c) = Registered \<or> c_pc (goroutines d ! c) = Waiting"
    using Cons.prems by (auto simp: dmx_ok_def calls_ok_def)
  obtain d1 where d1: "(dmx_step f)\<^sup>*\<^sup>* d d1" "dmx_ok d1" "reader d1 = Draining (t # ts)" "receives t d1"
    "length (goroutines d1) = length (goroutines d)"
  proof (cases "c_pc (goroutines d ! c) = Waiting")
    case True
    then show ?thesis using that [of d] Cons.prems m by (simp add: receives_def)
  next
    case False
    then have reg: "c_pc (goroutines d ! c) = Registered" using c by simp
    have "dmx_step f d (send_write c d)" using c(1) reg by (rule d_write)
    moreover have "dmx_ok (send_write c d)" using Cons.prems c(1) reg by (simp add: send_write_ok)
    ultimately show ?thesis using that [of "send_write c d"] Cons.prems m c(1)
      by (simp add: receives_def send_write_def Let_def r_into_rtranclp)
  qed
  let ?e = "dmx_reply t ConnFailed (d1\<lparr>reader := Draining ts\<rparr>)"
  have step: "dmx_step f d1 ?e" using d1(3,4) by (rule d_drain)
  have "dmx_ok ?e" "length (goroutines ?e) < max_calls"
    using drain_ok [OF d1(2) _ d1(3)] d1(5) Cons.prems(2) by simp_all
  moreover have "reader ?e = Draining ts" by (simp add: dmx_reply_def split: prod.splits option.splits)
  ultimately obtain e where "(dmx_step f)\<^sup>*\<^sup>* ?e e" "reader e = Stopped" "length (goroutines e) = length (goroutines ?e)"
    using Cons.IH by blast
  then show ?case using d1(1,5) step by (intro exI [of _ e]) (auto intro: rtranclp_trans converse_rtranclp_into_rtranclp)
qed

lemma stopped_idle:
  assumes "dmx_ok d" "reader d = Stopped" "g \<in> set (goroutines d)"
  shows "c_pc g \<notin> {Registered, Waiting}"
proof -
  obtain c where "c < length (goroutines d)" "goroutines d ! c = g" using assms(3) by (auto simp: in_set_conv_nth)
  moreover have "calls (callmap d) = []" using assms(1,2) by (simp add: dmx_ok_def reader_ok_def)
  ultimately show ?thesis using assms(1) by (auto simp: dmx_ok_def calls_ok_def)
qed

lemma failed_conn_stops:
  assumes ok: "dmx_ok d" and n: "length (goroutines d) < max_calls" and down: "\<not> conn d"
  shows "\<exists>e. (dmx_step f)\<^sup>*\<^sup>* d e \<and> reader e = Stopped \<and> length (goroutines e) = length (goroutines d)"
proof (cases "reader d")
  case Reading
  let ?ts = "outstanding (callmap d)" let ?e = "d\<lparr>callmap := cm_close (callmap d), reader := Draining ?ts\<rparr>"
  have "dmx_step f d ?e" using Reading down by (rule d_read_error) simp
  moreover have "dmx_ok ?e" using ok Reading by (rule read_error_ok) simp
  then have "\<exists>e. (dmx_step f)\<^sup>*\<^sup>* ?e e \<and> reader e = Stopped \<and> length (goroutines e) = length (goroutines ?e)"
    using n by (intro drain_completes) simp_all
  ultimately show ?thesis by (auto intro: converse_rtranclp_into_rtranclp)
next
  case (Draining ts)
  then show ?thesis using drain_completes [OF ok n] by blast
next
  case Stopped
  then show ?thesis by blast
qed

lemma filter_key_single:
  "distinct (map fst xs) \<Longrightarrow> (a, b) \<in> set xs \<Longrightarrow> filter (\<lambda>x. fst x = a) xs = [(a, b)]"
  by (induction xs) (auto simp: filter_empty_conv image_iff)

section \<open>Framing is lossless\<close>

text \<open>The messages a reader gets until \<open>ReadCall\<close> returns an error, with that error.\<close>

lemma ReadCall_shorter:
  "ReadCall unmarshal stream = Inr (Inr (m, rest)) \<Longrightarrow> length rest < length stream"
  by (auto simp: ReadCall_def ReadFull_def split: sum.splits if_splits; linarith)

function read_calls :: "(bytes \<Rightarrow> msg result) \<Rightarrow> bytes \<Rightarrow> (msg list \<times> read_error) result" where
  "read_calls unmarshal stream =
     (case ReadCall unmarshal stream of
        Inl f \<Rightarrow> Inl f
      | Inr (Inl e) \<Rightarrow> Inr ([], e)
      | Inr (Inr (m, rest)) \<Rightarrow> res_bind (read_calls unmarshal rest) (\<lambda>(ms, e). Inr (m # ms, e)))"
  by pat_completeness auto
termination
  by (relation "measure (\<lambda>(u, s). length s)") (auto dest: ReadCall_shorter)

declare read_calls.simps [simp del]

lemma le_value_bytes: "le_value (le_bytes w) = unat w"
proof -
  have split: "n mod 256 + 256 * (n div 256 mod 256 + 256 * (n div 65536 mod 256 + 256 * (n div 16777216))) = n" for n :: nat
  proof -
    have "n div 65536 = n div 256 div 256" "n div 16777216 = n div 256 div 256 div 256" by (simp_all flip: div_mult2_eq)
    then show ?thesis by (simp add: mod_mult_div_eq)
  qed
  have "unat w < 2 ^ 32" using unsigned_less [of w] by simp
  then have "unat w div 16777216 mod 256 = unat w div 16777216" by (simp add: less_mult_imp_div_less)
  then show ?thesis using split [of "unat w"]
    by (simp add: le_bytes_def drop_bit_eq_div unat_div_distrib)
qed

lemma length_le_bytes [simp]: "length (le_bytes w) = 4"
  by (simp add: le_bytes_def)

lemma ReadCall_WriteCall:
  assumes "unmarshal (marshal \<lparr>Tag = t, Data = b, Ok = k\<rparr>) = Inr \<lparr>Tag = t, Data = b, Ok = k\<rparr>"
    and "length (marshal \<lparr>Tag = t, Data = b, Ok = k\<rparr>) < 2 ^ 32"
  shows "ReadCall unmarshal (WriteCall marshal t b k [] @ rest) = Inr (Inr (\<lparr>Tag = t, Data = b, Ok = k\<rparr>, rest))"
  using assms by (simp add: ReadCall_def WriteCall_def ReadFull_def le_value_bytes unat_of_nat take_bit_nat_eq_self Let_def)

lemma write_calls_app:
  "foldl (\<lambda>s m. WriteCall marshal (Tag m) (Data m) (Ok m) s) s ms =
   s @ foldl (\<lambda>s m. WriteCall marshal (Tag m) (Data m) (Ok m) s) [] ms"
proof (induction ms arbitrary: s)
  case (Cons m ms)
  from Cons.IH [of "WriteCall marshal (Tag m) (Data m) (Ok m) s"] Cons.IH [of "WriteCall marshal (Tag m) (Data m) (Ok m) []"]
  show ?case by (simp add: WriteCall_def Let_def)
qed simp

lemma read_calls_written:
  assumes "\<forall>m \<in> set ms. unmarshal (marshal m) = Inr m \<and> length (marshal m) < 2 ^ 32"
  shows "read_calls unmarshal (foldl (\<lambda>s m. WriteCall marshal (Tag m) (Data m) (Ok m) s) [] ms) = Inr (ms, IoEOF)"
  using assms
proof (induction ms)
  case Nil
  then show ?case by (simp add: read_calls.simps ReadCall_def ReadFull_def)
next
  case (Cons m ms)
  let ?rest = "foldl (\<lambda>s m. WriteCall marshal (Tag m) (Data m) (Ok m) s) [] ms"
  have "ReadCall unmarshal (WriteCall marshal (Tag m) (Data m) (Ok m) [] @ ?rest) = Inr (Inr (m, ?rest))"
    using ReadCall_WriteCall [of unmarshal marshal "Tag m" "Data m" "Ok m" ?rest] Cons.prems by (cases m) simp
  with Cons show ?case
    by (subst read_calls.simps) (simp add: write_calls_app [of marshal "WriteCall marshal (Tag m) (Data m) (Ok m) []"])
qed

section \<open>Properties of the transport\<close>

text \<open>
  C30: framing is lossless: whatever messages are written to the connection one after the other, the
  other end reads exactly these messages in this order, and then the end of the stream, provided
  \<open>encoding/gob\<close> decodes what it encodes and no message reaches 4 GB.
\<close>
theorem transport_roundtrip:
  assumes "\<forall>m \<in> set ms. unmarshal (marshal m) = Inr m \<and> length (marshal m) < 2 ^ 32"
  shows "read_calls unmarshal (foldl (\<lambda>s m. WriteCall marshal (Tag m) (Data m) (Ok m) s) [] ms) = Inr (ms, IoEOF)"
  using assms by (rule read_calls_written)

text \<open>
  C4: replies are matched with calls: however the goroutines interleave and whenever the connection
  fails, as long as fewer than \<open>2 ^ 32 - 1\<close> calls were made a call that returns without an error
  returns what \<open>ServeRequest\<close> computed for its own request, and its request was served exactly once.
\<close>
theorem demux_matches_replies:
  assumes "reachable dmx_init (dmx_step ServeRequest) d" and "length (goroutines d) < 2 ^ 32 - 1"
    and "g \<in> set (goroutines d)" and "c_pc g = Answered r k"
  shows "filter (\<lambda>x. fst x = c_tag g) (served d) = [(c_tag g, c_req g, r, k)]"
proof -
  have "served_ok d" using dm.reachable_inv [OF assms(1)] assms(2) by (simp add: dmx_inv_def max_calls_def dmx_ok_def)
  then have "(c_tag g, c_req g, r, k) \<in> set (served d)" "distinct (map fst (served d))"
    using assms(3,4) by (auto simp: served_ok_def)
  then show ?thesis using filter_key_single by fastforce
qed

text \<open>
  C26: the client never meets a reply without a call (its \<open>log.Fatalf\<close> is unreachable), and no caller is
  left behind: once the connection has failed the reader can always finish answering, and when it has
  stopped no call is registered or waiting.
\<close>
theorem demux_answers_all:
  assumes "reachable dmx_init (dmx_step ServeRequest) d" and "length (goroutines d) < 2 ^ 32 - 1"
  shows "\<not> fatal d \<and> (reader d = Stopped \<longrightarrow> (\<forall>g \<in> set (goroutines d). c_pc g \<notin> {Registered, Waiting})) \<and>
    (\<not> conn d \<longrightarrow> (\<exists>e. (dmx_step ServeRequest)\<^sup>*\<^sup>* d e \<and> reader e = Stopped \<and> length (goroutines e) = length (goroutines d)))"
proof -
  have ok: "dmx_ok d" and n: "length (goroutines d) < max_calls"
    using dm.reachable_inv [OF assms(1)] assms(2) by (simp_all add: dmx_inv_def max_calls_def)
  show ?thesis using ok stopped_idle [OF ok] failed_conn_stops [OF ok n] by (auto simp: dmx_ok_def)
qed

section \<open>sockrpc\<close>

text \<open>
  \<open>tester1/sockrpc\<close> calls a service over such a connection. \<open>RPC\<close> turns what \<open>SendReceive\<close> returned
  into the caller's result; \<open>None\<close> is a call that has not returned.
\<close>

definition SockName :: "string \<Rightarrow> string" where "SockName endName = ''/tmp/6.5840-'' @ endName"

record rpc_args =
  Method :: string
  Args :: bytes

definition RPC :: "call_state \<Rightarrow> (bytes \<times> bool) option" where
  "RPC g =
     (case c_pc g of
        Refused \<Rightarrow> Some ([], False)
      | ConnFailed \<Rightarrow> Some ([], False)
      | Answered r k \<Rightarrow> Some (r, k)
      | _ \<Rightarrow> None)"

text \<open>\<open>dial\<close> tries a hundred times; \<open>up i\<close> says whether the socket accepts at the \<open>i\<close>-th try.\<close>

definition dial :: "(nat \<Rightarrow> bool) \<Rightarrow> nat option" where
  "dial up = find up [0..<100]"

definition RPCSrv_ServeRequest ::
  "(bytes \<Rightarrow> rpc_args result) \<Rightarrow> string \<Rightarrow> bytes \<Rightarrow> 'a server \<Rightarrow> ('a server \<times> bytes \<times> bool) result" where
  "RPCSrv_ServeRequest unmarshal clntEnd b srv =
     res_bind (unmarshal b) (\<lambda>req. Dispatch (Method req) clntEnd (Args req) srv)"

section \<open>Witnesses\<close>

definition wit_marshal :: "msg \<Rightarrow> bytes" where
  "wit_marshal m = (if Ok m then CHR ''1'' else CHR ''0'') # le_bytes (Tag m) @ Data m"

definition wit_unmarshal :: "bytes \<Rightarrow> msg result" where
  "wit_unmarshal b = Inr \<lparr>Tag = of_nat (le_value (take 4 (tl b))), Data = drop 5 b, Ok = (hd b = CHR ''1'')\<rparr>"

definition wit_msgs :: "msg list" where
  "wit_msgs = [\<lparr>Tag = 1, Data = ''get'', Ok = True\<rparr>, \<lparr>Tag = 2, Data = [], Ok = False\<rparr>]"

lemma wit_unmarshal_marshal: "wit_unmarshal (wit_marshal m) = Inr m"
  by (cases m) (simp add: wit_marshal_def wit_unmarshal_def le_value_bytes)

lemma transport_roundtrip_witness:
  "read_calls wit_unmarshal (foldl (\<lambda>s m. WriteCall wit_marshal (Tag m) (Data m) (Ok m) s) [] wit_msgs) = Inr (wit_msgs, IoEOF)"
  by (rule transport_roundtrip) (simp add: wit_unmarshal_marshal wit_msgs_def, simp add: wit_marshal_def)

text \<open>One call, served by a server that counts and echoes.\<close>

definition echo :: "bytes \<Rightarrow> nat \<Rightarrow> nat \<times> bytes \<times> bool" where "echo b n = (n + 1, b, True)"

definition dx_sent :: "nat dmx" where "dx_sent = send_write 0 (send_put 0 (send_tag ''q'' (NewDemux 0)))"

definition dx_written :: "nat dmx" where
  "dx_written = dx_sent\<lparr>toSrv := [], pending := [], finished := [], toClnt := [(1, ''q'', True)], sstate := 1,
     served := [(1, ''q'', ''q'', True)]\<rparr>"

definition dx_done :: "nat dmx" where
  "dx_done = dmx_reply 1 (Answered ''q'' True) (dx_written\<lparr>toClnt := [], gone := [1]\<rparr>)"

lemmas dx_defs = dx_sent_def dx_written_def dx_done_def NewDemux_def newCallMap_def send_tag_def send_put_def
  send_write_def set_pc_def dmx_tag_def cm_put_def Let_def dmx_reply_def cm_remove_def receives_def gm_delete_def

lemma dx_sent_reachable: "reachable dmx_init (dmx_step echo) dx_sent"
proof -
  let ?d = "NewDemux 0 :: nat dmx"
  have 0: "reachable dmx_init (dmx_step echo) ?d" by (rule reachable_start) (auto simp: dmx_init_def)
  have "dmx_step echo (send_tag ''q'' ?d) (send_put 0 (send_tag ''q'' ?d))"
    by (rule d_put) (simp_all add: dx_defs)
  moreover have "dmx_step echo (send_put 0 (send_tag ''q'' ?d)) dx_sent"
    unfolding dx_sent_def by (rule d_write) (simp_all add: dx_defs)
  ultimately show ?thesis using 0 by (meson d_tag reachable_next)
qed

lemma dx_done_reachable: "reachable dmx_init (dmx_step echo) dx_done"
proof -
  let ?d1 = "dx_sent\<lparr>toSrv := [], pending := [(1, ''q'')]\<rparr>"
  let ?d2 = "dx_sent\<lparr>toSrv := [], pending := [], finished := [(1, ''q'', True)], sstate := 1, served := [(1, ''q'', ''q'', True)]\<rparr>"
  have "dmx_step echo dx_sent ?d1"
    using d_srv_read [of dx_sent 1 "''q''" "[]" echo] by (simp add: dx_defs)
  moreover have "dmx_step echo ?d1 ?d2"
    using d_srv_serve [of ?d1 "[]" 1 "''q''" "[]" echo] by (simp add: dx_defs echo_def)
  moreover have "dmx_step echo ?d2 dx_written"
    using d_srv_write [of ?d2 "[]" 1 "''q''" True "[]" echo] by (simp add: dx_defs)
  moreover have "dmx_step echo dx_written dx_done"
    using d_read [of dx_written 1 "''q''" True "[]" echo] by (simp add: dx_defs)
  ultimately show ?thesis using dx_sent_reachable by (meson reachable_next)
qed

lemma demux_matches_replies_witness:
  "filter (\<lambda>x. fst x = 1) (served dx_done) = [(1, ''q'', ''q'', True)]"
  using demux_matches_replies [OF dx_done_reachable, of "\<lparr>c_tag = 1, c_req = ''q'', c_pc = Answered ''q'' True\<rparr>" "''q''" True]
  by (simp add: dx_defs)

lemma demux_answers_all_witness:
  "\<not> fatal (dx_sent\<lparr>conn := False\<rparr>) \<and>
     (\<exists>e. (dmx_step echo)\<^sup>*\<^sup>* (dx_sent\<lparr>conn := False\<rparr>) e \<and> reader e = Stopped \<and> length (goroutines e) = 1)"
  using demux_answers_all [OF reachable_next [OF dx_sent_reachable d_conn_down]] by (simp add: dx_defs)

end
