(* ===== verification/RpcPath.thy ===== *)
theory RpcPath
  imports Daemon Demux Annotate
begin

text \<open>
  A call from one server process to another, through all its hops: \<open>ClientEnd.Call\<close> in the calling daemon, whose ends forward
  to the tester (\<open>labrpc.go\<close>, \<open>daemonsrv.go\<close>), the call to the tester over a socket (\<open>sockrpc\<close>), \<open>TesterRPC.Forward\<close> (\<open>testsrv.go\<close>), the
  simulated network, \<open>DaemonClnt.forward\<close> (\<open>daemonclnt.go\<close>) over a second socket, and the dispatch in the called daemon.
  The gob codec is a parameter per type; that it decodes what it encodes is \<open>codec_ok\<close>. A connection over a socket either
  delivers, or loses the request or the reply, which is what \<open>Demux\<close> shows of it (\<open>demux_hop\<close>).

  Shown: the call does what a local call of the method does, or fails; the method runs at most once, and with
  both connections up and a reliable network the caller gets its reply.
\<close>

section \<open>Marshalling\<close>

record 'v codec =
  enc :: "'v \<Rightarrow> bytes option"
  dec :: "bytes \<Rightarrow> 'v option"

definition Marshall :: "'v codec \<Rightarrow> 'v \<Rightarrow> bytes result" where
  "Marshall c v = (case enc c v of None \<Rightarrow> Inl (Fatal ''Marshall fatal: encode arg'') | Some b \<Rightarrow> Inr b)"

definition Unmarshall :: "'v codec \<Rightarrow> bytes \<Rightarrow> 'v result" where
  "Unmarshall c b = (case dec c b of None \<Rightarrow> Inl (Fatal ''Unmarshall fatal: decode reply'') | Some v \<Rightarrow> Inr v)"

text \<open>\<open>encoding/gob\<close> encodes the exported fields of these types, and decodes what it encoded.\<close>

definition codec_ok :: "'v codec \<Rightarrow> bool" where
  "codec_ok c \<longleftrightarrow> (\<forall>v. \<exists>b. enc c v = Some b \<and> dec c b = Some v)"

text \<open>
  A handler as \<open>Service.dispatch\<close> calls a method: the argument is decoded, the reply encoded; the error of \<open>EncodeValue\<close> is not looked at.
\<close>

definition method_handler :: "'q codec \<Rightarrow> 'p codec \<Rightarrow> ('q \<Rightarrow> 'a \<Rightarrow> ('a \<times> 'p) result) \<Rightarrow> 'a handler" where
  "method_handler cq cp f b a =
     res_bind (Unmarshall cq b) (\<lambda>q.
     res_bind (f q a) (\<lambda>(a', p). Inr (a', case enc cp p of None \<Rightarrow> [] | Some rb \<Rightarrow> rb)))"

section \<open>Calls over a socket\<close>

text \<open>What becomes of a call over a connection.\<close>

datatype hop = Through | LoseRequest | LoseReply

text \<open>
  \<open>RPCClnt.RPC\<close> and \<open>RPCMarshall\<close>: \<open>serve\<close> is the \<open>ServeRequest\<close> of the process at the other end. When that process ends
  in it the connection fails; so the caller sees a failed call.
\<close>

definition sock_RPC ::
  "rpc_args codec \<Rightarrow> hop \<Rightarrow> (bytes \<Rightarrow> 's \<Rightarrow> ('s \<times> bytes \<times> bool) result) \<Rightarrow> string \<Rightarrow> bytes \<Rightarrow> 's \<Rightarrow> ('s \<times> bytes \<times> bool) result" where
  "sock_RPC cr h serve method b s =
     res_bind (Marshall cr \<lparr>Method = method, Args = b\<rparr>) (\<lambda>req.
       case h of
         LoseRequest \<Rightarrow> Inr (s, [], False)
       | Through \<Rightarrow> (case serve req s of Inl e \<Rightarrow> Inr (s, [], False) | Inr (s', rep, k) \<Rightarrow> Inr (s', rep, k))
       | LoseReply \<Rightarrow> (case serve req s of Inl e \<Rightarrow> Inr (s, [], False) | Inr (s', rep, k) \<Rightarrow> Inr (s', [], False)))"

definition RPCMarshall ::
  "rpc_args codec \<Rightarrow> 'q codec \<Rightarrow> 'p codec \<Rightarrow> hop \<Rightarrow> (bytes \<Rightarrow> 's \<Rightarrow> ('s \<times> bytes \<times> bool) result) \<Rightarrow> string \<Rightarrow> 'q \<Rightarrow> 's \<Rightarrow> ('s \<times> 'p option) result" where
  "RPCMarshall cr cq cp h serve method q s =
     res_bind (Marshall cq q) (\<lambda>b.
     res_bind (sock_RPC cr h serve method b s) (\<lambda>(s', rep, k).
       if \<not> k then Inr (s', None) else res_bind (Unmarshall cp rep) (\<lambda>p. Inr (s', Some p))))"

section \<open>The hops\<close>

record codecs =
  c_rpc :: "rpc_args codec"
  c_fwd :: "forward_args codec"
  c_rep :: "(bytes \<times> bool) codec"
  c_point :: "(string \<times> string \<times> string) codec"
  c_interval :: "(int \<times> string \<times> string) codec"
  c_empty :: "unit codec"
  c_time :: "int codec"

text \<open>
  \<open>DaemonClnt.forward\<close>, the function that the tester installs in its server object for a daemon (\<open>SetDispatch\<close>); the state of that object
  is the process, with the server in it.
\<close>

definition dc_forward :: "codecs \<Rightarrow> hop \<Rightarrow> string \<Rightarrow> bytes \<Rightarrow> 'a server \<Rightarrow> 'a server \<times> bytes \<times> bool" where
  "dc_forward cs h method b p =
     (case sock_RPC (c_rpc cs) h (RPCSrv_ServeRequest (Unmarshall (c_rpc cs)) ''tester'') method b p of
        Inl e \<Rightarrow> (p, [], False)
      | Inr r \<Rightarrow> r)"

text \<open>
  The tester: its network when the request and when the reply pass, the server object of the called daemon, and its annotations.
\<close>

record 'a lab =
  lab_net :: network
  lab_net' :: network
  lab_srv :: "'a server server"
  lab_vis :: vis

definition lab_start :: "codecs \<Rightarrow> hop \<Rightarrow> 'a server \<Rightarrow> 'a server server" where
  "lab_start cs h p = SetDispatch (dc_forward cs h) (MakeServer p)"

text \<open>\<open>TesterRPC.Forward\<close>; \<open>r\<close>, \<open>r1\<close>, \<open>r2\<close> are the network's random numbers.\<close>

definition lab_Forward :: "int \<Rightarrow> int \<Rightarrow> int \<Rightarrow> forward_args \<Rightarrow> 'a lab \<Rightarrow> ('a lab \<times> bytes \<times> bool) result" where
  "lab_Forward r r1 r2 a l =
     res_bind (LookupEnd (fw_End a) (lab_net l)) (\<lambda>e.
     res_bind (one_call r r1 r2 \<lparr>endname = e, svcMeth = fw_Method a, args = fw_Args a\<rparr> (lab_net l) (lab_net' l) (lab_srv l)) (\<lambda>(rs, rep).
     res_bind (TesterRPC_Forward a (Some rep) (lab_net l)) (\<lambda>out. Inr (l\<lparr>lab_srv := rs\<rparr>, out))))"

text \<open>
  The methods that \<open>MakeService\<close> finds in \<open>TesterRPC\<close>; those it gets from the embedded \<open>RPCSrv\<close> have other signatures. \<open>now\<close> is the
  time of the call.
\<close>

definition rpc_method :: "string \<Rightarrow> 'a handler \<Rightarrow> 'a method_info" where
  "rpc_method name h = \<lparr>m_name = name, m_exported = True, m_NumIn = 3, m_In2_ptr = True, m_NumOut = 0, m_func = h\<rparr>"

definition TesterRPC_service :: "codecs \<Rightarrow> int \<Rightarrow> int \<Rightarrow> int \<Rightarrow> int \<Rightarrow> 'a lab service" where
  "TesterRPC_service cs now r r1 r2 =
     MakeService ''TesterRPC''
       [rpc_method ''Forward'' (method_handler (c_fwd cs) (c_rep cs) (lab_Forward r r1 r2)),
        rpc_method ''GetAnnotatorTimestamp''
          (method_handler (c_empty cs) (c_time cs) (\<lambda>_ l. Inr (l, GetAnnotatorTimestamp_reply now))),
        rpc_method ''PostAnnotatorInfoInterval''
          (method_handler (c_interval cs) (c_empty cs) (\<lambda>a l. Inr (l\<lparr>lab_vis := PostAnnotatorInfoInterval now a (lab_vis l)\<rparr>, ()))),
        rpc_method ''PostAnnotatorPoint''
          (method_handler (c_point cs) (c_empty cs) (\<lambda>a l. Inr (l\<lparr>lab_vis := PostAnnotatorPoint now a (lab_vis l)\<rparr>, ())))]"

definition newTesterRPCSrv :: "codecs \<Rightarrow> int \<Rightarrow> int \<Rightarrow> int \<Rightarrow> int \<Rightarrow> 'a lab \<Rightarrow> 'a lab server" where
  "newTesterRPCSrv cs now r r1 r2 l = AddService (TesterRPC_service cs now r r1 r2) (MakeServer l)"

text \<open>
  \<open>DaemonSrv.forward\<close>, installed in every end of the calling daemon by \<open>SetCall\<close>, and \<open>ClientEnd.Call\<close> with it. The state is the daemon's
  number of the last call and the tester.
\<close>

definition DaemonSrv_forward ::
  "codecs \<Rightarrow> hop \<Rightarrow> string \<Rightarrow> string \<Rightarrow> bytes \<Rightarrow> 64 word \<times> 'a lab server \<Rightarrow> ((64 word \<times> 'a lab server) \<times> bytes \<times> bool) result" where
  "DaemonSrv_forward cs h e method b = (\<lambda>(n, t).
     let (n', a) = ds_forward e method b n
     in res_bind (RPCMarshall (c_rpc cs) (c_fwd cs) (c_rep cs) h (RPCSrv_ServeRequest (Unmarshall (c_rpc cs)) e) ''TesterRPC.Forward'' a t)
          (\<lambda>(t', answer). Inr ((n', t'), forward_result answer)))"

definition ClientEnd_Call ::
  "(string \<Rightarrow> string \<Rightarrow> bytes \<Rightarrow> 's \<Rightarrow> ('s \<times> bytes \<times> bool) result) \<Rightarrow> 'q codec \<Rightarrow> 'p codec \<Rightarrow> string \<Rightarrow> string \<Rightarrow> 'q \<Rightarrow> 's \<Rightarrow> ('s \<times> 'p option) result" where
  "ClientEnd_Call callf cq cp e method q s =
     res_bind (Marshall cq q) (\<lambda>b.
     res_bind (callf e method b s) (\<lambda>(s', rep, k).
       if \<not> k then Inr (s', None) else res_bind (Unmarshall cp rep) (\<lambda>p. Inr (s', Some p))))"

text \<open>The receiver in the called daemon, seen from the caller.\<close>

definition remote :: "64 word \<times> 'a lab server \<Rightarrow> 'a" where
  "remote st = rcvr (rcvr (lab_srv (rcvr (snd st))))"

section \<open>What each hop does\<close>

lemma Marshall_ok: "codec_ok c \<Longrightarrow> \<exists>b. Marshall c v = Inr b \<and> Unmarshall c b = Inr v \<and> enc c v = Some b"
  unfolding codec_ok_def Marshall_def Unmarshall_def by (metis option.simps(5))

text \<open>A method of a server, with its typed function.\<close>

definition serves :: "string \<Rightarrow> 'q codec \<Rightarrow> 'p codec \<Rightarrow> ('q \<Rightarrow> 'a \<Rightarrow> ('a \<times> 'p) result) \<Rightarrow> 'a server \<Rightarrow> bool" where
  "serves meth cq cp f p \<longleftrightarrow> dispatchf p = None \<and>
     (\<exists>dot svc. last_dot meth = Some dot \<and> map_of (services p) (take dot meth) = Some svc \<and>
        map_of (methods svc) (drop (dot + 1) meth) = Some (method_handler cq cp f))"

text \<open>
  The interface between a service and its callers over a socket: a method that is served. What a caller can see of a call of it is proved once, here: whether
  it ran, and its reply or a failure.
\<close>

locale served_method =
  fixes meth :: string and cq :: "'q codec" and cp :: "'p codec" and f :: "'q \<Rightarrow> 'a \<Rightarrow> ('a \<times> 'p) result" and p :: "'a server"
  assumes served: "serves meth cq cp f p"
begin

lemma request:
  assumes "codec_ok cr" "codec_ok cq" "codec_ok cp" "f q (rcvr p) = Inr (a', v)"
    and "Marshall cr \<lparr>Method = meth, Args = b\<rparr> = Inr req" "Unmarshall cq b = Inr q"
  shows "\<exists>rb. RPCSrv_ServeRequest (Unmarshall cr) clnt req p = Inr (p\<lparr>srv_count := srv_count p + 1, rcvr := a'\<rparr>, rb, True) \<and>
    Unmarshall cp rb = Inr v"
proof -
  have "Unmarshall cr req = Inr \<lparr>Method = meth, Args = b\<rparr>" using Marshall_ok [OF assms(1)] assms(5) by (metis Inr_inject)
  moreover obtain rb where "enc cp v = Some rb" "Unmarshall cp rb = Inr v" using Marshall_ok [OF assms(3)] by blast
  moreover obtain dot svc where "dispatchf p = None" "last_dot meth = Some dot" "map_of (services p) (take dot meth) = Some svc"
    "map_of (methods svc) (drop (dot + 1) meth) = Some (method_handler cq cp f)" using served by (auto simp: serves_def)
  ultimately show ?thesis using assms(4,6)
    by (simp add: RPCSrv_ServeRequest_def Dispatch_def server_dispatch_def service_dispatch_def method_handler_def Let_def)
qed

lemma socket_call:
  assumes "codec_ok cr" "codec_ok cq" "codec_ok cp" "f q (rcvr p) = Inr (a', v)" "Unmarshall cq b = Inr q"
  shows "\<exists>p' rb k. sock_RPC cr h (RPCSrv_ServeRequest (Unmarshall cr) clnt) meth b p = Inr (p', rb, k) \<and>
    p' = (if h = LoseRequest then p else p\<lparr>srv_count := srv_count p + 1, rcvr := a'\<rparr>) \<and>
    k = (h = Through) \<and> (k \<longrightarrow> Unmarshall cp rb = Inr v)"
proof -
  obtain req where req: "Marshall cr \<lparr>Method = meth, Args = b\<rparr> = Inr req" using Marshall_ok [OF assms(1)] by blast
  from request [OF assms(1-4) req assms(5)] obtain rb where
    "RPCSrv_ServeRequest (Unmarshall cr) clnt req p = Inr (p\<lparr>srv_count := srv_count p + 1, rcvr := a'\<rparr>, rb, True)" "Unmarshall cp rb = Inr v" by blast
  then show ?thesis using req by (cases h) (auto simp: sock_RPC_def)
qed

lemma call:
  assumes "codec_ok cr" "codec_ok cq" "codec_ok cp" "f q (rcvr p) = Inr (a', v)"
  shows "RPCMarshall cr cq cp h (RPCSrv_ServeRequest (Unmarshall cr) clnt) meth q p =
    Inr (if h = LoseRequest then p else p\<lparr>srv_count := srv_count p + 1, rcvr := a'\<rparr>, if h = Through then Some v else None)"
proof -
  obtain b where b: "Marshall cq q = Inr b" "Unmarshall cq b = Inr q" using Marshall_ok [OF assms(2)] by blast
  from socket_call [OF assms b(2), of h clnt] obtain p' rb k where
    "sock_RPC cr h (RPCSrv_ServeRequest (Unmarshall cr) clnt) meth b p = Inr (p', rb, k)"
    "p' = (if h = LoseRequest then p else p\<lparr>srv_count := srv_count p + 1, rcvr := a'\<rparr>)" "k = (h = Through)" "k \<longrightarrow> Unmarshall cp rb = Inr v"
    by blast
  then show ?thesis using b(1) by (auto simp: RPCMarshall_def)
qed

end

text \<open>The network between the two daemons: a method that ran without its reply coming through is a lost reply.\<close>

lemma one_call_effect:
  assumes "codec_ok (c_rpc cs)" "codec_ok cq" "codec_ok cp" "serves meth cq cp f p" "f q (rcvr p) = Inr (a', v)" "Unmarshall cq b = Inr q"
  shows "\<exists>rs rep ran. one_call r r1 r2 \<lparr>endname = e, svcMeth = meth, args = b\<rparr> rn rn' (lab_start cs h p) = Inr (rs, rep) \<and>
    rcvr (rcvr rs) = (if ran then a' else rcvr p) \<and> (ok rep \<longrightarrow> ran \<and> Unmarshall cp (reply rep) = Inr v) \<and>
    (h = Through \<and> reliable rn \<and> get_enabled rn e \<and> get_enabled rn' e \<and>
      (\<exists>s x. get_connection rn e = Some s \<and> get_server rn s = Some x \<and> get_server rn' s = Some x) \<longrightarrow> ok rep)"
proof -
  let ?req = "\<lparr>endname = e, svcMeth = meth, args = b\<rparr>"
  from served_method.socket_call [OF served_method.intro [OF assms(4)] assms(1-3,5,6), of h "''tester''"] obtain p' rb k where fw: "dc_forward cs h meth b p = (p', rb, k)"
    "p' = (if h = LoseRequest then p else p\<lparr>srv_count := srv_count p + 1, rcvr := a'\<rparr>)" "k = (h = Through)" "k \<longrightarrow> Unmarshall cp rb = Inr v"
    by (auto simp: dc_forward_def)
  obtain dot where dot: "last_dot meth = Some dot" using assms(4) by (auto simp: serves_def)
  have d: "server_dispatch ?req (lab_start cs h p) =
      Inr ((lab_start cs h p)\<lparr>srv_count := 1, rcvr := p'\<rparr>, \<lparr>ok = k, reply = rb\<rparr>)"
    using dot fw(1) by (simp add: server_dispatch_def lab_start_def SetDispatch_def MakeServer_def Let_def)
  show ?thesis
  proof (cases "processReq_begin r ?req rn")
    case None
    moreover have "\<not> (reliable rn \<and> get_enabled rn e \<and> (\<exists>s x. get_connection rn e = Some s \<and> get_server rn s = Some x))"
      using None by (auto simp: processReq_begin_def readEndnameInfo_def split: option.splits)
    ultimately show ?thesis
      by (intro exI [of _ "lab_start cs h p"] exI [of _ failed] exI [of _ False])
        (auto simp: one_call_def failed_def lab_start_def SetDispatch_def MakeServer_def)
  next
    case (Some i)
    let ?sent = "processReq_end r1 r2 True \<lparr>ok = k, reply = rb\<rparr> ?req i rn'"
    define rep where "rep = (if ?sent = SendFailure then failed else \<lparr>ok = k, reply = rb\<rparr>)"
    have call: "one_call r r1 r2 ?req rn rn' (lab_start cs h p) =
        Inr ((lab_start cs h p)\<lparr>srv_count := 1, rcvr := p'\<rparr>, rep)"
      using Some d processReq_end_live [of r1 r2 True "\<lparr>ok = k, reply = rb\<rparr>" ?req i rn'] by (auto simp: one_call_def rep_def split: sending.splits)
    have live: "?sent \<noteq> SendFailure" if "reliable rn \<and> get_enabled rn e \<and> get_enabled rn' e \<and>
        (\<exists>s x. get_connection rn e = Some s \<and> get_server rn s = Some x \<and> get_server rn' s = Some x)"
      using that Some by (auto simp: processReq_begin_def readEndnameInfo_def processReq_end_def isServerDead_def Let_def)
    have "rcvr p' = (if h \<noteq> LoseRequest then a' else rcvr p)" using fw(2) by simp
    moreover have "ok rep \<longrightarrow> h \<noteq> LoseRequest \<and> Unmarshall cp (reply rep) = Inr v" using fw(3,4) by (auto simp: rep_def failed_def)
    moreover have "?sent \<noteq> SendFailure \<Longrightarrow> h = Through \<Longrightarrow> ok rep" using fw(3) by (simp add: rep_def)
    ultimately show ?thesis using call live
      by (intro exI [of _ "(lab_start cs h p)\<lparr>srv_count := 1, rcvr := p'\<rparr>"] exI [of _ rep] exI [of _ "h \<noteq> LoseRequest"]) simp
  qed
qed

text \<open>The tester's server has \<open>Forward\<close>.\<close>

interpretation fw: served_method "''TesterRPC.Forward''" "c_fwd cs" "c_rep cs" "lab_Forward r r1 r2" "newTesterRPCSrv cs now r r1 r2 l" for cs now r r1 r2 l
  by unfold_locales
    (simp add: serves_def newTesterRPCSrv_def TesterRPC_service_def rpc_method_def MakeService_def AddService_def MakeServer_def suitable_def)

lemma lab_Forward_effect:
  assumes "codec_ok (c_rpc cs)" "codec_ok cq" "codec_ok cp" "serves meth cq cp f p" "f q (rcvr p) = Inr (a', v)" "Unmarshall cq b = Inr q"
    and "map_of (ends rn) e \<noteq> None" "fw_End fa = e" "fw_Method fa = meth" "fw_Args fa = b"
  shows "\<exists>l rb k ran. lab_Forward r r1 r2 fa \<lparr>lab_net = rn, lab_net' = rn', lab_srv = lab_start cs h p, lab_vis = vs\<rparr> = Inr (l, rb, k) \<and>
    rcvr (rcvr (lab_srv l)) = (if ran then a' else rcvr p) \<and> (k \<longrightarrow> ran \<and> Unmarshall cp rb = Inr v) \<and>
    (h = Through \<and> reliable rn \<and> get_enabled rn e \<and> get_enabled rn' e \<and>
      (\<exists>s x. get_connection rn e = Some s \<and> get_server rn s = Some x \<and> get_server rn' s = Some x) \<longrightarrow> k)"
proof -
  from one_call_effect [OF assms(1-6), of r r1 r2 e rn rn' h] obtain rs rep ran where
    call: "one_call r r1 r2 \<lparr>endname = e, svcMeth = meth, args = b\<rparr> rn rn' (lab_start cs h p) = Inr (rs, rep)" and
    eff: "rcvr (rcvr rs) = (if ran then a' else rcvr p)" "ok rep \<longrightarrow> ran \<and> Unmarshall cp (reply rep) = Inr v"
      "h = Through \<and> reliable rn \<and> get_enabled rn e \<and> get_enabled rn' e \<and>
        (\<exists>s x. get_connection rn e = Some s \<and> get_server rn s = Some x \<and> get_server rn' s = Some x) \<longrightarrow> ok rep" by blast
  have "lab_Forward r r1 r2 fa \<lparr>lab_net = rn, lab_net' = rn', lab_srv = lab_start cs h p, lab_vis = vs\<rparr> =
      Inr (\<lparr>lab_net = rn, lab_net' = rn', lab_srv = rs, lab_vis = vs\<rparr>, Forward_result (Some rep))"
    using assms(7-10) call by (simp add: lab_Forward_def LookupEnd_def TesterRPC_Forward_def)
  moreover have "\<exists>rb. Forward_result (Some rep) = (rb, ok rep) \<and> (ok rep \<longrightarrow> rb = reply rep)" by (simp add: Forward_result_def)
  then obtain rb where "Forward_result (Some rep) = (rb, ok rep)" "ok rep \<longrightarrow> rb = reply rep" by blast
  ultimately show ?thesis using eff
    by (intro exI [of _ "\<lparr>lab_net = rn, lab_net' = rn', lab_srv = rs, lab_vis = vs\<rparr>"] exI [of _ rb] exI [of _ "ok rep"] exI [of _ ran]) auto
qed

text \<open>A call over the transport of \<open>Demux\<close> that has returned is one of the three.\<close>

lemma demux_hop:
  assumes "reachable dmx_init (dmx_step serve) d" "length (goroutines d) < 2 ^ 32 - 1" "g \<in> set (goroutines d)" "RPC g = Some out"
  shows "\<exists>h r k. map snd (filter (\<lambda>x. fst x = c_tag g) (served d)) = (if h = LoseRequest then [] else [(c_req g, r, k)]) \<and>
    out = (if h = Through then (r, k) else ([], False))"
proof -
  have so: "served_ok d" and tg: "tags_ok (goroutines d) (nextTag d)" using dm.reachable_inv [OF assms(1)] assms(2) by (simp_all add: dmx_inv_def max_calls_def dmx_ok_def)
  have len: "length (goroutines d) < max_calls" using assms(2) by (simp add: max_calls_def)
  have one: "filter (\<lambda>x. fst x = c_tag g) (served d) = [(c_tag g, c_req g, r, k)]" if "(c_tag g, c_req g, r, k) \<in> set (served d)" for r k
    using so that filter_key_single by (fastforce simp: served_ok_def)
  have mine: "b = c_req g" if "(c_tag g, b, r, k) \<in> set (served d)" for b r k
  proof -
    have "owner (goroutines d) (c_tag g) (\<lambda>g. c_req g = b)" using so that unfolding served_ok_def by blast
    then show ?thesis using tag_inj [OF tg len] assms(3) by (auto simp: owner_def in_set_conv_nth)
  qed
  show ?thesis
  proof (cases "\<exists>r k. c_pc g = Answered r k")
    case True
    then obtain r k where g: "c_pc g = Answered r k" by blast
    then have "(c_tag g, c_req g, r, k) \<in> set (served d)" using so assms(3) by (auto simp: served_ok_def)
    then have "filter (\<lambda>x. fst x = c_tag g) (served d) = [(c_tag g, c_req g, r, k)]" by (rule one)
    then show ?thesis using assms(4) g by (intro exI [of _ Through] exI [of _ r] exI [of _ k]) (simp add: RPC_def)
  next
    case False
    then have out: "out = ([], False)" using assms(4) by (auto simp: RPC_def split: call_pc.splits)
    show ?thesis
    proof (cases "\<exists>x \<in> set (served d). fst x = c_tag g")
      case True
      then obtain b r k where m: "(c_tag g, b, r, k) \<in> set (served d)" by force
      then have "(c_tag g, c_req g, r, k) \<in> set (served d)" using mine by blast
      then have "filter (\<lambda>x. fst x = c_tag g) (served d) = [(c_tag g, c_req g, r, k)]" by (rule one)
      then show ?thesis using out by (intro exI [of _ LoseReply] exI [of _ r] exI [of _ k]) simp
    next
      case False
      then have "filter (\<lambda>x. fst x = c_tag g) (served d) = []" by (simp add: filter_empty_conv)
      then show ?thesis using out by (intro exI [of _ LoseRequest]) simp
    qed
  qed
qed

section \<open>The whole path\<close>

text \<open>
  C8: a call between daemons is a local call that may fail. For every method of the called daemon, every fate of the
  two socket calls and every state of the network, \<open>ClientEnd.Call\<close> returns in a daemon whose ends forward to the tester;
  either the called server is as before and the call has failed, or the method has run exactly once on the caller's argument and
  the caller has its very reply or a failure. With both connections up, a reliable network and the end enabled and
  connected to a server that lives on, it has the reply.
\<close>
theorem remote_call_refines_local:
  fixes f :: "'q \<Rightarrow> 'a \<Rightarrow> 'a \<times> 'p" and p :: "'a server"
  assumes "codec_ok (c_rpc cs)" "codec_ok (c_fwd cs)" "codec_ok (c_rep cs)" "codec_ok cq" "codec_ok cp"
    and "serves meth cq cp (\<lambda>q a. Inr (f q a)) p" and "map_of (ends rn) e \<noteq> None"
    and "t = newTesterRPCSrv cs now r r1 r2 \<lparr>lab_net = rn, lab_net' = rn', lab_srv = lab_start cs hB p, lab_vis = vs\<rparr>"
  shows "\<exists>st res. ClientEnd_Call (DaemonSrv_forward cs hA) cq cp e meth q (n, t) = Inr (st, res) \<and>
    (remote st = rcvr p \<and> res = None \<or>
     remote st = fst (f q (rcvr p)) \<and> (res = None \<or> res = Some (snd (f q (rcvr p))))) \<and>
    (hA = Through \<and> hB = Through \<and> reliable rn \<and> get_enabled rn e \<and> get_enabled rn' e \<and>
      (\<exists>s x. get_connection rn e = Some s \<and> get_server rn s = Some x \<and> get_server rn' s = Some x) \<longrightarrow>
     res = Some (snd (f q (rcvr p))))"
proof -
  let ?l = "\<lparr>lab_net = rn, lab_net' = rn', lab_srv = lab_start cs hB p, lab_vis = vs\<rparr>"
  obtain b where b: "Marshall cq q = Inr b" "Unmarshall cq b = Inr q" using Marshall_ok [OF assms(4)] by blast
  obtain a' v where f: "f q (rcvr p) = (a', v)" by fastforce
  define fa where "fa = \<lparr>fw_Method = meth, fw_End = e, fw_Args = b, fw_Id = n + 1\<rparr>"
  have "\<exists>l rb k ran. lab_Forward r r1 r2 fa ?l = Inr (l, rb, k) \<and>
    rcvr (rcvr (lab_srv l)) = (if ran then a' else rcvr p) \<and> (k \<longrightarrow> ran \<and> Unmarshall cp rb = Inr v) \<and>
    (hB = Through \<and> reliable rn \<and> get_enabled rn e \<and> get_enabled rn' e \<and>
      (\<exists>s x. get_connection rn e = Some s \<and> get_server rn s = Some x \<and> get_server rn' s = Some x) \<longrightarrow> k)"
    using assms f b(2) by (intro lab_Forward_effect [where f = "\<lambda>q a. Inr (f q a)"]) (simp_all add: fa_def)
  then obtain l rb k ran where l: "lab_Forward r r1 r2 fa ?l = Inr (l, rb, k)" "rcvr (rcvr (lab_srv l)) = (if ran then a' else rcvr p)"
    "k \<longrightarrow> ran \<and> Unmarshall cp rb = Inr v" and live: "hB = Through \<and> reliable rn \<and> get_enabled rn e \<and> get_enabled rn' e \<and>
      (\<exists>s x. get_connection rn e = Some s \<and> get_server rn s = Some x \<and> get_server rn' s = Some x) \<longrightarrow> k" by blast
  let ?t = "if hA = LoseRequest then t else t\<lparr>srv_count := srv_count t + 1, rcvr := l\<rparr>"
  have at: "rcvr t = ?l" using assms(8) by (simp add: newTesterRPCSrv_def AddService_def MakeServer_def)
  have "RPCMarshall (c_rpc cs) (c_fwd cs) (c_rep cs) hA (RPCSrv_ServeRequest (Unmarshall (c_rpc cs)) e) ''TesterRPC.Forward'' fa t =
      Inr (?t, if hA = Through then Some (rb, k) else None)"
    using fw.call [OF assms(1-3), of r r1 r2 fa now ?l l "(rb, k)" hA e] l(1) assms(8) at by simp
  then have fw: "DaemonSrv_forward cs hA e meth b (n, t) = Inr ((n + 1, ?t), if hA = Through then (rb, k) else ([], False))"
    by (simp add: DaemonSrv_forward_def ds_forward_def fa_def forward_result_def)
  have rem: "remote (n + 1, ?t) = (if hA \<noteq> LoseRequest \<and> ran then a' else rcvr p)"
    using at l(2) by (simp add: remote_def lab_start_def SetDispatch_def MakeServer_def)
  have res: "ClientEnd_Call (DaemonSrv_forward cs hA) cq cp e meth q (n, t) =
      Inr ((n + 1, ?t), if hA = Through \<and> k then Some v else None)"
    using b(1) fw l(3) by (simp add: ClientEnd_Call_def)
  show ?thesis
    by (rule exI [of _ "(n + 1, ?t)"], rule exI [of _ "if hA = Through \<and> k then Some v else None"])
      (use rem res l(3) live f in simp)
qed

section \<open>Witness\<close>

text \<open>A codec of sequences of strings: each character is marked, each string ended.\<close>

definition put_string :: "string \<Rightarrow> bytes \<Rightarrow> bytes" where
  "put_string s rest = concat (map (\<lambda>c. [CHR ''+'', c]) s) @ CHR ''.'' # rest"

fun get_string :: "bytes \<Rightarrow> string \<times> bytes" where
  "get_string (x # c # b) = (if x = CHR ''+'' then (let (s, r) = get_string b in (c # s, r)) else ([], c # b))"
| "get_string b = ([], [])"

lemma get_put_string: "get_string (put_string s rest) = (s, rest)"
  by (induction s) (simp_all add: put_string_def, cases rest, simp_all)

definition wc_rpc :: "rpc_args codec" where
  "wc_rpc = \<lparr>enc = (\<lambda>a. Some (put_string (Method a) (Args a))), dec = (\<lambda>b. let (m, r) = get_string b in Some \<lparr>Method = m, Args = r\<rparr>)\<rparr>"

definition wc_fwd :: "forward_args codec" where
  "wc_fwd = \<lparr>enc = (\<lambda>a. Some (put_string (fw_Method a) (put_string (fw_End a) (put_string (replicate (unat (fw_Id a)) CHR ''1'') (fw_Args a))))),
     dec = (\<lambda>b. let (m, r) = get_string b; (e, r') = get_string r; (i, r'') = get_string r'
       in Some \<lparr>fw_Method = m, fw_End = e, fw_Args = r'', fw_Id = of_nat (length i)\<rparr>)\<rparr>"

definition wc_rep :: "(bytes \<times> bool) codec" where
  "wc_rep = \<lparr>enc = (\<lambda>(b, k). Some ((if k then CHR ''1'' else CHR ''0'') # b)), dec = (\<lambda>b. Some (tl b, hd b = CHR ''1''))\<rparr>"

definition wc_bytes :: "bytes codec" where "wc_bytes = \<lparr>enc = Some, dec = Some\<rparr>"

definition wc_point :: "(string \<times> string \<times> string) codec" where
  "wc_point = \<lparr>enc = (\<lambda>(a, b, c). Some (put_string a (put_string b c))), dec = (\<lambda>x. let (a, r) = get_string x; (b, c) = get_string r in Some (a, b, c))\<rparr>"

definition put_int :: "int \<Rightarrow> string" where "put_int i = (if i < 0 then CHR ''-'' else CHR ''+'') # replicate (nat \<bar>i\<bar>) CHR ''1''"

definition get_int :: "string \<Rightarrow> int" where "get_int s = (if hd s = CHR ''-'' then - int (length (tl s)) else int (length (tl s)))"

definition wc_interval :: "(int \<times> string \<times> string) codec" where
  "wc_interval = \<lparr>enc = (\<lambda>(i, b, c). Some (put_string (put_int i) (put_string b c))),
     dec = (\<lambda>x. let (a, r) = get_string x; (b, c) = get_string r in Some (get_int a, b, c))\<rparr>"

definition wit_codecs :: codecs where
  "wit_codecs = \<lparr>c_rpc = wc_rpc, c_fwd = wc_fwd, c_rep = wc_rep, c_point = wc_point, c_interval = wc_interval,
     c_empty = \<lparr>enc = (\<lambda>_. Some []), dec = (\<lambda>_. Some ())\<rparr>, c_time = \<lparr>enc = (\<lambda>i. Some (put_int i)), dec = (\<lambda>b. Some (get_int b))\<rparr>\<rparr>"

lemma wit_codecs_ok: "codec_ok wc_rpc" "codec_ok wc_fwd" "codec_ok wc_rep" "codec_ok wc_bytes" "codec_ok wc_point" "codec_ok wc_interval"
  "codec_ok (c_empty wit_codecs)" "codec_ok (c_time wit_codecs)"
  by (simp_all add: codec_ok_def wit_codecs_def wc_point_def wc_interval_def put_int_def get_int_def wc_rpc_def wc_fwd_def wc_rep_def wc_bytes_def get_put_string)

text \<open>A daemon that counts calls and echoes.\<close>

definition wit_daemon :: "nat server" where
  "wit_daemon = AddService (MakeService ''Echo''
     [rpc_method ''Say'' (method_handler wc_bytes wc_bytes (\<lambda>q a. Inr (a + 1, q)))]) (MakeServer 0)"

lemma wit_daemon_serves: "serves ''Echo.Say'' wc_bytes wc_bytes (\<lambda>q a. Inr (a + 1, q)) wit_daemon"
  by (simp add: serves_def wit_daemon_def rpc_method_def MakeService_def AddService_def MakeServer_def suitable_def)

theorem remote_call_refines_local_witness:
  "\<exists>st. ClientEnd_Call (DaemonSrv_forward wit_codecs Through) wc_bytes wc_bytes ''e'' ''Echo.Say'' ''hi''
      (5, newTesterRPCSrv wit_codecs 0 5 7 9 \<lparr>lab_net = ex_net, lab_net' = ex_net, lab_srv = lab_start wit_codecs Through wit_daemon, lab_vis = wit_vis\<rparr>) =
    Inr (st, Some ''hi'') \<and> remote st = 1"
proof -
  have e: "map_of (ends ex_net) ''e'' \<noteq> None" and live: "reliable ex_net \<and> get_enabled ex_net ''e'' \<and> get_enabled ex_net ''e'' \<and>
      (\<exists>s x. get_connection ex_net ''e'' = Some s \<and> get_server ex_net s = Some x \<and> get_server ex_net s = Some x)"
    by (simp_all add: ex_net_defs get_enabled_def get_connection_def get_server_def)
  have cs: "codec_ok (c_rpc wit_codecs)" "codec_ok (c_fwd wit_codecs)" "codec_ok (c_rep wit_codecs)"
    using wit_codecs_ok by (simp_all add: wit_codecs_def)
  have r: "rcvr wit_daemon = 0" by (simp add: wit_daemon_def AddService_def MakeServer_def)
  show ?thesis
    using remote_call_refines_local [OF cs wit_codecs_ok(4) wit_codecs_ok(4) wit_daemon_serves e refl, of Through "''hi''" 5 0 5 7 9 ex_net Through wit_vis]
      live by (elim exE conjE) (simp only: r simp_thms fst_conv snd_conv add_0, blast)
qed

end
