(* ===== verification/DaemonCtl.thy ===== *)
theory DaemonCtl
  imports RpcPath
begin

text \<open>
  The other calls between the tester and its daemons, over sockets: the connections and their first message (\<open>demux\<close>, \<open>sockrpc\<close>), the
  control calls of the tester to a daemon (\<open>daemonclnt.go\<close>, \<open>daemonsrv.go\<close>: state at a shutdown, sizes), and the annotations that a
  daemon posts to the tester (\<open>annotator.go\<close>).

  Shown: a shutdown brings the daemon's state to the tester or ends the test, and afterwards the daemon's own calls fail
  without reaching the tester, although requests over a connection that was accepted before are still served; an annotation is
  posted once or lost.
\<close>

section \<open>Connections\<close>

text \<open>The first message of a connection names the client; \<open>None\<close> is a \<open>dial\<close> that has failed a hundred times.\<close>

definition NewDemuxClnt :: "(msg \<Rightarrow> bytes) \<Rightarrow> string codec \<Rightarrow> string \<Rightarrow> bytes \<Rightarrow> bytes result" where
  "NewDemuxClnt marshal ci clnt stream = res_bind (Marshall ci clnt) (\<lambda>b. Inr (WriteCall marshal 0 b True stream))"

definition getDmx :: "(msg \<Rightarrow> bytes) \<Rightarrow> string codec \<Rightarrow> (nat \<Rightarrow> bool) \<Rightarrow> string \<Rightarrow> bytes result" where
  "getDmx marshal ci up clntEnd =
     (case dial up of
        None \<Rightarrow> Inl (Fatal (clntEnd @ '': Dial''))
      | Some _ \<Rightarrow> NewDemuxClnt marshal ci clntEnd [])"

definition NewDemuxSrv :: "(bytes \<Rightarrow> msg result) \<Rightarrow> string codec \<Rightarrow> bytes \<Rightarrow> (string \<times> bytes) result" where
  "NewDemuxSrv unmarshal ci stream =
     res_bind (ReadCall unmarshal stream) (\<lambda>m.
       case m of
         Inl e \<Rightarrow> Inl (Fatal ''NewDemuxSrv: ReadCall err'')
       | Inr (msg, rest) \<Rightarrow> res_bind (Unmarshall ci (Data msg)) (\<lambda>clnt. Inr (clnt, rest)))"

text \<open>
  An \<open>RPCSrv\<close>: whether its socket listens, the clients whose connections were accepted, and the server behind it. \<open>Close\<close>
  closes the listening socket only; the goroutines of accepted connections go on.
\<close>

record 'a rpc_srv =
  rs_listening :: bool
  rs_conns :: "string list"
  rs_srv :: "'a server"

definition NewRPCSrv :: "'a \<Rightarrow> 'a rpc_srv" where
  "NewRPCSrv a = \<lparr>rs_listening = True, rs_conns = [], rs_srv = MakeServer a\<rparr>"

definition rs_AddService :: "'a service \<Rightarrow> 'a rpc_srv \<Rightarrow> 'a rpc_srv" where
  "rs_AddService svc rs = rs\<lparr>rs_srv := AddService svc (rs_srv rs)\<rparr>"

definition rs_accept :: "string \<Rightarrow> 'a rpc_srv \<Rightarrow> 'a rpc_srv" where
  "rs_accept clnt rs = (if rs_listening rs then rs\<lparr>rs_conns := rs_conns rs @ [clnt]\<rparr> else rs)"

definition rs_Close :: "'a rpc_srv \<Rightarrow> 'a rpc_srv" where "rs_Close rs = rs\<lparr>rs_listening := False\<rparr>"

text \<open>A call over the connection of a client.\<close>

definition conn_RPC :: "rpc_args codec \<Rightarrow> hop \<Rightarrow> string \<Rightarrow> string \<Rightarrow> bytes \<Rightarrow> 'a rpc_srv \<Rightarrow> ('a rpc_srv \<times> bytes \<times> bool) result" where
  "conn_RPC cr h clnt method b rs =
     (if clnt \<notin> set (rs_conns rs) then Inr (rs, [], False)
      else res_bind (sock_RPC cr h (RPCSrv_ServeRequest (Unmarshall cr) clnt) method b (rs_srv rs))
             (\<lambda>(srv, rep, k). Inr (rs\<lparr>rs_srv := srv\<rparr>, rep, k)))"

section \<open>The control service of a daemon\<close>

text \<open>
  The process of a daemon: its persister, whether \<open>ds.rpcc\<close>, its connection to the tester, is closed, and the \<open>RPCSrv\<close> of its services.
\<close>

record 'a daemon_proc =
  dp_persister :: persister
  dp_rpcc_closed :: bool
  dp_rpcs :: "'a rpc_srv"

definition dp_CheckpointPersister :: "'a daemon_proc \<Rightarrow> 'a daemon_proc \<times> init_args" where
  "dp_CheckpointPersister d =
     (d\<lparr>dp_rpcc_closed := True, dp_rpcs := rs_Close (dp_rpcs d)\<rparr>, CheckpointPersister (dp_persister d))"

record ctl_codecs =
  k_empty :: "unit codec"
  k_state :: "init_args codec"
  k_sizes :: "(int \<times> int) codec"
  k_mem :: "64 word codec"

text \<open>
  The methods that answer at once; \<open>Init\<close> and \<open>InitWait\<close>, which wait on a channel, are in \<open>DaemonStart\<close>. \<open>alloc\<close> is \<open>HeapAlloc\<close> after the
  collections of \<open>MemSize\<close>.
\<close>

definition DaemonSrv_service :: "ctl_codecs \<Rightarrow> 64 word \<Rightarrow> 'a daemon_proc service" where
  "DaemonSrv_service ks alloc =
     MakeService ''DaemonSrv''
       [rpc_method ''CheckpointPersister'' (method_handler (k_empty ks) (k_state ks) (\<lambda>_ d. Inr (dp_CheckpointPersister d))),
        rpc_method ''MemSize'' (method_handler (k_empty ks) (k_mem ks) (\<lambda>_ d. Inr (d, alloc))),
        rpc_method ''StateSize'' (method_handler (k_empty ks) (k_sizes ks) (\<lambda>_ d. Inr (d, StateSize (dp_persister d))))]"

definition ctl_srv :: "ctl_codecs \<Rightarrow> 64 word \<Rightarrow> 'a daemon_proc \<Rightarrow> 'a daemon_proc server" where
  "ctl_srv ks alloc d = AddService (DaemonSrv_service ks alloc) (MakeServer d)"

text \<open>The tester's side; \<open>ctl_call\<close> is \<open>dc.rpccClnt.RPCMarshall\<close> with an empty argument.\<close>

definition ctl_call ::
  "rpc_args codec \<Rightarrow> ctl_codecs \<Rightarrow> 'p codec \<Rightarrow> hop \<Rightarrow> string \<Rightarrow> 'a daemon_proc server \<Rightarrow> ('a daemon_proc server \<times> 'p option) result" where
  "ctl_call cr ks cp h method = RPCMarshall cr (k_empty ks) cp h (RPCSrv_ServeRequest (Unmarshall cr) ''tester'') (''DaemonSrv.'' @ method) ()"

definition dc_checkpointPersister ::
  "rpc_args codec \<Rightarrow> ctl_codecs \<Rightarrow> hop \<Rightarrow> 'a daemon_proc server \<Rightarrow> ('a daemon_proc server \<times> persister) result" where
  "dc_checkpointPersister cr ks h c =
     res_bind (ctl_call cr ks (k_state ks) h ''CheckpointPersister'' c) (\<lambda>(c', back).
     res_bind (checkpointPersister back) (\<lambda>p. Inr (c', p)))"

definition dc_stateSize :: "rpc_args codec \<Rightarrow> ctl_codecs \<Rightarrow> hop \<Rightarrow> 'a daemon_proc server \<Rightarrow> ('a daemon_proc server \<times> int \<times> int) result" where
  "dc_stateSize cr ks h c =
     res_bind (ctl_call cr ks (k_sizes ks) h ''StateSize'' c) (\<lambda>(c', back).
       case back of None \<Rightarrow> Inl (Fatal ''StateSize: no return'') | Some s \<Rightarrow> Inr (c', s))"

definition dc_memSize :: "rpc_args codec \<Rightarrow> ctl_codecs \<Rightarrow> hop \<Rightarrow> 'a daemon_proc server \<Rightarrow> ('a daemon_proc server \<times> 64 word) result" where
  "dc_memSize cr ks h c =
     res_bind (ctl_call cr ks (k_mem ks) h ''MemSize'' c) (\<lambda>(c', back).
       case back of None \<Rightarrow> Inl (Fatal ''MemSize: no return'') | Some n \<Rightarrow> Inr (c', n))"

text \<open>
  \<open>ServerGrp.MemSize\<close>: the largest heap of the group, \<open>sizes\<close> being the answers of the daemons, one of which is \<open>None\<close> for a server that is down.
\<close>

fun sg_MemSize :: "64 word option list \<Rightarrow> 64 word \<Rightarrow> 64 word result" where
  "sg_MemSize [] memsize = Inr memsize"
| "sg_MemSize (None # ns) memsize = Inl (Panic ''nil pointer dereference'')"
| "sg_MemSize (Some n # ns) memsize = sg_MemSize ns (if n > memsize then n else memsize)"

section \<open>Calls of the daemon after a shutdown has begun\<close>

text \<open>\<open>DaemonSrv.forward\<close> of a process: a closed connection refuses the call.\<close>

definition dp_forward ::
  "codecs \<Rightarrow> hop \<Rightarrow> 'b daemon_proc \<Rightarrow> string \<Rightarrow> string \<Rightarrow> bytes \<Rightarrow> 64 word \<times> 'a lab server \<Rightarrow> ((64 word \<times> 'a lab server) \<times> bytes \<times> bool) result" where
  "dp_forward cs h d e method b = (\<lambda>(n, t).
     if dp_rpcc_closed d
     then let (n', a) = ds_forward e method b n in res_bind (Marshall (c_fwd cs) a) (\<lambda>_. Inr ((n', t), [], False))
     else DaemonSrv_forward cs h e method b (n, t))"

section \<open>Annotations of a daemon\<close>

text \<open>The functions of \<open>annotator.go\<close>: a failed call is ignored, and a time that could not be asked for is zero.\<close>

definition dp_Annotate :: "codecs \<Rightarrow> hop \<Rightarrow> string \<Rightarrow> string \<Rightarrow> string \<Rightarrow> string \<Rightarrow> 'a lab server \<Rightarrow> 'a lab server result" where
  "dp_Annotate cs h e tag desp details t =
     res_bind (RPCMarshall (c_rpc cs) (c_point cs) (c_empty cs) h (RPCSrv_ServeRequest (Unmarshall (c_rpc cs)) e)
       ''TesterRPC.PostAnnotatorPoint'' (tag, desp, details) t) (\<lambda>(t', _). Inr t')"

definition dp_GetAnnotatorTimestamp :: "codecs \<Rightarrow> hop \<Rightarrow> string \<Rightarrow> 'a lab server \<Rightarrow> ('a lab server \<times> int) result" where
  "dp_GetAnnotatorTimestamp cs h e t =
     res_bind (RPCMarshall (c_rpc cs) (c_empty cs) (c_time cs) h (RPCSrv_ServeRequest (Unmarshall (c_rpc cs)) e)
       ''TesterRPC.GetAnnotatorTimestamp'' () t) (\<lambda>(t', r). Inr (t', GetAnnotatorTimestamp (r \<noteq> None) (case r of None \<Rightarrow> 0 | Some x \<Rightarrow> x)))"

definition dp_PostAnnotatorInfoInterval :: "codecs \<Rightarrow> hop \<Rightarrow> string \<Rightarrow> int \<Rightarrow> string \<Rightarrow> string \<Rightarrow> 'a lab server \<Rightarrow> 'a lab server result" where
  "dp_PostAnnotatorInfoInterval cs h e start desp details t =
     res_bind (RPCMarshall (c_rpc cs) (c_interval cs) (c_empty cs) h (RPCSrv_ServeRequest (Unmarshall (c_rpc cs)) e)
       ''TesterRPC.PostAnnotatorInfoInterval'' (start, desp, details) t) (\<lambda>(t', _). Inr t')"

text \<open>\<open>Config.AddService\<close>: a test may add services to the tester's server, when there is one.\<close>

definition cfg_AddService :: "'a lab service \<Rightarrow> 'a lab server option \<Rightarrow> 'a lab server option" where
  "cfg_AddService svc trpc = map_option (AddService svc) trpc"

section \<open>What the calls do\<close>

text \<open>A connection begins with the name of its client.\<close>

lemma connection_names_client:
  assumes "codec_ok ci" "\<And>m. unmarshal (marshal m) = Inr m" "\<And>m. length (marshal m) < 2 ^ 32" "dial up = Some i"
  shows "\<exists>stream. getDmx marshal ci up clnt = Inr stream \<and> NewDemuxSrv unmarshal ci stream = Inr (clnt, [])"
proof -
  obtain b where b: "Marshall ci clnt = Inr b" "Unmarshall ci b = Inr clnt" using Marshall_ok [OF assms(1)] by blast
  have "ReadCall unmarshal (WriteCall marshal 0 b True [] @ []) = Inr (Inr (\<lparr>Tag = 0, Data = b, Ok = True\<rparr>, []))"
    by (rule ReadCall_WriteCall) (rule assms(2), rule assms(3))
  then show ?thesis using b assms(4) by (simp add: getDmx_def NewDemuxClnt_def NewDemuxSrv_def)
qed

text \<open>The control service of a daemon and the annotator's methods of the tester meet the interface of \<open>RpcPath\<close>.\<close>

lemmas service_defs = serves_def rpc_method_def MakeService_def AddService_def MakeServer_def suitable_def

interpretation checkpoint: served_method "''DaemonSrv.CheckpointPersister''" "k_empty ks" "k_state ks" "\<lambda>_ d. Inr (dp_CheckpointPersister d)" "ctl_srv ks alloc d" for ks alloc d
  by unfold_locales (simp add: ctl_srv_def DaemonSrv_service_def service_defs)

interpretation statesize: served_method "''DaemonSrv.StateSize''" "k_empty ks" "k_sizes ks" "\<lambda>_ d. Inr (d, StateSize (dp_persister d))" "ctl_srv ks alloc d" for ks alloc d
  by unfold_locales (simp add: ctl_srv_def DaemonSrv_service_def service_defs)

interpretation memsize: served_method "''DaemonSrv.MemSize''" "k_empty ks" "k_mem ks" "\<lambda>_ d. Inr (d, alloc)" "ctl_srv ks alloc d" for ks alloc d
  by unfold_locales (simp add: ctl_srv_def DaemonSrv_service_def service_defs)

interpretation post: served_method "''TesterRPC.PostAnnotatorPoint''" "c_point cs" "c_empty cs"
  "\<lambda>a l. Inr (l\<lparr>lab_vis := PostAnnotatorPoint now a (lab_vis l)\<rparr>, ())" "newTesterRPCSrv cs now r r1 r2 l" for cs now r r1 r2 l
  by unfold_locales (simp add: newTesterRPCSrv_def TesterRPC_service_def service_defs)

interpretation post_interval: served_method "''TesterRPC.PostAnnotatorInfoInterval''" "c_interval cs" "c_empty cs"
  "\<lambda>a l. Inr (l\<lparr>lab_vis := PostAnnotatorInfoInterval now a (lab_vis l)\<rparr>, ())" "newTesterRPCSrv cs now r r1 r2 l" for cs now r r1 r2 l
  by unfold_locales (simp add: newTesterRPCSrv_def TesterRPC_service_def service_defs)

interpretation timestamp: served_method "''TesterRPC.GetAnnotatorTimestamp''" "c_empty cs" "c_time cs"
  "\<lambda>_ l. Inr (l, GetAnnotatorTimestamp_reply now)" "newTesterRPCSrv cs now r r1 r2 l" for cs now r r1 r2 l
  by unfold_locales (simp add: newTesterRPCSrv_def TesterRPC_service_def service_defs)

lemma rcvr_ctl_srv [simp]: "rcvr (ctl_srv ks alloc d) = d"
  by (simp add: ctl_srv_def AddService_def MakeServer_def)

lemma rcvr_newTesterRPCSrv [simp]: "rcvr (newTesterRPCSrv cs now r r1 r2 l) = l"
  by (simp add: newTesterRPCSrv_def AddService_def MakeServer_def)

lemma checkpoint_call:
  assumes "codec_ok cr" "codec_ok (k_empty ks)" "codec_ok (k_state ks)"
  shows "dc_checkpointPersister cr ks h (ctl_srv ks alloc d) =
    (if h = Through
     then Inr ((ctl_srv ks alloc d)\<lparr>srv_count := srv_count (ctl_srv ks alloc d) + 1, rcvr := fst (dp_CheckpointPersister d)\<rparr>, dp_persister d)
     else Inl (Fatal ''checkpointPersister: no return''))"
proof -
  have "ctl_call cr ks (k_state ks) h ''CheckpointPersister'' (ctl_srv ks alloc d) =
      Inr (if h = LoseRequest then ctl_srv ks alloc d
           else (ctl_srv ks alloc d)\<lparr>srv_count := srv_count (ctl_srv ks alloc d) + 1, rcvr := fst (dp_CheckpointPersister d)\<rparr>,
        if h = Through then Some (CheckpointPersister (dp_persister d)) else None)"
    unfolding ctl_call_def
    using checkpoint.call [OF assms, where q = "()" and alloc = alloc and d = d and h = h and clnt = "''tester''"]
    by (simp add: dp_CheckpointPersister_def)
  then show ?thesis
    by (simp add: dc_checkpointPersister_def checkpointPersister_def CheckpointPersister_def Checkpoint_def ReadRaftState_def ReadSnapshot_def Save_def MakePersister_def Let_def)
qed

lemma size_calls:
  assumes "codec_ok cr" "codec_ok (k_empty ks)" "codec_ok (k_sizes ks)" "codec_ok (k_mem ks)"
  shows "dc_stateSize cr ks Through (ctl_srv ks alloc d) =
      Inr ((ctl_srv ks alloc d)\<lparr>srv_count := srv_count (ctl_srv ks alloc d) + 1\<rparr>, int (length (raftstate (dp_persister d))), int (length (snapshot (dp_persister d))))"
    and "dc_memSize cr ks Through (ctl_srv ks alloc d) = Inr ((ctl_srv ks alloc d)\<lparr>srv_count := srv_count (ctl_srv ks alloc d) + 1\<rparr>, alloc)"
proof -
  have same: "c\<lparr>srv_count := n, rcvr := rcvr c\<rparr> = c\<lparr>srv_count := n\<rparr>" for c :: "'a daemon_proc server" and n by (cases c) simp
  show "dc_stateSize cr ks Through (ctl_srv ks alloc d) =
      Inr ((ctl_srv ks alloc d)\<lparr>srv_count := srv_count (ctl_srv ks alloc d) + 1\<rparr>, int (length (raftstate (dp_persister d))), int (length (snapshot (dp_persister d))))"
    using statesize.call [OF assms(1-3), where q = "()" and alloc = alloc and d = d and h = Through and clnt = "''tester''"] same [of "ctl_srv ks alloc d"]
    by (simp add: dc_stateSize_def ctl_call_def StateSize_def RaftStateSize_def SnapshotSize_def)
  show "dc_memSize cr ks Through (ctl_srv ks alloc d) = Inr ((ctl_srv ks alloc d)\<lparr>srv_count := srv_count (ctl_srv ks alloc d) + 1\<rparr>, alloc)"
    using memsize.call [OF assms(1,2,4), where q = "()" and alloc = alloc and d = d and h = Through and clnt = "''tester''"] same [of "ctl_srv ks alloc d"]
    by (simp add: dc_memSize_def ctl_call_def)
qed

lemma sg_MemSize_max: "sg_MemSize (map Some ns) m = Inr (foldl max m ns)"
  by (induction ns arbitrary: m) (auto simp: max_def not_less)

section \<open>Properties of the control calls\<close>

text \<open>
  C36: a shutdown keeps the state and silences the process. Whatever becomes of the control call, either the test ends, or the tester
  has exactly the state the process had saved; from then on every \<open>ClientEnd.Call\<close> of the process fails, and leaves the tester and with it
  the network and the other servers as they are.
\<close>
theorem shutdown_saves_state:
  assumes "codec_ok cr" "codec_ok (k_empty ks)" "codec_ok (k_state ks)" "codec_ok cq" "codec_ok (c_fwd cs)"
  shows "case dc_checkpointPersister cr ks h (ctl_srv ks alloc d) of
      Inl e \<Rightarrow> h \<noteq> Through \<and> e = Fatal ''checkpointPersister: no return''
    | Inr (c, p) \<Rightarrow> h = Through \<and> p = dp_persister d \<and> dp_persister (rcvr c) = dp_persister d \<and>
        ClientEnd_Call (dp_forward cs hT (rcvr c)) cq cp e meth q (n, t) = Inr ((n + 1, t), None)"
proof -
  obtain b where b: "Marshall cq q = Inr b" using Marshall_ok [OF assms(4)] by blast
  obtain fb where "Marshall (c_fwd cs) (snd (ds_forward e meth b n)) = Inr fb" using Marshall_ok [OF assms(5)] by blast
  then show ?thesis
    using b by (auto simp: checkpoint_call [OF assms(1-3)] dp_CheckpointPersister_def ClientEnd_Call_def dp_forward_def ds_forward_def)
qed

text \<open>
  A process that is being shut down still answers. \<open>CheckpointPersister\<close> closes the listening socket of the daemon's services, but a request
  of a client whose connection was accepted before is served as ever; only new connections are refused.
\<close>
theorem closed_daemon_still_serves:
  "conn_RPC cr h clnt method b (dp_rpcs (fst (dp_CheckpointPersister d))) =
     map_sum id (\<lambda>(rs, rep, k). (rs_Close rs, rep, k)) (conn_RPC cr h clnt method b (dp_rpcs d)) \<and>
   rs_accept other (dp_rpcs (fst (dp_CheckpointPersister d))) = dp_rpcs (fst (dp_CheckpointPersister d))"
  by (cases "sock_RPC cr h (RPCSrv_ServeRequest (Unmarshall cr) clnt) method b (rs_srv (dp_rpcs d))")
    (auto simp: dp_CheckpointPersister_def conn_RPC_def rs_accept_def rs_Close_def)

text \<open>
  What a daemon annotates is posted once or lost: its functions return whatever becomes of the call, and the tester's annotations are
  as before or those with the posted one; the time it is told is the tester's, or zero.
\<close>
theorem daemon_annotates:
  assumes "codec_ok (c_rpc cs)" "codec_ok (c_point cs)" "codec_ok (c_interval cs)" "codec_ok (c_empty cs)" "codec_ok (c_time cs)"
    and "t = newTesterRPCSrv cs now r r1 r2 l"
  shows "\<exists>t1 t2 t3 x. dp_Annotate cs h e tag desp details t = Inr t1 \<and>
      rcvr t1 = (if h = LoseRequest then l else l\<lparr>lab_vis := AnnotatePoint now tag desp details (lab_vis l)\<rparr>) \<and>
      dp_PostAnnotatorInfoInterval cs h e start desp details t = Inr t2 \<and>
      rcvr t2 = (if h = LoseRequest then l else l\<lparr>lab_vis := AnnotateInfoInterval now start desp details (lab_vis l)\<rparr>) \<and>
      dp_GetAnnotatorTimestamp cs h e t = Inr (t3, x) \<and> rcvr t3 = l \<and> x = (if h = Through then now else 0)"
proof -
  have "\<exists>t1. dp_Annotate cs h e tag desp details t = Inr t1 \<and>
      rcvr t1 = (if h = LoseRequest then l else l\<lparr>lab_vis := AnnotatePoint now tag desp details (lab_vis l)\<rparr>)"
    using post.call [OF assms(1,2,4) refl, where q = "(tag, desp, details)" and h = h and clnt = e and now = now and r = r and ?r1.0 = r1 and ?r2.0 = r2 and l = l] assms(6)
    by (auto simp: dp_Annotate_def PostAnnotatorPoint_def)
  moreover have "\<exists>t2. dp_PostAnnotatorInfoInterval cs h e start desp details t = Inr t2 \<and>
      rcvr t2 = (if h = LoseRequest then l else l\<lparr>lab_vis := AnnotateInfoInterval now start desp details (lab_vis l)\<rparr>)"
    using post_interval.call [OF assms(1,3,4) refl, where q = "(start, desp, details)" and h = h and clnt = e and now = now and r = r and ?r1.0 = r1 and ?r2.0 = r2 and l = l] assms(6)
    by (auto simp: dp_PostAnnotatorInfoInterval_def PostAnnotatorInfoInterval_def)
  moreover have "\<exists>t3 x. dp_GetAnnotatorTimestamp cs h e t = Inr (t3, x) \<and> rcvr t3 = l \<and> x = (if h = Through then now else 0)"
    using timestamp.call [OF assms(1,4,5) refl, where q = "()" and h = h and clnt = e and now = now and r = r and ?r1.0 = r1 and ?r2.0 = r2 and l = l] assms(6)
    by (auto simp: dp_GetAnnotatorTimestamp_def GetAnnotatorTimestamp_def GetAnnotatorTimestamp_reply_def)
  ultimately show ?thesis by blast
qed

section \<open>Witnesses of the control calls\<close>

definition wit_ks :: ctl_codecs where
  "wit_ks = \<lparr>k_empty = c_empty wit_codecs,
     k_state = \<lparr>enc = (\<lambda>a. Some (put_string (ia_Raftstate a) (ia_Snapshot a))), dec = (\<lambda>b. let (r, s) = get_string b in Some \<lparr>ia_Raftstate = r, ia_Snapshot = s\<rparr>)\<rparr>,
     k_sizes = \<lparr>enc = (\<lambda>(a, b). Some (put_string (put_int a) (put_int b))), dec = (\<lambda>x. let (a, b) = get_string x in Some (get_int a, get_int b))\<rparr>,
     k_mem = \<lparr>enc = (\<lambda>w. Some (replicate (unat w) CHR ''1'')), dec = (\<lambda>b. Some (of_nat (length b)))\<rparr>\<rparr>"

lemma wit_ks_ok: "codec_ok (k_empty wit_ks)" "codec_ok (k_state wit_ks)"
  by (simp_all add: wit_ks_def wit_codecs_ok, simp add: codec_ok_def get_put_string)

definition wit_proc :: "nat daemon_proc" where
  "wit_proc = \<lparr>dp_persister = \<lparr>raftstate = ''log'', snapshot = ''sn''\<rparr>, dp_rpcc_closed = False, dp_rpcs = rs_accept ''tester'' (NewRPCSrv 0)\<rparr>"

definition wit_lab :: "nat lab" where
  "wit_lab = \<lparr>lab_net = ex_net, lab_net' = ex_net, lab_srv = lab_start wit_codecs Through wit_daemon, lab_vis = wit_vis\<rparr>"

definition wit_tester :: "nat lab server" where "wit_tester = newTesterRPCSrv wit_codecs 17 5 7 9 wit_lab"

theorem shutdown_saves_state_witness:
  "\<exists>c. dc_checkpointPersister wc_rpc wit_ks Through (ctl_srv wit_ks 100 wit_proc) = Inr (c, \<lparr>raftstate = ''log'', snapshot = ''sn''\<rparr>) \<and>
     ClientEnd_Call (dp_forward wit_codecs Through (rcvr c)) wc_bytes wc_bytes ''e'' ''Echo.Say'' ''hi'' (5, wit_tester) = Inr ((5 + 1, wit_tester), None)"
proof -
  have fwd: "codec_ok (c_fwd wit_codecs)" using wit_codecs_ok by (simp add: wit_codecs_def)
  show ?thesis
    using shutdown_saves_state [OF wit_codecs_ok(1) wit_ks_ok wit_codecs_ok(4) fwd,
        where h = Through and alloc = 100 and d = wit_proc and hT = Through and cp = wc_bytes and e = "''e''" and meth = "''Echo.Say''" and
          q = "''hi''" and n = 5 and t = wit_tester]
    by (auto simp: wit_proc_def split: sum.splits)
qed

theorem daemon_annotates_witness:
  "\<exists>t1. dp_Annotate wit_codecs LoseReply ''e'' ''leader'' ''elected'' [] wit_tester = Inr t1 \<and>
     lab_vis (rcvr t1) = AnnotatePoint 17 ''leader'' ''elected'' [] wit_vis"
proof -
  have "codec_ok (c_rpc wit_codecs)" "codec_ok (c_point wit_codecs)" "codec_ok (c_interval wit_codecs)"
    using wit_codecs_ok by (simp_all add: wit_codecs_def)
  from daemon_annotates [OF this wit_codecs_ok(7,8) refl, where h = LoseReply and e = "''e''" and tag = "''leader''" and desp = "''elected''" and
        details = "[]" and now = 17 and r = 5 and ?r1.0 = 7 and ?r2.0 = 9 and l = wit_lab and start = 3]
  obtain t1 where "dp_Annotate wit_codecs LoseReply ''e'' ''leader'' ''elected'' [] wit_tester = Inr t1"
    "rcvr t1 = wit_lab\<lparr>lab_vis := AnnotatePoint 17 ''leader'' ''elected'' [] (lab_vis wit_lab)\<rparr>"
    unfolding wit_tester_def by auto
  then show ?thesis by (auto simp: wit_lab_def)
qed

end
