(* ===== verification/Commands.thy ===== *)
theory Commands
  imports Daemon Demux
begin

text \<open>
  The processes of the labs, from their command lines: the mains of the server daemons (\<open>main/kvsrv1d.go\<close>, \<open>raft1d.go\<close>,
  \<open>rsm1d.go\<close>, \<open>kvraft1d.go\<close>, \<open>shardgrp1d.go\<close>) with the flags of \<open>tester1/daemonclnt.go\<close>, the tester's start and end of such a
  process (\<open>path\<close>, \<open>runDaemon\<close>, \<open>kill\<close>), and the commands of the older labs (\<open>diskvd\<close>, \<open>lockc\<close>, \<open>lockd\<close>, \<open>pbc\<close>, \<open>pbd\<close>, \<open>viewd\<close>), whose
  packages are not in the repository and are parameters.

  Shown: a daemon that the tester starts has the flags, the group, the number and the ends it was given; \<open>diskvd\<close>
  reads its options in any order, and takes a number it cannot read for zero.
\<close>

section \<open>strconv\<close>

datatype num_error = ErrSyntax | ErrRange

definition digit_of :: "char \<Rightarrow> nat option" where
  "digit_of c =
     (let n = of_char c
      in if 48 \<le> n \<and> n \<le> 57 then Some (n - 48)
         else if 65 \<le> n \<and> n \<le> 90 then Some (n - 55)
         else if 97 \<le> n \<and> n \<le> 122 then Some (n - 87)
         else None)"

text \<open>
  The loop of \<open>ParseUint\<close>: it stops at the first character that is no digit, and at the first digit that takes the value
  past 64 bits. \<open>und\<close> says that an underscore was passed.
\<close>

fun uint_loop :: "bool \<Rightarrow> nat \<Rightarrow> nat \<Rightarrow> bool \<Rightarrow> string \<Rightarrow> num_error + nat \<times> bool" where
  "uint_loop base0 b n und [] = Inr (n, und)"
| "uint_loop base0 b n und (c # s) =
     (if c = CHR ''_'' \<and> base0 then uint_loop base0 b n True s
      else case digit_of c of
             None \<Rightarrow> Inl ErrSyntax
           | Some d \<Rightarrow> if d \<ge> b then Inl ErrSyntax
                      else if n * b + d \<ge> 2 ^ 64 then Inl ErrRange
                      else uint_loop base0 b (n * b + d) und s)"

text \<open>
  \<open>underscoreOK\<close>: underscores only between digits; the prefix of a base counts as a digit. \<open>i\<close> is the kind of the last character:
  the beginning, a digit, an underscore, or another one.
\<close>

datatype us_kind = UsBegin | UsDigit | UsUnder | UsOther

fun underscore_loop :: "bool \<Rightarrow> us_kind \<Rightarrow> string \<Rightarrow> bool" where
  "underscore_loop hex i [] = (i \<noteq> UsUnder)"
| "underscore_loop hex i (c # s) =
     (if is_digit c \<or> hex \<and> (case digit_of c of None \<Rightarrow> False | Some d \<Rightarrow> d < 16) then underscore_loop hex UsDigit s
      else if c = CHR ''_'' then i = UsDigit \<and> underscore_loop hex UsUnder s
      else i \<noteq> UsUnder \<and> underscore_loop hex UsOther s)"

definition base_prefix :: "string \<Rightarrow> nat option" where
  "base_prefix s =
     (if length s \<ge> 2 \<and> s ! 0 = CHR ''0''
      then if s ! 1 \<in> {CHR ''b'', CHR ''B''} then Some 2
           else if s ! 1 \<in> {CHR ''o'', CHR ''O''} then Some 8
           else if s ! 1 \<in> {CHR ''x'', CHR ''X''} then Some 16 else None
      else None)"

definition underscoreOK :: "string \<Rightarrow> bool" where
  "underscoreOK s =
     (case base_prefix s of
        Some b \<Rightarrow> underscore_loop (b = 16) UsDigit (drop 2 s)
      | None \<Rightarrow> underscore_loop False UsBegin s)"

text \<open>\<open>ParseUint(s, 10, 64)\<close>, and with \<open>base0\<close> \<open>ParseUint(s, 0, 64)\<close>, where the numeral says its base.\<close>

definition ParseUint :: "bool \<Rightarrow> string \<Rightarrow> num_error + nat" where
  "ParseUint base0 s =
     (if s = [] then Inl ErrSyntax
      else let (b, ds) = (if base0 \<and> hd s = CHR ''0''
                          then case (if length s \<ge> 3 then base_prefix s else None) of
                                 Some b \<Rightarrow> (b, drop 2 s) | None \<Rightarrow> (8, tl s)
                          else (10, s))
           in case uint_loop base0 b 0 False ds of
                Inl e \<Rightarrow> Inl e
              | Inr (n, und) \<Rightarrow> if und \<and> \<not> underscoreOK s then Inl ErrSyntax else Inr n)"

text \<open>
  \<open>ParseInt\<close> to 64 bits: the value, which is zero for what is no numeral and the nearest number for what is out of range, and the error. \<open>Atoi\<close> is
  \<open>ParseInt\<close> to base 10.
\<close>

definition ParseInt :: "bool \<Rightarrow> string \<Rightarrow> int \<times> num_error option" where
  "ParseInt base0 s =
     (if s = [] then (0, Some ErrSyntax)
      else let neg = (hd s = CHR ''-'');
               ds = (if hd s = CHR ''+'' \<or> hd s = CHR ''-'' then tl s else s)
           in case ParseUint base0 ds of
                Inl ErrSyntax \<Rightarrow> (0, Some ErrSyntax)
              | Inl ErrRange \<Rightarrow> (if neg then - (2 ^ 63) else 2 ^ 63 - 1, Some ErrRange)
              | Inr n \<Rightarrow> if \<not> neg \<and> n \<ge> 2 ^ 63 then (2 ^ 63 - 1, Some ErrRange)
                         else if neg \<and> n > 2 ^ 63 then (- (2 ^ 63), Some ErrRange)
                         else (if neg then - int n else int n, None))"

definition ParseBool :: "string \<Rightarrow> bool \<times> num_error option" where
  "ParseBool s =
     (if s \<in> {''1'', ''t'', ''T'', ''true'', ''TRUE'', ''True''} then (True, None)
      else if s \<in> {''0'', ''f'', ''F'', ''false'', ''FALSE'', ''False''} then (False, None)
      else (False, Some ErrSyntax))"

section \<open>flag.Parse\<close>

text \<open>The two flags that \<open>init\<close> of \<open>daemonclnt.go\<close> defines, with their defaults.\<close>

record flags =
  UseRaftStateMachine :: bool
  MaxRaftState :: int

definition default_flags :: flags where
  "default_flags = \<lparr>UseRaftStateMachine = False, MaxRaftState = -1\<rparr>"

text \<open>The exit codes of the \<open>flag\<close> package: 0 after a request for help, 2 after an error.\<close>

definition split_value :: "string \<Rightarrow> string \<times> string option" where
  "split_value name =
     (case find_index (\<lambda>c. c = CHR ''='') (tl name) of
        None \<Rightarrow> (name, None)
      | Some i \<Rightarrow> (take (i + 1) name, Some (drop (i + 2) name)))"

fun flag_Parse :: "string list \<Rightarrow> flags \<Rightarrow> nat + flags" where
  "flag_Parse [] f = Inr f"
| "flag_Parse (s # as) f =
     (if length s < 2 \<or> hd s \<noteq> CHR ''-'' then Inr f
      else if s = ''--'' then Inr f
      else let name = (if s ! 1 = CHR ''-'' then drop 2 s else tl s)
           in if name = [] \<or> hd name = CHR ''-'' \<or> hd name = CHR ''='' then Inl 2
              else case split_value name of
                (key, val) \<Rightarrow>
                  if key = ''raft-state-machine''
                  then case val of
                         None \<Rightarrow> flag_Parse as (f\<lparr>UseRaftStateMachine := True\<rparr>)
                       | Some v \<Rightarrow> (case ParseBool v of
                                      (b, None) \<Rightarrow> flag_Parse as (f\<lparr>UseRaftStateMachine := b\<rparr>)
                                    | (b, Some _) \<Rightarrow> Inl 2)
                  else if key = ''max-raft-state''
                  then case val of
                         Some v \<Rightarrow> (case ParseInt True v of
                                      (i, None) \<Rightarrow> flag_Parse as (f\<lparr>MaxRaftState := i\<rparr>)
                                    | (i, Some _) \<Rightarrow> Inl 2)
                       | None \<Rightarrow> (case as of
                                    [] \<Rightarrow> Inl 2
                                  | v # as' \<Rightarrow> (case ParseInt True v of
                                                  (i, None) \<Rightarrow> flag_Parse as' (f\<lparr>MaxRaftState := i\<rparr>)
                                                | (i, Some _) \<Rightarrow> Inl 2))
                  else if key = ''help'' \<or> key = ''h'' then Inl 0 else Inl 2)"

section \<open>The mains of the daemons\<close>

text \<open>What has become of a process: it has ended with an exit code and an output, or it goes on.\<close>

datatype 'a process = Exited nat string | Crashed fault | Running 'a

text \<open>
  What the start functions of the five daemons make of the flags: only the key/value server of \<open>kvsrv1\<close> has none; the Raft
  test server takes snapshots when the bound is positive; the others hand the bound on.
\<close>

datatype starter = KvSrv | Rfsrv bool | RSMSrv int | KvRaft int | ShardGrp int

text \<open>
  \<open>InitDaemon\<close> up to where the daemon waits for its \<open>Init\<close> call (\<open>DaemonStart\<close>), and the mains. \<open>argv\<close> is \<open>os.Args\<close>.
\<close>

definition daemon_main :: "(flags \<Rightarrow> starter) \<Rightarrow> string list \<Rightarrow> (starter \<times> flags \<times> daemon_conf) process" where
  "daemon_main mks argv =
     (case flag_Parse (tl argv) default_flags of
        Inl code \<Rightarrow> Exited code []
      | Inr f \<Rightarrow> (case InitDaemon_args (tl argv) of
                   Inl e \<Rightarrow> Crashed e
                 | Inr None \<Rightarrow> Exited 1 (hd argv @ '': InitDaemon err '')
                 | Inr (Some conf) \<Rightarrow> Running (mks f, f, conf)))"

definition kvsrv1d_main :: "string list \<Rightarrow> (starter \<times> flags \<times> daemon_conf) process" where
  "kvsrv1d_main = daemon_main (\<lambda>f. KvSrv)"

definition raft1d_main :: "string list \<Rightarrow> (starter \<times> flags \<times> daemon_conf) process" where
  "raft1d_main = daemon_main (\<lambda>f. Rfsrv (MaxRaftState f > 0))"

definition rsm1d_main :: "string list \<Rightarrow> (starter \<times> flags \<times> daemon_conf) process" where
  "rsm1d_main = daemon_main (\<lambda>f. RSMSrv (MaxRaftState f))"

definition kvraft1d_main :: "string list \<Rightarrow> (starter \<times> flags \<times> daemon_conf) process" where
  "kvraft1d_main = daemon_main (\<lambda>f. KvRaft (MaxRaftState f))"

definition shardgrp1d_main :: "string list \<Rightarrow> (starter \<times> flags \<times> daemon_conf) process" where
  "shardgrp1d_main = daemon_main (\<lambda>f. ShardGrp (MaxRaftState f))"

section \<open>Starting and ending a daemon\<close>

text \<open>\<open>strings.LastIndex\<close> and \<open>filepath.Join\<close> on paths with slashes.\<close>

definition LastIndex :: "string \<Rightarrow> string \<Rightarrow> nat option" where
  "LastIndex s sub =
     (case filter (\<lambda>i. take (length sub) (drop i s) = sub) [0..<length s + 1] of
        [] \<Rightarrow> None
      | i # is \<Rightarrow> Some (last (i # is)))"

fun split_slash :: "string \<Rightarrow> string list" where
  "split_slash [] = [[]]"
| "split_slash (c # s) =
     (if c = CHR ''/'' then [] # split_slash s
      else case split_slash s of e # es \<Rightarrow> (c # e) # es | [] \<Rightarrow> [[c]])"

fun join_slash :: "string list \<Rightarrow> string" where
  "join_slash [] = []"
| "join_slash [e] = e"
| "join_slash (e # es) = e @ ''/'' @ join_slash es"

fun clean_elems :: "bool \<Rightarrow> string list \<Rightarrow> string list \<Rightarrow> string list" where
  "clean_elems rooted out [] = rev out"
| "clean_elems rooted out (e # es) =
     (if e = [] \<or> e = ''.'' then clean_elems rooted out es
      else if e = ''..''
      then (case out of
              o1 # out' \<Rightarrow> if o1 = ''..'' then clean_elems rooted (e # out) es else clean_elems rooted out' es
            | [] \<Rightarrow> if rooted then clean_elems rooted [] es else clean_elems rooted [e] es)
      else clean_elems rooted (e # out) es)"

definition Clean :: "string \<Rightarrow> string" where
  "Clean p =
     (if p = [] then ''.''
      else let rooted = (hd p = CHR ''/''); s = join_slash (clean_elems rooted [] (split_slash p))
           in if rooted then CHR ''/'' # s else if s = [] then ''.'' else s)"

definition filepath_Join :: "string list \<Rightarrow> string" where
  "filepath_Join es = (case dropWhile (\<lambda>e. e = []) es of [] \<Rightarrow> [] | es' \<Rightarrow> Clean (join_slash es'))"

definition daemon_path :: "string \<Rightarrow> string \<Rightarrow> string result" where
  "daemon_path prog cwd =
     (case LastIndex cwd ''src'' of
        None \<Rightarrow> Inl (Panic ''slice bounds out of range'')
      | Some i \<Rightarrow> Inr (filepath_Join [take i cwd, ''src/main'', prog]))"

definition sockctl :: "string \<Rightarrow> string" where "sockctl sock = sock @ ''-ctl''"

record daemon_clnt =
  dcl_srv :: int
  dcl_server :: string
  dcl_endName :: string
  dcl_cmd :: "string list"
  dcl_clnt :: clnt
  dcl_ctl :: string

text \<open>
  \<open>runDaemon\<close>: \<open>cwd\<close> is what \<open>os.Getwd\<close> returns, \<open>started\<close> whether the process could be started, and \<open>up\<close> when its control socket accepts.
  \<open>None\<close> is an error that is returned.
\<close>

definition runDaemon ::
  "string option \<Rightarrow> bool \<Rightarrow> (nat \<Rightarrow> bool) \<Rightarrow> string \<Rightarrow> string list \<Rightarrow> bool \<Rightarrow> string \<Rightarrow> int \<Rightarrow> int \<Rightarrow> string list \<Rightarrow> daemon_clnt option result" where
  "runDaemon cwd started up prog pargs useRSM endName gid srv names =
     (case cwd of
        None \<Rightarrow> Inr None
      | Some d \<Rightarrow>
          res_bind (daemon_path prog d) (\<lambda>exe.
            if \<not> started then Inr None
            else res_bind (go_index names srv) (\<lambda>e.
              case dial up of
                None \<Rightarrow> Inl (Fatal ''tester: Dial'')
              | Some _ \<Rightarrow> Inr (Some \<lparr>dcl_srv = srv, dcl_server = ServerName gid srv, dcl_endName = e,
                  dcl_cmd = exe # daemon_args pargs useRSM endName gid srv names,
                  dcl_clnt = makeClntTo None, dcl_ctl = sockctl e\<rparr>))))"

text \<open>\<open>kill\<close>, with the files of the sockets.\<close>

definition dc_kill :: "bool \<Rightarrow> daemon_clnt \<Rightarrow> string set \<Rightarrow> string set result" where
  "dc_kill killed d files =
     (if \<not> killed then Inl (Fatal ''Kill err'')
      else Inr (files - {SockName (sockctl (dcl_endName d))} - {SockName (dcl_endName d)}))"

section \<open>Numerals are read back\<close>

lemma digits_fold_ge: "n \<le> foldl (\<lambda>n c. n * 10 + (of_char c - 48)) n ds" for n :: nat
proof (induction ds arbitrary: n)
  case (Cons c ds)
  have "n \<le> n * 10 + (of_char c - 48)" by simp
  also note Cons.IH [of "n * 10 + (of_char c - 48)"]
  finally show ?case by simp
qed simp

lemma digit_of_digit: "is_digit c \<Longrightarrow> digit_of c = Some (of_char c - 48) \<and> of_char c - 48 < (10 :: nat) \<and> c \<noteq> CHR ''_''"
  by (auto simp: is_digit_def digit_of_def Let_def)

lemma uint_loop_digits:
  "\<forall>c \<in> set ds. is_digit c \<Longrightarrow> foldl (\<lambda>n c. n * 10 + (of_char c - 48)) n ds < 2 ^ 64 \<Longrightarrow>
   uint_loop base0 10 n und ds = Inr (foldl (\<lambda>n c. n * 10 + (of_char c - 48)) n ds, und)"
proof (induction ds arbitrary: n)
  case (Cons c ds)
  let ?m = "n * 10 + (of_char c - 48)"
  have c: "digit_of c = Some (of_char c - 48)" "of_char c - 48 < (10 :: nat)" "c \<noteq> CHR ''_''"
    using Cons.prems(1) digit_of_digit by auto
  have "?m < 2 ^ 64" using digits_fold_ge [of ?m ds] Cons.prems(2) by simp
  then show ?case using Cons c by simp
qed simp

lemma zero_char: "char_of (48 :: nat) = CHR ''0''"
  by (simp add: char_of_def bit_Suc_0_iff)

lemma nat_digits_zero: "hd (nat_digits n) = CHR ''0'' \<longleftrightarrow> n = 0"
proof (induction n rule: less_induct)
  case (less n)
  show ?case
  proof (cases "n < 10")
    case True
    then have "of_char (char_of (48 + n) :: char) = 48 + n" by simp
    moreover have "of_char (CHR ''0'') = (48 :: nat)" by simp
    ultimately have "char_of (48 + n) = CHR ''0'' \<longleftrightarrow> n = 0" using zero_char by (metis add.right_neutral add_left_imp_eq)
    then show ?thesis using True by (simp add: nat_digits.simps)
  next
    case False
    then have "hd (nat_digits (n div 10)) \<noteq> CHR ''0''" using less [of "n div 10"] by simp
    then show ?thesis using False by (subst nat_digits.simps) simp
  qed
qed

lemma ParseUint_digits:
  assumes "n < 2 ^ 64"
  shows "ParseUint base0 (nat_digits n) = Inr n"
proof -
  have l: "uint_loop base0 10 0 False (nat_digits n) = Inr (n, False)"
    using uint_loop_digits [of "nat_digits n" 0 base0 False] nat_digits_digits [of n] digits_value_nat_digits [of n] assms
    by (simp add: digits_value_def)
  show ?thesis
  proof (cases "n = 0")
    case True
    then have "nat_digits n = ''0''" by (simp add: nat_digits.simps zero_char)
    then show ?thesis using True by (simp add: ParseUint_def digit_of_def)
  next
    case False
    then show ?thesis using l by (simp add: ParseUint_def nat_digits_zero)
  qed
qed

lemma ParseInt_itoa:
  assumes "- (2 ^ 63) \<le> m" "m < 2 ^ 63"
  shows "ParseInt base0 (itoa m) = (m, None)"
proof -
  obtain c cs where c: "nat_digits (nat \<bar>m\<bar>) = c # cs" "is_digit c" using nat_digits_head by blast
  then have nc: "c \<noteq> CHR ''-''" "c \<noteq> CHR ''+''" by (auto simp: is_digit_def)
  have "nat \<bar>m\<bar> < 2 ^ 64" using assms by simp
  then have u: "ParseUint base0 (c # cs) = Inr (nat \<bar>m\<bar>)" using ParseUint_digits c(1) by metis
  show ?thesis
  proof (cases "m < 0")
    case True
    then have "itoa m = CHR ''-'' # c # cs" using c(1) by (simp add: itoa_def)
    then show ?thesis using u True assms by (simp add: ParseInt_def)
  next
    case False
    then have "itoa m = c # cs" using c(1) by (simp add: itoa_def)
    then show ?thesis using u nc False assms by (simp add: ParseInt_def nat_less_iff)
  qed
qed

section \<open>A started daemon\<close>

text \<open>The options of the tests: nothing, or a bound on the size of the Raft state.\<close>

definition raft_state_args :: "int option \<Rightarrow> string list" where
  "raft_state_args mx = (case mx of None \<Rightarrow> [] | Some m \<Rightarrow> [''--max-raft-state='' @ itoa m])"

lemma find_index_append: "\<forall>x \<in> set xs. \<not> P x \<Longrightarrow> P y \<Longrightarrow> find_index P (xs @ y # ys) = Some (length xs)"
  by (induction xs) auto

lemma split_max: "split_value (''max-raft-state='' @ s) = (''max-raft-state'', Some s)"
  using find_index_append [of "''ax-raft-state''" "\<lambda>c. c = CHR ''=''" "CHR ''=''" s] by (simp add: split_value_def)

lemma flag_Parse_stop: "c \<noteq> CHR ''-'' \<Longrightarrow> flag_Parse ((c # cs) # as) f = Inr f"
  by simp

lemma flag_Parse_max:
  assumes "- (2 ^ 63) \<le> m" "m < 2 ^ 63"
  shows "flag_Parse ((''--max-raft-state='' @ itoa m) # as) f = flag_Parse as (f\<lparr>MaxRaftState := m\<rparr>)"
  using split_max [of "itoa m"] ParseInt_itoa [OF assms] by (simp add: Let_def)

lemma flag_Parse_rsm: "flag_Parse (''--raft-state-machine'' # as) f = flag_Parse as (f\<lparr>UseRaftStateMachine := True\<rparr>)"
  by (simp add: Let_def split_value_def)

text \<open>
  C31: a daemon has what the tester gave it. When \<open>runDaemon\<close> returns a client for a process, that process, whichever of the
  mains it runs, has read the flags the test asked for, its group and number, the tester's end
  and all the end names, and its own end is the one whose sockets the tester calls. So the bound on the Raft state that a test sets is the
  one the servers are started with.
\<close>
theorem started_daemon_configured:
  assumes "runDaemon cwd started up prog (raft_state_args mx) useRSM endName gid (int sid) names = Inr (Some d)"
    and "0 \<le> gid" "gid < 2 ^ 63" "length names < 2 ^ 63" and "\<forall>m. mx = Some m \<longrightarrow> - (2 ^ 63) \<le> m \<and> m < 2 ^ 63"
  shows "sid < length names \<and>
    daemon_main mks (dcl_cmd d) =
      Running (mks \<lparr>UseRaftStateMachine = useRSM, MaxRaftState = (case mx of None \<Rightarrow> -1 | Some m \<Rightarrow> m)\<rparr>,
        \<lparr>UseRaftStateMachine = useRSM, MaxRaftState = (case mx of None \<Rightarrow> -1 | Some m \<Rightarrow> m)\<rparr>,
        \<lparr>dm_gid = gid, dm_sid = int sid, dm_tester = endName, dm_endNames = names, dm_endName = names ! sid\<rparr>) \<and>
    (\<forall>m. mx = Some m \<longrightarrow> (\<exists>r. kvraft1d_main (dcl_cmd d) = Running (KvRaft m, r))) \<and>
    (\<forall>m. mx = Some m \<longrightarrow> (\<exists>r. raft1d_main (dcl_cmd d) = Running (Rfsrv (m > 0), r))) \<and>
    dcl_endName d = names ! sid \<and> dcl_ctl d = sockctl (names ! sid)"
proof -
  let ?argv = "daemon_args (raft_state_args mx) useRSM endName gid (int sid) names"
  obtain e exe where d: "go_index names (int sid) = Inr e" "dcl_cmd d = exe # ?argv" "dcl_endName d = e" "dcl_ctl d = sockctl e"
    using assms(1) by (auto simp: runDaemon_def split: option.splits if_splits)
  then have sid: "sid < length names" "e = names ! sid" by (auto simp: go_index_def split: if_splits)
  obtain c cs where c: "itoa gid = c # cs" "is_digit c" using nat_digits_head assms(2) by (metis itoa_nonneg)
  then have "c \<noteq> CHR ''-''" by (auto simp: is_digit_def)
  then have "flag_Parse ?argv default_flags = Inr \<lparr>UseRaftStateMachine = useRSM, MaxRaftState = (case mx of None \<Rightarrow> -1 | Some m \<Rightarrow> m)\<rparr>"
    using assms(5) c(1)
    by (cases mx; cases useRSM)
      (simp_all add: daemon_args_def raft_state_args_def options_def default_flags_def flag_Parse_rsm flag_Parse_stop flag_Parse_max [unfolded append_Cons append_Nil] del: flag_Parse.simps)
  moreover have "InitDaemon_args ?argv =
      Inr (Some \<lparr>dm_gid = gid, dm_sid = int sid, dm_tester = endName, dm_endNames = names, dm_endName = names ! sid\<rparr>)"
    using assms(2-4) sid(1) by (intro daemon_command_line) (auto simp: raft_state_args_def split: option.splits)
  ultimately have run: "daemon_main mk (dcl_cmd d) =
      Running (mk \<lparr>UseRaftStateMachine = useRSM, MaxRaftState = (case mx of None \<Rightarrow> -1 | Some m \<Rightarrow> m)\<rparr>,
        \<lparr>UseRaftStateMachine = useRSM, MaxRaftState = (case mx of None \<Rightarrow> -1 | Some m \<Rightarrow> m)\<rparr>,
        \<lparr>dm_gid = gid, dm_sid = int sid, dm_tester = endName, dm_endNames = names, dm_endName = names ! sid\<rparr>)" for mk
    using d(2) by (simp add: daemon_main_def)
  show ?thesis using d(3,4) sid by (simp add: run kvraft1d_main_def raft1d_main_def)
qed

theorem started_daemon_configured_witness:
  "kvraft1d_main (dcl_cmd \<lparr>dcl_srv = int 1, dcl_server = ServerName 3 (int 1), dcl_endName = ''b'',
       dcl_cmd = ''/6/src/main/kvraft1d'' # daemon_args (raft_state_args (Some 1000)) True ''t'' 3 (int 1) [''a'', ''b''],
       dcl_clnt = makeClntTo None, dcl_ctl = ''b-ctl''\<rparr>) =
   Running (KvRaft 1000, \<lparr>UseRaftStateMachine = True, MaxRaftState = 1000\<rparr>,
     \<lparr>dm_gid = 3, dm_sid = int 1, dm_tester = ''t'', dm_endNames = [''a'', ''b''], dm_endName = ''b''\<rparr>)"
proof -
  have "daemon_path ''kvraft1d'' ''/6/src/kvraft1'' = Inr ''/6/src/main/kvraft1d''" by code_simp
  moreover have "dial (\<lambda>i. True) = Some 0" by (simp add: dial_def upt_conv_Cons)
  ultimately have "runDaemon (Some ''/6/src/kvraft1'') True (\<lambda>i. True) ''kvraft1d'' (raft_state_args (Some 1000)) True ''t'' 3 (int 1) [''a'', ''b''] =
      Inr (Some \<lparr>dcl_srv = int 1, dcl_server = ServerName 3 (int 1), dcl_endName = ''b'',
       dcl_cmd = ''/6/src/main/kvraft1d'' # daemon_args (raft_state_args (Some 1000)) True ''t'' 3 (int 1) [''a'', ''b''],
       dcl_clnt = makeClntTo None, dcl_ctl = ''b-ctl''\<rparr>)"
    by (simp add: runDaemon_def sockctl_def go_index_def)
  from started_daemon_configured [OF this, of "\<lambda>f. KvRaft (MaxRaftState f)"] show ?thesis by (simp add: kvraft1d_main_def)
qed

section \<open>The commands of the older labs\<close>

text \<open>\<open>main/diskvd.go\<close>; \<open>None\<close> is a call of \<open>usage\<close>. The errors of \<open>ParseInt\<close>, \<open>Atoi\<close> and \<open>ParseBool\<close> are dropped.\<close>

record diskvd_conf =
  kd_gid :: int
  kd_masters :: "string list"
  kd_replicas :: "string list"
  kd_me :: int
  kd_unreliable :: bool
  kd_dir :: string
  kd_restart :: bool

fun diskvd_loop :: "string list \<Rightarrow> diskvd_conf \<Rightarrow> diskvd_conf option" where
  "diskvd_loop (a0 # a1 # as) k =
     (if a0 = ''-g'' then diskvd_loop as (k\<lparr>kd_gid := fst (ParseInt False a1)\<rparr>)
      else if a0 = ''-m'' then diskvd_loop as (k\<lparr>kd_masters := kd_masters k @ [a1]\<rparr>)
      else if a0 = ''-s'' then diskvd_loop as (k\<lparr>kd_replicas := kd_replicas k @ [a1]\<rparr>)
      else if a0 = ''-i'' then diskvd_loop as (k\<lparr>kd_me := fst (ParseInt False a1)\<rparr>)
      else if a0 = ''-u'' then diskvd_loop as (k\<lparr>kd_unreliable := fst (ParseBool a1)\<rparr>)
      else if a0 = ''-d'' then diskvd_loop as (k\<lparr>kd_dir := a1\<rparr>)
      else if a0 = ''-r'' then diskvd_loop as (k\<lparr>kd_restart := fst (ParseBool a1)\<rparr>)
      else None)"
| "diskvd_loop _ k = Some k"

definition diskvd_usage :: "'s process" where
  "diskvd_usage = Exited 1 ''Usage: diskvd -g gid -m master... -s server... -i my-index -d dir''"

definition diskvd_main ::
  "(int \<Rightarrow> string list \<Rightarrow> string list \<Rightarrow> int \<Rightarrow> string \<Rightarrow> bool \<Rightarrow> 's) \<Rightarrow> (bool \<Rightarrow> 's \<Rightarrow> 's) \<Rightarrow> string list \<Rightarrow> 's process" where
  "diskvd_main start setunreliable argv =
     (case diskvd_loop (tl argv) \<lparr>kd_gid = -1, kd_masters = [], kd_replicas = [], kd_me = -1, kd_unreliable = False, kd_dir = [], kd_restart = False\<rparr> of
        None \<Rightarrow> diskvd_usage
      | Some k \<Rightarrow>
          if kd_gid k < 0 \<or> kd_me k < 0 \<or> length (kd_masters k) < 1 \<or> kd_me k \<ge> int (length (kd_replicas k)) \<or> kd_dir k = []
          then diskvd_usage
          else Running (setunreliable (kd_unreliable k) (start (kd_gid k) (kd_masters k) (kd_replicas k) (kd_me k) (kd_dir k) (kd_restart k))))"

text \<open>
  \<open>main/lockc.go\<close>, \<open>lockd.go\<close>, \<open>pbc.go\<close>, \<open>pbd.go\<close>, \<open>viewd.go\<close>. The servers run on after \<open>StartServer\<close>; a clerk's call acts on the state \<open>s\<close> of the
  servers it reaches.
\<close>

definition lockc_main ::
  "(string \<Rightarrow> string \<Rightarrow> 'ck) \<Rightarrow> ('ck \<Rightarrow> string \<Rightarrow> 's \<Rightarrow> 's \<times> bool) \<Rightarrow> ('ck \<Rightarrow> string \<Rightarrow> 's \<Rightarrow> 's \<times> bool) \<Rightarrow> string list \<Rightarrow> 's \<Rightarrow> 's \<times> unit process" where
  "lockc_main MakeClerk Lock Unlock argv s =
     (let usage = Exited 1 ''Usage: lockc -l|-u primaryport backupport lockname'';
          said = (\<lambda>(s', k). (s', Exited 0 (''reply: '' @ (if k then ''true'' else ''false''))))
      in if length argv = 5
         then let ck = MakeClerk (argv ! 2) (argv ! 3)
              in if argv ! 1 = ''-l'' then said (Lock ck (argv ! 4) s)
                 else if argv ! 1 = ''-u'' then said (Unlock ck (argv ! 4) s)
                 else (s, usage)
         else (s, usage))"

definition lockd_main :: "(string \<Rightarrow> string \<Rightarrow> bool \<Rightarrow> 's) \<Rightarrow> string list \<Rightarrow> 's process" where
  "lockd_main start argv =
     (if length argv = 4 \<and> argv ! 1 = ''-p'' then Running (start (argv ! 2) (argv ! 3) True)
      else if length argv = 4 \<and> argv ! 1 = ''-b'' then Running (start (argv ! 2) (argv ! 3) False)
      else Exited 1 ''Usage: lockd -p|-b primaryport backupport'')"

definition pbc_main ::
  "(string \<Rightarrow> string \<Rightarrow> 'ck) \<Rightarrow> ('ck \<Rightarrow> string \<Rightarrow> 's \<Rightarrow> 's \<times> string) \<Rightarrow> ('ck \<Rightarrow> string \<Rightarrow> string \<Rightarrow> 's \<Rightarrow> 's) \<Rightarrow> string list \<Rightarrow> 's \<Rightarrow> 's \<times> unit process" where
  "pbc_main MakeClerk Get Put argv s =
     (if length argv = 3 then (let (s', v) = Get (MakeClerk (argv ! 1) []) (argv ! 2) s in (s', Exited 0 v))
      else if length argv = 4 then (Put (MakeClerk (argv ! 1) []) (argv ! 2) (argv ! 3) s, Exited 0 [])
      else (s, Exited 1 ''Usage: pbc viewport key  pbc viewport key value''))"

definition pbd_main :: "(string \<Rightarrow> string \<Rightarrow> 's) \<Rightarrow> string list \<Rightarrow> 's process" where
  "pbd_main start argv =
     (if length argv \<noteq> 3 then Exited 1 ''Usage: pbd viewport myport'' else Running (start (argv ! 1) (argv ! 2)))"

definition viewd_main :: "(string \<Rightarrow> 's) \<Rightarrow> string list \<Rightarrow> 's process" where
  "viewd_main start argv =
     (if length argv \<noteq> 2 then Exited 1 ''Usage: viewd port'' else Running (start (argv ! 1)))"

text \<open>The values given to an option, in the order of the command line.\<close>

definition vals :: "string \<Rightarrow> (string \<times> string) list \<Rightarrow> string list" where
  "vals opt opts = map snd (filter (\<lambda>x. fst x = opt) opts)"

definition last_or :: "'a \<Rightarrow> ('b \<Rightarrow> 'a) \<Rightarrow> 'b list \<Rightarrow> 'a" where
  "last_or d f xs = (if xs = [] then d else f (last xs))"

definition diskvd_options :: "string list" where
  "diskvd_options = [''-g'', ''-m'', ''-s'', ''-i'', ''-u'', ''-d'', ''-r'']"

lemma last_or_Cons: "last_or d f (x # xs) = last_or (f x) f xs"
  by (simp add: last_or_def)

lemma vals_Cons: "vals opt ((a, b) # opts) = (if a = opt then b # vals opt opts else vals opt opts)"
  by (simp add: vals_def)

lemma diskvd_loop_reads:
  assumes "length rest < 2"
  shows "diskvd_loop (concat (map (\<lambda>(a, b). [a, b]) opts) @ rest) k =
    (if \<forall>x \<in> set opts. fst x \<in> set diskvd_options
     then Some \<lparr>kd_gid = last_or (kd_gid k) (\<lambda>v. fst (ParseInt False v)) (vals ''-g'' opts),
       kd_masters = kd_masters k @ vals ''-m'' opts, kd_replicas = kd_replicas k @ vals ''-s'' opts,
       kd_me = last_or (kd_me k) (\<lambda>v. fst (ParseInt False v)) (vals ''-i'' opts),
       kd_unreliable = last_or (kd_unreliable k) (\<lambda>v. fst (ParseBool v)) (vals ''-u'' opts),
       kd_dir = last_or (kd_dir k) (\<lambda>v. v) (vals ''-d'' opts),
       kd_restart = last_or (kd_restart k) (\<lambda>v. fst (ParseBool v)) (vals ''-r'' opts)\<rparr>
     else None)"
proof (induction opts arbitrary: k)
  case Nil
  have "diskvd_loop rest k = Some k" using assms by (cases rest; cases "tl rest") auto
  then show ?case by (simp add: vals_def last_or_def)
next
  case (Cons x opts)
  obtain a b where x: "x = (a, b)" by fastforce
  show ?case
  proof (cases "a \<in> set diskvd_options")
    case True
    then consider "a = ''-g''" | "a = ''-m''" | "a = ''-s''" | "a = ''-i''" | "a = ''-u''" | "a = ''-d''" | "a = ''-r''"
      by (auto simp: diskvd_options_def)
    then show ?thesis
      by cases (simp_all add: x Cons.IH vals_Cons last_or_Cons True, simp_all add: diskvd_options_def)
  next
    case False
    then show ?thesis by (simp add: x diskvd_options_def)
  qed
qed

lemma ParseInt_syntax: "snd (ParseInt base0 v) = Some ErrSyntax \<Longrightarrow> fst (ParseInt base0 v) = 0"
  by (auto simp: ParseInt_def Let_def split: if_splits sum.splits num_error.splits)

text \<open>
  \<open>diskvd\<close> reads its command line as documented, in any order: pairs of an option and a value, where a last word alone is
  ignored. It starts the server with the last group number, index, directory and restart flag and all the masters and
  replicas in their order, and prints its usage when an option is unknown, when the group, the index, the directory or the masters are missing,
  or when the index is not that of a replica. A group that is no numeral is group 0: the error of \<open>ParseInt\<close> is dropped.
\<close>
theorem diskvd_command_line:
  assumes "length rest < 2" and "gid = last_or (-1) (\<lambda>v. fst (ParseInt False v)) (vals ''-g'' opts)"
    and "me = last_or (-1) (\<lambda>v. fst (ParseInt False v)) (vals ''-i'' opts)" and "dir = last_or [] (\<lambda>v. v) (vals ''-d'' opts)"
  shows "diskvd_main start setunreliable (prog # concat (map (\<lambda>(a, b). [a, b]) opts) @ rest) =
    (if (\<forall>x \<in> set opts. fst x \<in> set diskvd_options) \<and> 0 \<le> gid \<and> 0 \<le> me \<and> me < int (length (vals ''-s'' opts)) \<and> vals ''-m'' opts \<noteq> [] \<and> dir \<noteq> []
     then Running (setunreliable (last_or False (\<lambda>v. fst (ParseBool v)) (vals ''-u'' opts))
       (start gid (vals ''-m'' opts) (vals ''-s'' opts) me dir (last_or False (\<lambda>v. fst (ParseBool v)) (vals ''-r'' opts))))
     else diskvd_usage) \<and>
    (\<forall>n. 0 \<le> n \<and> n < 2 ^ 63 \<and> vals ''-g'' opts = [itoa n] \<longrightarrow> gid = n) \<and>
    (\<forall>v. vals ''-g'' opts = [v] \<and> snd (ParseInt False v) = Some ErrSyntax \<longrightarrow> gid = 0)"
proof -
  have "last_or (-1) (\<lambda>v. fst (ParseInt False v)) [itoa n] = n" if "0 \<le> n" "n < 2 ^ 63" for n
    using ParseInt_itoa [of n False] that by (simp add: last_or_def)
  moreover have "last_or (-1) (\<lambda>v. fst (ParseInt False v)) [v] = 0" if "snd (ParseInt False v) = Some ErrSyntax" for v
    using ParseInt_syntax [OF that] by (simp add: last_or_def)
  ultimately show ?thesis using diskvd_loop_reads [OF assms(1)] assms(2-4)
    by (simp add: diskvd_main_def diskvd_usage_def linorder_not_less)
qed

text \<open>A command line with the options in another order, a malformed group and a lone last word.\<close>

definition ex_opts :: "(string \<times> string) list" where
  "ex_opts = [(''-s'', ''r0''), (''-d'', ''/tmp/d''), (''-i'', ''1''), (''-g'', ''seven''), (''-s'', ''r1''), (''-m'', ''m0''), (''-u'', ''true'')]"

theorem diskvd_command_line_witness:
  "diskvd_main (\<lambda>gid ms rs me dir restart. (gid, ms, rs, me, dir, restart, False)) (\<lambda>u (gid, ms, rs, me, dir, restart, v). (gid, ms, rs, me, dir, restart, u))
     (''diskvd'' # concat (map (\<lambda>(a, b). [a, b]) ex_opts) @ [''-r'']) =
   Running (0, [''m0''], [''r0'', ''r1''], 1, ''/tmp/d'', False, True)"
proof -
  have v: "vals ''-g'' ex_opts = [''seven'']" "vals ''-i'' ex_opts = [''1'']" "vals ''-d'' ex_opts = [''/tmp/d'']" "vals ''-m'' ex_opts = [''m0'']"
    "vals ''-s'' ex_opts = [''r0'', ''r1'']" "vals ''-u'' ex_opts = [''true'']" "vals ''-r'' ex_opts = []"
    "\<forall>x \<in> set ex_opts. fst x \<in> set diskvd_options"
    by (simp_all add: vals_def ex_opts_def diskvd_options_def)
  have p: "ParseInt False ''seven'' = (0, Some ErrSyntax)" "ParseInt False ''1'' = (1, None)" "ParseBool ''true'' = (True, None)"
    by (simp_all add: ParseInt_def ParseUint_def digit_of_def ParseBool_def)
  have l: "last_or (-1) (\<lambda>v. fst (ParseInt False v)) (vals ''-g'' ex_opts) = 0" "last_or (-1) (\<lambda>v. fst (ParseInt False v)) (vals ''-i'' ex_opts) = 1"
    "last_or [] (\<lambda>v. v) (vals ''-d'' ex_opts) = ''/tmp/d''" "last_or False (\<lambda>v. fst (ParseBool v)) (vals ''-u'' ex_opts) = True"
    "last_or False (\<lambda>v. fst (ParseBool v)) (vals ''-r'' ex_opts) = False"
    by (simp_all add: last_or_def v(1-3,6,7) p)
  have r: "length [''-r''] < 2" by simp
  show ?thesis
    by (subst conjunct1 [OF diskvd_command_line [OF r l(1) [symmetric] l(2) [symmetric] l(3) [symmetric]]]) (simp add: v(4,5,8) l(4,5))
qed

end
