(* ===== verification/RaftProxy.thy ===== *)
theory RaftProxy
  imports RpcPath RaftTester
begin

text \<open>
  The calls of a Raft test server to the tester (\<open>raft1/proxy.go\<close>, \<open>raft1/test.go\<close>): \<open>TesterProxy\<close> over the daemon's socket, and the service \<open>Test\<close> that
  \<open>makeTest\<close> adds to the tester's server.

  Shown: these calls are the ones that \<open>RaftTester\<close> describes by their fates, so that what it shows of the tester as a judge holds
  for servers that run as processes of their own.
\<close>

section \<open>The service and its proxy\<close>

record 'c tp_codecs =
  tp_rpc :: "rpc_args codec"
  tp_check :: "(nat \<times> 'c apply_msg) codec"
  tp_checked :: "(apply_error \<times> bool) codec"
  tp_ingest :: "(nat \<times> 'c rlog) codec"
  tp_err :: "(nat \<times> apply_error) codec"
  tp_none :: "unit codec"

text \<open>The handlers.\<close>

definition CheckLogsRPC :: "nat \<times> 'c apply_msg \<Rightarrow> 'c rtest \<Rightarrow> ('c rtest \<times> apply_error \<times> bool) result" where
  "CheckLogsRPC a ts = Inr (CheckLogs (fst a) (snd a) ts)"

definition IngestLogRPC :: "nat \<times> 'c rlog \<Rightarrow> 'c rtest \<Rightarrow> ('c rtest \<times> unit) result" where
  "IngestLogRPC a ts = Inr (IngestLog (fst a) (snd a) ts, ())"

definition ApplyErrRPC :: "nat \<times> apply_error \<Rightarrow> 'c rtest \<Rightarrow> ('c rtest \<times> unit) result" where
  "ApplyErrRPC a ts = Inr (ApplyErr (fst a) (snd a) ts, ())"

definition Test_service :: "'c tp_codecs \<Rightarrow> 'c rtest service" where
  "Test_service cs =
     MakeService ''Test''
       [rpc_method ''ApplyErrRPC'' (method_handler (tp_err cs) (tp_none cs) ApplyErrRPC),
        rpc_method ''CheckLogsRPC'' (method_handler (tp_check cs) (tp_checked cs) CheckLogsRPC),
        rpc_method ''IngestLogRPC'' (method_handler (tp_ingest cs) (tp_none cs) IngestLogRPC)]"

text \<open>The tester's server with this service; \<open>n\<close> is the number of its calls so far.\<close>

definition test_srv :: "'c tp_codecs \<Rightarrow> int \<Rightarrow> 'c rtest \<Rightarrow> 'c rtest server" where
  "test_srv cs n ts = (AddService (Test_service cs) (MakeServer ts))\<lparr>srv_count := n\<rparr>"

text \<open>\<open>TesterClnt.Call\<close>, and the three functions of \<open>TesterProxy\<close>.\<close>

definition tc_Call :: "'c tp_codecs \<Rightarrow> 'q codec \<Rightarrow> 'p codec \<Rightarrow> hop \<Rightarrow> string \<Rightarrow> string \<Rightarrow> 'q \<Rightarrow> 'c rtest server \<Rightarrow> ('c rtest server \<times> 'p option) result" where
  "tc_Call cs cq cp h e method = RPCMarshall (tp_rpc cs) cq cp h (RPCSrv_ServeRequest (Unmarshall (tp_rpc cs)) e) method"

definition px_CheckLogs :: "'c tp_codecs \<Rightarrow> hop \<Rightarrow> string \<Rightarrow> nat \<Rightarrow> 'c apply_msg \<Rightarrow> 'c rtest server \<Rightarrow> ('c rtest server \<times> apply_error \<times> bool) result" where
  "px_CheckLogs cs h e i m t =
     res_bind (tc_Call cs (tp_check cs) (tp_checked cs) h e ''Test.CheckLogsRPC'' (i, m) t) (\<lambda>(t', r).
       case r of None \<Rightarrow> Inr (t', ErrRPC, False) | Some (err, prevok) \<Rightarrow> Inr (t', err, prevok))"

definition px_IngestLog :: "'c tp_codecs \<Rightarrow> hop \<Rightarrow> string \<Rightarrow> nat \<Rightarrow> 'c rlog \<Rightarrow> 'c rtest server \<Rightarrow> 'c rtest server result" where
  "px_IngestLog cs h e i xlog t =
     res_bind (tc_Call cs (tp_ingest cs) (tp_none cs) h e ''Test.IngestLogRPC'' (i, xlog) t) (\<lambda>(t', r). Inr t')"

definition px_ApplyErr :: "'c tp_codecs \<Rightarrow> hop \<Rightarrow> string \<Rightarrow> nat \<Rightarrow> apply_error \<Rightarrow> 'c rtest server \<Rightarrow> 'c rtest server result" where
  "px_ApplyErr cs h e i err t =
     res_bind (tc_Call cs (tp_err cs) (tp_none cs) h e ''Test.ApplyErrRPC'' (i, err) t) (\<lambda>(t', r). Inr t')"

text \<open>\<open>applier\<close> of a process, with the hops of its two calls.\<close>

definition px_applier :: "'c tp_codecs \<Rightarrow> string \<Rightarrow> hop \<times> hop \<Rightarrow> nat \<Rightarrow> 'c apply_msg \<Rightarrow> 'c rtest server \<Rightarrow> 'c rtest server result" where
  "px_applier cs e hh i m t =
     (if \<not> CommandValid m then Inr t
      else res_bind (px_CheckLogs cs (fst hh) e i m t) (\<lambda>(t1, err, prevok).
        let err' = (if CommandIndex m > 1 \<and> \<not> prevok then ApplyOutOfOrder (int i) (CommandIndex m) else err)
        in if err' \<noteq> NoError then px_ApplyErr cs (snd hh) e i err' t1 else Inr t1))"

fun px_run :: "'c tp_codecs \<Rightarrow> string \<Rightarrow> ((hop \<times> hop) \<times> nat \<times> 'c apply_msg) list \<Rightarrow> 'c rtest server \<Rightarrow> 'c rtest server result" where
  "px_run cs e [] t = Inr t"
| "px_run cs e ((hh, i, m) # evs) t = res_bind (px_applier cs e hh i m t) (px_run cs e evs)"

section \<open>The proxy refines the calls with fates\<close>

fun fate_of :: "hop \<Rightarrow> fate" where
  "fate_of Through = Arrived"
| "fate_of LoseReply = ReplyLost"
| "fate_of LoseRequest = RequestLost"

lemmas test_service_defs = test_srv_def Test_service_def serves_def rpc_method_def MakeService_def AddService_def MakeServer_def suitable_def

interpretation check: served_method "''Test.CheckLogsRPC''" "tp_check cs" "tp_checked cs" CheckLogsRPC "test_srv cs n ts" for cs n ts
  by unfold_locales (simp add: test_service_defs)

interpretation ingest: served_method "''Test.IngestLogRPC''" "tp_ingest cs" "tp_none cs" IngestLogRPC "test_srv cs n ts" for cs n ts
  by unfold_locales (simp add: test_service_defs)

interpretation err: served_method "''Test.ApplyErrRPC''" "tp_err cs" "tp_none cs" ApplyErrRPC "test_srv cs n ts" for cs n ts
  by unfold_locales (simp add: test_service_defs)

definition tp_codecs_ok :: "'c tp_codecs \<Rightarrow> bool" where
  "tp_codecs_ok cs \<longleftrightarrow> codec_ok (tp_rpc cs) \<and> codec_ok (tp_check cs) \<and> codec_ok (tp_checked cs) \<and>
     codec_ok (tp_ingest cs) \<and> codec_ok (tp_err cs) \<and> codec_ok (tp_none cs)"

lemma test_srv_sel [simp]: "rcvr (test_srv cs n ts) = ts" "srv_count (test_srv cs n ts) = n"
  "(test_srv cs n ts)\<lparr>srv_count := n', rcvr := ts'\<rparr> = test_srv cs n' ts'"
  by (simp_all add: test_srv_def AddService_def MakeServer_def)

lemma px_CheckLogs_refines:
  assumes "tp_codecs_ok cs"
  shows "\<exists>n'. px_CheckLogs cs h e i m (test_srv cs n ts) =
    Inr (case tp_CheckLogs (fate_of h) i m ts of (ts', err, k) \<Rightarrow> (test_srv cs n' ts', err, k))"
proof -
  obtain ts' err k where c: "CheckLogs i m ts = (ts', err, k)" by (cases "CheckLogs i m ts")
  have "tc_Call cs (tp_check cs) (tp_checked cs) h e ''Test.CheckLogsRPC'' (i, m) (test_srv cs n ts) =
      Inr (if h = LoseRequest then test_srv cs n ts else test_srv cs (n + 1) ts', if h = Through then Some (err, k) else None)"
    using check.call [where cs = cs and n = n and ts = ts and cr = "tp_rpc cs" and q = "(i, m)" and a' = ts' and v = "(err, k)" and h = h and clnt = e] assms c
    by (simp add: tc_Call_def CheckLogsRPC_def tp_codecs_ok_def)
  then show ?thesis using c by (cases h) (auto simp: px_CheckLogs_def tp_CheckLogs_def)
qed

lemma px_IngestLog_refines:
  assumes "tp_codecs_ok cs"
  shows "\<exists>n'. px_IngestLog cs h e i xlog (test_srv cs n ts) = Inr (test_srv cs n' (tp_IngestLog (fate_of h) i xlog ts))"
proof -
  have "tc_Call cs (tp_ingest cs) (tp_none cs) h e ''Test.IngestLogRPC'' (i, xlog) (test_srv cs n ts) =
      Inr (if h = LoseRequest then test_srv cs n ts else test_srv cs (n + 1) (IngestLog i xlog ts), if h = Through then Some () else None)"
    using ingest.call [where cs = cs and n = n and ts = ts and cr = "tp_rpc cs" and q = "(i, xlog)" and a' = "IngestLog i xlog ts" and v = "()" and h = h and clnt = e] assms
    by (simp add: tc_Call_def IngestLogRPC_def tp_codecs_ok_def)
  then show ?thesis by (cases h) (auto simp: px_IngestLog_def tp_IngestLog_def)
qed

lemma px_ApplyErr_refines:
  assumes "tp_codecs_ok cs"
  shows "\<exists>n'. px_ApplyErr cs h e i x (test_srv cs n ts) = Inr (test_srv cs n' (tp_ApplyErr (fate_of h) i x ts))"
proof -
  have "tc_Call cs (tp_err cs) (tp_none cs) h e ''Test.ApplyErrRPC'' (i, x) (test_srv cs n ts) =
      Inr (if h = LoseRequest then test_srv cs n ts else test_srv cs (n + 1) (ApplyErr i x ts), if h = Through then Some () else None)"
    using err.call [where cs = cs and n = n and ts = ts and cr = "tp_rpc cs" and q = "(i, x)" and a' = "ApplyErr i x ts" and v = "()" and h = h and clnt = e] assms
    by (simp add: tc_Call_def ApplyErrRPC_def tp_codecs_ok_def)
  then show ?thesis by (cases h) (auto simp: px_ApplyErr_def tp_ApplyErr_def)
qed

lemma px_applier_refines:
  assumes "tp_codecs_ok cs"
  shows "\<exists>n'. px_applier cs e hh i m (test_srv cs n ts) = Inr (test_srv cs n' (applier (map_prod fate_of fate_of hh) i m ts))"
proof (cases "CommandValid m")
  case True
  obtain ts1 err k where c: "tp_CheckLogs (fate_of (fst hh)) i m ts = (ts1, err, k)" by (cases "tp_CheckLogs (fate_of (fst hh)) i m ts")
  from px_CheckLogs_refines [OF assms, of "fst hh" e i m n ts] c obtain n1 where
    "px_CheckLogs cs (fst hh) e i m (test_srv cs n ts) = Inr (test_srv cs n1 ts1, err, k)" by auto
  then show ?thesis
    using True c px_ApplyErr_refines [OF assms, of "snd hh" e i _ n1 ts1]
    by (auto simp: px_applier_def applier_def report_err_def Let_def)
qed (auto simp: px_applier_def applier_def)

lemma px_run_refines:
  assumes "tp_codecs_ok cs"
  shows "\<exists>n'. px_run cs e evs (test_srv cs n ts) =
    Inr (test_srv cs n' (apply_run (map (\<lambda>(hh, i, m). (map_prod fate_of fate_of hh, i, m)) evs) ts))"
proof (induction evs arbitrary: n ts)
  case (Cons ev evs)
  obtain hh i m where ev: "ev = (hh, i, m)" by (cases ev)
  obtain n1 where "px_applier cs e hh i m (test_srv cs n ts) = Inr (test_srv cs n1 (applier (map_prod fate_of fate_of hh) i m ts))"
    using px_applier_refines [OF assms] by blast
  then show ?case using Cons.IH [of n1 "applier (map_prod fate_of fate_of hh) i m ts"] by (simp add: ev apply_run_def)
qed (auto simp: apply_run_def)


section \<open>Witness of the proxy\<close>

text \<open>Concrete codecs: a value is a list of strings, one after the other.\<close>

fun get_strings :: "nat \<Rightarrow> bytes \<Rightarrow> string list" where
  "get_strings 0 b = []"
| "get_strings (Suc n) b = (if b = [] then [] else let (s, r) = get_string b in s # get_strings n r)"

definition strings_codec :: "('v \<Rightarrow> string list) \<Rightarrow> (string list \<Rightarrow> 'v) \<Rightarrow> 'v codec" where
  "strings_codec f g = \<lparr>enc = (\<lambda>v. Some (foldr put_string (f v) [])), dec = (\<lambda>b. Some (g (get_strings (length b) b)))\<rparr>"

lemma get_strings_put: "length xs \<le> n \<Longrightarrow> get_strings n (foldr put_string xs []) = xs"
proof (induction xs arbitrary: n)
  case (Cons x xs)
  then obtain k where "n = Suc k" "length xs \<le> k" by (cases n) auto
  moreover have "put_string x r \<noteq> []" for r by (simp add: put_string_def)
  ultimately show ?case using Cons.IH by (simp add: get_put_string)
next
  case Nil
  then show ?case by (cases n) simp_all
qed

lemma strings_codec_ok: "(\<And>v. g (f v) = v) \<Longrightarrow> codec_ok (strings_codec f g)"
proof -
  have len: "length xs \<le> length (foldr put_string xs [])" for xs
    by (induction xs) (simp_all add: put_string_def)
  assume "\<And>v. g (f v) = v"
  then show ?thesis using get_strings_put [OF len] by (simp add: codec_ok_def strings_codec_def)
qed

definition put_bool :: "bool \<Rightarrow> string" where "put_bool b = (if b then ''t'' else [])"

definition put_opt :: "nat option \<Rightarrow> string" where "put_opt x = (case x of None \<Rightarrow> [] | Some n \<Rightarrow> replicate (Suc n) CHR ''1'')"

definition get_opt :: "string \<Rightarrow> nat option" where "get_opt s = (if s = [] then None else Some (length s - 1))"

fun put_snap :: "nat snap \<Rightarrow> string list" where
  "put_snap NilSnap = [''n'']"
| "put_snap Garbage = [''g'']"
| "put_snap (Encoded i xs) = ''e'' # put_int i # map put_opt xs"

definition get_snap :: "string list \<Rightarrow> nat snap" where
  "get_snap ss = (if hd ss = ''n'' then NilSnap else if hd ss = ''g'' then Garbage else Encoded (get_int (ss ! 1)) (map get_opt (drop 2 ss)))"

fun put_err :: "apply_error \<Rightarrow> string list" where
  "put_err NoError = [''0'']"
| "put_err (CommitDiffers a b c) = [''1'', put_int a, put_int b, put_int c]"
| "put_err (ApplyOutOfOrder a b) = [''2'', put_int a, put_int b]"
| "put_err (ExpectedIndex a b c) = [''3'', put_int a, put_int b, put_int c]"
| "put_err NilSnapshot = [''4'']"
| "put_err UndecodableSnapshot = [''5'']"
| "put_err (SnapshotIndexDiffers a) = [''6'', put_int a]"
| "put_err ErrRPC = [''7'']"

definition get_err :: "string list \<Rightarrow> apply_error" where
  "get_err ss =
     (let n = (\<lambda>i. get_int (ss ! i)); c = hd ss
      in if c = ''0'' then NoError else if c = ''1'' then CommitDiffers (n 1) (n 2) (n 3) else if c = ''2'' then ApplyOutOfOrder (n 1) (n 2)
         else if c = ''3'' then ExpectedIndex (n 1) (n 2) (n 3) else if c = ''4'' then NilSnapshot else if c = ''5'' then UndecodableSnapshot
         else if c = ''6'' then SnapshotIndexDiffers (n 1) else ErrRPC)"

lemma get_put: "get_int (put_int i) = i" "(put_bool b = ''t'') = b" "get_opt (put_opt x) = x" "get_snap (put_snap s) = s" "get_err (put_err x') = x'"
  subgoal by (simp add: get_int_def put_int_def)
  subgoal by (simp add: put_bool_def)
  subgoal opt by (cases x) (simp_all add: put_opt_def get_opt_def)
  subgoal
  proof (cases s)
    case (Encoded i xs)
    have "get_opt (put_opt y) = y" for y by (cases y) (simp_all add: put_opt_def get_opt_def)
    then have "map (get_opt \<circ> put_opt) xs = xs" by (simp add: map_idI)
    then show ?thesis using Encoded by (simp add: get_snap_def get_int_def put_int_def)
  qed (simp_all add: get_snap_def)
  subgoal by (cases x') (simp_all add: get_err_def get_int_def put_int_def)
  done

definition wit_tp :: "nat tp_codecs" where
  "wit_tp = \<lparr>tp_rpc = wc_rpc,
     tp_check = strings_codec
       (\<lambda>(i, m). put_int (int i) # put_bool (CommandValid m) # put_opt (Command m) # put_int (CommandIndex m) # put_bool (SnapshotValid m) #
          put_int (SnapshotTerm m) # put_int (SnapshotIndex m) # put_snap (Snapshot m))
       (\<lambda>ss. (nat (get_int (ss ! 0)), \<lparr>CommandValid = (ss ! 1 = ''t''), Command = get_opt (ss ! 2), CommandIndex = get_int (ss ! 3), SnapshotValid = (ss ! 4 = ''t''),
          Snapshot = get_snap (drop 7 ss), SnapshotTerm = get_int (ss ! 5), SnapshotIndex = get_int (ss ! 6)\<rparr>)),
     tp_checked = strings_codec (\<lambda>(x, k). put_bool k # put_err x) (\<lambda>ss. (get_err (tl ss), hd ss = ''t'')),
     tp_ingest = strings_codec (\<lambda>(i, l). put_int (int i) # map (\<lambda>(k, v). put_string (put_int k) (put_opt v)) l)
       (\<lambda>ss. (nat (get_int (hd ss)), map (\<lambda>s. let (k, v) = get_string s in (get_int k, get_opt v)) (tl ss))),
     tp_err = strings_codec (\<lambda>(i, x). put_int (int i) # put_err x) (\<lambda>ss. (nat (get_int (hd ss)), get_err (tl ss))),
     tp_none = strings_codec (\<lambda>_. []) (\<lambda>_. ())\<rparr>"

lemma wit_tp_ok: "tp_codecs_ok wit_tp"
proof -
  have "map ((\<lambda>s. let (k, v) = get_string s in (get_int k, get_opt v)) \<circ> (\<lambda>(k, v). put_string (put_int k) (put_opt v))) l = l" for l
    by (rule map_idI) (auto simp: get_put_string get_put)
  then show ?thesis
    by (simp add: tp_codecs_ok_def wit_tp_def wit_codecs_ok(1), intro conjI strings_codec_ok) (auto simp: get_put)
qed


end
