(* ===== verification/Crawler.thy ===== *)
theory Crawler
  imports Prelude
begin

text \<open>
  The three crawlers of the lectures (\<open>lecutures/crawler.go\<close>): serial, concurrent with a mutex, and
  concurrent with channels; and the scheduler of \<open>lecutures/lec-5-go-pattern/deadlock.go\<close>.

  A fetcher answers a page's links or an error. Shown: over a finite web each of the crawlers
  terminates, whatever the interleaving of its goroutines, having fetched every reachable page
  exactly once. The scheduler, which sends all tasks before it receives any completion, finishes
  exactly when it has at least as many servers as tasks.
\<close>

section \<open>The crawlers\<close>

type_synonym fetcher = "string \<Rightarrow> string list option"

text \<open>The canned fetcher: an error for a page that is not in the map.\<close>

definition fakeFetch :: "(string, string list) gomap \<Rightarrow> fetcher" where
  "fakeFetch f url = map_of f url"

definition fetcher_map :: "(string, string list) gomap" where
  "fetcher_map =
     [(''http://golang.org/'', [''http://golang.org/pkg/'', ''http://golang.org/cmd/'']),
      (''http://golang.org/pkg/'', [''http://golang.org/'', ''http://golang.org/cmd/'',
         ''http://golang.org/pkg/fmt/'', ''http://golang.org/pkg/os/'']),
      (''http://golang.org/pkg/fmt/'', [''http://golang.org/'', ''http://golang.org/pkg/'']),
      (''http://golang.org/pkg/os/'', [''http://golang.org/'', ''http://golang.org/pkg/''])]"

text \<open>The links followed from a page.\<close>

definition links :: "fetcher \<Rightarrow> string \<Rightarrow> string list" where
  "links f url = (case f url of Some urls \<Rightarrow> urls | None \<Rightarrow> [])"

subsection \<open>Serial\<close>

text \<open>
  \<open>fetched\<close> lists the pages in the order they are fetched (a page is fetched when it is marked).
  The first argument bounds the depth of the recursion.
\<close>

fun Serial :: "nat \<Rightarrow> fetcher \<Rightarrow> string \<Rightarrow> string list \<Rightarrow> string list option"
  and serial_loop :: "nat \<Rightarrow> fetcher \<Rightarrow> string list \<Rightarrow> string list \<Rightarrow> string list option" where
  "Serial 0 f url fetched = None"
| "Serial (Suc n) f url fetched =
     (if url \<in> set fetched then Some fetched
      else let fetched1 = fetched @ [url]
           in case f url of
                None \<Rightarrow> Some fetched1
              | Some urls \<Rightarrow> serial_loop n f urls fetched1)"
| "serial_loop n f [] fetched = Some fetched"
| "serial_loop n f (u # us) fetched = Option.bind (Serial n f u fetched) (serial_loop n f us)"

subsection \<open>ConcurrentMutex\<close>

text \<open>
  The goroutines that have been started and not yet taken the lock, and the fetched pages. A step
  is one goroutine's \<open>testAndSet\<close> followed by its \<open>Fetch\<close> and the start of its children; \<open>Wait\<close>
  returns when no goroutine is left.
\<close>

definition testAndSet :: "string \<Rightarrow> string list \<Rightarrow> bool \<times> string list" where
  "testAndSet url fetched = (if url \<in> set fetched then (True, fetched) else (False, fetched @ [url]))"

inductive mutex_step :: "fetcher \<Rightarrow> string multiset \<times> string list \<Rightarrow> string multiset \<times> string list \<Rightarrow> bool"
  for f :: fetcher where
  mutex_seen: "testAndSet url fetched = (True, fetched') \<Longrightarrow>
    mutex_step f (add_mset url pending, fetched) (pending, fetched')"
| mutex_new: "testAndSet url fetched = (False, fetched') \<Longrightarrow>
    mutex_step f (add_mset url pending, fetched) (pending + mset (links f url), fetched')"

subsection \<open>ConcurrentChannel\<close>

text \<open>
  The coordinator's counter and \<open>fetched\<close> map, the workers that have not yet sent (each with the
  list it will send), the pages fetched, and whether the coordinator has left its loop.
\<close>

definition crawl_worker :: "fetcher \<Rightarrow> string \<Rightarrow> string list" where
  "crawl_worker f url = links f url"

fun coordinator_loop :: "fetcher \<Rightarrow> string list \<Rightarrow> nat \<times> string list \<times> string list multiset \<Rightarrow>
    nat \<times> string list \<times> string list multiset" where
  "coordinator_loop f [] st = st"
| "coordinator_loop f (u # us) (n, fetched, workers) =
     (if u \<notin> set fetched then coordinator_loop f us (n + 1, fetched @ [u], add_mset (crawl_worker f u) workers)
      else coordinator_loop f us (n, fetched, workers))"

record chan_state =
  chan_n :: nat
  chan_fetched :: "string list"
  chan_workers :: "string list multiset"
  chan_done :: bool

definition chan_start :: "string \<Rightarrow> chan_state" where
  "chan_start url = \<lparr>chan_n = 1, chan_fetched = [], chan_workers = {#[url]#}, chan_done = False\<rparr>"

inductive chan_step :: "fetcher \<Rightarrow> chan_state \<Rightarrow> chan_state \<Rightarrow> bool" for f :: fetcher where
  chan_receive: "\<not> chan_done s \<Longrightarrow> chan_workers s = add_mset urls rest \<Longrightarrow>
    coordinator_loop f urls (chan_n s, chan_fetched s, rest) = (n, fetched, workers) \<Longrightarrow>
    chan_step f s \<lparr>chan_n = n - 1, chan_fetched = fetched, chan_workers = workers, chan_done = (n - 1 = 0)\<rparr>"

section \<open>Reachable pages\<close>

inductive reaches :: "fetcher \<Rightarrow> string \<Rightarrow> string \<Rightarrow> bool" for f :: fetcher and url :: string where
  reaches_refl: "reaches f url url"
| reaches_link: "reaches f url u \<Longrightarrow> v \<in> set (links f u) \<Longrightarrow> reaches f url v"

definition pages :: "fetcher \<Rightarrow> string \<Rightarrow> string set" where
  "pages f url = {u. reaches f url u}"

lemma reaches_trans: "reaches f v w \<Longrightarrow> reaches f u v \<Longrightarrow> reaches f u w"
  by (induction rule: reaches.induct) (auto intro: reaches_link)

text \<open>A set of pages closed under links that holds the start holds every reachable page.\<close>

lemma pages_closed:
  assumes "url \<in> S" "\<forall>u \<in> S. set (links f u) \<subseteq> S"
  shows "pages f url \<subseteq> S"
proof -
  have "u \<in> S" if "reaches f url u" for u
    using that by (induction rule: reaches.induct) (use assms in auto)
  then show ?thesis by (auto simp: pages_def)
qed

subsection \<open>The serial crawler\<close>

text \<open>What a call adds to the fetched pages: their links are fetched too, and they are reachable.\<close>

definition crawled :: "fetcher \<Rightarrow> string set \<Rightarrow> string list \<Rightarrow> string list \<Rightarrow> bool" where
  "crawled f from fetched fetched' \<longleftrightarrow>
     set fetched \<subseteq> set fetched' \<and> from \<subseteq> set fetched' \<and> (distinct fetched \<longrightarrow> distinct fetched') \<and>
     (\<forall>u \<in> set fetched' - set fetched. set (links f u) \<subseteq> set fetched' \<and> (\<exists>v \<in> from. reaches f v u))"

lemma crawled_seq:
  "crawled f A x y \<Longrightarrow> crawled f B y z \<Longrightarrow> crawled f (A \<union> B) x z"
  unfolding crawled_def by (intro conjI ballI; blast)

lemma Serial_crawled:
  "Serial n f url fetched = Some fetched' \<Longrightarrow> crawled f {url} fetched fetched'"
  "serial_loop n f urls fetched = Some fetched' \<Longrightarrow> crawled f (set urls) fetched fetched'"
proof (induction n f url fetched and n f urls fetched arbitrary: fetched' and fetched' rule: Serial_serial_loop.induct)
  case (2 n f url fetched)
  show ?case
  proof (cases "url \<in> set fetched \<or> f url = None")
    case True
    with 2(2) show ?thesis by (auto simp: crawled_def links_def reaches_refl split: if_splits)
  next
    case False
    then obtain urls where f: "url \<notin> set fetched" "f url = Some urls" by auto
    with 2(2) have "serial_loop n f urls (fetched @ [url]) = Some fetched'" by simp
    with 2(1) f have c: "crawled f (set urls) (fetched @ [url]) fetched'" by simp
    have l: "links f url = urls" using f by (simp add: links_def)
    have via: "reaches f url u" if "v \<in> set urls" "reaches f v u" for u v
      using that l reaches_trans reaches_link reaches_refl by metis
    have new: "set (links f u) \<subseteq> set fetched' \<and> (\<exists>v \<in> set urls. reaches f v u)"
      if "u \<in> set fetched' - set fetched" "u \<noteq> url" for u
      using that c unfolding crawled_def by simp
    have "reaches f url u" if "u \<in> set fetched' - set fetched" for u
    proof (cases "u = url")
      case False
      with new [OF that] via show ?thesis by blast
    qed (simp add: reaches_refl)
    moreover have "set (links f u) \<subseteq> set fetched'" if "u \<in> set fetched' - set fetched" for u
      using that c l new [OF that] unfolding crawled_def by (cases "u = url") simp_all
    ultimately show ?thesis using c f unfolding crawled_def by auto
  qed
next
  case (4 n f u us fetched)
  then obtain y where y: "Serial n f u fetched = Some y" "serial_loop n f us y = Some fetched'"
    by (auto simp: Option.bind_eq_Some_conv)
  from crawled_seq [OF 4(1) [OF y(1)] 4(2) [OF y]] show ?case by simp
qed (auto simp: crawled_def)

text \<open>Enough depth: one more than the number of pages not yet fetched.\<close>

lemma Serial_returns:
  assumes "finite U" "\<forall>u \<in> U. set (links f u) \<subseteq> U"
  shows "url \<in> U \<Longrightarrow> card (U - set fetched) < n \<Longrightarrow> Serial n f url fetched \<noteq> None"
    and "set urls \<subseteq> U \<Longrightarrow> card (U - set fetched) < n \<Longrightarrow> serial_loop n f urls fetched \<noteq> None"
  using assms
proof (induction n f url fetched and n f urls fetched rule: Serial_serial_loop.induct)
  case (2 n f url fetched)
  show ?case
  proof (cases "url \<in> set fetched \<or> f url = None")
    case True
    then show ?thesis by (auto split: option.splits)
  next
    case False
    then obtain urls where f: "url \<notin> set fetched" "f url = Some urls" by auto
    then have l: "links f url = urls" by (simp add: links_def)
    have "U - set (fetched @ [url]) = (U - set fetched) - {url}" by auto
    then have "card (U - set (fetched @ [url])) < card (U - set fetched)"
      using f 2(2,4) card_Diff1_less [of "U - set fetched" url] by (simp del: card_Diff_insert)
    then have "serial_loop n f urls (fetched @ [url]) \<noteq> None"
      using 2 f l by (auto simp: less_Suc_eq_le)
    then show ?thesis using f by simp
  qed
next
  case (4 n f u us fetched)
  then obtain y where y: "Serial n f u fetched = Some y" by auto
  then have "set fetched \<subseteq> set y" using Serial_crawled(1) by (auto simp: crawled_def)
  then have "card (U - set y) \<le> card (U - set fetched)" using 4(5) by (intro card_mono) auto
  then have "card (U - set y) < n" using 4(4) by simp
  then show ?case using 4(2) [OF y] 4 y by auto
qed auto

lemma finite_pages_closed: "\<forall>u \<in> pages f url. set (links f u) \<subseteq> pages f url"
  by (auto simp: pages_def intro: reaches_link)

subsection \<open>The crawler with a mutex\<close>

text \<open>
  What is fetched is reachable, and the links of what is fetched are fetched or pending.
\<close>

definition mutex_inv :: "fetcher \<Rightarrow> string \<Rightarrow> string multiset \<times> string list \<Rightarrow> bool" where
  "mutex_inv f url st \<longleftrightarrow> (case st of (pending, fetched) \<Rightarrow>
     distinct fetched \<and> set fetched \<subseteq> pages f url \<and> set_mset pending \<subseteq> pages f url \<and>
     url \<in> set fetched \<union> set_mset pending \<and>
     (\<forall>u \<in> set fetched. set (links f u) \<subseteq> set fetched \<union> set_mset pending))"

definition mutex_init :: "string \<Rightarrow> string multiset \<times> string list \<Rightarrow> bool" where
  "mutex_init url st \<longleftrightarrow> st = ({#url#}, [])"

lemma mutex_inv_step: "mutex_inv f url st \<Longrightarrow> mutex_step f st st' \<Longrightarrow> mutex_inv f url st'"
proof -
  assume inv: "mutex_inv f url st" and step: "mutex_step f st st'"
  from step show ?thesis
  proof cases
    case (mutex_seen u fetched fetched' pending)
    then have u: "u \<in> set fetched" "fetched' = fetched" by (auto simp: testAndSet_def split: if_splits)
    have "set fetched \<union> set_mset (add_mset u pending) = set fetched \<union> set_mset pending" using u(1) by auto
    then show ?thesis using inv u(2) mutex_seen(1,2) by (auto simp: mutex_inv_def)
  next
    case (mutex_new u fetched fetched' pending)
    then have u: "u \<notin> set fetched" "fetched' = fetched @ [u]" by (auto simp: testAndSet_def split: if_splits)
    have l: "set (links f u) \<subseteq> pages f url"
      using inv mutex_new(1) finite_pages_closed [of f url] by (auto simp: mutex_inv_def)
    have "set (links f v) \<subseteq> set fetched' \<union> set_mset (pending + mset (links f u))" if "v \<in> set fetched'" for v
    proof (cases "v = u")
      case False
      then have "set (links f v) \<subseteq> set fetched \<union> set_mset (add_mset u pending)"
        using inv that u mutex_new(1) by (simp add: mutex_inv_def)
      then show ?thesis by (auto simp: u(2))
    qed auto
    then show ?thesis using inv u l mutex_new(1,2) by (auto simp: mutex_inv_def)
  qed
qed

interpretation mx: invariant_machine "mutex_init url" "mutex_step f" "mutex_inv f url" for f url
proof
  show "mutex_inv f url s" if "mutex_init url s" for s
    using that by (auto simp: mutex_init_def mutex_inv_def pages_def reaches_refl)
  show "mutex_inv f url t" if "mutex_inv f url s" "mutex_step f s t" for s t
    using that by (rule mutex_inv_step)
qed

definition mutex_measure :: "fetcher \<Rightarrow> string \<Rightarrow> string multiset \<times> string list \<Rightarrow> nat \<times> nat" where
  "mutex_measure f url st = (card (pages f url - set (snd st)), size (fst st))"

lemma mutex_step_decreases:
  assumes "finite (pages f url)" "mutex_inv f url st" "mutex_step f st st'"
  shows "(mutex_measure f url st', mutex_measure f url st) \<in> less_than <*lex*> less_than"
  using assms(3)
proof cases
  case (mutex_seen u fetched fetched' pending)
  then show ?thesis by (auto simp: mutex_measure_def testAndSet_def split: if_splits)
next
  case (mutex_new u fetched fetched' pending)
  then have u: "u \<in> pages f url - set fetched" "fetched' = fetched @ [u]"
    using assms(2) by (auto simp: mutex_inv_def testAndSet_def split: if_splits)
  then have "pages f url - set fetched' \<subset> pages f url - set fetched" by auto
  then have "card (pages f url - set fetched') < card (pages f url - set fetched)"
    using assms(1) by (intro psubset_card_mono) auto
  then show ?thesis using mutex_new by (simp add: mutex_measure_def)
qed

subsection \<open>The crawler with channels\<close>

definition chan_inv :: "fetcher \<Rightarrow> string \<Rightarrow> chan_state \<Rightarrow> bool" where
  "chan_inv f url s \<longleftrightarrow>
     distinct (chan_fetched s) \<and> set (chan_fetched s) \<subseteq> pages f url \<and> chan_n s = size (chan_workers s) \<and>
     (\<forall>us \<in># chan_workers s. set us \<subseteq> pages f url) \<and>
     (url \<in> set (chan_fetched s) \<or> [url] \<in># chan_workers s) \<and>
     (\<forall>u \<in> set (chan_fetched s). set (links f u) \<subseteq> set (chan_fetched s) \<or> links f u \<in># chan_workers s) \<and>
     (chan_done s \<longleftrightarrow> chan_workers s = {#})"

definition chan_init :: "string \<Rightarrow> chan_state \<Rightarrow> bool" where
  "chan_init url s \<longleftrightarrow> s = chan_start url"

text \<open>The coordinator's loop over one message.\<close>

lemma coordinator_loop_effect:
  assumes "coordinator_loop f us (n, fetched, workers) = (n', fetched', workers')"
    "distinct fetched" "set us \<subseteq> pages f url" "set fetched \<subseteq> pages f url"
    "\<forall>vs \<in># workers. set vs \<subseteq> pages f url" "n = Suc (size workers)"
  shows "distinct fetched' \<and> set fetched' = set fetched \<union> set us \<and> n' = Suc (size workers') \<and>
    (\<forall>vs \<in># workers'. set vs \<subseteq> pages f url) \<and> workers \<subseteq># workers' \<and>
    (\<forall>u \<in> set fetched' - set fetched. links f u \<in># workers') \<and>
    (fetched' = fetched \<longrightarrow> workers' = workers)"
  using assms
proof (induction us arbitrary: n fetched workers)
  case (Cons u us)
  show ?case
  proof (cases "u \<in> set fetched")
    case True
    then show ?thesis using Cons.IH [of n fetched workers] Cons.prems by auto
  next
    case False
    let ?w = "add_mset (links f u) workers"
    have "set (links f u) \<subseteq> pages f url" using Cons.prems(3) finite_pages_closed [of f url] by auto
    then have IH: "distinct fetched' \<and> set fetched' = set (fetched @ [u]) \<union> set us \<and> n' = Suc (size workers') \<and>
      (\<forall>vs \<in># workers'. set vs \<subseteq> pages f url) \<and> ?w \<subseteq># workers' \<and>
      (\<forall>v \<in> set fetched' - set (fetched @ [u]). links f v \<in># workers')"
      using Cons.IH [of "n + 1" "fetched @ [u]" ?w] Cons.prems False by (auto simp: crawl_worker_def)
    then have "links f u \<in># workers'" "workers \<subseteq># workers'"
      using mset_subset_eq_insertD [of "links f u" workers workers'] by (auto simp: subset_mset.less_le)
    moreover have "fetched' \<noteq> fetched" using IH False by auto
    ultimately show ?thesis using IH by auto
  qed
qed auto

lemma chan_inv_step:
  assumes inv: "chan_inv f url s" and step: "chan_step f s t"
  shows "chan_inv f url t"
  using step
proof cases
  case (chan_receive urls rest n fetched workers)
  have e: "distinct fetched \<and> set fetched = set (chan_fetched s) \<union> set urls \<and> n = Suc (size workers) \<and>
    (\<forall>vs \<in># workers. set vs \<subseteq> pages f url) \<and> rest \<subseteq># workers \<and>
    (\<forall>u \<in> set fetched - set (chan_fetched s). links f u \<in># workers)"
    using coordinator_loop_effect [OF chan_receive(4), of url] inv chan_receive(3) by (auto simp: chan_inv_def)
  have sub: "x \<in># workers" if "x \<in># rest" for x using e that mset_subset_eqD by metis
  have "set (links f u) \<subseteq> set fetched \<or> links f u \<in># workers" if "u \<in> set fetched" for u
  proof (cases "u \<in> set (chan_fetched s)")
    case True
    with inv have "set (links f u) \<subseteq> set (chan_fetched s) \<or> links f u = urls \<or> links f u \<in># rest"
      using chan_receive(3) by (auto simp: chan_inv_def)
    then show ?thesis using e sub by auto
  next
    case False
    with e that show ?thesis by auto
  qed
  moreover have "url \<in> set fetched \<or> [url] \<in># workers"
    using inv chan_receive(3) e sub by (auto simp: chan_inv_def)
  moreover have "set fetched \<subseteq> pages f url" using inv chan_receive(3) e by (auto simp: chan_inv_def)
  ultimately show ?thesis using e chan_receive(1) by (auto simp: chan_inv_def)
qed

interpretation ch: invariant_machine "chan_init url" "chan_step f" "chan_inv f url" for f url
proof
  show "chan_inv f url s" if "chan_init url s" for s
    using that by (auto simp: chan_init_def chan_start_def chan_inv_def pages_def reaches_refl)
  show "chan_inv f url t" if "chan_inv f url s" "chan_step f s t" for s t
    using that by (rule chan_inv_step)
qed

lemma chan_step_decreases:
  assumes "finite (pages f url)" "chan_inv f url s" "chan_step f s t"
  shows "((card (pages f url - set (chan_fetched t)), size (chan_workers t)),
    (card (pages f url - set (chan_fetched s)), size (chan_workers s))) \<in> less_than <*lex*> less_than"
  using assms(3)
proof cases
  case (chan_receive urls rest n fetched workers)
  have e: "set fetched = set (chan_fetched s) \<union> set urls" "fetched = chan_fetched s \<longrightarrow> workers = rest" "distinct fetched"
    using coordinator_loop_effect [OF chan_receive(4), of url] assms(2) chan_receive(3) by (auto simp: chan_inv_def)
  have sub: "set urls \<subseteq> pages f url" using assms(2) chan_receive(3) by (auto simp: chan_inv_def)
  show ?thesis
  proof (cases "set urls \<subseteq> set (chan_fetched s)")
    case True
    have "coordinator_loop f us (k, chan_fetched s, w) = (k, chan_fetched s, w)" if "set us \<subseteq> set (chan_fetched s)" for us k w
      using that by (induction us) auto
    with True chan_receive(4) have "fetched = chan_fetched s" "workers = rest" by auto
    then show ?thesis using chan_receive(1,3) by simp
  next
    case False
    then have "pages f url - set fetched \<subset> pages f url - set (chan_fetched s)" using e(1) sub by auto
    then have "card (pages f url - set fetched) < card (pages f url - set (chan_fetched s))"
      using assms(1) by (intro psubset_card_mono) auto
    then show ?thesis using chan_receive(1) by simp
  qed
qed

text \<open>Runs from reachable states are finite when a measure decreases.\<close>

lemma wf_runs:
  assumes "\<And>s t. reachable init step s \<Longrightarrow> step s t \<Longrightarrow> (m t, m s) \<in> less_than <*lex*> less_than"
  shows "wf {(t, s). reachable init step s \<and> step s t}"
  by (rule wf_subset [OF wf_inv_image [OF wf_lex_prod [OF wf_less_than wf_less_than], of m]])
    (use assms in \<open>auto simp: inv_image_def\<close>)

section \<open>Properties of the crawlers\<close>

text \<open>
  Over a finite web the serial crawler returns, after a recursion no deeper than the number of
  pages, having fetched every page reachable from the start exactly once and no other.
\<close>
theorem Serial_fetches_reachable:
  assumes "finite (pages f url)"
  shows "\<exists>fetched. Serial (Suc (card (pages f url))) f url [] = Some fetched \<and>
    distinct fetched \<and> set fetched = pages f url"
proof -
  have "url \<in> pages f url" by (simp add: pages_def reaches_refl)
  then obtain fetched where s: "Serial (Suc (card (pages f url))) f url [] = Some fetched"
    using Serial_returns(1) [OF assms finite_pages_closed, of url "[]" "Suc (card (pages f url))"] by auto
  then have c: "crawled f {url} [] fetched" by (rule Serial_crawled)
  then have "pages f url \<subseteq> set fetched" by (intro pages_closed) (auto simp: crawled_def)
  then show ?thesis using s c by (auto simp: crawled_def pages_def)
qed

text \<open>
  The crawler with a mutex, under every interleaving of its goroutines, terminates over a finite
  web, and when no goroutine is left it has fetched every reachable page exactly once.
\<close>
theorem mutex_crawler_correct:
  assumes "finite (pages f url)"
  shows "wf {(t, s). reachable (mutex_init url) (mutex_step f) s \<and> mutex_step f s t} \<and>
    (\<forall>pending fetched. reachable (mutex_init url) (mutex_step f) (pending, fetched) \<and>
       (\<nexists>t. mutex_step f (pending, fetched) t) \<longrightarrow> pending = {#} \<and> distinct fetched \<and> set fetched = pages f url)"
proof (intro conjI allI impI)
  show "wf {(t, s). reachable (mutex_init url) (mutex_step f) s \<and> mutex_step f s t}"
    by (rule wf_runs [of _ _ "mutex_measure f url"]) (use assms mx.reachable_inv mutex_step_decreases in blast)
next
  fix pending fetched
  assume a: "reachable (mutex_init url) (mutex_step f) (pending, fetched) \<and> (\<nexists>t. mutex_step f (pending, fetched) t)"
  have inv: "mutex_inv f url (pending, fetched)" using a by (intro mx.reachable_inv) simp
  have "pending = {#}"
  proof (rule ccontr)
    assume "pending \<noteq> {#}"
    then obtain u p where "pending = add_mset u p" by (meson multiset_cases)
    moreover have "\<exists>t. mutex_step f (add_mset u p, fetched) t"
      using mutex_step.mutex_seen [of u fetched fetched f p] mutex_step.mutex_new [of u fetched "fetched @ [u]" f p]
      by (cases "u \<in> set fetched") (auto simp: testAndSet_def)
    ultimately show False using a by simp
  qed
  moreover from this inv have "pages f url \<subseteq> set fetched" by (intro pages_closed) (auto simp: mutex_inv_def)
  ultimately show "pending = {#}" "distinct fetched" "set fetched = pages f url" using inv by (auto simp: mutex_inv_def)
qed

text \<open>
  C38: the crawler with channels, whatever the order in which the workers' answers arrive, terminates
  over a finite web; the coordinator never waits for an answer that will not come, and when it stops
  every reachable page has been fetched exactly once.
\<close>
theorem channel_crawler_correct:
  assumes "finite (pages f url)"
  shows "wf {(t, s). reachable (chan_init url) (chan_step f) s \<and> chan_step f s t} \<and>
    (\<forall>s. reachable (chan_init url) (chan_step f) s \<and> (\<nexists>t. chan_step f s t) \<longrightarrow>
       chan_done s \<and> distinct (chan_fetched s) \<and> set (chan_fetched s) = pages f url)"
proof (intro conjI allI impI)
  show "wf {(t, s). reachable (chan_init url) (chan_step f) s \<and> chan_step f s t}"
    by (rule wf_runs [of _ _ "\<lambda>s. (card (pages f url - set (chan_fetched s)), size (chan_workers s))"])
      (use assms ch.reachable_inv chan_step_decreases in blast)
next
  fix s assume a: "reachable (chan_init url) (chan_step f) s \<and> (\<nexists>t. chan_step f s t)"
  have inv: "chan_inv f url s" using a by (intro ch.reachable_inv) simp
  have "chan_workers s = {#}"
  proof (rule ccontr)
    assume "chan_workers s \<noteq> {#}"
    then obtain us w where w: "chan_workers s = add_mset us w" by (meson multiset_cases)
    obtain n fd ws where "coordinator_loop f us (chan_n s, chan_fetched s, w) = (n, fd, ws)"
      by (cases "coordinator_loop f us (chan_n s, chan_fetched s, w)")
    moreover have "\<not> chan_done s" using inv w by (auto simp: chan_inv_def)
    ultimately show False using a chan_receive w by blast
  qed
  moreover from this inv have "pages f url \<subseteq> set (chan_fetched s)" by (intro pages_closed) (auto simp: chan_inv_def)
  ultimately show "chan_done s" "distinct (chan_fetched s)" "set (chan_fetched s) = pages f url"
    using inv by (auto simp: chan_inv_def)
qed

section \<open>The scheduler of deadlock.go\<close>

text \<open>
  \<open>Schedule\<close> with two unbuffered channels. The main goroutine first sends all the tasks and then
  receives the completions; a worker that has run a task blocks until its completion is received.
\<close>

record sched =
  s_left :: "string list"
  s_idle :: nat
  s_running :: nat
  s_blocked :: nat
  s_sent :: nat
  s_recv :: nat

definition sched_init :: "string list \<Rightarrow> sched \<Rightarrow> bool" where
  "sched_init servers s \<longleftrightarrow>
     s = \<lparr>s_left = servers, s_idle = 0, s_running = 0, s_blocked = 0, s_sent = 0, s_recv = 0\<rparr>"

inductive sched_step :: "nat \<Rightarrow> sched \<Rightarrow> sched \<Rightarrow> bool" for numTask :: nat where
  start_worker: "s_left s = srv # rest \<Longrightarrow> sched_step numTask s (s\<lparr>s_left := rest, s_idle := s_idle s + 1\<rparr>)"
| send_task: "s_sent s < numTask \<Longrightarrow> s_idle s > 0 \<Longrightarrow>
    sched_step numTask s (s\<lparr>s_idle := s_idle s - 1, s_running := s_running s + 1, s_sent := s_sent s + 1\<rparr>)"
| call_returns: "s_running s > 0 \<Longrightarrow>
    sched_step numTask s (s\<lparr>s_running := s_running s - 1, s_blocked := s_blocked s + 1\<rparr>)"
| receive_done: "s_sent s = numTask \<Longrightarrow> s_recv s < numTask \<Longrightarrow> s_blocked s > 0 \<Longrightarrow>
    sched_step numTask s (s\<lparr>s_blocked := s_blocked s - 1, s_recv := s_recv s + 1\<rparr>)"

definition sched_done :: "nat \<Rightarrow> sched \<Rightarrow> bool" where
  "sched_done numTask s \<longleftrightarrow> s_sent s = numTask \<and> s_recv s = numTask"

definition sched_inv :: "nat \<Rightarrow> nat \<Rightarrow> sched \<Rightarrow> bool" where
  "sched_inv numTask k s \<longleftrightarrow> s_sent s = s_recv s + s_running s + s_blocked s \<and> s_sent s \<le> numTask \<and>
     s_sent s + s_idle s + length (s_left s) = k \<and> (s_recv s > 0 \<longrightarrow> s_sent s = numTask)"

interpretation sd: invariant_machine "sched_init servers" "sched_step numTask" "sched_inv numTask (length servers)" for servers numTask
proof
  show "sched_inv numTask (length servers) s" if "sched_init servers s" for s
    using that by (simp add: sched_init_def sched_inv_def)
  show "sched_inv numTask (length servers) t" if "sched_inv numTask (length servers) s" "sched_step numTask s t" for s t
    using that(2,1) by cases (auto simp: sched_inv_def)
qed

definition sched_measure :: "nat \<Rightarrow> sched \<Rightarrow> nat \<times> nat" where
  "sched_measure numTask s = (0, length (s_left s) + 3 * (numTask - s_sent s) + 2 * s_running s + s_blocked s)"

lemma sched_step_decreases:
  "sched_step numTask s t \<Longrightarrow> (sched_measure numTask t, sched_measure numTask s) \<in> less_than <*lex*> less_than"
  by (induction rule: sched_step.induct) (auto simp: sched_measure_def)

text \<open>
  The scheduler deadlocks exactly when there are more tasks than servers. With enough servers
  every run ends, and it ends with all tasks sent and completed; with too few no run completes.
\<close>
theorem Schedule_completes_iff:
  "(numTask \<le> length servers \<longrightarrow>
      wf {(t, s). reachable (sched_init servers) (sched_step numTask) s \<and> sched_step numTask s t} \<and>
      (\<forall>s. reachable (sched_init servers) (sched_step numTask) s \<and> (\<nexists>t. sched_step numTask s t) \<longrightarrow> sched_done numTask s)) \<and>
   (length servers < numTask \<longrightarrow>
      (\<forall>s. reachable (sched_init servers) (sched_step numTask) s \<longrightarrow> \<not> sched_done numTask s))"
proof (intro conjI impI allI)
  show "wf {(t, s). reachable (sched_init servers) (sched_step numTask) s \<and> sched_step numTask s t}"
    by (rule wf_runs [of _ _ "sched_measure numTask"]) (rule sched_step_decreases)
next
  fix s assume enough: "numTask \<le> length servers"
    and a: "reachable (sched_init servers) (sched_step numTask) s \<and> (\<nexists>t. sched_step numTask s t)"
  have inv: "sched_inv numTask (length servers) s" using a by (intro sd.reachable_inv) simp
  have left: "s_left s = []" using a start_worker [of s _ _ numTask] by (cases "s_left s") blast+
  have run: "s_running s = 0" using a call_returns by auto
  have idle: "\<not> (s_sent s < numTask \<and> s_idle s > 0)" using a send_task by auto
  have blk: "\<not> (s_sent s = numTask \<and> s_recv s < numTask \<and> s_blocked s > 0)" using a receive_done by auto
  show "sched_done numTask s" using inv left run idle blk enough by (auto simp: sched_inv_def sched_done_def)
next
  fix s assume few: "length servers < numTask" and r: "reachable (sched_init servers) (sched_step numTask) s"
  have "sched_inv numTask (length servers) s" using r by (rule sd.reachable_inv)
  then show "\<not> sched_done numTask s" using few by (auto simp: sched_inv_def sched_done_def)
qed

section \<open>Witnesses\<close>

text \<open>The program of \<open>deadlock.go\<close>: one server, two tasks; and the canned web of \<open>crawler.go\<close>.\<close>

lemma Schedule_completes_iff_witness:
  "\<not> sched_done 2 \<lparr>s_left = [''S1''], s_idle = 0, s_running = 0, s_blocked = 0, s_sent = 0, s_recv = 0\<rparr>"
  using Schedule_completes_iff [of 2 "[''S1'']"]
    reachable_start [of "sched_init [''S1'']" "\<lparr>s_left = [''S1''], s_idle = 0, s_running = 0, s_blocked = 0, s_sent = 0, s_recv = 0\<rparr>" "sched_step 2"]
  by (simp add: sched_init_def)

lemma golang_pages_finite: "finite (pages (fakeFetch fetcher_map) ''http://golang.org/'')"
proof -
  let ?U = "set (''http://golang.org/'' # map fst fetcher_map @ concat (map snd fetcher_map))"
  have "links (fakeFetch fetcher_map) u = [] \<or> (u, links (fakeFetch fetcher_map) u) \<in> set fetcher_map" for u
    by (auto simp: links_def fakeFetch_def dest: map_of_SomeD split: option.splits)
  then have "\<forall>u \<in> ?U. set (links (fakeFetch fetcher_map) u) \<subseteq> ?U" by force
  then have "pages (fakeFetch fetcher_map) ''http://golang.org/'' \<subseteq> ?U" by (intro pages_closed) auto
  then show ?thesis by (rule finite_subset) simp
qed

lemma Serial_fetches_reachable_witness:
  "\<exists>fetched n. Serial n (fakeFetch fetcher_map) ''http://golang.org/'' [] = Some fetched \<and>
     set fetched = pages (fakeFetch fetcher_map) ''http://golang.org/''"
  using Serial_fetches_reachable [OF golang_pages_finite] by blast

lemma mutex_crawler_correct_witness:
  "wf {(t, s). reachable (mutex_init ''http://golang.org/'') (mutex_step (fakeFetch fetcher_map)) s \<and> mutex_step (fakeFetch fetcher_map) s t}"
  using mutex_crawler_correct [OF golang_pages_finite] by blast

lemma channel_crawler_correct_witness:
  "wf {(t, s). reachable (chan_init ''http://golang.org/'') (chan_step (fakeFetch fetcher_map)) s \<and> chan_step (fakeFetch fetcher_map) s t}"
  using channel_crawler_correct [OF golang_pages_finite] by blast

end
