(* ===== verification/Spec2Isabelle.thy ===== *)
theory Spec2Isabelle
  imports MrApps MrRun GroupOps ShardJson ShardChurn TestSetup Skeletons DaemonStart DaemonCtl Commands RaftProxy Crawler
begin

text \<open>
  Verification of the distributed-systems labs under \<open>src/\<close>: a MapReduce system, a versioned
  key/value server with its clerk and a lock built on it, the simulated network and the test harness
  the labs run on, the shard configurations of the last lab, the tests' harnesses, and the lecture programs.
  The Raft, replicated-state-machine and sharded-server packages of the repository are skeletons whose
  handlers are still empty; they are modelled as they are, with what their testers make of them.

  \<^bold>\<open>Parts and how they interact.\<close> A server of the labs is a Go object whose methods are RPC handlers.
  \<open>labrpc\<close> delivers calls to handlers; it may drop a request, drop or delay a reply, or fail a call, but
  never duplicates one;
  \<open>tester1\<close> wires end points and servers into groups, partitions and restarts them, and talks to
  server processes over \<open>tester1/demux\<close>; it also annotates the failures it causes, for a visualization
  of the test. \<open>kvsrv1\<close> is a store with a conditional Put; its clerk turns
  lost replies into retries, and \<open>kvsrv1/lock\<close> builds a lock from clerk calls. \<open>kvtest1\<close> and \<open>models1\<close>
  check histories of such a store. \<open>mr\<close> is a coordinator with leases on tasks and workers that run
  the plug-ins of \<open>mrapps\<close>, compared with \<open>main/mrsequential.go\<close>. \<open>kvraft1/rsm\<close> tests a replicated
  counter on groups of server processes. \<open>shardkv1/shardcfg\<close> computes
  assignments of shards to groups. The \<open>test.go\<close> files of the labs set up groups and clerks, crash, partition and
  restart servers, and join and leave groups.

  \<^bold>\<open>Theories.\<close>
  \<^item> \<open>Prelude\<close>: results of code that may panic or call \<open>log.Fatalf\<close> (\<open>fault + 'a\<close>), slices, Go maps as
    association lists, \<open>strconv.Itoa\<close>, \<open>hash/fnv\<close>, and the locales \<open>counted_machine\<close> and
    \<open>invariant_machine\<close> every step relation below interprets.
  \<^item> \<open>KvServer\<close> (\<open>kvsrv1/server.go\<close>, \<open>kvsrv1/rpc\<close>): the record \<open>kv_server\<close>, \<open>kv_Get\<close>, \<open>kv_Put\<close>; the locale
    \<open>versioned_store\<close> is the contract of the conditional Put, interpreted on the server.
  \<^item> \<open>Clerk\<close> (\<open>kvsrv1/client.go\<close>): the retry loops \<open>clerk_Get\<close>, \<open>clerk_Put\<close> over a script of what the network
    does to each attempt; what each returned error means.
  \<^item> \<open>LockService\<close> (\<open>kvsrv1/lock/lock.go\<close>): \<open>lock_step\<close>, all clients' program counters and the server;
    mutual exclusion and what \<open>Release\<close> leaves.
  \<^item> \<open>KvModel\<close> (\<open>models1/kv.go\<close>): the sequential specification given to the linearizability checker; the
    server's histories are accepted by it.
  \<^item> \<open>KvTest\<close> (\<open>kvtest1\<close>): the operation log, the workloads and their checks; \<open>append_step\<close> is the append
    workload over the clerk and the server.
  \<^item> \<open>KvPuts\<close> (\<open>kvtest1/kvtest.go\<close>): \<open>puts_step\<close>, the clients that race to put to shared keys, and \<open>SpreadPutsSize\<close>; the
    checks at the end accept every run over any network.
  \<^item> \<open>Coordinator\<close> (\<open>mr/coordinator.go\<close>, \<open>mr/rpc.go\<close>): task states, attempts and leases; assignment,
    reports, timeouts, completion.
  \<^item> \<open>Json\<close>, \<open>Worker\<close>, \<open>MrApps\<close> (\<open>mr/worker.go\<close>, \<open>main/mrsequential.go\<close>, \<open>mrapps\<close>): the codec of intermediate
    files, map and reduce tasks on a file system, the plug-ins; the distributed job computes what the
    sequential program computes.
  \<^item> \<open>MrUtil\<close> (\<open>mr/util.go\<close>): file names, lists of files, merging and comparing outputs; the comparison of a
    test succeeds for every run the coordinator can produce. \<open>MrRun\<close> (\<open>mr/util.go\<close>, \<open>main/mrcoordinator.go\<close>, \<open>main/mrworker.go\<close>): \<open>run_step\<close>, the
    processes of a run, with crashes in plug-ins, restarts and the coordinator's exit; the tests pass on every run, no process
    exits early, and a run can always be finished.
  \<^item> \<open>Shardcfg\<close> (\<open>shardkv1/shardcfg\<close>): \<open>Join\<close>, \<open>Leave\<close>, \<open>Rebalance\<close>, \<open>CheckConfig\<close>. \<open>ShardJson\<close>: their text form, with the
    locale \<open>json_codec\<close> of encoders and decoders; text is read back as the configuration it was written from.
  \<^item> \<open>ShardTest\<close> (\<open>shardkv1/test.go\<close>, \<open>shardctrler.go\<close>): set-up, joining and leaving of groups through any controller that
    reports what it was told, and the check that data is sharded. \<open>ShardChurn\<close>: a goroutine of \<open>partitionCtrler\<close> or
    \<open>concurCtrler\<close> that goes on joining and leaving, its being cut off by a crash, and the recovery by a second controller.
  \<^item> \<open>LabRpc\<close> (\<open>labrpc\<close>): services, servers, the network record and \<open>net_step\<close>, the interleaving of
    \<open>processReq\<close> goroutines with the tester's changes.
  \<^item> \<open>Tester\<close> (\<open>tester1/group.go\<close>, \<open>srv.go\<close>, \<open>clnts.go\<close>, \<open>persister.go\<close>): persisters, server groups, clients,
    partitions, shutdown and restart on the network record of \<open>LabRpc\<close>.
  \<^item> \<open>Daemon\<close> (\<open>tester1/config.go\<close>, \<open>daemonsrv.go\<close>, \<open>daemonclnt.go\<close>, \<open>testsrv.go\<close>): command lines of server
    processes, the transfer of persisted state, set-up and statistics of a test. \<open>DaemonStart\<close>: the handshake
    of a starting process with the tester over one unbuffered channel (\<open>startup_step\<close>); it cannot hang and ends with
    the services registered, unless a call fails.
  \<^item> \<open>RpcPath\<close> (\<open>labrpc\<close>, \<open>sockrpc\<close>, \<open>testsrv.go\<close>, \<open>daemonsrv.go\<close>, \<open>daemonclnt.go\<close>): a call between two server processes through all its hops, for any
    codec that decodes what it encodes; it refines a local call that may fail. The locale \<open>served_method\<close> is the interface of a method that is called over a
    socket, interpreted on every such method of the tester and the daemons.
  \<^item> \<open>DaemonCtl\<close> (\<open>daemonsrv.go\<close>, \<open>daemonclnt.go\<close>, \<open>annotator.go\<close>, \<open>sockrpc\<close>): connections, the control calls of the tester (state, sizes) and the annotations
    of a daemon, over the same calls; what a shutdown saves and what it stops.
  \<^item> \<open>Commands\<close> (\<open>main\<close>, \<open>daemonclnt.go\<close>): the mains with \<open>flag.Parse\<close> and \<open>strconv\<close>, starting and ending of daemons, the commands of
    older labs over packages that are parameters; a started daemon has the flags and the configuration it was given.
  \<^item> \<open>GroupOps\<close> (\<open>tester1/group.go\<close>): all operations of a group in any order, with the processes' own saves; no sequence
    panics, and the group refines one crash-safe cell per server.
  \<^item> \<open>TestSetup\<close> (the \<open>MakeTest\<close> functions of all labs, \<open>tester1/config.go\<close>, \<open>kvtest1\<close>): set-ups, settings, the life of a
    clerk, the counting of operations, \<open>PutAtLeastOnceJson\<close>.
  \<^item> \<open>Annotate\<close> (\<open>tester1/annotation.go\<close>, \<open>annotator.go\<close>): the annotations of a test; the failure annotations
    refine the history of crashes and partitions.
  \<^item> \<open>Labgob\<close> (\<open>labgob/labgob.go\<close>): the checks of types and of decoding targets.
  \<^item> \<open>Rsm\<close> (\<open>kvraft1/rsm\<close>): the replicated counter and its snapshots, the tester's search for a leader, and
    its crashes and restarts; the locale \<open>state_machine\<close> is what is asked of a replicated server.
  \<^item> \<open>KvRaftTest\<close> (\<open>kvraft1/test.go\<close>, \<open>raft1/test.go\<close>, \<open>kvtest1\<close>): crashes of all servers, the repartitioning goroutine, the
    report of the linearizability check, crashes and restarts of a Raft test; network and annotations agree.
  \<^item> \<open>Skeletons\<close> (\<open>raft1/raft.go\<close>, \<open>raft1/proxy.go\<close>, \<open>kvraft1\<close>, \<open>shardkv1\<close>): the unfinished packages and their rejection by
    the tests.
  \<^item> \<open>Demux\<close> (\<open>tester1/demux\<close>, \<open>tester1/sockrpc\<close>): framing, the call map, and \<open>dmx_step\<close>, both ends of one
    connection with their goroutines.
  \<^item> \<open>RaftTester\<close> (\<open>raft1/test.go\<close>, \<open>raft1/server.go\<close>, \<open>raftapi\<close>): the checks on applied commands, leaders,
    terms and snapshots that the Raft tests rest on. \<open>RaftProxy\<close> (\<open>raft1/proxy.go\<close>): the servers' calls to the tester over their sockets; the checks are
    sound for servers that run as processes of their own, as long as the reports of errors are sent.
  \<^item> \<open>Crawler\<close> (\<open>lecutures\<close>): the three web crawlers and the scheduler that may deadlock.

  This theory connects the network with the clerk: one call of the Put handler through \<open>processReq\<close> is
  one of the deliveries the clerk's model knows.

  \<^bold>\<open>Modelling conventions.\<close> Machine integers are words where they can wrap around: versions are 64-bit
  words, call tags 32-bit words, the RPC counters 32-bit and 64-bit words; Go's \<open>int\<close> is \<open>int\<close> or \<open>nat\<close>
  where it only counts or indexes. Random numbers, file names drawn by the system, the order of map
  iterations and the moments at which timeouts fire are arguments or nondeterministic steps, so that
  the theorems hold for all of them. Handlers that run under a mutex are single steps.
  \<open>encoding/gob\<close>, plug-in functions and fetchers are parameters; \<open>encoding/json\<close> is modelled for the
  types the code stores.

  \<^bold>\<open>Bounds.\<close> Theorems about versions hold for fewer than \<open>2^64\<close> (or \<open>2^63\<close>, where versions are compared
  as signed numbers) steps; those about call tags for fewer than \<open>2^32 - 1\<close> calls; both bounds are the
  points where the code's counters wrap around. Groups can join with success as long as there are at
  most twelve, the number of shards; what happens to a further one is a theorem too. The MapReduce comparison is for at most ten reduce tasks,
  as many as the pattern \<open>mr-out-[0-9]\<close> of the harness matches. Loops are total functions with termination proofs,
  except the clerk's, which retry for ever on a network that never answers: they run on a script
  of deliveries and return \<open>None\<close> when it ends first; that they do return is a theorem. The recursive
  crawler \<open>Serial\<close> takes a bound on its depth, and one more than the number of reachable pages is proved
  to be enough; the decoder of a JSON sequence has the length of the text as fuel, and the round trip shows that
  it is enough. Exit codes and outputs of processes are those of the code, without the texts the library prints.

  \<^bold>\<open>Not modelled.\<close> The counting of regular expressions in the outputs of the
  MapReduce tests, the porcupine checker (not in the repository), the timing of sleeps, and several goroutines of
  \<open>concurCtrler\<close> at once, which only make sense with a controller that can be superseded; the
  repository's controller is empty. The clerk's model assumes that its end point
  stays enabled while it calls, as it does in the tests of \<open>kvsrv1\<close>: only then has the handler of a
  failed call either run already or never.
\<close>

section \<open>The key/value server on the simulated network\<close>

text \<open>
  The handlers of \<open>KVServer\<close> as labrpc calls them: arguments are decoded, the reply is encoded. The
  gob codec is given by \<open>decP\<close>, \<open>decG\<close> for the arguments and \<open>encP\<close>, \<open>encG\<close> for the replies.
\<close>

definition put_handler :: "(bytes \<Rightarrow> put_args result) \<Rightarrow> (put_reply \<Rightarrow> bytes) \<Rightarrow> kv_server handler" where
  "put_handler decP encP b kv =
     res_bind (decP b) (\<lambda>a. let (kv', r) = kv_Put kv a zero_put_reply in Inr (kv', encP r))"

definition get_handler :: "(bytes \<Rightarrow> get_args result) \<Rightarrow> (get_reply \<Rightarrow> bytes) \<Rightarrow> kv_server handler" where
  "get_handler decG encG b kv = res_bind (decG b) (\<lambda>a. Inr (kv, encG (kv_Get kv a zero_get_reply)))"

definition kv_service ::
  "(bytes \<Rightarrow> get_args result) \<Rightarrow> (get_reply \<Rightarrow> bytes) \<Rightarrow> (bytes \<Rightarrow> put_args result) \<Rightarrow> (put_reply \<Rightarrow> bytes) \<Rightarrow> kv_server service" where
  "kv_service decG encG decP encP =
     MakeService ''KVServer''
       [\<lparr>m_name = ''Get'', m_exported = True, m_NumIn = 3, m_In2_ptr = True, m_NumOut = 0, m_func = get_handler decG encG\<rparr>,
        \<lparr>m_name = ''Put'', m_exported = True, m_NumIn = 3, m_In2_ptr = True, m_NumOut = 0, m_func = put_handler decP encP\<rparr>]"

lemma dispatch_put:
  assumes "svcMeth req = ''KVServer.Put''" "decP (req_msg.args req) = Inr a"
    and "services rs = [(''KVServer'', kv_service decG encG decP encP)]" "dispatchf rs = None"
  shows "server_dispatch req rs =
    Inr (rs\<lparr>srv_count := srv_count rs + 1, rcvr := fst (kv_put (rcvr rs) a)\<rparr>,
         \<lparr>reply_msg.ok = True, reply_msg.reply = encP \<lparr>pr_Err = snd (kv_put (rcvr rs) a)\<rparr>\<rparr>)"
proof -
  obtain kv' r where "kv_Put (rcvr rs) a zero_put_reply = (kv', r)" by fastforce
  moreover obtain e where "r = \<lparr>pr_Err = e\<rparr>" by (cases r) auto
  ultimately have p: "kv_Put (rcvr rs) a zero_put_reply = (kv', \<lparr>pr_Err = e\<rparr>)" by simp
  then have "kv_put (rcvr rs) a = (kv', e)" by (simp add: kv_put_def)
  moreover have "put_handler decP encP (req_msg.args req) (rcvr rs) = Inr (kv', encP \<lparr>pr_Err = e\<rparr>)"
    using assms(2) p by (simp add: put_handler_def)
  ultimately show ?thesis using assms(1,3,4)
    by (simp add: server_dispatch_def service_dispatch_def kv_service_def MakeService_def suitable_def Let_def)
qed

text \<open>
  C13: the network refines what the clerk is proved against: a Put call through \<open>processReq\<close> on any
  network, with any random numbers, changes the server and answers the client exactly as one of the
  deliveries of the clerk's model (request lost, reply lost, delivered) does, and on a reliable network
  with the server connected it is delivered.
\<close>
theorem lab_call_refines_delivery:
  assumes "svcMeth req = ''KVServer.Put''" and "decP (req_msg.args req) = Inr a"
    and "services rs = [(''KVServer'', kv_service decG encG decP encP)]" and "dispatchf rs = None"
  shows "\<exists>d rs' e. one_call r r1 r2 req rn rn' rs =
      Inr (rs', if d = Delivered then \<lparr>reply_msg.ok = True, reply_msg.reply = encP \<lparr>pr_Err = e\<rparr>\<rparr> else failed) \<and>
    call_Put d (rcvr rs) a = (rcvr rs', if d = LostRequest then None else Some e, d = Delivered) \<and>
    (reliable rn \<and> get_enabled rn (endname req) \<and> get_enabled rn' (endname req) \<and>
     (\<exists>s p. get_connection rn (endname req) = Some s \<and> get_server rn s = Some p \<and> get_server rn' s = Some p)
       \<longrightarrow> d = Delivered)"
proof (cases "processReq_begin r req rn")
  case None
  then have "one_call r r1 r2 req rn rn' rs = Inr (rs, failed)" by (simp add: one_call_def)
  moreover have "\<not> (reliable rn \<and> get_enabled rn (endname req) \<and>
      (\<exists>s p. get_connection rn (endname req) = Some s \<and> get_server rn s = Some p))"
    using None by (auto simp: processReq_begin_def readEndnameInfo_def split: option.splits)
  ultimately show ?thesis by (intro exI [of _ LostRequest] exI [of _ rs] exI [of _ OK]) (auto simp: call_Put_def)
next
  case (Some i)
  let ?rs = "rs\<lparr>srv_count := srv_count rs + 1, rcvr := fst (kv_put (rcvr rs) a)\<rparr>"
  let ?e = "snd (kv_put (rcvr rs) a)" let ?rep = "\<lparr>reply_msg.ok = True, reply_msg.reply = encP \<lparr>pr_Err = ?e\<rparr>\<rparr>"
  let ?sent = "processReq_end r1 r2 True ?rep req i rn'"
  have call: "one_call r r1 r2 req rn rn' rs = Inr (?rs, if ?sent = SendFailure then failed else ?rep)"
    using Some dispatch_put [OF assms] processReq_end_live [of r1 r2 True ?rep req i rn']
    by (auto simp: one_call_def split: sending.splits)
  show ?thesis
  proof (cases "?sent = SendFailure")
    case True
    then have "\<not> (reliable rn \<and> get_enabled rn (endname req) \<and> get_enabled rn' (endname req) \<and>
      (\<exists>s p. get_connection rn (endname req) = Some s \<and> get_server rn s = Some p \<and> get_server rn' s = Some p))"
      using Some by (auto simp: processReq_begin_def readEndnameInfo_def processReq_end_def isServerDead_def Let_def split: if_splits)
    then show ?thesis using call True
      by (intro exI [of _ LostReply] exI [of _ ?rs] exI [of _ ?e]) (auto simp: call_Put_def Let_def case_prod_beta)
  next
    case False
    then show ?thesis using call
      by (intro exI [of _ Delivered] exI [of _ ?rs] exI [of _ ?e]) (auto simp: call_Put_def Let_def case_prod_beta)
  qed
qed

text \<open>A server on one machine, a client end, and a Put that creates a key.\<close>

definition ex_put :: put_args where "ex_put = \<lparr>pa_Key = ''x'', pa_Value = ''1'', pa_Version = 0\<rparr>"

definition ex_kv_server :: "kv_server server" where
  "ex_kv_server = AddService (kv_service (\<lambda>b. Inr \<lparr>ga_Key = b\<rparr>) gr_Value (\<lambda>b. Inr ex_put) (\<lambda>r. err_string (pr_Err r)))
     (MakeServer MakeKVServer)"

definition ex_put_req :: req_msg where
  "ex_put_req = \<lparr>req_msg.endname = ''e'', req_msg.svcMeth = ''KVServer.Put'', req_msg.args = ''p''\<rparr>"

lemma lab_call_refines_delivery_witness:
  "\<exists>d rs' e. one_call 3 4 5 ex_put_req ex_net ex_net ex_kv_server =
      Inr (rs', if d = Delivered then \<lparr>reply_msg.ok = True, reply_msg.reply = err_string e\<rparr> else failed) \<and>
    call_Put d (rcvr ex_kv_server) ex_put = (rcvr rs', if d = LostRequest then None else Some e, d = Delivered)"
proof -
  let ?decP = "\<lambda>b. Inr ex_put" and ?decG = "\<lambda>b. Inr \<lparr>ga_Key = b\<rparr>" and ?encP = "\<lambda>r. err_string (pr_Err r)"
  have "svcMeth ex_put_req = ''KVServer.Put''" "?decP (req_msg.args ex_put_req) = Inr ex_put" "dispatchf ex_kv_server = None"
    "services ex_kv_server = [(''KVServer'', kv_service ?decG gr_Value ?decP ?encP)]"
    by (simp_all add: ex_put_req_def ex_kv_server_def AddService_def MakeServer_def kv_service_def MakeService_def)
  from lab_call_refines_delivery [OF this(1,2,4,3), of 3 4 5 ex_net ex_net] show ?thesis
    by (elim exE conjE) (intro exI conjI, simp_all only: put_reply.select_convs)
qed

end
